(* ===== verification/Prelude.thy ===== *)
theory Prelude
  imports Main "HOL-Library.Word"
begin

text \<open>
  The vocabulary shared by the component theories.

  Machine integers of the Rust sources are words of their width (\<open>u8\<close> to \<open>u64\<close>, signed \<open>i32\<close> values
  as \<open>int\<close> with the saturation or the wrap written out where it can happen); \<open>usize\<close> indices and
  lengths are \<open>nat\<close>.  A slice or a fixed array is a list.  \<open>Option\<close> is \<open>option\<close>, \<open>Result\<close> is a sum with the
  error on the left, and a function that may panic (an \<open>assert!\<close>, an index out of range, an underflow)
  returns \<open>panic + 'a\<close>.

  The lemmas are about bits of words, exclusive-or as the addition of GF(2), population counts, and
  lists updated by index.
\<close>

unbundle bit_operations_syntax

declare push_bit_Suc [simp del] drop_bit_Suc [simp del]

section \<open>Types\<close>

type_synonym u8 = "8 word"
type_synonym u16 = "16 word"
type_synonym u32 = "32 word"
type_synonym u64 = "64 word"
type_synonym bytes = "8 word list"
type_synonym bitvec = "bool list"

text \<open>The reasons a Rust function stops without returning.\<close>

datatype panic = Assertion | Overflow | Bounds

type_synonym 'a panics = "panic + 'a"

named_theorems xor_simps \<open>normalisation of exclusive-or on words\<close>
named_theorems bit_eval \<open>equations that evaluate bit vectors built from constructors\<close>

section \<open>Exclusive or\<close>

text \<open>XOR is associative and commutative, each element is its own inverse.\<close>

lemma xor_left_self [simp]: "a XOR (a XOR b) = b" for a b :: "'a::len word"
  by (rule bit_word_eqI) (auto simp: bit_xor_iff)

lemma xor_right_self [simp]: "(a XOR b) XOR b = a" for a b :: "'a::len word"
  by (rule bit_word_eqI) (auto simp: bit_xor_iff)

lemma xor_cancel_right [simp]: "b XOR a = c XOR a \<longleftrightarrow> b = c" for a b c :: "'a::len word"
proof
  assume "b XOR a = c XOR a"
  then have "(b XOR a) XOR a = (c XOR a) XOR a" by simp
  then show "b = c" by (simp only: xor_right_self)
qed simp

lemma xor_cancel_left [simp]: "a XOR b = a XOR c \<longleftrightarrow> b = c" for a b c :: "'a::len word"
  by (simp only: xor.commute [of a] xor_cancel_right)

lemma xor_eq_0_iff [simp]: "a XOR b = 0 \<longleftrightarrow> a = b" for a b :: "'a::len word"
  using xor_cancel_right [of a b b] by (simp del: xor_cancel_right)

lemma xor_eq_left_iff [simp]: "a XOR b = a \<longleftrightarrow> b = 0" for a b :: "'a::len word"
  using xor_cancel_left [of a b 0] by (simp del: xor_cancel_left)

lemma xor_move: "a XOR b = c \<longleftrightarrow> b = a XOR c" for a b c :: "'a::len word"
  by auto

lemma xor_cancel_both: "(a XOR g) XOR (b XOR g) = a XOR b" for a b g :: "'a::len word"
  by (rule bit_word_eqI) (auto simp: bit_xor_iff)

lemmas xor_ac [xor_simps] = xor.assoc xor.commute xor.left_commute

lemma and_xor_distrib: "(a XOR b) AND m = (a AND m) XOR (b AND m)" for a b m :: "'a::len word"
  by (rule bit_word_eqI) (auto simp: bit_xor_iff bit_and_iff)

lemma or_eq_xor_disjoint:
  "a AND b = 0 \<Longrightarrow> a OR b = a XOR b" for a b :: "'a::len word"
proof -
  assume "a AND b = 0"
  then have "\<And>i. \<not> (bit a i \<and> bit b i)"
    by (metis bit_and_iff bit_0_eq bot_apply bot_bool_def)
  then show ?thesis
    by (intro bit_word_eqI) (auto simp: bit_or_iff bit_xor_iff)
qed

section \<open>Words with no high bits\<close>

text \<open>\<open>below n w\<close>: the word fits in its \<open>n\<close> lowest bits.\<close>

definition below :: "nat \<Rightarrow> 'a::len word \<Rightarrow> bool" where
  "below n w \<longleftrightarrow> (\<forall>i \<ge> n. \<not> bit w i)"

lemma belowI: "(\<And>i. n \<le> i \<Longrightarrow> \<not> bit w i) \<Longrightarrow> below n w"
  by (simp add: below_def)

lemma belowD: "below n w \<Longrightarrow> n \<le> i \<Longrightarrow> \<not> bit w i"
  by (simp add: below_def)

lemma below_full: "LENGTH('a) \<le> n \<Longrightarrow> below n (w :: 'a::len word)"
  by (auto simp: below_def dest: bit_imp_le_length)

lemma below_mono: "below n w \<Longrightarrow> n \<le> m \<Longrightarrow> below m w"
  by (auto simp: below_def)

lemma below_xor [simp, intro]: "below n a \<Longrightarrow> below n b \<Longrightarrow> below n (a XOR b)"
  by (simp add: below_def bit_xor_iff)

lemma below_0 [simp, intro]: "below n 0"
  by (simp add: below_def)

lemma below_length [simp, intro]: "LENGTH('a) \<le> n \<Longrightarrow> below n (w :: 'a::len word)"
  by (auto simp: below_def dest: bit_imp_le_length)

lemma below_mask [simp, intro]: "below n (w AND mask n)"
  by (simp add: below_def bit_and_iff bit_mask_iff)

lemma below_and [intro]: "below n a \<Longrightarrow> below n (a AND b)"
  by (simp add: below_def bit_and_iff)

lemma below_drop_bit: "below n w \<Longrightarrow> n \<le> m + k \<Longrightarrow> below m (drop_bit k w)"
  by (auto simp: below_def bit_drop_bit_eq)

lemma and_mask_below [simp]: "below n w \<Longrightarrow> w AND mask n = w"
  by (rule bit_word_eqI) (auto simp: below_def bit_and_iff bit_mask_iff not_le)

lemma below_iff_unat: "below n w \<longleftrightarrow> unat w < 2 ^ n" for w :: "'a::len word"
proof (cases "n < LENGTH('a)")
  case True
  have "below n w \<longleftrightarrow> w AND mask n = w"
    by (metis and_mask_below below_mask)
  also have "\<dots> \<longleftrightarrow> take_bit n w = w" by (simp add: take_bit_eq_mask)
  also have "\<dots> \<longleftrightarrow> unat w < 2 ^ n"
    by (metis take_bit_nat_eq_self_iff unsigned_take_bit_eq word_unat_eq_iff)
  finally show ?thesis .
next
  case False
  then have "unat w < 2 ^ n"
    by (metis not_less order_less_le_trans power_increasing_iff unsigned_less one_less_numeral_iff semiring_norm(76))
  with False show ?thesis by simp
qed

lemma below_push_bit: "below n w \<Longrightarrow> below (n + k) (push_bit k w)"
  by (auto simp: below_def bit_push_bit_iff)

lemma bit_1_iff_word [simp]: "bit (1 :: 'a::len word) i \<longleftrightarrow> i = 0"
  by (cases i) (simp_all add: bit_1_iff)

text \<open>\<open>1 << k\<close> is written \<open>2 ^ k\<close> by the simplifier.\<close>

lemma bit_two_pow [simp]: "bit (2 ^ k :: 'a::len word) i \<longleftrightarrow> i = k \<and> i < LENGTH('a)"
  by (auto simp: bit_exp_iff possible_bit_def)

lemma two_pow_inj: "(2 :: 'a::len word) ^ i = 2 ^ j \<Longrightarrow> i < LENGTH('a) \<Longrightarrow> i = j"
  by (metis bit_two_pow)

lemma below_two_pow [simp]: "k < n \<Longrightarrow> below n (2 ^ k :: 'a::len word)"
  by (auto simp: below_def)

lemma below_0_iff: "below 0 w \<longleftrightarrow> w = 0"
  by (auto simp: below_def intro: bit_word_eqI)

text \<open>The lowest \<open>n + 1\<close> bits are the lowest \<open>n\<close> and the bit above them.\<close>

lemma and_mask_Suc:
  "w AND mask (Suc n) = (w AND mask n) XOR (if bit w n then 2 ^ n else 0)"
  for w :: "'a::len word"
  by (rule bit_word_eqI)
    (auto simp: bit_and_iff bit_mask_iff bit_xor_iff less_Suc_eq bit_imp_le_length)

section \<open>Intervals of numerals\<close>

lemma upt_from_0:
  "[0..<numeral v] = 0 # [Suc 0..<numeral v]"
  "[Suc 0..<numeral v] = (if Suc 0 < numeral v then Suc 0 # [2..<numeral v] else [])"
  by (simp_all add: upt_conv_Cons numeral_2_eq_2)

section \<open>Population count\<close>

text \<open>\<open>count_ones\<close> of the Rust integers.\<close>

definition count_ones :: "'a::len word \<Rightarrow> nat" where
  "count_ones w = length (filter (bit w) [0..<LENGTH('a)])"

lemma count_ones_card: "count_ones w = card {i. bit w i}" for w :: "'a::len word"
proof -
  have "count_ones w = card (set (filter (bit w) [0..<LENGTH('a)]))"
    unfolding count_ones_def by (rule distinct_card [symmetric]) simp
  also have "set (filter (bit w) [0..<LENGTH('a)]) = {i. bit w i}"
    by (auto dest: bit_imp_le_length)
  finally show ?thesis .
qed

lemma finite_bits [simp, intro]: "finite {i. bit (w :: 'a::len word) i}"
  by (rule finite_subset [of _ "{..<LENGTH('a)}"]) (auto dest: bit_imp_le_length)

lemma count_ones_0 [simp]: "count_ones 0 = 0"
  by (simp add: count_ones_card)

lemma count_ones_eq_0_iff [simp]: "count_ones w = 0 \<longleftrightarrow> w = 0" for w :: "'a::len word"
  by (auto simp: count_ones_card intro: bit_word_eqI)

lemma count_ones_xor_le: "count_ones (a XOR b) \<le> count_ones a + count_ones b"
  for a b :: "'a::len word"
proof -
  have "{i. bit (a XOR b) i} \<subseteq> {i. bit a i} \<union> {i. bit b i}"
    by (auto simp: bit_xor_iff)
  then have "card {i. bit (a XOR b) i} \<le> card ({i. bit a i} \<union> {i. bit b i})"
    by (intro card_mono) simp_all
  also have "\<dots> \<le> card {i. bit a i} + card {i. bit b i}" by (rule card_Un_le)
  finally show ?thesis by (simp add: count_ones_card)
qed

lemma count_ones_two_pow [simp]: "k < LENGTH('a) \<Longrightarrow> count_ones (2 ^ k :: 'a::len word) = 1"
proof -
  assume "k < LENGTH('a)"
  then have "{i. bit (2 ^ k :: 'a word) i} = {k}" by auto
  then show ?thesis by (simp add: count_ones_card)
qed

lemma count_ones_xor_disjoint:
  "(\<And>i. \<not> (bit a i \<and> bit b i)) \<Longrightarrow> count_ones (a XOR b) = count_ones a + count_ones b"
  for a b :: "'a::len word"
proof -
  assume dis: "\<And>i. \<not> (bit a i \<and> bit b i)"
  have "{i. bit (a XOR b) i} = {i. bit a i} \<union> {i. bit b i}"
    using dis by (auto simp: bit_xor_iff)
  then show ?thesis
    using dis by (simp add: count_ones_card card_Un_disjoint disjoint_iff)
qed

text \<open>The parity of a word is additive.\<close>

lemma odd_card_sym_diff:
  assumes "finite A" "finite B"
  shows "odd (card ((A - B) \<union> (B - A))) \<longleftrightarrow> odd (card A) \<noteq> odd (card B)"
proof -
  have "card ((A - B) \<union> (B - A)) = card (A - B) + card (B - A)"
    using assms by (intro card_Un_disjoint) auto
  moreover have "card A = card (A - B) + card (A \<inter> B)"
    using assms by (metis card_Diff_subset_Int card_mono finite_Int inf_le1 le_add_diff_inverse2)
  moreover have "card B = card (B - A) + card (A \<inter> B)"
    using assms by (metis card_Diff_subset_Int card_mono finite_Int inf.commute inf_le1 le_add_diff_inverse2)
  ultimately show ?thesis by presburger
qed

lemma odd_count_ones_xor:
  "odd (count_ones (a XOR b)) \<longleftrightarrow> odd (count_ones a) \<noteq> odd (count_ones b)"
  for a b :: "'a::len word"
proof -
  have "{i. bit (a XOR b) i} = ({i. bit a i} - {i. bit b i}) \<union> ({i. bit b i} - {i. bit a i})"
    by (auto simp: bit_xor_iff)
  then show ?thesis by (simp add: count_ones_card odd_card_sym_diff)
qed

section \<open>Words as bit vectors\<close>

text \<open>\<open>bits_of n w\<close> lists the \<open>n\<close> lowest bits, bit 0 first.\<close>

definition bits_of :: "nat \<Rightarrow> 'a::len word \<Rightarrow> bitvec" where
  "bits_of n w = map (bit w) [0..<n]"

definition ones :: "bitvec \<Rightarrow> nat" where
  "ones xs = length (filter (\<lambda>b. b) xs)"

lemma ones_simps [simp]:
  "ones [] = 0" "ones (True # xs) = Suc (ones xs)" "ones (False # xs) = ones xs"
  "ones (xs @ ys) = ones xs + ones ys"
  by (simp_all add: ones_def)

lemma ones_Cons: "ones (b # xs) = (if b then 1 else 0) + ones xs"
  by simp

lemma ones_eq_0_iff: "ones xs = 0 \<longleftrightarrow> (\<forall>b \<in> set xs. \<not> b)"
  by (induction xs) (auto simp: ones_Cons)

lemma length_bits_of [simp]: "length (bits_of n w) = n"
  by (simp add: bits_of_def)

lemma bits_of_nth [simp]: "i < n \<Longrightarrow> bits_of n w ! i = bit w i"
  by (simp add: bits_of_def)

lemma bits_of_0 [simp]: "bits_of n 0 = replicate n False"
  by (simp add: bits_of_def list_eq_iff_nth_eq)

lemma bits_of_mask [simp]: "bits_of n (w AND mask n) = bits_of n w"
  for w :: "'a::len word"
  by (rule nth_equalityI) (auto simp: bit_and_iff bit_mask_iff bit_imp_le_length)

lemma count_ones_bits_of:
  fixes w :: "'a::len word"
  assumes "below n w" "n \<le> LENGTH('a)"
  shows "count_ones w = ones (bits_of n w)"
proof -
  have "[0..<LENGTH('a)] = [0..<n] @ [n..<LENGTH('a)]"
    using assms(2) by (metis le_add_diff_inverse le0 upt_add_eq_append)
  moreover have "filter (bit w) [n..<LENGTH('a)] = []"
    using assms(1) by (auto simp: below_def filter_empty_conv)
  ultimately show ?thesis
    by (simp add: count_ones_def ones_def bits_of_def filter_map o_def)
qed

lemma bits_of_inj:
  fixes a b :: "'a::len word"
  assumes "below n a" "below n b" "bits_of n a = bits_of n b"
  shows "a = b"
proof (rule bit_word_eqI)
  fix i
  show "bit a i \<longleftrightarrow> bit b i"
    using assms bits_of_nth [of i n a] bits_of_nth [of i n b]
    by (cases "i < n") (auto simp: below_def)
qed

fun xor_bits :: "bitvec \<Rightarrow> bitvec \<Rightarrow> bitvec" where
  "xor_bits (a # as) (b # bs) = (a \<noteq> b) # xor_bits as bs"
| "xor_bits [] bs = []"
| "xor_bits (a # as) [] = []"

lemma length_xor_bits [simp]: "length (xor_bits as bs) = min (length as) (length bs)"
  by (induction as bs rule: xor_bits.induct) auto

lemma xor_bits_nth: "i < length as \<Longrightarrow> i < length bs \<Longrightarrow> xor_bits as bs ! i = (as ! i \<noteq> bs ! i)"
  by (induction as bs arbitrary: i rule: xor_bits.induct) (auto simp: nth_Cons split: nat.splits)

lemma bits_of_xor: "bits_of n (a XOR b) = xor_bits (bits_of n a) (bits_of n b)"
  by (rule nth_equalityI) (simp_all add: xor_bits_nth bit_xor_iff)

lemma xor_bits_commute: "xor_bits as bs = xor_bits bs as"
  by (rule nth_equalityI) (auto simp: xor_bits_nth)

lemma xor_bits_assoc: "xor_bits (xor_bits as bs) cs = xor_bits as (xor_bits bs cs)"
  by (rule nth_equalityI) (auto simp: xor_bits_nth)

lemma xor_bits_replicate [simp]: "length as = n \<Longrightarrow> xor_bits as (replicate n False) = as"
  by (rule nth_equalityI) (auto simp: xor_bits_nth)

lemma xor_bits_eq_zero: "length as = length bs \<Longrightarrow> xor_bits as bs = replicate (length as) False \<longleftrightarrow> as = bs"
  by (auto simp: list_eq_iff_nth_eq xor_bits_nth)

section \<open>Tables filled by index\<close>

text \<open>A table into which a loop writes every element of a list at its own index.\<close>

lemma length_foldl_update [simp]:
  "length (foldl (\<lambda>t p. t[f p := p]) t ps) = length t"
  by (induction ps arbitrary: t) simp_all

lemma foldl_update_nth:
  "inj_on f (set ps) \<Longrightarrow> \<forall>p \<in> set ps. f p < length t \<Longrightarrow> p \<in> set ps \<Longrightarrow>
     foldl (\<lambda>t p. t[f p := p]) t ps ! f p = p"
proof (induction ps rule: rev_induct)
  case (snoc q ps)
  show ?case
  proof (cases "p = q")
    case True
    then show ?thesis using snoc.prems by simp
  next
    case False
    then have "f p \<noteq> f q" and "p \<in> set ps"
      using snoc.prems by (auto simp: inj_on_def)
    then show ?thesis using snoc by (simp add: inj_on_def)
  qed
qed simp

lemma foldl_update_other:
  "\<forall>p \<in> set ps. f p \<noteq> i \<Longrightarrow> foldl (\<lambda>t p. t[f p := p]) t ps ! i = t ! i"
  by (induction ps arbitrary: t) simp_all

section \<open>Light words\<close>

text \<open>A word with at most three ones is the union of as many powers of two.\<close>

lemma light_word_cases:
  fixes w :: "'a::len word"
  assumes "count_ones w \<le> 3" "w \<noteq> 0"
  obtains (one) a where "bit w a" "w = 2 ^ a"
  | (two) a b where "a < b" "bit w b" "w = 2 ^ a OR 2 ^ b"
  | (three) a b c where "a < b" "b < c" "bit w c" "w = 2 ^ a OR 2 ^ b OR 2 ^ c"
proof -
  define xs where "xs = sorted_list_of_set {i. bit w i}"
  have srt: "sorted_wrt (<) xs" and st: "set xs = {i. bit w i}"
    and ln: "length xs = count_ones w"
    by (simp_all add: xs_def count_ones_card)
  have mem: "bit w i \<longleftrightarrow> i \<in> set xs" for i by (simp add: st)
  have lt: "i < LENGTH('a)" if "i \<in> set xs" for i
    using that by (simp add: st bit_imp_le_length)
  have "xs \<noteq> []" using assms(2) ln by auto
  then consider a where "xs = [a]" | a b where "xs = [a, b]" | a b c where "xs = [a, b, c]"
    using assms(1) ln by (cases xs; cases "tl xs"; cases "tl (tl xs)"; cases "tl (tl (tl xs))") auto
  then show thesis
  proof cases
    case 1
    then show ?thesis using mem lt by (intro one bit_word_eqI) auto
  next
    case 2
    then show ?thesis using mem lt srt by (intro two bit_word_eqI) (auto simp: bit_or_iff)
  next
    case 3
    then show ?thesis using mem lt srt by (intro three bit_word_eqI) (auto simp: bit_or_iff)
  qed
qed

lemma count_ones_or_le: "count_ones (a OR b) \<le> count_ones a + count_ones b"
  for a b :: "'a::len word"
proof -
  have "{i. bit (a OR b) i} = {i. bit a i} \<union> {i. bit b i}" by (auto simp: bit_or_iff)
  then show ?thesis by (simp add: count_ones_card card_Un_le)
qed

lemma below_or [simp, intro]: "below n a \<Longrightarrow> below n b \<Longrightarrow> below n (a OR b)"
  by (simp add: below_def bit_or_iff)

text \<open>Every set of bit positions is the bits of a word, so the words of a weight are counted by a
  binomial coefficient.\<close>

lemma word_with_bits:
  "finite B \<Longrightarrow> B \<subseteq> {..<LENGTH('a)} \<Longrightarrow> \<exists>w :: 'a::len word. {i. bit w i} = B"
proof (induction B rule: finite_induct)
  case empty
  show ?case by (rule exI [of _ 0]) simp
next
  case (insert x B)
  then obtain w :: "'a word" where "{i. bit w i} = B" by auto
  then have "{i. bit (w OR 2 ^ x) i} = insert x B"
    using insert.prems by (auto simp: bit_or_iff)
  then show ?case by blast
qed

lemma card_words_of_weight:
  assumes "n \<le> LENGTH('a)"
  shows "card {w :: 'a::len word. below n w \<and> count_ones w = k} = n choose k"
proof -
  let ?W = "{w :: 'a word. below n w \<and> count_ones w = k}"
  let ?S = "{B. B \<subseteq> {..<n} \<and> card B = k}"
  have "inj_on (\<lambda>w :: 'a word. {i. bit w i}) ?W"
    by (auto simp: inj_on_def intro!: bit_word_eqI)
  moreover have "(\<lambda>w. {i. bit w i}) ` ?W = ?S"
  proof (intro equalityI subsetI)
    fix B assume "B \<in> (\<lambda>w. {i. bit w i}) ` ?W"
    then show "B \<in> ?S" by (force simp: below_def count_ones_card not_le)
  next
    fix B assume B: "B \<in> ?S"
    then have "finite B" "B \<subseteq> {..<LENGTH('a)}"
      using assms by (auto intro: finite_subset [of B "{..<n}"])
    then obtain w :: "'a word" where "{i. bit w i} = B"
      using word_with_bits by blast
    with B show "B \<in> (\<lambda>w. {i. bit w i}) ` ?W"
      by (intro image_eqI [of _ _ w]) (auto simp: below_def count_ones_card)
  qed
  ultimately have "card ?W = card ?S" using card_image by fastforce
  then show ?thesis by (simp add: n_subsets)
qed

section \<open>Searching a slice\<close>

text \<open>\<open>Iterator::position\<close>: the index of the first element that satisfies the predicate.\<close>

fun position :: "('a \<Rightarrow> bool) \<Rightarrow> 'a list \<Rightarrow> nat option" where
  "position P [] = None"
| "position P (x # xs) = (if P x then Some 0 else map_option Suc (position P xs))"

lemma position_None_iff: "position P xs = None \<longleftrightarrow> (\<forall>x \<in> set xs. \<not> P x)"
  by (induction xs) auto

lemma position_SomeD:
  "position P xs = Some i \<Longrightarrow> i < length xs \<and> P (xs ! i) \<and> (\<forall>j < i. \<not> P (xs ! j))"
  by (induction xs arbitrary: i) (auto simp: nth_Cons split: if_splits nat.splits)

lemma position_SomeI:
  "i < length xs \<Longrightarrow> P (xs ! i) \<Longrightarrow> (\<And>j. j < i \<Longrightarrow> \<not> P (xs ! j)) \<Longrightarrow> position P xs = Some i"
proof (induction xs arbitrary: i)
  case (Cons x xs)
  show ?case
  proof (cases i)
    case 0
    then show ?thesis using Cons.prems by simp
  next
    case (Suc k)
    have "position P xs = Some k"
      using Cons.prems Suc by (intro Cons.IH) force+
    then show ?thesis using Cons.prems(3) [of 0] Suc by simp
  qed
qed simp

text \<open>At most two ones: zero, a power of two or the sum of two.\<close>

lemma light2_word_cases:
  fixes w :: "'a::len word"
  assumes "count_ones w \<le> 2"
  obtains (zero) "w = 0"
  | (one) a where "bit w a" "w = 2 ^ a"
  | (two) a b where "a < b" "bit w b" "w = 2 ^ a XOR 2 ^ b"
proof (cases "w = 0")
  case True
  then show thesis by (rule zero)
next
  case False
  have le: "count_ones w \<le> 3" using assms by simp
  show thesis
    using le False
  proof (cases rule: light_word_cases)
    case (two a b)
    then have "2 ^ a OR 2 ^ b = (2 ^ a XOR 2 ^ b :: 'a word)"
      by (intro bit_word_eqI) (auto simp: bit_or_iff bit_xor_iff)
    then show thesis using two that(3) by simp
  next
    case (three a b c)
    then have "c < LENGTH('a)" by (simp add: bit_imp_le_length)
    then have "{i. bit w i} = {a, b, c}" using three by (auto simp: bit_or_iff)
    then have "count_ones w = 3" using three by (simp add: count_ones_card)
    then show thesis using assms by simp
  qed (rule one)
qed

section \<open>The lowest bit\<close>

lemma count_ones_low_bit:
  "count_ones w = count_ones (drop_bit 1 w) + (if bit w 0 then 1 else 0)" for w :: "'a::len word"
proof -
  have split: "{i. bit w i} = Suc ` {i. bit (drop_bit 1 w) i} \<union> (if bit w 0 then {0} else {})"
    by (auto simp: bit_drop_bit_eq image_iff) (metis not0_implies_Suc)+
  show ?thesis
    unfolding count_ones_card split by (subst card_Un_disjoint) (auto simp: card_image)
qed

lemma word_low_bit_eqI:
  "drop_bit 1 a = drop_bit 1 b \<Longrightarrow> bit a 0 = bit b 0 \<Longrightarrow> a = b" for a b :: "'a::len word"
proof (rule bit_word_eqI)
  fix i
  assume "drop_bit 1 a = drop_bit 1 b" and "bit a 0 = bit b 0"
  then show "bit a i = bit b i"
    using bit_drop_bit_eq [of 1 a] bit_drop_bit_eq [of 1 b] by (cases i) (auto simp: fun_eq_iff)
qed

lemma drop_bit_eq_0_iff_below: "drop_bit n w = 0 \<longleftrightarrow> below n w" for w :: "'a::len word"
proof
  assume z: "drop_bit n w = 0"
  show "below n w"
  proof (rule belowI)
    fix i assume "n \<le> i"
    then have "bit w i = bit (drop_bit n w) (i - n)" by (simp add: bit_drop_bit_eq)
    then show "\<not> bit w i" using z by simp
  qed
next
  assume "below n w"
  then show "drop_bit n w = 0"
    by (intro bit_word_eqI) (simp add: bit_drop_bit_eq below_def)
qed

lemma drop_bit_push_bit:
  fixes w :: "'a::len word"
  assumes "below (LENGTH('a) - n) w"
  shows "drop_bit n (push_bit n w) = w"
proof (rule bit_word_eqI)
  fix i
  have "bit w i \<Longrightarrow> n + i < LENGTH('a)"
    using assms by (metis add.commute belowD less_diff_conv not_le)
  then show "bit (drop_bit n (push_bit n w)) i = bit w i"
    by (auto simp: bit_drop_bit_eq bit_push_bit_iff)
qed

lemma drop_bit_xor_word: "drop_bit n (a XOR b) = drop_bit n a XOR drop_bit n b"
  for a b :: "'a::len word"
  by (rule bit_word_eqI) (simp add: bit_drop_bit_eq bit_xor_iff)

lemma drop_bit_two_pow_Suc: "b < LENGTH('a) - 1 \<Longrightarrow> drop_bit (Suc 0) (2 ^ Suc b :: 'a::len word) = 2 ^ b"
  by (rule bit_word_eqI) (auto simp: bit_drop_bit_eq simp del: power_Suc)

lemma ucast_xor: "ucast (a XOR b) = (ucast a XOR ucast b :: 'b::len word)" for a b :: "'a::len word"
  by (rule bit_word_eqI) (auto simp: bit_ucast_iff bit_xor_iff)

lemma ucast_ucast_up:
  "LENGTH('a) \<le> LENGTH('b::len) \<Longrightarrow> ucast (ucast w :: 'b::len word) = w" for w :: "'a::len word"
  by (rule bit_word_eqI) (auto simp: bit_ucast_iff)

section \<open>Lists from the end\<close>

lemma last_three:
  assumes "3 \<le> length xs"
  obtains ys a b c where "xs = ys @ [a, b, c]"
proof (cases xs rule: rev_cases)
  case (snoc xs1 c)
  show ?thesis
  proof (cases xs1 rule: rev_cases)
    case (snoc xs2 b)
    then show ?thesis
      using \<open>xs = xs1 @ [c]\<close> assms that by (cases xs2 rule: rev_cases) auto
  qed (use snoc assms in simp)
qed (use assms in simp)

section \<open>Searching\<close>

lemma find_unique: "x \<in> set xs \<Longrightarrow> P x \<Longrightarrow> (\<And>y. y \<in> set xs \<Longrightarrow> P y \<Longrightarrow> y = x) \<Longrightarrow> find P xs = Some x"
proof (induction xs)
  case (Cons a xs)
  show ?case
  proof (cases "P a")
    case True
    then have "a = x" using Cons.prems(3) by simp
    then show ?thesis using True by simp
  next
    case False
    then have "x \<in> set xs" using Cons.prems(1,2) by (metis set_ConsD)
    then have "find P xs = Some x"
      using Cons.prems(2) by (rule Cons.IH) (rule Cons.prems(3), simp_all)
    then show ?thesis using False by simp
  qed
qed simp

section \<open>Trailing zeros\<close>

definition trailing_zeros :: "'a::len word \<Rightarrow> nat" where
  "trailing_zeros w = length (takeWhile (\<lambda>i. \<not> bit w i) [0..<LENGTH('a)])"

lemma trailing_zerosI:
  fixes w :: "'a::len word"
  assumes "bit w n" "\<And>i. i < n \<Longrightarrow> \<not> bit w i"
  shows "trailing_zeros w = n"
proof -
  have n: "n < LENGTH('a)" using assms(1) by (rule bit_imp_le_length)
  then have "[0..<LENGTH('a)] = [0..<n] @ n # [Suc n..<LENGTH('a)]"
    by (metis le_add_diff_inverse less_or_eq_imp_le upt_add_eq_append upt_conv_Cons zero_le add_0)
  moreover have "takeWhile (\<lambda>i. \<not> bit w i) ([0..<n] @ n # [Suc n..<LENGTH('a)]) = [0..<n]"
    using assms by (subst takeWhile_append2) auto
  ultimately show ?thesis by (simp add: trailing_zeros_def)
qed

lemma trailing_zeros_two_pow [simp]: "n < LENGTH('a) \<Longrightarrow> trailing_zeros (2 ^ n :: 'a::len word) = n"
  by (rule trailing_zerosI) simp_all

section \<open>Iteration\<close>

lemma funpow_eval: "(f ^^ numeral v) x = (f ^^ pred_numeral v) (f x)"
  by (simp add: numeral_eq_Suc funpow_swap1)

section \<open>Additive functions\<close>

text \<open>A word is the sum of its bits, so two additive functions that agree on the powers of two agree.\<close>

lemma additive_eqI:
  fixes f g :: "'a::len word \<Rightarrow> 'b::len word"
  assumes f: "\<And>a b. f (a XOR b) = f a XOR f b" and g: "\<And>a b. g (a XOR b) = g a XOR g b"
    and pow: "\<And>i. i < n \<Longrightarrow> f (2 ^ i) = g (2 ^ i)" and w: "below n w"
  shows "f w = g w"
  using pow w
proof (induction n arbitrary: w)
  case 0
  have "f 0 = 0" "g 0 = 0" using f [of 0 0] g [of 0 0] by simp_all
  then show ?case using 0 by (simp add: below_0_iff)
next
  case (Suc n)
  have "w = w AND mask (Suc n)" using Suc.prems(2) by (simp add: and_mask_below)
  also have "\<dots> = (if bit w n then (w AND mask n) XOR 2 ^ n else w AND mask n)"
    by (simp add: and_mask_Suc)
  finally have w: "w = (if bit w n then (w AND mask n) XOR 2 ^ n else w AND mask n)" .
  have "f (w AND mask n) = g (w AND mask n)"
    by (rule Suc.IH) (simp_all add: Suc.prems(1))
  then show ?case
    using Suc.prems(1) [of n] by (subst (1 2) w) (simp add: f g)
qed

end
