(* ===== verification/Gf2_Codes.thy ===== *)
theory Gf2_Codes
  imports Prelude
begin

text \<open>
  Binary cyclic codes, the common ground of the Golay, POCSAG, ERMES and RDS codes of
  \<open>crates/dsp/src/fec.rs\<close>.

  \<open>gf2_divide\<close> is the shift-and-subtract loop all four syndromes run.  The locale \<open>gf2_syndrome\<close>
  is what a decoder relies on: the syndrome is additive, fits in the check bits and is the identity
  on the check bits; \<open>gf2_code\<close> adds a minimum distance.  The minimum distance is decided by
  \<open>heavy\<close>, a search over the selections of few information columns, evaluated by the kernel on
  bit vectors.
\<close>

named_theorems gf2_eval \<open>evaluation of the division loop on numerals\<close>

section \<open>Polynomial division\<close>

text \<open>
  \<open>gf2_divide g c k r\<close> runs \<open>shift\<close> from \<open>c + k - 1\<close> down to \<open>c\<close>; where the remainder has
  bit \<open>shift\<close>, it adds the generator moved up by \<open>shift - c\<close>.
\<close>

fun gf2_divide :: "u32 \<Rightarrow> nat \<Rightarrow> nat \<Rightarrow> u32 \<Rightarrow> u32" where
  "gf2_divide g c 0 r = r"
| "gf2_divide g c (Suc k) r =
     gf2_divide g c k (if bit r (c + k) then r XOR push_bit k g else r)"

lemma gf2_divide_xor: "gf2_divide g c k (a XOR b) = gf2_divide g c k a XOR gf2_divide g c k b"
proof (induction k arbitrary: a b)
  case 0
  show ?case by simp
next
  case (Suc k)
  let ?a = "if bit a (c + k) then a XOR push_bit k g else a"
  let ?b = "if bit b (c + k) then b XOR push_bit k g else b"
  have "(if bit (a XOR b) (c + k) then (a XOR b) XOR push_bit k g else a XOR b) = ?a XOR ?b"
    by (auto simp: bit_xor_iff xor_cancel_both xor_ac)
  then show ?case using Suc.IH [of ?a ?b] by simp
qed

lemma gf2_divide_low: "below c r \<Longrightarrow> gf2_divide g c k r = r"
  by (induction k) (simp_all add: belowD)

lemma gf2_divide_0 [simp]: "gf2_divide g c k 0 = 0"
  by (simp add: gf2_divide_low)

lemma gf2_divide_below:
  assumes "bit g c" "below (Suc c) g" "c + k \<le> 32" "below (c + k) r"
  shows "below c (gf2_divide g c k r)"
  using assms(3,4)
proof (induction k arbitrary: r)
  case 0
  then show ?case by simp
next
  case (Suc k)
  let ?r = "if bit r (c + k) then r XOR push_bit k g else r"
  have "below (c + k) ?r"
  proof (rule belowI)
    fix i assume i: "c + k \<le> i"
    have high: "\<not> bit r i" if "i \<noteq> c + k"
      using Suc.prems(2) i that by (auto simp: below_def)
    have "bit g (i - k) \<longleftrightarrow> i - k = c"
      using assms(1,2) i by (metis belowD le_diff_conv2 le_antisym add_leD2 not_less_eq_eq)
    then have "bit (push_bit k g) i \<longleftrightarrow> i = c + k"
      using i Suc.prems(1) by (auto simp: bit_push_bit_iff)
    with high show "\<not> bit ?r i" by (auto simp: bit_xor_iff)
  qed
  with Suc show ?case by simp
qed

text \<open>Evaluation of the loop on a numeral count.\<close>

lemma gf2_divide_numeral [gf2_eval]:
  "gf2_divide g c (numeral v) r =
     gf2_divide g c (pred_numeral v)
       (if bit r (c + pred_numeral v) then r XOR push_bit (pred_numeral v) g else r)"
  by (simp add: numeral_eq_Suc)

section \<open>Deciding a minimum distance\<close>

fun at_least :: "nat \<Rightarrow> bitvec \<Rightarrow> bool" where
  "at_least 0 xs = True"
| "at_least (Suc n) [] = False"
| "at_least (Suc n) (b # xs) = at_least (if b then n else Suc n) xs"

lemma at_least_iff: "at_least n xs \<longleftrightarrow> n \<le> ones xs"
  by (induction n xs rule: at_least.induct) (auto simp: ones_Cons)

text \<open>
  \<open>heavy d cols acc\<close>: adding any \<open>k \<ge> 1\<close> of the columns to \<open>acc\<close> leaves at least \<open>d - k\<close> ones.
\<close>

fun heavy :: "nat \<Rightarrow> bitvec list \<Rightarrow> bitvec \<Rightarrow> bool" where
  "heavy d [] acc = True"
| "heavy 0 (c # cs) acc = True"
| "heavy (Suc d) (c # cs) acc =
     (at_least d (xor_bits acc c) \<and> heavy d cs (xor_bits acc c) \<and> heavy (Suc d) cs acc)"

definition heavy_with :: "nat \<Rightarrow> bitvec list \<Rightarrow> bitvec \<Rightarrow> bool" where
  "heavy_with d cs acc \<longleftrightarrow> at_least d acc \<and> heavy d cs acc"

lemma heavy_0 [simp]: "heavy 0 cs acc"
  by (cases cs) simp_all

lemma heavy_1 [simp]: "heavy (Suc 0) cs acc"
  by (induction cs) simp_all

lemma heavy_eval:
  "heavy (Suc (Suc d)) (c # cs) acc \<longleftrightarrow>
     heavy_with (Suc d) cs (xor_bits acc c) \<and> heavy (Suc (Suc d)) cs acc"
  "heavy_with (Suc 0) cs acc \<longleftrightarrow> at_least (Suc 0) acc"
  "heavy_with (Suc (Suc d)) cs acc \<longleftrightarrow> at_least (Suc (Suc d)) acc \<and> heavy (Suc (Suc d)) cs acc"
  by (simp_all add: heavy_with_def)

lemmas [bit_eval] = heavy.simps(1) heavy_eval heavy_1 at_least.simps xor_bits.simps
  simp_thms if_True if_False

text \<open>\<open>mix sel cols acc\<close> adds the selected columns to \<open>acc\<close>.\<close>

fun mix :: "bool list \<Rightarrow> bitvec list \<Rightarrow> bitvec \<Rightarrow> bitvec" where
  "mix (s # ss) (c # cs) acc = mix ss cs (if s then xor_bits acc c else acc)"
| "mix [] cs acc = acc"
| "mix (s # ss) [] acc = acc"

lemma mix_none: "(\<forall>s \<in> set sel. \<not> s) \<Longrightarrow> mix sel cs acc = acc"
  by (induction sel cs acc rule: mix.induct) auto

lemma heavy_sound:
  assumes "heavy d cs acc" "length sel \<le> length cs" "\<exists>s \<in> set sel. s"
  shows "d \<le> ones sel + ones (mix sel cs acc)"
  using assms
proof (induction d cs acc arbitrary: sel rule: heavy.induct)
  case (3 d c cs acc)
  then obtain s ss where sel: "sel = s # ss" by (cases sel) auto
  show ?case
  proof (cases s)
    case True
    have ge: "d \<le> ones (xor_bits acc c)" and hv: "heavy d cs (xor_bits acc c)"
      using 3(3) by (simp_all add: at_least_iff)
    show ?thesis
    proof (cases "\<exists>s \<in> set ss. s")
      case True
      then have "d \<le> ones ss + ones (mix ss cs (xor_bits acc c))"
        using 3(4) sel hv by (intro 3(1)) auto
      then show ?thesis using sel \<open>s\<close> by simp
    next
      case False
      then show ?thesis using sel \<open>s\<close> ge by (simp add: mix_none)
    qed
  next
    case False
    then have "Suc d \<le> ones ss + ones (mix ss cs acc)"
      using 3(3,4,5) sel by (intro 3(2)) auto
    then show ?thesis using sel False by simp
  qed
qed auto

lemma mix_append:
  "length ss = length cs \<Longrightarrow>
     mix (ss @ [s]) (cs @ [c]) acc = (if s then xor_bits (mix ss cs acc) c else mix ss cs acc)"
  by (induction ss cs acc rule: mix.induct) auto

lemma mix_xor:
  "mix sel cs (xor_bits acc x) = xor_bits (mix sel cs acc) x"
  by (induction sel cs acc rule: mix.induct)
    (auto simp: xor_bits_assoc xor_bits_commute [of x])

section \<open>The interface of a syndrome\<close>

text \<open>The columns of a syndrome: its value on each information bit.\<close>

definition columns :: "(u32 \<Rightarrow> u32) \<Rightarrow> nat \<Rightarrow> nat \<Rightarrow> bitvec list" where
  "columns syn c n = map (\<lambda>i. bits_of c (syn (2 ^ i))) [c..<n]"

locale gf2_syndrome =
  fixes syn :: "u32 \<Rightarrow> u32" and c n :: nat
  assumes syn_xor: "syn (a XOR b) = syn a XOR syn b"
    and syn_low: "below c w \<Longrightarrow> syn w = w"
    and syn_below: "below c (syn w)"
    and check_le: "c \<le> n" and width: "n \<le> 32"
begin

lemma syn_0 [simp]: "syn 0 = 0"
  by (simp add: syn_low)

text \<open>Two words have the same syndrome exactly when they differ by a codeword.\<close>

lemma syn_eq_iff: "syn a = syn b \<longleftrightarrow> syn (a XOR b) = 0"
  by (simp add: syn_xor)

text \<open>Appending the syndrome of the payload makes a codeword.\<close>

lemma syn_encode:
  assumes "payload AND mask c = 0"
  shows "syn (payload OR syn payload) = 0"
proof -
  have "payload AND syn payload = 0"
  proof (rule bit_word_eqI)
    fix i
    have "\<not> (bit payload i \<and> i < c)"
      using assms by (metis bit_0_eq bit_and_iff bit_imp_le_length bit_mask_iff bot_apply bot_bool_def possible_bit_word)
    then show "bit (payload AND syn payload) i \<longleftrightarrow> bit (0 :: u32) i"
      using syn_below [of payload] by (auto simp: bit_and_iff below_def)
  qed
  then have "syn (payload OR syn payload) = syn payload XOR syn (syn payload)"
    by (simp add: or_eq_xor_disjoint syn_xor)
  then show ?thesis by (simp add: syn_low syn_below)
qed

lemma bits_of_syn_mask:
  "c \<le> m \<Longrightarrow> bits_of c (syn (w AND mask m)) =
     mix (map (bit w) [c..<m]) (columns syn c m) (bits_of c (syn (w AND mask c)))"
proof (induction m rule: dec_induct)
  case base
  show ?case by (simp add: columns_def)
next
  case (step m)
  have "bits_of c (syn (w AND mask (Suc m))) =
      (if bit w m then xor_bits (bits_of c (syn (w AND mask m))) (bits_of c (syn (2 ^ m)))
       else bits_of c (syn (w AND mask m)))"
    by (simp add: and_mask_Suc syn_xor bits_of_xor)
  then show ?case using step by (simp add: columns_def mix_append)
qed

lemma bits_of_syn:
  "below n w \<Longrightarrow> bits_of c (syn w) = mix (map (bit w) [c..<n]) (columns syn c n) (bits_of c w)"
  using bits_of_syn_mask [OF check_le, of w] syn_low [of "w AND mask c"]
  by simp

lemma count_ones_split:
  fixes w :: u32
  assumes "below n w"
  shows "count_ones w = ones (bits_of c w) + ones (map (bit w) [c..<n])"
proof -
  have "bits_of n w = bits_of c w @ map (bit w) [c..<n]"
    using check_le by (simp add: bits_of_def) (metis le_add_diff_inverse le0 map_append upt_add_eq_append)
  then show ?thesis
    using assms width by (simp add: count_ones_bits_of)
qed

text \<open>A nonzero codeword is as heavy as its information columns say.\<close>

lemma codeword_heavy:
  assumes hv: "heavy d (columns syn c n) (replicate c False)"
    and w: "below n w" "w \<noteq> 0" "syn w = 0"
  shows "d \<le> count_ones w"
proof -
  let ?sel = "map (bit w) [c..<n]" and ?low = "bits_of c w"
  have "\<not> below c w" using w syn_low [of w] by auto
  then have some: "\<exists>s \<in> set ?sel. s"
    using w(1) by (auto simp: below_def) (metis atLeastLessThan_iff not_le)
  have zero: "mix ?sel (columns syn c n) ?low = replicate c False"
    using bits_of_syn [OF w(1)] w(3) by simp
  moreover have "?low = xor_bits (replicate c False) ?low"
    using xor_bits_replicate [of ?low c] by (simp add: xor_bits_commute)
  ultimately have "xor_bits (mix ?sel (columns syn c n) (replicate c False)) ?low = replicate c False"
    by (metis mix_xor)
  moreover have "length (mix ?sel (columns syn c n) (replicate c False)) = c"
    using zero calculation by (metis length_bits_of length_replicate length_xor_bits min_def mix_xor xor_bits_replicate xor_bits_commute)
  ultimately have "mix ?sel (columns syn c n) (replicate c False) = ?low"
    using xor_bits_eq_zero [of "mix ?sel (columns syn c n) (replicate c False)" ?low] by simp
  then show ?thesis
    using heavy_sound [OF hv _ some] count_ones_split [OF w(1)] by (simp add: columns_def)
qed

end

text \<open>A code whose nonzero codewords have at least \<open>d\<close> ones.\<close>

locale gf2_code = gf2_syndrome +
  fixes d :: nat
  assumes distance: "below n w \<Longrightarrow> w \<noteq> 0 \<Longrightarrow> syn w = 0 \<Longrightarrow> d \<le> count_ones w"
begin

text \<open>Light error patterns have different syndromes.\<close>

lemma syn_inj:
  assumes "below n a" "below n b" "count_ones a + count_ones b < d" "syn a = syn b"
  shows "a = b"
proof (rule ccontr)
  assume "a \<noteq> b"
  then have "d \<le> count_ones (a XOR b)"
    using assms by (intro distance) (auto simp: syn_xor)
  also have "\<dots> \<le> count_ones a + count_ones b" by (rule count_ones_xor_le)
  finally show False using assms(3) by simp
qed

lemma syn_nonzero:
  "below n e \<Longrightarrow> e \<noteq> 0 \<Longrightarrow> count_ones e < d \<Longrightarrow> syn e \<noteq> 0"
  using distance by force

end

end
