(* ===== verification/Golay.thy ===== *)
theory Golay
  imports Gf2_Codes
begin

text \<open>
  The binary Golay code of \<open>crates/dsp/src/fec.rs\<close>: 12 data bits and 11 check bits, the correction
  table built by the \<open>const\<close> block, and the decoder that reads it.
\<close>

section \<open>Definitions\<close>

definition golay23_remainder :: "u32 \<Rightarrow> u32" where
  "golay23_remainder word = gf2_divide 0xC75 11 12 (word AND mask 23)"

definition golay23_encode :: "u16 \<Rightarrow> u32" where
  "golay23_encode data =
     (let payload = push_bit 11 (ucast data AND 0x0FFF) in payload OR golay23_remainder payload)"

definition golay23_ok :: "u32 \<Rightarrow> bool" where
  "golay23_ok word \<longleftrightarrow> golay23_remainder word = 0"

text \<open>The patterns in the order the three nested loops visit them.\<close>

definition golay23_patterns :: "u32 list" where
  "golay23_patterns =
     concat (map (\<lambda>first. let one = push_bit first 1 in
       one # concat (map (\<lambda>second. let two = one OR push_bit second 1 in
         two # map (\<lambda>third. two OR push_bit third 1) [Suc second..<23]) [Suc first..<23])) [0..<23])"

definition golay23_error_patterns :: "u32 list" where
  "golay23_error_patterns =
     foldl (\<lambda>table p. table[unat (golay23_remainder p) := p]) (replicate 2048 0) golay23_patterns"

definition golay23_correct :: "u32 \<Rightarrow> u32 \<times> nat" where
  "golay23_correct word =
     (let word = word AND 0x7FFFFF;
          error = golay23_error_patterns ! unat (golay23_remainder word)
      in (word XOR error, count_ones error))"

section \<open>The code\<close>

lemma golay23_mask: "(0x7FFFFF :: u32) = mask 23"
  by (simp add: mask_eq_exp_minus_1)

interpretation golay: gf2_syndrome golay23_remainder 11 23
proof
  fix a b w :: u32
  show "golay23_remainder (a XOR b) = golay23_remainder a XOR golay23_remainder b"
    by (simp only: golay23_remainder_def and_xor_distrib gf2_divide_xor)
  show "below 11 (golay23_remainder w)"
    unfolding golay23_remainder_def
  proof (rule gf2_divide_below)
    show "below (Suc 11) (0xC75 :: u32)" by (simp add: below_iff_unat)
  qed simp_all
  show "golay23_remainder w = w" if "below 11 w"
    using that by (simp add: golay23_remainder_def gf2_divide_low below_mono [of 11 w 23])
qed simp_all

lemma golay23_remainder_pow:
  "golay23_remainder (2 ^ 11) = 0x475"
  "golay23_remainder (2 ^ 12) = 0x49F"
  "golay23_remainder (2 ^ 13) = 0x54B"
  "golay23_remainder (2 ^ 14) = 0x6E3"
  "golay23_remainder (2 ^ 15) = 0x1B3"
  "golay23_remainder (2 ^ 16) = 0x366"
  "golay23_remainder (2 ^ 17) = 0x6CC"
  "golay23_remainder (2 ^ 18) = 0x1ED"
  "golay23_remainder (2 ^ 19) = 0x3DA"
  "golay23_remainder (2 ^ 20) = 0x7B4"
  "golay23_remainder (2 ^ 21) = 0x31D"
  "golay23_remainder (2 ^ 22) = 0x63A"
  by (simp_all add: golay23_remainder_def golay23_mask [symmetric] gf2_eval)

lemma golay23_remainder_columns:
  "columns golay23_remainder 11 23 = [
     [True, False, True, False, True, True, True, False, False, False, True],
     [True, True, True, True, True, False, False, True, False, False, True],
     [True, True, False, True, False, False, True, False, True, False, True],
     [True, True, False, False, False, True, True, True, False, True, True],
     [True, True, False, False, True, True, False, True, True, False, False],
     [False, True, True, False, False, True, True, False, True, True, False],
     [False, False, True, True, False, False, True, True, False, True, True],
     [True, False, True, True, False, True, True, True, True, False, False],
     [False, True, False, True, True, False, True, True, True, True, False],
     [False, False, True, False, True, True, False, True, True, True, True],
     [True, False, True, True, True, False, False, False, True, True, False],
     [False, True, False, True, True, True, False, False, False, True, True]]"
proof -
  have "[11..<23] = [11, 12, 13, 14, 15, 16, 17, 18, 19, 20, 21, 22 :: nat]"
    by simp
  then show ?thesis
    by (simp only: columns_def list.map golay23_remainder_pow) (simp add: bits_of_def upt_from_0)
qed

lemma golay23_heavy: "heavy 7 (columns golay23_remainder 11 23) (replicate 11 False)"
  unfolding golay23_remainder_columns
  by (simp only: eval_nat_numeral BitM.simps replicate.simps bit_eval)

interpretation golay: gf2_code golay23_remainder 11 23 7
  by unfold_locales (rule golay.codeword_heavy [OF golay23_heavy])

section \<open>The correction table\<close>

lemma set_golay23_patterns:
  "set golay23_patterns =
     (\<Union>a \<in> {0..<23}. insert (2 ^ a) (\<Union>b \<in> {Suc a..<23}. insert (2 ^ a OR 2 ^ b)
       ((\<lambda>c. 2 ^ a OR 2 ^ b OR 2 ^ c) ` {Suc b..<23})))"
  by (simp add: golay23_patterns_def Let_def or.assoc)

lemma golay23_patterns_light:
  assumes "p \<in> set golay23_patterns"
  shows "below 23 p" "count_ones p \<le> 3" "p \<noteq> 0"
proof -
  have two: "count_ones (2 ^ a OR 2 ^ b :: u32) \<le> 2" if "a < 32" "b < 32" for a b
    using that count_ones_or_le [of "2 ^ a :: u32" "2 ^ b"] by simp
  have "count_ones (2 ^ a OR 2 ^ b OR 2 ^ c :: u32) \<le> 3" if "a < 32" "b < 32" "c < 32" for a b c
    using that count_ones_or_le [of "2 ^ a :: u32" "2 ^ b OR 2 ^ c"] two [of b c] by simp
  then show "count_ones p \<le> 3"
    using assms two unfolding set_golay23_patterns by (auto intro: order_trans [OF two])
  show "below 23 p" using assms unfolding set_golay23_patterns by auto
  obtain a where "a < 23" "bit p a"
    using assms unfolding set_golay23_patterns by (auto simp: bit_or_iff)
  then show "p \<noteq> 0" by auto
qed

lemma golay23_patterns_complete:
  assumes "below 23 e" "count_ones e \<le> 3" "e \<noteq> 0"
  shows "e \<in> set golay23_patterns"
proof -
  have lt: "i < 23" if "bit e i" for i
    using assms(1) that by (metis belowD not_le)
  show ?thesis
    using assms(2,3)
  proof (cases rule: light_word_cases)
    case (one a)
    then show ?thesis using lt [of a] by (auto simp: set_golay23_patterns)
  next
    case (two a b)
    show ?thesis
      unfolding set_golay23_patterns
    proof (rule UN_I [of a], goal_cases)
      case 2
      show ?case by (rule insertI2, rule UN_I [of b]) (use two lt [of b] in auto)
    qed (use two lt [of b] in simp)
  next
    case (three a b c)
    show ?thesis
      unfolding set_golay23_patterns
    proof (rule UN_I [of a], goal_cases)
      case 2
      show ?case by (rule insertI2, rule UN_I [of b]) (use three lt [of c] in auto)
    qed (use three lt [of c] in simp)
  qed
qed

lemma golay23_remainder_lt: "unat (golay23_remainder w) < 2048"
  using golay.syn_below [of w] by (simp add: below_iff_unat)

lemma golay23_patterns_inj: "inj_on (\<lambda>p. unat (golay23_remainder p)) (set golay23_patterns)"
proof (rule inj_onI)
  fix a b
  assume a: "a \<in> set golay23_patterns" and b: "b \<in> set golay23_patterns"
    and "unat (golay23_remainder a) = unat (golay23_remainder b)"
  then have "golay23_remainder a = golay23_remainder b"
    by (simp only: word_unat_eq_iff)
  moreover have "count_ones a + count_ones b < 7"
    using golay23_patterns_light(2) [OF a] golay23_patterns_light(2) [OF b] by simp
  ultimately show "a = b"
    using golay23_patterns_light(1) [OF a] golay23_patterns_light(1) [OF b] golay.syn_inj by blast
qed

text \<open>The table undoes the syndrome on every pattern of at most three bits.\<close>

lemma golay23_table:
  assumes "below 23 e" "count_ones e \<le> 3"
  shows "golay23_error_patterns ! unat (golay23_remainder e) = e"
proof (cases "e = 0")
  case True
  have "unat (golay23_remainder p) \<noteq> 0" if "p \<in> set golay23_patterns" for p
    using golay23_patterns_light [OF that] golay.syn_nonzero [of p] by (simp add: unat_eq_0)
  then have "golay23_error_patterns ! 0 = replicate 2048 0 ! 0"
    unfolding golay23_error_patterns_def by (intro foldl_update_other) blast
  then show ?thesis using True by simp
next
  case False
  then have "e \<in> set golay23_patterns"
    using assms golay23_patterns_complete by blast
  then show ?thesis
    unfolding golay23_error_patterns_def
    using foldl_update_nth [OF golay23_patterns_inj, of "replicate 2048 0" e]
    by (simp add: golay23_remainder_lt)
qed

text \<open>The code is perfect: every syndrome is that of a pattern of at most three bits.\<close>

lemma golay23_syndrome_light:
  obtains e where "below 23 e" "count_ones e \<le> 3" "golay23_remainder e = golay23_remainder w"
proof -
  let ?L = "\<lambda>k. {e :: u32. below 23 e \<and> count_ones e = k}"
  let ?S = "\<Union>k \<in> {..3}. ?L k"
  let ?f = "\<lambda>e. unat (golay23_remainder e)"
  have mem: "e \<in> ?S \<longleftrightarrow> below 23 e \<and> count_ones e \<le> 3" for e by auto
  have card: "card (?L k) = 23 choose k" for k by (rule card_words_of_weight) simp
  have "card ?S = (\<Sum>k \<in> {..3}. card (?L k))"
    by (rule card_UN_disjoint) auto
  also have "\<dots> = (\<Sum>k \<in> {..3}. 23 choose k)" by (simp only: card)
  also have "\<dots> = 2048" by (simp add: numeral_eq_Suc)
  finally have "card ?S = 2048" .
  moreover have "inj_on ?f ?S"
  proof (rule inj_onI)
    fix a b assume ab: "a \<in> ?S" "b \<in> ?S" "?f a = ?f b"
    have "a = golay23_error_patterns ! ?f a"
      using ab(1) mem golay23_table [of a] by simp
    also have "\<dots> = b" using ab(2,3) mem golay23_table [of b] by simp
    finally show "a = b" .
  qed
  ultimately have "card (?f ` ?S) = 2048" by (simp only: card_image)
  moreover have "?f ` ?S \<subseteq> {..<2048}"
    using golay23_remainder_lt by blast
  ultimately have "?f ` ?S = {..<2048}"
    by (intro card_subset_eq) simp_all
  then have "?f w \<in> ?f ` ?S" using golay23_remainder_lt [of w] by blast
  then show ?thesis using that mem by (auto simp only: word_unat_eq_iff [symmetric])
qed

section \<open>Encoding and correction\<close>

lemma golay23_encode_facts:
  "golay23_remainder (golay23_encode data) = 0" "below 23 (golay23_encode data)"
proof -
  let ?p = "push_bit 11 (ucast data AND 0x0FFF :: u32)"
  have m: "(0x0FFF :: u32) = mask 12" by (simp add: mask_eq_exp_minus_1)
  have "?p AND mask 11 = 0"
    by (rule bit_word_eqI) (auto simp: bit_and_iff bit_push_bit_iff bit_mask_iff)
  then show "golay23_remainder (golay23_encode data) = 0"
    unfolding golay23_encode_def Let_def by (rule golay.syn_encode)
  have "below 23 ?p" unfolding m using below_push_bit [OF below_mask [of 12 "ucast data :: u32"], of 11] by simp
  then show "below 23 (golay23_encode data)"
    unfolding golay23_encode_def Let_def using below_mono [OF golay.syn_below, of 23] by auto
qed

lemma golay23_correct_codeword:
  assumes "golay23_remainder c = 0" "below 23 c" "below 23 e" "count_ones e \<le> 3"
  shows "golay23_correct (c XOR e) = (c, count_ones e)"
  using assms golay23_table [of e]
  by (simp add: golay23_correct_def Let_def golay23_mask golay.syn_xor)

lemma golay23_encode_data:
  "drop_bit 11 (golay23_encode data) = ucast data AND 0x0FFF"
proof -
  define d :: u32 where "d = ucast data AND 0x0FFF"
  have "below 12 d"
    unfolding d_def using below_mask [of 12 "ucast data :: u32"] by (simp add: mask_eq_exp_minus_1)
  then have "i < 12" if "bit d i" for i using that by (metis belowD not_le)
  moreover have "\<not> bit (golay23_remainder (push_bit 11 d)) (11 + i)" for i
    using golay.syn_below [of "push_bit 11 d"] by (simp add: belowD)
  ultimately have "drop_bit 11 (push_bit 11 d OR golay23_remainder (push_bit 11 d)) = d"
    by (intro bit_word_eqI) (force simp: bit_drop_bit_eq bit_or_iff bit_push_bit_iff)
  then show ?thesis by (simp add: golay23_encode_def Let_def d_def)
qed

section \<open>Properties\<close>

text \<open>
  C3: a Golay codeword hit by at most three bit errors is corrected to the codeword that was sent,
  the number of errors is reported, and the top bits of the result are the twelve data bits.
\<close>

theorem golay23_corrects_three:
  assumes "below 23 e" and "count_ones e \<le> 3"
  shows "golay23_correct (golay23_encode data XOR e) = (golay23_encode data, count_ones e) \<and>
    drop_bit 11 (golay23_encode data) = ucast data AND 0x0FFF"
  using golay23_correct_codeword [OF golay23_encode_facts assms] golay23_encode_data by blast

theorem golay23_corrects_three_witness:
  "golay23_correct (golay23_encode 0xABC XOR 0x400201) = (golay23_encode 0xABC, 3)"
proof -
  have "count_ones (0x400201 :: u32) = 3" by (simp add: count_ones_def upt_from_0)
  moreover have "below 23 (0x400201 :: u32)" by (simp add: below_iff_unat)
  ultimately show ?thesis using golay23_corrects_three [of "0x400201" "0xABC"] by simp
qed

text \<open>
  the correction is total: for every received word the result is a codeword, at most three bits
  away from the 23 bits received, and the distance is the number of errors reported.
\<close>

theorem golay23_correct_total:
  "golay23_ok (fst (golay23_correct word)) \<and> snd (golay23_correct word) \<le> 3 \<and>
     count_ones ((word AND 0x7FFFFF) XOR fst (golay23_correct word)) = snd (golay23_correct word)"
proof -
  let ?w = "word AND 0x7FFFFF"
  obtain e where e: "below 23 e" "count_ones e \<le> 3" "golay23_remainder e = golay23_remainder ?w"
    by (rule golay23_syndrome_light)
  then have "golay23_correct word = (?w XOR e, count_ones e)"
    using golay23_table [OF e(1,2)] by (simp add: golay23_correct_def Let_def)
  moreover have "golay23_remainder (?w XOR e) = 0" using e(3) by (simp add: golay.syn_xor)
  ultimately show ?thesis using e(2) by (simp add: golay23_ok_def)
qed

end
