(* ===== verification/Bch_Pagers.thy ===== *)
theory Bch_Pagers
  imports Gf2_Codes
begin

text \<open>
  The two pager codes of \<open>crates/dsp/src/fec.rs\<close>: POCSAG, a BCH(31,21) field with an even parity
  bit below it, and ERMES, a shortened BCH(30,18).  Both decoders look the syndrome up in a table of
  single-bit syndromes, and then look for a pair.
\<close>

section \<open>Definitions\<close>

text \<open>The pair search: the first \<open>a\<close> whose partner, if it is found at all, is above it.\<close>

fun find_pair_from :: "u32 list \<Rightarrow> u32 \<Rightarrow> nat \<Rightarrow> u32 list \<Rightarrow> (nat \<times> nat) option" where
  "find_pair_from table syndrome a [] = None"
| "find_pair_from table syndrome a (syn_a # rest) =
     (case position (\<lambda>s. s = syndrome XOR syn_a) table of
        Some b \<Rightarrow> if a < b then Some (a, b) else find_pair_from table syndrome (Suc a) rest
      | None \<Rightarrow> find_pair_from table syndrome (Suc a) rest)"

definition pocsag_syndrome :: "u32 \<Rightarrow> u32" where
  "pocsag_syndrome field = gf2_divide 0x769 10 21 (field AND mask 31)"

definition pocsag_bit_syndromes :: "u32 list" where
  "pocsag_bit_syndromes = map (\<lambda>i. pocsag_syndrome (push_bit i 1)) [0..<31]"

definition pocsag_find_bit :: "u32 \<Rightarrow> nat option" where
  "pocsag_find_bit syndrome = position (\<lambda>s. s = syndrome) pocsag_bit_syndromes"

definition pocsag_find_pair :: "u32 \<Rightarrow> (nat \<times> nat) option" where
  "pocsag_find_pair syndrome = find_pair_from pocsag_bit_syndromes syndrome 0 pocsag_bit_syndromes"

definition pocsag_parity :: "u32 \<Rightarrow> u32" where
  "pocsag_parity word = of_nat (count_ones word) AND 1"

definition pocsag_bch_decode :: "u32 \<Rightarrow> (u32 \<times> nat) option" where
  "pocsag_bch_decode word =
     (let syndrome = pocsag_syndrome (drop_bit 1 word); odd = (pocsag_parity word = 1) in
      if syndrome = 0 then Some (if odd then (word XOR 1, 1) else (word, 0))
      else case pocsag_find_bit syndrome of
        Some b \<Rightarrow>
          let fix = push_bit (b + 1) 1 OR (if odd then 0 else 1)
          in Some (word XOR fix, if odd then 1 else 2)
      | None \<Rightarrow>
          if odd then None
          else case pocsag_find_pair syndrome of
            None \<Rightarrow> None
          | Some (a, b) \<Rightarrow> Some ((word XOR push_bit (a + 1) 1) XOR push_bit (b + 1) 1, 2))"

definition pocsag_bch_encode :: "u32 \<Rightarrow> u32 panics" where
  "pocsag_bch_encode word21 =
     (if drop_bit 21 word21 \<noteq> 0 then Inl Assertion
      else let field = push_bit 10 word21; word = push_bit 1 (field OR pocsag_syndrome field)
           in Inr (word OR pocsag_parity word))"

definition ermes_syndrome :: "u32 \<Rightarrow> u32" where
  "ermes_syndrome word = gf2_divide 0x1ACD 12 18 word AND mask 12"

definition ermes_bit_syndromes :: "u32 list" where
  "ermes_bit_syndromes = map (\<lambda>i. ermes_syndrome (push_bit i 1)) [0..<30]"

definition ermes_bch_decode :: "u32 \<Rightarrow> (u32 \<times> nat) option" where
  "ermes_bch_decode word0 =
     (let word = word0 AND mask 30; syndrome = ermes_syndrome word in
      if syndrome = 0 then Some (word, 0)
      else case position (\<lambda>value. value = syndrome) ermes_bit_syndromes of
        Some b \<Rightarrow> Some (word XOR push_bit b 1, 1)
      | None \<Rightarrow>
          (case find_pair_from ermes_bit_syndromes syndrome 0 ermes_bit_syndromes of
             None \<Rightarrow> None
           | Some (first, second) \<Rightarrow> Some ((word XOR push_bit first 1) XOR push_bit second 1, 2)))"

definition ermes_bch_encode :: "u32 \<Rightarrow> u32 panics" where
  "ermes_bch_encode info =
     (if drop_bit 18 info \<noteq> 0 then Inl Assertion
      else let field = push_bit 12 info in Inr (field OR ermes_syndrome field))"

section \<open>The pair search\<close>

definition pair_hit :: "u32 list \<Rightarrow> u32 \<Rightarrow> nat \<Rightarrow> nat \<Rightarrow> bool" where
  "pair_hit table s a b \<longleftrightarrow>
     a < length table \<and> a < b \<and> position (\<lambda>v. v = s XOR table ! a) table = Some b"

lemma find_pair_from_drop:
  assumes "\<And>i j. pair_hit table s i j \<Longrightarrow> i = a \<and> j = b" "pair_hit table s a b" "k \<le> a"
  shows "find_pair_from table s k (drop k table) = Some (a, b)"
  using assms(3)
proof (induction "a - k" arbitrary: k)
  case 0
  then have "k = a" by simp
  then show ?case
    using assms(2) by (simp add: pair_hit_def Cons_nth_drop_Suc [symmetric])
next
  case (Suc m)
  then have "k < length table" "k \<noteq> a" using assms(2) by (auto simp: pair_hit_def)
  moreover from this have "\<not> pair_hit table s k j" for j using assms(1) by blast
  moreover have "find_pair_from table s (Suc k) (drop (Suc k) table) = Some (a, b)"
    using Suc by (intro Suc.hyps(1)) auto
  ultimately show ?case
    by (auto simp: Cons_nth_drop_Suc [symmetric] pair_hit_def split: option.splits)
qed

lemma find_pair_from_hit:
  assumes "\<And>i j. pair_hit table s i j \<Longrightarrow> i = a \<and> j = b" "pair_hit table s a b"
  shows "find_pair_from table s 0 table = Some (a, b)"
  using find_pair_from_drop [OF assms, of 0] by simp

text \<open>
  What a decoder of distance at least five gets from the table of single-bit syndromes: a single
  error is found, any pattern of weight zero, two or three is not, and a double error is found by
  the pair search.
\<close>

context gf2_code
begin

lemma bit_lookup_hit:
  assumes "b < n" "2 < d"
  shows "position (\<lambda>s. s = syn (2 ^ b)) (map (\<lambda>i. syn (2 ^ i)) [0..<n]) = Some b"
proof (rule position_SomeI)
  fix j assume "j < b"
  then have j: "j < n" "j < 32" "b < 32" using assms width by simp_all
  have "syn (2 ^ j) \<noteq> syn (2 ^ b)"
  proof
    assume eq: "syn (2 ^ j) = syn (2 ^ b)"
    have "(2 :: u32) ^ j = 2 ^ b"
      by (rule syn_inj [OF _ _ _ eq]) (use assms j in simp_all)
    then show False using j \<open>j < b\<close> two_pow_inj [of j b, where 'a = 32] by simp
  qed
  then show "map (\<lambda>i. syn (2 ^ i)) [0..<n] ! j \<noteq> syn (2 ^ b)"
    using j by simp
qed (use assms in simp_all)

lemma bit_lookup_SomeD:
  assumes "below n f" "count_ones f + 1 < d"
    and "position (\<lambda>s. s = syn f) (map (\<lambda>i. syn (2 ^ i)) [0..<n]) = Some b"
  shows "b < n" "f = 2 ^ b"
proof -
  from position_SomeD [OF assms(3)] show b: "b < n" by simp
  have "syn (2 ^ b) = syn f" using position_SomeD [OF assms(3)] by auto
  then show "f = 2 ^ b"
    using syn_inj [of f "2 ^ b"] assms(1,2) b width by simp
qed

lemma bit_lookup_miss:
  assumes "below n f" "count_ones f + 1 < d" "count_ones f \<noteq> 1"
  shows "position (\<lambda>s. s = syn f) (map (\<lambda>i. syn (2 ^ i)) [0..<n]) = None"
  using bit_lookup_SomeD [OF assms(1,2)] assms(3) width
  by (cases "position (\<lambda>s. s = syn f) (map (\<lambda>i. syn (2 ^ i)) [0..<n])") fastforce+

lemma pair_lookup:
  assumes "a < b" "b < n" "4 < d"
  shows "find_pair_from (map (\<lambda>i. syn (2 ^ i)) [0..<n]) (syn (2 ^ a XOR 2 ^ b)) 0
    (map (\<lambda>i. syn (2 ^ i)) [0..<n]) = Some (a, b)"
proof (rule find_pair_from_hit)
  let ?t = "map (\<lambda>i. syn (2 ^ i)) [0..<n]" and ?f = "2 ^ a XOR 2 ^ b :: u32"
  have lt: "a < n" "a < 32" "b < 32" using assms width by simp_all
  have partner: "syn ?f XOR ?t ! i = syn (?f XOR 2 ^ i)" if "i < n" for i
    using that by (simp add: syn_xor)
  show "pair_hit ?t (syn ?f) a b"
    using bit_lookup_hit [OF assms(2)] assms lt partner [of a]
    by (simp add: pair_hit_def xor.commute)
  fix i j assume hit: "pair_hit ?t (syn ?f) i j"
  then have i: "i < n" "i < j" and at: "position (\<lambda>v. v = syn (?f XOR 2 ^ i)) ?t = Some j"
    using partner by (auto simp: pair_hit_def)
  have j: "j < n" "j < 32" "i < 32" and "syn (2 ^ j) = syn (?f XOR 2 ^ i)"
    using position_SomeD [OF at] i width by auto
  then have "syn (2 ^ i XOR 2 ^ j) = syn ?f" by (simp add: syn_xor xor_ac)
  moreover have "count_ones (2 ^ i XOR 2 ^ j :: u32) \<le> 2" "count_ones ?f \<le> 2"
    using count_ones_xor_le [of "2 ^ i :: u32" "2 ^ j"] count_ones_xor_le [of "2 ^ a :: u32" "2 ^ b"]
      lt j by simp_all
  ultimately have eq: "2 ^ i XOR 2 ^ j = ?f"
    using syn_inj [of "2 ^ i XOR 2 ^ j" ?f] assms i j lt by simp
  have "bit ?f k \<longleftrightarrow> k = a \<or> k = b" "bit (2 ^ i XOR 2 ^ j :: u32) k \<longleftrightarrow> k = i \<or> k = j" for k
    using lt j i(2) assms(1) by (auto simp: bit_xor_iff)
  with eq i(2) assms(1) show "i = a \<and> j = b" by (metis order_less_asym)
qed

end

section \<open>The two codes\<close>

interpretation pocsag: gf2_syndrome pocsag_syndrome 10 31
proof
  fix a b w :: u32
  show "pocsag_syndrome (a XOR b) = pocsag_syndrome a XOR pocsag_syndrome b"
    by (simp only: pocsag_syndrome_def and_xor_distrib gf2_divide_xor)
  show "below 10 (pocsag_syndrome w)"
    unfolding pocsag_syndrome_def
  proof (rule gf2_divide_below)
    show "below (Suc 10) (0x769 :: u32)" by (simp add: below_iff_unat)
  qed simp_all
  show "pocsag_syndrome w = w" if "below 10 w"
    using that by (simp add: pocsag_syndrome_def gf2_divide_low below_mono [of 10 w 31])
qed simp_all

interpretation ermes: gf2_syndrome ermes_syndrome 12 30
proof
  fix a b w :: u32
  show "ermes_syndrome (a XOR b) = ermes_syndrome a XOR ermes_syndrome b"
    by (simp only: ermes_syndrome_def and_xor_distrib gf2_divide_xor)
  show "below 12 (ermes_syndrome w)" by (simp add: ermes_syndrome_def)
  show "ermes_syndrome w = w" if "below 12 w"
    using that by (simp add: ermes_syndrome_def gf2_divide_low)
qed simp_all

lemma mask_31: "mask 31 = (0x7FFFFFFF :: u32)" and mask_12: "mask 12 = (0xFFF :: u32)"
  by (simp_all add: mask_eq_exp_minus_1)

lemma pocsag_syndrome_pow:
  "pocsag_syndrome (2 ^ 10) = 0x369"
  "pocsag_syndrome (2 ^ 11) = 0x1BB"
  "pocsag_syndrome (2 ^ 12) = 0x376"
  "pocsag_syndrome (2 ^ 13) = 0x185"
  "pocsag_syndrome (2 ^ 14) = 0x30A"
  "pocsag_syndrome (2 ^ 15) = 0x17D"
  "pocsag_syndrome (2 ^ 16) = 0x2FA"
  "pocsag_syndrome (2 ^ 17) = 0x29D"
  "pocsag_syndrome (2 ^ 18) = 0x253"
  "pocsag_syndrome (2 ^ 19) = 0x3CF"
  "pocsag_syndrome (2 ^ 20) = 0xF7"
  "pocsag_syndrome (2 ^ 21) = 0x1EE"
  "pocsag_syndrome (2 ^ 22) = 0x3DC"
  "pocsag_syndrome (2 ^ 23) = 0xD1"
  "pocsag_syndrome (2 ^ 24) = 0x1A2"
  "pocsag_syndrome (2 ^ 25) = 0x344"
  "pocsag_syndrome (2 ^ 26) = 0x1E1"
  "pocsag_syndrome (2 ^ 27) = 0x3C2"
  "pocsag_syndrome (2 ^ 28) = 0xED"
  "pocsag_syndrome (2 ^ 29) = 0x1DA"
  "pocsag_syndrome (2 ^ 30) = 0x3B4"
  by (simp_all add: pocsag_syndrome_def mask_31 gf2_eval)

lemma pocsag_syndrome_columns:
  "columns pocsag_syndrome 10 31 = [
     [True, False, False, True, False, True, True, False, True, True],
     [True, True, False, True, True, True, False, True, True, False],
     [False, True, True, False, True, True, True, False, True, True],
     [True, False, True, False, False, False, False, True, True, False],
     [False, True, False, True, False, False, False, False, True, True],
     [True, False, True, True, True, True, True, False, True, False],
     [False, True, False, True, True, True, True, True, False, True],
     [True, False, True, True, True, False, False, True, False, True],
     [True, True, False, False, True, False, True, False, False, True],
     [True, True, True, True, False, False, True, True, True, True],
     [True, True, True, False, True, True, True, True, False, False],
     [False, True, True, True, False, True, True, True, True, False],
     [False, False, True, True, True, False, True, True, True, True],
     [True, False, False, False, True, False, True, True, False, False],
     [False, True, False, False, False, True, False, True, True, False],
     [False, False, True, False, False, False, True, False, True, True],
     [True, False, False, False, False, True, True, True, True, False],
     [False, True, False, False, False, False, True, True, True, True],
     [True, False, True, True, False, True, True, True, False, False],
     [False, True, False, True, True, False, True, True, True, False],
     [False, False, True, False, True, True, False, True, True, True]]"
proof -
  have "[10..<31] = [10, 11, 12, 13, 14, 15, 16, 17, 18, 19, 20, 21, 22, 23, 24, 25, 26, 27, 28, 29, 30 :: nat]"
    by simp
  then show ?thesis
    by (simp only: columns_def list.map pocsag_syndrome_pow) (simp add: bits_of_def upt_from_0)
qed

lemma ermes_syndrome_pow:
  "ermes_syndrome (2 ^ 12) = 0xACD"
  "ermes_syndrome (2 ^ 13) = 0xF57"
  "ermes_syndrome (2 ^ 14) = 0x463"
  "ermes_syndrome (2 ^ 15) = 0x8C6"
  "ermes_syndrome (2 ^ 16) = 0xB41"
  "ermes_syndrome (2 ^ 17) = 0xC4F"
  "ermes_syndrome (2 ^ 18) = 0x253"
  "ermes_syndrome (2 ^ 19) = 0x4A6"
  "ermes_syndrome (2 ^ 20) = 0x94C"
  "ermes_syndrome (2 ^ 21) = 0x855"
  "ermes_syndrome (2 ^ 22) = 0xA67"
  "ermes_syndrome (2 ^ 23) = 0xE03"
  "ermes_syndrome (2 ^ 24) = 0x6CB"
  "ermes_syndrome (2 ^ 25) = 0xD96"
  "ermes_syndrome (2 ^ 26) = 0x1E1"
  "ermes_syndrome (2 ^ 27) = 0x3C2"
  "ermes_syndrome (2 ^ 28) = 0x784"
  "ermes_syndrome (2 ^ 29) = 0xF08"
  by (simp_all add: ermes_syndrome_def mask_12 gf2_eval)

lemma ermes_syndrome_columns:
  "columns ermes_syndrome 12 30 = [
     [True, False, True, True, False, False, True, True, False, True, False, True],
     [True, True, True, False, True, False, True, False, True, True, True, True],
     [True, True, False, False, False, True, True, False, False, False, True, False],
     [False, True, True, False, False, False, True, True, False, False, False, True],
     [True, False, False, False, False, False, True, False, True, True, False, True],
     [True, True, True, True, False, False, True, False, False, False, True, True],
     [True, True, False, False, True, False, True, False, False, True, False, False],
     [False, True, True, False, False, True, False, True, False, False, True, False],
     [False, False, True, True, False, False, True, False, True, False, False, True],
     [True, False, True, False, True, False, True, False, False, False, False, True],
     [True, True, True, False, False, True, True, False, False, True, False, True],
     [True, True, False, False, False, False, False, False, False, True, True, True],
     [True, True, False, True, False, False, True, True, False, True, True, False],
     [False, True, True, False, True, False, False, True, True, False, True, True],
     [True, False, False, False, False, True, True, True, True, False, False, False],
     [False, True, False, False, False, False, True, True, True, True, False, False],
     [False, False, True, False, False, False, False, True, True, True, True, False],
     [False, False, False, True, False, False, False, False, True, True, True, True]]"
proof -
  have "[12..<30] = [12, 13, 14, 15, 16, 17, 18, 19, 20, 21, 22, 23, 24, 25, 26, 27, 28, 29 :: nat]"
    by simp
  then show ?thesis
    by (simp only: columns_def list.map ermes_syndrome_pow) (simp add: bits_of_def upt_from_0)
qed

lemma pocsag_heavy: "heavy 5 (columns pocsag_syndrome 10 31) (replicate 10 False)"
  unfolding pocsag_syndrome_columns
  by (simp only: eval_nat_numeral BitM.simps replicate.simps bit_eval)

lemma ermes_heavy: "heavy 5 (columns ermes_syndrome 12 30) (replicate 12 False)"
  unfolding ermes_syndrome_columns
  by (simp only: eval_nat_numeral BitM.simps replicate.simps bit_eval)

interpretation pocsag: gf2_code pocsag_syndrome 10 31 5
  by unfold_locales (rule pocsag.codeword_heavy [OF pocsag_heavy])

interpretation ermes: gf2_code ermes_syndrome 12 30 5
  by unfold_locales (rule ermes.codeword_heavy [OF ermes_heavy])

section \<open>POCSAG\<close>

lemma pocsag_parity_eq_1: "pocsag_parity w = 1 \<longleftrightarrow> odd (count_ones w)"
proof -
  have "pocsag_parity w = of_bool (odd (count_ones w))"
    by (simp add: pocsag_parity_def and_one_eq mod_2_eq_odd)
  then show ?thesis by simp
qed

lemma pocsag_tables:
  "pocsag_find_bit s = position (\<lambda>v. v = s) (map (\<lambda>i. pocsag_syndrome (2 ^ i)) [0..<31])"
  "pocsag_find_pair s = find_pair_from (map (\<lambda>i. pocsag_syndrome (2 ^ i)) [0..<31]) s 0
     (map (\<lambda>i. pocsag_syndrome (2 ^ i)) [0..<31])"
  by (simp_all add: pocsag_find_bit_def pocsag_find_pair_def pocsag_bit_syndromes_def)

text \<open>The words the encoder makes: field with zero syndrome, even number of ones.\<close>

definition pocsag_codeword :: "u32 \<Rightarrow> bool" where
  "pocsag_codeword w \<longleftrightarrow> pocsag_syndrome (drop_bit 1 w) = 0 \<and> even (count_ones w)"

lemma pocsag_bch_encode_codeword:
  assumes "pocsag_bch_encode d = Inr c"
  shows "pocsag_codeword c" "drop_bit 11 c = d"
proof -
  define field where "field = push_bit 10 d"
  define code where "code = field OR pocsag_syndrome field"
  have d: "below 21 d" and c: "c = push_bit 1 code OR pocsag_parity (push_bit 1 code)"
    using assms unfolding pocsag_bch_encode_def Let_def field_def [symmetric] code_def [symmetric]
    by (auto simp: drop_bit_eq_0_iff_below split: if_splits)
  have "field AND mask 10 = 0"
    by (rule bit_word_eqI) (auto simp: field_def bit_and_iff bit_push_bit_iff bit_mask_iff)
  then have syn: "pocsag_syndrome code = 0" unfolding code_def by (rule pocsag.syn_encode)
  have "below 31 field" using below_push_bit [OF d, of 10] by (simp add: field_def)
  then have "below 31 code"
    using below_mono [OF pocsag.syn_below, of 31] by (auto simp: code_def)
  then have undo: "drop_bit 1 (push_bit 1 code) = code" by (intro drop_bit_push_bit) simp
  have par: "bit (pocsag_parity w) i \<longleftrightarrow> i = 0 \<and> odd (count_ones w)" for w i
    by (auto simp: pocsag_parity_def bit_and_iff bit_of_nat_iff bit_0)
  have high: "drop_bit 1 c = code"
  proof (rule bit_word_eqI)
    fix i
    have "bit (drop_bit 1 c) i = bit (drop_bit 1 (push_bit 1 code)) i"
      unfolding c bit_drop_bit_eq by (simp add: bit_or_iff par)
    then show "bit (drop_bit 1 c) i = bit code i" by (simp only: undo)
  qed
  have low: "bit c 0 \<longleftrightarrow> odd (count_ones (push_bit 1 code))"
    by (simp add: c par bit_or_iff bit_push_bit_iff)
  have "count_ones (push_bit 1 code) = count_ones code"
    using count_ones_low_bit [of "push_bit 1 code"] unfolding undo by (simp add: bit_push_bit_iff)
  then have "even (count_ones c)"
    using low high count_ones_low_bit [of c] by simp
  with syn high show "pocsag_codeword c" by (simp add: pocsag_codeword_def)
  have "i < 21" if "bit d i" for i using d that by (metis belowD not_le)
  then have "drop_bit 10 code = d"
    using pocsag.syn_below [of field]
    by (intro bit_word_eqI)
      (force simp: code_def field_def bit_drop_bit_eq bit_or_iff bit_push_bit_iff below_def)
  then have "drop_bit 10 (drop_bit 1 c) = d" by (simp only: high)
  then show "drop_bit 11 c = d" by (simp add: drop_bit_drop_bit)
qed

text \<open>What the decoder sees of an error: the syndrome of its field and its parity.\<close>

lemma pocsag_received:
  assumes "pocsag_codeword c"
  shows "pocsag_syndrome (drop_bit 1 (c XOR e)) = pocsag_syndrome (drop_bit 1 e)"
    and "pocsag_parity (c XOR e) = 1 \<longleftrightarrow> odd (count_ones e)"
  using assms
  by (simp_all add: pocsag_codeword_def drop_bit_xor_word pocsag.syn_xor pocsag_parity_eq_1
      odd_count_ones_xor)

text \<open>An error is the error of its field and that of the parity bit.\<close>

lemma pocsag_error_eqI:
  fixes c e x :: u32
  assumes "drop_bit 1 x = drop_bit 1 e" "bit x 0 = bit e 0"
  shows "(c XOR e) XOR x = c"
proof -
  have "x = e" using assms by (rule word_low_bit_eqI)
  then show ?thesis by simp
qed

text \<open>Errors of weight at most two are corrected, errors of weight three are refused.\<close>

lemma pocsag_bch_decode_correct:
  assumes c: "pocsag_codeword c" and e: "count_ones e \<le> 2"
  shows "pocsag_bch_decode (c XOR e) = Some (c, count_ones e)"
proof -
  define f where "f = drop_bit 1 e"
  have fe: "drop_bit (Suc 0) e = f" by (simp add: f_def)
  have f31: "below 31 f" by (simp add: f_def below_drop_bit [of 32])
  have cnt: "count_ones e = count_ones f + (if bit e 0 then 1 else 0)"
    unfolding f_def by (rule count_ones_low_bit)
  note dec = pocsag_bch_decode_def [of "c XOR e", unfolded Let_def pocsag_received [OF c, of e, folded f_def]]
  have nz: "f \<noteq> 0 \<Longrightarrow> pocsag_syndrome f \<noteq> 0"
    using f31 e cnt by (intro pocsag.syn_nonzero) simp_all
  have lt: "i < 31" if "bit f i" for i using f31 that by (metis belowD not_le)
  have "count_ones f \<le> 2" using cnt e by simp
  then show ?thesis
  proof (cases rule: light2_word_cases)
    case zero
    have "e = (if bit e 0 then 1 else 0)"
      by (rule word_low_bit_eqI) (use zero [unfolded f_def] in \<open>auto simp: bit_0\<close>)
    with zero cnt show ?thesis
      unfolding dec by (auto split: if_splits)
  next
    case (one b)
    then have b: "b < 31" "count_ones f = 1" using lt by (auto simp: one)
    then have nz': "pocsag_syndrome f \<noteq> 0" using nz by fastforce
    have "pocsag_find_bit (pocsag_syndrome f) = Some b"
      unfolding pocsag_tables one(2) using b by (intro pocsag.bit_lookup_hit) simp_all
    moreover have "odd (count_ones e) \<longleftrightarrow> \<not> bit e 0" using cnt b by simp
    moreover have "(c XOR e) XOR (2 ^ Suc b OR (if bit e 0 then 1 else 0)) = c"
      by (rule pocsag_error_eqI)
        (auto simp: drop_bit_or drop_bit_two_pow_Suc b fe one bit_or_iff simp del: power_Suc)
    ultimately show ?thesis
      unfolding dec using nz' cnt b by (auto simp del: power_Suc)
  next
    case (two a b)
    then have ab: "a < 31" "b < 31" using lt [of b] by simp_all
    have f2: "count_ones f = 2" using two ab
      by (simp add: count_ones_xor_disjoint)
    then have nz': "pocsag_syndrome f \<noteq> 0" using nz by fastforce
    from f2 have e0: "\<not> bit e 0" "even (count_ones e)" "count_ones e = 2"
      using cnt e by (auto split: if_splits)
    have "pocsag_find_bit (pocsag_syndrome f) = None"
      unfolding pocsag_tables using f31 f2 by (intro pocsag.bit_lookup_miss) simp_all
    moreover have "pocsag_find_pair (pocsag_syndrome f) = Some (a, b)"
      unfolding pocsag_tables two(3) using two ab by (intro pocsag.pair_lookup) simp_all
    moreover have "(c XOR e) XOR (2 ^ Suc a XOR 2 ^ Suc b) = c"
      by (rule pocsag_error_eqI)
        (simp_all add: drop_bit_xor_word drop_bit_two_pow_Suc ab fe two(3)
          bit_xor_iff e0 del: power_Suc)
    ultimately show ?thesis
      unfolding dec using nz' f2 e0 by (auto simp: xor.assoc simp del: power_Suc xor_eq_left_iff)
  qed
qed

lemma pocsag_bch_decode_refuse:
  assumes c: "pocsag_codeword c" and e: "count_ones e = 3"
  shows "pocsag_bch_decode (c XOR e) = None"
proof -
  define f where "f = drop_bit 1 e"
  have f31: "below 31 f" by (simp add: f_def below_drop_bit [of 32])
  have cnt: "count_ones e = count_ones f + (if bit e 0 then 1 else 0)"
    unfolding f_def by (rule count_ones_low_bit)
  then have f: "count_ones f + 1 < 5" "count_ones f \<noteq> 1" "f \<noteq> 0" using e by (auto split: if_splits)
  have "pocsag_syndrome f \<noteq> 0"
    using f31 f by (intro pocsag.syn_nonzero) simp_all
  moreover have "pocsag_find_bit (pocsag_syndrome f) = None"
    unfolding pocsag_tables using f31 f by (intro pocsag.bit_lookup_miss)
  ultimately show ?thesis
    using pocsag_received [OF c, of e, folded f_def] e
    by (simp add: pocsag_bch_decode_def Let_def)
qed

section \<open>ERMES\<close>

lemma ermes_table:
  "ermes_bit_syndromes = map (\<lambda>i. ermes_syndrome (2 ^ i)) [0..<30]"
  by (simp add: ermes_bit_syndromes_def)

lemma ermes_bch_encode_codeword:
  assumes "ermes_bch_encode d = Inr c"
  shows "ermes_syndrome c = 0" "below 30 c" "drop_bit 12 c = d"
proof -
  define field where "field = push_bit 12 d"
  have d: "below 18 d" and c: "c = field OR ermes_syndrome field"
    using assms unfolding ermes_bch_encode_def Let_def field_def
    by (auto simp: drop_bit_eq_0_iff_below split: if_splits)
  have "field AND mask 12 = 0"
    by (rule bit_word_eqI) (auto simp: field_def bit_and_iff bit_push_bit_iff bit_mask_iff)
  then show "ermes_syndrome c = 0" unfolding c by (rule ermes.syn_encode)
  have "below 30 field" using below_push_bit [OF d, of 12] by (simp add: field_def)
  then show "below 30 c"
    unfolding c using below_mono [OF ermes.syn_below, of 30] by auto
  have "i < 18" if "bit d i" for i using d that by (metis belowD not_le)
  then show "drop_bit 12 c = d"
    unfolding c using ermes.syn_below [of field]
    by (intro bit_word_eqI) (force simp: field_def bit_drop_bit_eq bit_or_iff bit_push_bit_iff below_def)
qed

lemma ermes_bch_decode_correct:
  assumes c: "ermes_syndrome c = 0" "below 30 c" and e: "below 30 e" "count_ones e \<le> 2"
  shows "ermes_bch_decode (c XOR e) = Some (c, count_ones e)"
proof -
  have word: "(c XOR e) AND mask 30 = c XOR e" using c(2) e(1) by simp
  have syndrome: "ermes_syndrome (c XOR e) = ermes_syndrome e" using c(1) by (simp add: ermes.syn_xor)
  note dec = ermes_bch_decode_def [of "c XOR e", unfolded Let_def word syndrome]
  have lt: "i < 30" if "bit e i" for i using e(1) that by (metis belowD not_le)
  have nz: "ermes_syndrome e \<noteq> 0" if "e \<noteq> 0"
    using e that by (intro ermes.syn_nonzero) simp_all
  show ?thesis
    using e(2)
  proof (cases rule: light2_word_cases)
    case zero
    then show ?thesis unfolding dec by simp
  next
    case (one b)
    then have b: "b < 30" "e \<noteq> 0" using lt by auto
    have "position (\<lambda>value. value = ermes_syndrome e) ermes_bit_syndromes = Some b"
      unfolding ermes_table one(2) using b by (intro ermes.bit_lookup_hit) simp_all
    then show ?thesis using nz [OF b(2)] one b(1) unfolding dec by simp
  next
    case (two a b)
    then have ab: "a < 30" "b < 30" "e \<noteq> 0" using lt [of b] by auto
    have e2: "count_ones e = 2" using two ab by (simp add: count_ones_xor_disjoint)
    have "position (\<lambda>value. value = ermes_syndrome e) ermes_bit_syndromes = None"
      unfolding ermes_table using e e2 by (intro ermes.bit_lookup_miss) simp_all
    moreover have "find_pair_from ermes_bit_syndromes (ermes_syndrome e) 0 ermes_bit_syndromes = Some (a, b)"
      unfolding ermes_table two(3) using two ab by (intro ermes.pair_lookup) simp_all
    moreover have "((c XOR e) XOR 2 ^ a) XOR 2 ^ b = c"
      unfolding two(3) by (simp only: xor.assoc xor.left_commute [of "2 ^ b" "2 ^ a"] xor_left_self xor_self_eq xor.right_neutral)
    ultimately show ?thesis using nz [OF ab(3)] e2 unfolding dec by simp
  qed
qed

section \<open>Properties\<close>

text \<open>A codeword of each code, for the witnesses.\<close>

lemma pocsag_example: "pocsag_bch_encode 0x155555 = Inr 0xAAAAAF1B"
proof -
  have syn: "pocsag_syndrome 0x55555400 = 0x38D" by (simp add: pocsag_syndrome_def mask_31 gf2_eval)
  have par: "pocsag_parity 0xAAAAAF1A = 1" by (simp add: pocsag_parity_def count_ones_def upt_from_0)
  show ?thesis by (simp add: pocsag_bch_encode_def syn par)
qed

lemma ermes_example: "ermes_bch_encode 0x2AAAA = Inr 0x2AAAA872"
proof -
  have syn: "ermes_syndrome 0x2AAAA000 = 0x872" by (simp add: ermes_syndrome_def mask_12 gf2_eval)
  show ?thesis by (simp add: ermes_bch_encode_def syn)
qed

text \<open>
  C6: a POCSAG codeword hit by at most two bit errors, anywhere in its 32 bits, is decoded to the
  codeword that was sent, with the number of errors, and its 21 leading bits are the message.
\<close>

theorem pocsag_corrects_two:
  assumes "pocsag_bch_encode d = Inr c" and "count_ones e \<le> 2"
  shows "pocsag_bch_decode (c XOR e) = Some (c, count_ones e) \<and> drop_bit 11 c = d"
  using pocsag_bch_encode_codeword [OF assms(1)] pocsag_bch_decode_correct [OF _ assms(2)] by blast

theorem pocsag_corrects_two_witness:
  "pocsag_bch_encode 0x155555 = Inr 0xAAAAAF1B \<and>
     pocsag_bch_decode (0xAAAAAF1B XOR 0x80000001) = Some (0xAAAAAF1B, 2)"
proof -
  note enc = pocsag_example
  have two: "count_ones (0x80000001 :: u32) = 2" by (simp add: count_ones_def upt_from_0)
  show ?thesis using enc pocsag_corrects_two [OF enc, of "0x80000001"] two by simp
qed

text \<open>
  three bit errors in a POCSAG codeword are never taken for fewer: the decoder refuses the word.
\<close>

theorem pocsag_refuses_three:
  assumes "pocsag_bch_encode d = Inr c" and "count_ones e = 3"
  shows "pocsag_bch_decode (c XOR e) = None"
  using pocsag_bch_encode_codeword [OF assms(1)] pocsag_bch_decode_refuse [OF _ assms(2)] by blast

theorem pocsag_refuses_three_witness:
  "pocsag_bch_encode 0x155555 = Inr 0xAAAAAF1B \<and> pocsag_bch_decode (0xAAAAAF1B XOR 0x80010001) = None"
proof -
  note enc = pocsag_example
  have three: "count_ones (0x80010001 :: u32) = 3" by (simp add: count_ones_def upt_from_0)
  show ?thesis using enc pocsag_refuses_three [OF enc three] by simp
qed

text \<open>
  an ERMES codeword hit by at most two errors in its 30 bits is decoded to the codeword that
  was sent, with the number of errors, and its 18 leading bits are the information.
\<close>

theorem ermes_corrects_two:
  assumes "ermes_bch_encode d = Inr c" and "below 30 e" and "count_ones e \<le> 2"
  shows "ermes_bch_decode (c XOR e) = Some (c, count_ones e) \<and> drop_bit 12 c = d"
  using ermes_bch_encode_codeword [OF assms(1)] ermes_bch_decode_correct [OF _ _ assms(2,3)] by blast

theorem ermes_corrects_two_witness:
  "ermes_bch_encode 0x2AAAA = Inr 0x2AAAA872 \<and>
     ermes_bch_decode (0x2AAAA872 XOR 0x20000001) = Some (0x2AAAA872, 2)"
proof -
  note enc = ermes_example
  have two: "count_ones (0x20000001 :: u32) = 2" by (simp add: count_ones_def upt_from_0)
  have low: "below 30 (0x20000001 :: u32)" by (simp add: below_iff_unat)
  show ?thesis using enc ermes_corrects_two [OF enc low] two by simp
qed

end
