(* ===== verification/Rds_Code.thy ===== *)
theory Rds_Code
  imports Gf2_Codes
begin

text \<open>
  The RDS block code of \<open>crates/dsp/src/fec.rs\<close>: 16 data bits, 10 check bits, an offset word that
  tells the four blocks of a group apart, and a table that corrects bursts of up to five bits.
\<close>

section \<open>Definitions\<close>

datatype RdsOffset = OffsetA | OffsetB | OffsetC | OffsetCPrime | OffsetD

fun offset_word :: "RdsOffset \<Rightarrow> u16" where
  "offset_word OffsetA = 0x0FC"
| "offset_word OffsetB = 0x198"
| "offset_word OffsetC = 0x168"
| "offset_word OffsetCPrime = 0x350"
| "offset_word OffsetD = 0x1B4"

definition rds_syndrome :: "u32 \<Rightarrow> u16" where
  "rds_syndrome block = ucast (gf2_divide 0x5B9 10 16 (block AND mask 26))"

text \<open>One visit of the table's inner loop: a vector that fits in the block claims its syndrome, and a
  syndrome claimed by two vectors is marked ambiguous.\<close>

definition rds_claim :: "u32 list \<Rightarrow> u32 \<Rightarrow> u32 list" where
  "rds_claim table vector =
     (if drop_bit 26 vector = 0 then
        let at = unat (rds_syndrome vector) in
        if table ! at = 0 then table[at := vector]
        else if table ! at \<noteq> vector then table[at := 0xFFFFFFFF]
        else table
      else table)"

definition rds_vectors :: "u32 list" where
  "rds_vectors = concat (map (\<lambda>shift. map (\<lambda>pattern. push_bit shift (word_of_nat pattern)) [1..<32]) [0..<26])"

definition rds_burst_table :: "u32 list" where
  "rds_burst_table = foldl rds_claim (replicate 1024 0) rds_vectors"

definition rds_check_block :: "u32 \<Rightarrow> RdsOffset \<Rightarrow> u16 option" where
  "rds_check_block block offset =
     (if rds_syndrome block = offset_word offset then Some (ucast (drop_bit 10 block)) else None)"

definition rds_correct_block :: "u32 \<Rightarrow> RdsOffset \<Rightarrow> (u16 \<times> nat) option" where
  "rds_correct_block block offset =
     (let syndrome = rds_syndrome block XOR offset_word offset in
      if syndrome = 0 then Some (ucast (drop_bit 10 block), 0)
      else if unat syndrome < length rds_burst_table then
        (let vector = rds_burst_table ! unat syndrome in
         if vector = 0 \<or> vector = 0xFFFFFFFF then None
         else Some (ucast (drop_bit 10 (block XOR vector)), count_ones vector))
      else None)"

definition rds_encode_block :: "u16 \<Rightarrow> RdsOffset \<Rightarrow> u32" where
  "rds_encode_block data offset =
     (let payload = push_bit 10 (ucast data)
      in payload OR ucast (rds_syndrome payload XOR offset_word offset))"

section \<open>The syndrome\<close>

text \<open>The remainder before it is narrowed to sixteen bits.\<close>

definition rds_remainder :: "u32 \<Rightarrow> u32" where
  "rds_remainder block = gf2_divide 0x5B9 10 16 (block AND mask 26)"

interpretation rds: gf2_syndrome rds_remainder 10 26
proof
  fix a b w :: u32
  show "rds_remainder (a XOR b) = rds_remainder a XOR rds_remainder b"
    by (simp only: rds_remainder_def and_xor_distrib gf2_divide_xor)
  show "below 10 (rds_remainder w)"
    unfolding rds_remainder_def
  proof (rule gf2_divide_below)
    show "below (Suc 10) (0x5B9 :: u32)" by (simp add: below_iff_unat)
  qed simp_all
  show "rds_remainder w = w" if "below 10 w"
    using that by (simp add: rds_remainder_def gf2_divide_low below_mono [of 10 w 26])
qed simp_all

lemma rds_syndrome_eq: "rds_syndrome w = ucast (rds_remainder w)"
  by (simp add: rds_syndrome_def rds_remainder_def)

lemma rds_syndrome_xor: "rds_syndrome (a XOR b) = rds_syndrome a XOR rds_syndrome b"
  by (simp only: rds_syndrome_eq rds.syn_xor ucast_xor)

lemma rds_syndrome_inj: "rds_syndrome a = rds_syndrome b \<longleftrightarrow> rds_remainder a = rds_remainder b"
proof
  assume eq: "rds_syndrome a = rds_syndrome b"
  show "rds_remainder a = rds_remainder b"
  proof (rule bit_word_eqI)
    fix i
    have "bit (rds_remainder w) i \<longleftrightarrow> i < 10 \<and> bit (rds_syndrome w) i" for w
      using rds.syn_below [of w] by (cases "i < 10") (auto simp: rds_syndrome_eq bit_ucast_iff belowD)
    then show "bit (rds_remainder a) i = bit (rds_remainder b) i" using eq by simp
  qed
qed (simp add: rds_syndrome_eq)

lemma rds_syndrome_lt: "unat (rds_syndrome w) < 1024"
proof -
  have "below 10 (rds_syndrome w)"
    using rds.syn_below [of w] by (auto simp: rds_syndrome_eq below_def bit_ucast_iff)
  then show ?thesis by (simp add: below_iff_unat)
qed

section \<open>Bursts\<close>

lemma rds_remainder_pow:
  "rds_remainder (2 ^ 1) = 0x2"
  "rds_remainder (2 ^ 2) = 0x4"
  "rds_remainder (2 ^ 3) = 0x8"
  "rds_remainder (2 ^ 4) = 0x10"
  "rds_remainder (2 ^ 5) = 0x20"
  "rds_remainder (2 ^ 6) = 0x40"
  "rds_remainder (2 ^ 7) = 0x80"
  "rds_remainder (2 ^ 8) = 0x100"
  "rds_remainder (2 ^ 9) = 0x200"
  "rds_remainder (2 ^ 10) = 0x1B9"
  "rds_remainder (2 ^ 11) = 0x372"
  "rds_remainder (2 ^ 12) = 0x35D"
  "rds_remainder (2 ^ 13) = 0x303"
  "rds_remainder (2 ^ 14) = 0x3BF"
  "rds_remainder (2 ^ 15) = 0x2C7"
  "rds_remainder (2 ^ 16) = 0x37"
  "rds_remainder (2 ^ 17) = 0x6E"
  "rds_remainder (2 ^ 18) = 0xDC"
  "rds_remainder (2 ^ 19) = 0x1B8"
  "rds_remainder (2 ^ 20) = 0x370"
  "rds_remainder (2 ^ 21) = 0x359"
  "rds_remainder (2 ^ 22) = 0x30B"
  "rds_remainder (2 ^ 23) = 0x3AF"
  "rds_remainder (2 ^ 24) = 0x2E7"
  "rds_remainder (2 ^ 25) = 0x77"
  by (simp_all add: rds_remainder_def mask_eq_exp_minus_1 gf2_eval)

text \<open>Moving a word up commutes with the division, and no syndrome is lost by it.\<close>

lemma rds_remainder_shift:
  assumes "below 25 w"
  shows "rds_remainder (push_bit 1 w) = rds_remainder (push_bit 1 (rds_remainder w))"
proof (rule additive_eqI [OF _ _ _ assms])
  have upt: "[0..<25] = [0, Suc 0, 2, 3, 4, 5, 6, 7, 8, 9, 10, 11, 12, 13, 14, 15, 16, 17, 18, 19, 20, 21, 22, 23, 24]"
    by (simp add: upt_from_0)
  have "list_all (\<lambda>i. rds_remainder (push_bit 1 (2 ^ i)) = rds_remainder (push_bit 1 (rds_remainder (2 ^ i)))) [0..<25]"
    by (simp only: upt list.pred_inject) (simp add: rds_remainder_def mask_eq_exp_minus_1 gf2_eval)
  then show "rds_remainder (push_bit 1 (2 ^ i)) = rds_remainder (push_bit 1 (rds_remainder (2 ^ i)))"
    if "i < 25" for i using that by (simp add: list_all_iff)
qed (simp_all add: rds.syn_xor push_bit_xor)

lemma rds_remainder_unshift1:
  assumes "below 25 w" "rds_remainder (push_bit 1 w) = 0"
  shows "rds_remainder w = 0"
proof -
  define r where "r = rds_remainder w"
  have r: "below 10 r" unfolding r_def by (rule rds.syn_below)
  define m where "m = r AND mask 9"
  have "r = m XOR (if bit r 9 then 2 ^ 9 else 0)"
    using and_mask_below [OF r] and_mask_Suc [of r 9] by (simp add: m_def)
  from arg_cong [OF this, of "push_bit 1"]
  have split: "push_bit 1 r = push_bit 1 m XOR (if bit r 9 then 2 ^ 10 else 0)"
    unfolding push_bit_xor by (cases "bit r 9") simp_all
  have low: "below 10 (push_bit 1 m)"
    unfolding m_def using below_push_bit [OF below_mask [of 9 r], of 1] by simp
  have z: "rds_remainder (push_bit 1 r) = 0"
    using assms(2) rds_remainder_shift [OF assms(1)] by (simp add: r_def)
  have p10: "rds_remainder 1024 = 0x1B9" using rds_remainder_pow by simp
  show ?thesis
  proof (cases "bit r 9")
    case True
    then have "push_bit 1 m = 0x1B9"
      using z split p10 rds.syn_low [OF low] by (simp add: rds.syn_xor)
    then have "bit (push_bit 1 m) 0" by simp
    then show ?thesis by (simp add: bit_push_bit_iff)
  next
    case False
    then have "push_bit 1 r = 0" using z split low by (simp add: rds.syn_low)
    moreover have "below 31 r" using r by (rule below_mono) simp
    ultimately have "r = 0" using drop_bit_push_bit [of 1 r] by simp
    then show ?thesis by (simp add: r_def)
  qed
qed

lemma rds_remainder_unshift:
  assumes "below m a" "below m b" "m + s \<le> 26" "rds_remainder (push_bit s a) = rds_remainder (push_bit s b)"
  shows "rds_remainder a = rds_remainder b"
proof -
  have "rds_remainder (push_bit s w) = 0 \<Longrightarrow> below m w \<Longrightarrow> m + s \<le> 26 \<Longrightarrow> rds_remainder w = 0" for w
  proof (induction s)
    case (Suc s)
    have "below 25 (push_bit s w)"
      using below_push_bit [OF Suc.prems(2), of s] Suc.prems(3) by (auto intro: below_mono)
    then show ?case
      using Suc rds_remainder_unshift1 [of "push_bit s w"] by simp
  qed simp
  from this [of "a XOR b"] show ?thesis
    using assms by (simp add: push_bit_xor rds.syn_xor)
qed

text \<open>An odd five-bit pattern that is moved up never divides to an odd five-bit pattern.\<close>

lemma rds_burst_apart:
  fixes q :: u32
  assumes "0 < k" "k < 26" "below 5 q" "bit q 0"
  shows "\<not> (below 5 (rds_remainder (push_bit k q)) \<and> bit (rds_remainder (push_bit k q)) 0)"
proof -
  define apart where "apart r \<longleftrightarrow> drop_bit 5 r \<noteq> 0 \<or> \<not> bit r 0" for r :: u32
  define col where "col i = rds_remainder (2 ^ i)" for i
  have cols: "col (Suc 0) = 0x2"
    "col 2 = 0x4"
    "col 3 = 0x8"
    "col 4 = 0x10"
    "col 5 = 0x20"
    "col 6 = 0x40"
    "col 7 = 0x80"
    "col 8 = 0x100"
    "col 9 = 0x200"
    "col 10 = 0x1B9"
    "col 11 = 0x372"
    "col 12 = 0x35D"
    "col 13 = 0x303"
    "col 14 = 0x3BF"
    "col 15 = 0x2C7"
    "col 16 = 0x37"
    "col 17 = 0x6E"
    "col 18 = 0xDC"
    "col 19 = 0x1B8"
    "col 20 = 0x370"
    "col 21 = 0x359"
    "col 22 = 0x30B"
    "col 23 = 0x3AF"
    "col 24 = 0x2E7"
    "col 25 = 0x77"
    "col 26 = 0" "col 27 = 0" "col 28 = 0" "col 29 = 0"
    using rds_remainder_pow by (simp_all add: col_def rds_remainder_def mask_eq_exp_minus_1)
  have split: "q = (((1 XOR (if bit q 1 then 2 else 0)) XOR (if bit q 2 then 4 else 0)) XOR
      (if bit q 3 then 8 else 0)) XOR (if bit q 4 then 16 else 0)"
  proof -
    have "q AND mask 5 = (q AND mask 4) XOR (if bit q 4 then 16 else 0)"
      "q AND mask 4 = (q AND mask 3) XOR (if bit q 3 then 8 else 0)"
      "q AND mask 3 = (q AND mask 2) XOR (if bit q 2 then 4 else 0)"
      using and_mask_Suc [of q 4] and_mask_Suc [of q 3] and_mask_Suc [of q 2] by simp_all
    moreover have "q AND mask 2 = (q AND mask 1) XOR (if bit q 1 then 2 else 0)"
      using and_mask_Suc [of q 1] by (simp add: numeral_2_eq_2)
    moreover have "q AND mask 1 = 1"
      using and_mask_Suc [of q 0] assms(4) by simp
    ultimately show ?thesis using and_mask_below [OF assms(3)] by simp
  qed
  define all_apart where "all_apart k \<longleftrightarrow> (\<forall>b1 b2 b3 b4. apart ((((col k XOR (if b1 then col (k + 1) else 0)) XOR
      (if b2 then col (k + 2) else 0)) XOR (if b3 then col (k + 3) else 0)) XOR
      (if b4 then col (k + 4) else 0)))" for k
  have r: "rds_remainder (push_bit k q) = (((col k XOR (if bit q 1 then col (k + 1) else 0)) XOR
      (if bit q 2 then col (k + 2) else 0)) XOR (if bit q 3 then col (k + 3) else 0)) XOR
      (if bit q 4 then col (k + 4) else 0)"
  proof -
    have "rds_remainder (push_bit k 1) = col k"
      "rds_remainder (push_bit k (if b then 2 else 0)) = (if b then col (k + 1) else 0)"
      "rds_remainder (push_bit k (if b then 4 else 0)) = (if b then col (k + 2) else 0)"
      "rds_remainder (push_bit k (if b then 8 else 0)) = (if b then col (k + 3) else 0)"
      "rds_remainder (push_bit k (if b then 16 else 0)) = (if b then col (k + 4) else 0)" for b
      by (simp_all add: col_def push_bit_eq_mult power_add mult.commute)
    then show ?thesis by (subst split) (simp only: push_bit_xor rds.syn_xor)
  qed
  have "list_all all_apart
    [1, 2, 3, 4, 5, 6, 7, 8, 9, 10, 11, 12, 13, 14, 15, 16, 17, 18, 19, 20, 21, 22, 23, 24, 25]"
    by (simp only: list.pred_inject all_apart_def all_bool_eq if_True if_False)
      (simp add: cols cols(2,3) [unfolded eval_nat_numeral BitM.simps] apart_def)
  moreover have "k \<in> set [1..<26]" using assms by simp
  then have "k \<in> set [1, 2, 3, 4, 5, 6, 7, 8, 9, 10, 11, 12, 13, 14, 15, 16, 17, 18, 19, 20, 21, 22, 23, 24, 25]"
    by (simp add: upt_from_0)
  ultimately have "all_apart k" by (simp only: list_all_iff)
  then have "apart (rds_remainder (push_bit k q))" unfolding r all_apart_def by blast
  then show ?thesis by (auto simp: apart_def drop_bit_eq_0_iff_below)
qed

text \<open>A burst: its ones lie within five consecutive positions of the block.\<close>

definition rds_burst :: "u32 \<Rightarrow> bool" where
  "rds_burst v \<longleftrightarrow> v \<noteq> 0 \<and> below 26 v \<and> (\<exists>s. \<forall>i. bit v i \<longrightarrow> s \<le> i \<and> i < s + 5)"

lemma rds_burst_normal:
  assumes "rds_burst v"
  obtains s p where "s < 26" "below 5 p" "bit p 0" "v = push_bit s p" "below (26 - s) p"
proof -
  obtain s0 where s0: "\<And>i. bit v i \<Longrightarrow> s0 \<le> i \<and> i < s0 + 5"
    using assms unfolding rds_burst_def by blast
  define s where "s = (LEAST i. bit v i)"
  have "\<exists>i. bit v i" using assms by (auto simp: rds_burst_def bit_eq_iff)
  then have s: "bit v s" and least: "\<And>i. bit v i \<Longrightarrow> s \<le> i"
    by (auto simp: s_def intro: LeastI_ex Least_le)
  have lt: "\<And>i. bit v i \<Longrightarrow> i < 26"
    using assms by (auto simp: rds_burst_def below_def) (metis not_le)
  let ?p = "drop_bit s v"
  have "v = push_bit s ?p"
  proof (rule bit_word_eqI)
    fix i
    show "bit v i = bit (push_bit s ?p) i" if "i < LENGTH(32)"
      using that least [of i] by (cases "s \<le> i") (auto simp: bit_push_bit_iff bit_drop_bit_eq)
  qed
  moreover have "below 5 ?p"
    using s0 [OF s] by (auto simp: below_def bit_drop_bit_eq dest: s0)
  moreover have "below (26 - s) ?p"
    by (auto simp: below_def bit_drop_bit_eq dest!: lt)
  moreover have "bit ?p 0" using s by (simp add: bit_drop_bit_eq)
  ultimately show thesis using lt [OF s] that by blast
qed

lemma rds_remainder_low5: "below 5 p \<Longrightarrow> rds_remainder p = p"
  by (rule rds.syn_low, erule below_mono) simp

lemma rds_burst_same_aux:
  assumes "s \<le> t" "t < 26" and p: "below 5 p" "bit p 0" "below (26 - s) p"
    and q: "below 5 q" "bit q 0" "below (26 - t) q"
    and eq: "rds_remainder (push_bit s p) = rds_remainder (push_bit t q)"
  shows "push_bit s p = push_bit t q"
proof -
  have t: "push_bit t q = push_bit s (push_bit (t - s) q)"
    using assms(1) by simp
  have qs: "below (26 - s) (push_bit (t - s) q)"
    using below_push_bit [OF q(3), of "t - s"] assms(1,2) by simp
  have "26 - s + s \<le> 26" using assms(1,2) by simp
  from rds_remainder_unshift [OF p(3) qs this]
  have r: "rds_remainder p = rds_remainder (push_bit (t - s) q)"
    using eq by (simp only: t [symmetric])
  have lp: "rds_remainder p = p" using p(1) by (rule rds_remainder_low5)
  have "t = s"
  proof (rule ccontr)
    assume "t \<noteq> s"
    then have "0 < t - s" "t - s < 26" using assms(1,2) by auto
    from rds_burst_apart [OF this q(1,2)] show False using r lp p by simp
  qed
  moreover have "rds_remainder q = q" using q(1) by (rule rds_remainder_low5)
  ultimately show ?thesis using r lp by simp
qed

lemma rds_burst_same:
  assumes "rds_burst a" "rds_burst b" "rds_syndrome a = rds_syndrome b"
  shows "a = b"
proof -
  obtain s p where a: "s < 26" "below 5 p" "bit p 0" "a = push_bit s p" "below (26 - s) p"
    using assms(1) by (rule rds_burst_normal)
  obtain t q where b: "t < 26" "below 5 q" "bit q 0" "b = push_bit t q" "below (26 - t) q"
    using assms(2) by (rule rds_burst_normal)
  have eq: "rds_remainder (push_bit s p) = rds_remainder (push_bit t q)"
    using assms(3) a(4) b(4) by (simp add: rds_syndrome_inj)
  show ?thesis
  proof (cases "s \<le> t")
    case True
    then show ?thesis
      using rds_burst_same_aux [OF True b(1) a(2,3,5) b(2,3,5) eq] a(4) b(4) by simp
  next
    case False
    then show ?thesis
      using rds_burst_same_aux [of t s, OF _ a(1) b(2,3,5) a(2,3,5) eq [symmetric]] a(4) b(4) by simp
  qed
qed

lemma rds_burst_syndrome:
  assumes "rds_burst v"
  shows "rds_syndrome v \<noteq> 0"
proof
  assume z: "rds_syndrome v = 0"
  obtain s p where v: "s < 26" "below 5 p" "bit p 0" "v = push_bit s p" "below (26 - s) p"
    using assms by (rule rds_burst_normal)
  have "rds_remainder (push_bit s p) = rds_remainder (push_bit s 0)"
    using z v(4) rds_syndrome_inj [of v 0] by (simp add: rds_syndrome_eq)
  then have "rds_remainder p = rds_remainder 0"
    using v(1) rds_remainder_unshift [OF v(5), of 0 s] by simp
  moreover have "rds_remainder p = p" using v(2) by (rule rds_remainder_low5)
  ultimately show False using v(3) by simp
qed

section \<open>The burst table\<close>

lemma rds_vectors_fit:
  "{v \<in> set rds_vectors. drop_bit 26 v = 0} = {v. rds_burst v}"
proof (intro equalityI subsetI; elim CollectE conjE)
  fix v assume "v \<in> set rds_vectors" and fit: "drop_bit 26 v = 0"
  then obtain s n where n: "0 < n" "n < 32" and s: "s < 26" and v: "v = push_bit s (word_of_nat n)"
    by (fastforce simp: rds_vectors_def Suc_le_eq)
  have un: "unat (word_of_nat n :: u32) = n" using n(2) by (simp add: unat_of_nat)
  then have low: "below 5 (word_of_nat n :: u32)" using n(2) by (simp add: below_iff_unat)
  have "bit v i \<longrightarrow> s \<le> i \<and> i < s + 5" for i
    using low by (auto simp: v bit_push_bit_iff below_def not_le [symmetric])
  moreover have "v \<noteq> 0"
  proof
    assume "v = 0"
    then have "(word_of_nat n :: u32) = 0"
      using s below_mono [OF low, of "32 - s"] drop_bit_push_bit [of s "word_of_nat n :: u32"]
      by (simp add: v)
    then show False using un n(1) by simp
  qed
  ultimately show "v \<in> {v. rds_burst v}"
    using fit by (auto simp: rds_burst_def drop_bit_eq_0_iff_below)
next
  fix v assume v: "rds_burst v"
  then obtain s p where p: "s < 26" "below 5 p" "bit p 0" "v = push_bit s p" by (rule rds_burst_normal)
  have "unat p < 32" "0 < unat p"
    using p(2,3) by (auto simp: below_iff_unat unat_gt_0)
  then have "p \<in> word_of_nat ` {1..<32}"
    by (intro image_eqI [of _ _ "unat p"]) simp_all
  then show "v \<in> {v \<in> set rds_vectors. drop_bit 26 v = 0}"
    using p(1,4) v by (auto simp: rds_vectors_def rds_burst_def drop_bit_eq_0_iff_below)
qed

lemma length_rds_claim [simp]: "length (rds_claim t v) = length t"
  by (simp add: rds_claim_def Let_def)

text \<open>No two bursts claim the same syndrome, so the table never sees an ambiguity.\<close>

lemma rds_claim_burst:
  assumes "rds_burst v" "length t = 1024" "t ! unat (rds_syndrome v) \<in> {0, v}"
  shows "rds_claim t v = t[unat (rds_syndrome v) := v]"
proof -
  have "drop_bit 26 v = 0" using assms(1) by (simp add: rds_burst_def drop_bit_eq_0_iff_below)
  then show ?thesis
    using assms(3) by (auto simp: rds_claim_def Let_def) (metis list_update_id)
qed

lemma rds_claim_skip: "drop_bit 26 v \<noteq> 0 \<Longrightarrow> rds_claim t v = t"
  by (simp add: rds_claim_def)

lemma rds_claims_aux:
  assumes "set vs \<subseteq> set rds_vectors" "length t = 1024"
    "\<And>v. rds_burst v \<Longrightarrow> t ! unat (rds_syndrome v) \<in> {0, v}"
  shows "foldl rds_claim t vs =
    foldl (\<lambda>t v. t[unat (rds_syndrome v) := v]) t (filter (\<lambda>v. drop_bit 26 v = 0) vs)"
  using assms
proof (induction vs arbitrary: t)
  case (Cons v vs)
  show ?case
  proof (cases "drop_bit 26 v = 0")
    case True
    then have v: "rds_burst v" using Cons.prems(1) rds_vectors_fit by auto
    let ?t = "t[unat (rds_syndrome v) := v]"
    have "?t ! unat (rds_syndrome u) \<in> {0, u}" if "rds_burst u" for u
    proof (cases "unat (rds_syndrome v) = unat (rds_syndrome u)")
      case True
      then have "u = v" using rds_burst_same [OF that v] by (simp add: word_unat_eq_iff)
      then show ?thesis using Cons.prems(2) rds_syndrome_lt [of v] by simp
    next
      case False
      then show ?thesis using Cons.prems(3) [OF that] by simp
    qed
    then show ?thesis
      using True Cons.prems Cons.IH [of ?t] rds_claim_burst [OF v Cons.prems(2) Cons.prems(3) [OF v]]
      by simp
  next
    case False
    then show ?thesis using Cons by (simp add: rds_claim_skip)
  qed
qed simp

lemma rds_burst_table_eq:
  "rds_burst_table = foldl (\<lambda>t v. t[unat (rds_syndrome v) := v]) (replicate 1024 0)
     (filter (\<lambda>v. drop_bit 26 v = 0) rds_vectors)"
  unfolding rds_burst_table_def
  by (rule rds_claims_aux) (simp_all add: rds_syndrome_lt)

lemma length_rds_burst_table [simp]: "length rds_burst_table = 1024"
  by (simp add: rds_burst_table_eq)

lemma set_rds_fit: "set (filter (\<lambda>v. drop_bit 26 v = 0) rds_vectors) = {v. rds_burst v}"
  using rds_vectors_fit by auto

lemma rds_burst_table_hit:
  assumes "rds_burst v"
  shows "rds_burst_table ! unat (rds_syndrome v) = v"
  unfolding rds_burst_table_eq
proof (rule foldl_update_nth)
  show "inj_on (\<lambda>v. unat (rds_syndrome v)) (set (filter (\<lambda>v. drop_bit 26 v = 0) rds_vectors))"
    unfolding set_rds_fit by (auto simp: inj_on_def word_unat_eq_iff [where 'a = 16, symmetric] intro: rds_burst_same)
  show "v \<in> set (filter (\<lambda>v. drop_bit 26 v = 0) rds_vectors)"
    unfolding set_rds_fit using assms by simp
qed (simp add: rds_syndrome_lt)

lemma rds_burst_table_miss:
  assumes "\<And>v. rds_burst v \<Longrightarrow> unat (rds_syndrome v) \<noteq> i" "i < 1024"
  shows "rds_burst_table ! i = 0"
proof -
  have "\<forall>v \<in> set (filter (\<lambda>v. drop_bit 26 v = 0) rds_vectors). unat (rds_syndrome v) \<noteq> i"
    unfolding set_rds_fit using assms(1) by blast
  then show ?thesis
    unfolding rds_burst_table_eq using assms(2) by (simp add: foldl_update_other)
qed

section \<open>Encoding\<close>

lemma below_ucast_u16 [simp]: "below 16 (ucast (d :: u16) :: u32)"
  by (auto simp: below_def bit_ucast_iff bit_imp_le_length dest: bit_imp_le_length)

lemma offset_word_below: "below 10 (offset_word off)"
  by (cases off) (simp_all add: below_iff_unat)

lemma rds_check_bits:
  "below 10 (ucast (rds_syndrome w XOR offset_word off) :: u32)"
proof -
  have "below 10 (rds_syndrome w XOR offset_word off)"
    using rds_syndrome_lt [of w] offset_word_below [of off] by (intro below_xor) (simp_all add: below_iff_unat)
  then show ?thesis by (auto simp: below_def bit_ucast_iff)
qed

lemma rds_encode_block_xor:
  "rds_encode_block data off =
     push_bit 10 (ucast data) XOR ucast (rds_syndrome (push_bit 10 (ucast data)) XOR offset_word off)"
proof -
  have "push_bit 10 (ucast data :: u32) AND w = 0" if "below 10 w" for w :: u32
    using that by (intro bit_word_eqI) (auto simp: bit_and_iff bit_push_bit_iff below_def)
  then show ?thesis
    unfolding rds_encode_block_def Let_def
    by (rule or_eq_xor_disjoint) (rule rds_check_bits)
qed

lemma rds_syndrome_low:
  assumes "below 10 (w :: u32)"
  shows "rds_syndrome w = ucast w"
  using rds.syn_low [OF assms] by (simp add: rds_syndrome_eq)

lemma rds_encode_block_facts:
  shows "rds_syndrome (rds_encode_block data off) = offset_word off"
    and "below 26 (rds_encode_block data off)"
    and "drop_bit 10 (rds_encode_block data off) = ucast data"
proof -
  let ?p = "push_bit 10 (ucast data :: u32)"
  let ?c = "ucast (rds_syndrome ?p XOR offset_word off) :: u32"
  have "rds_syndrome ?c = rds_syndrome ?p XOR offset_word off"
    unfolding rds_syndrome_low [OF rds_check_bits] by (rule ucast_ucast_up) simp
  then show "rds_syndrome (rds_encode_block data off) = offset_word off"
    by (simp add: rds_encode_block_xor rds_syndrome_xor)
  have "below 26 ?p" using below_push_bit [OF below_ucast_u16, of 10] by simp
  moreover have "below 26 ?c" using rds_check_bits by (rule below_mono) simp
  ultimately show "below 26 (rds_encode_block data off)"
    unfolding rds_encode_block_xor by (rule below_xor)
  have "drop_bit 10 ?c = 0" using rds_check_bits by (simp add: drop_bit_eq_0_iff_below)
  moreover have "drop_bit 10 ?p = ucast data"
    using below_mono [OF below_ucast_u16, of 22 data] by (simp add: drop_bit_push_bit)
  ultimately show "drop_bit 10 (rds_encode_block data off) = ucast data"
    by (simp add: rds_encode_block_xor drop_bit_xor_word)
qed

lemma rds_syndrome_mask [simp]: "rds_syndrome (w AND mask 26) = rds_syndrome w"
  by (simp add: rds_syndrome_def)

text \<open>The blocks accepted for an offset are the encoder's blocks for it.\<close>

lemma rds_accepts_iff:
  "rds_syndrome b = offset_word off \<longleftrightarrow> b AND mask 26 = rds_encode_block (ucast (drop_bit 10 b)) off"
proof
  assume eq: "rds_syndrome b = offset_word off"
  let ?e = "rds_encode_block (ucast (drop_bit 10 b)) off" and ?w = "b AND mask 26"
  have "rds_remainder (?w XOR ?e) = 0"
    using eq rds_encode_block_facts(1) [of _ off] rds_syndrome_inj [of ?w ?e]
    by (simp add: rds.syn_xor)
  moreover have "below 10 (?w XOR ?e)"
  proof (rule belowI)
    fix i :: nat assume i: "10 \<le> i"
    have "bit ?e i = bit (drop_bit 10 ?e) (i - 10)" using i by (simp add: bit_drop_bit_eq)
    also have "\<dots> \<longleftrightarrow> bit b i \<and> i < 26"
      using i unfolding rds_encode_block_facts(3) by (auto simp: bit_ucast_iff bit_drop_bit_eq)
    finally show "\<not> bit (?w XOR ?e) i"
      by (auto simp: bit_xor_iff bit_and_iff bit_mask_iff)
  qed
  ultimately have "?w XOR ?e = 0" using rds.syn_low by metis
  then show "?w = ?e" by simp
next
  assume "b AND mask 26 = rds_encode_block (ucast (drop_bit 10 b)) off"
  then have "rds_syndrome (b AND mask 26) = offset_word off"
    using rds_encode_block_facts(1) by simp
  then show "rds_syndrome b = offset_word off" by simp
qed

lemma rds_accepts_data:
  assumes "b AND mask 26 = rds_encode_block d off"
  shows "ucast (drop_bit 10 b) = d"
proof -
  have "ucast (drop_bit 10 b) = (ucast (drop_bit 10 (b AND mask 26)) :: u16)"
    by (rule bit_word_eqI) (auto simp: bit_ucast_iff bit_drop_bit_eq bit_and_iff bit_mask_iff)
  also have "\<dots> = d" unfolding assms rds_encode_block_facts(3) by (rule ucast_ucast_up) simp
  finally show ?thesis .
qed

lemma rds_correct_block_iff:
  "rds_correct_block b off = Some (d, n) \<longleftrightarrow>
     (\<exists>v. (v = 0 \<or> rds_burst v) \<and> rds_syndrome (b XOR v) = offset_word off \<and>
        d = ucast (drop_bit 10 (b XOR v)) \<and> n = count_ones v)"
  (is "_ \<longleftrightarrow> (\<exists>v. ?ok v)")
proof (cases "rds_syndrome b = offset_word off")
  case True
  have "v = 0" if "?ok v" for v
    using that True rds_burst_syndrome [of v] by (auto simp: rds_syndrome_xor)
  then have "(\<exists>v. ?ok v) \<longleftrightarrow> ?ok 0" by blast
  moreover have "rds_correct_block b off = Some (ucast (drop_bit 10 b), 0)"
    using True by (simp add: rds_correct_block_def Let_def)
  ultimately show ?thesis using True by auto
next
  case False
  define s where "s = rds_syndrome b XOR offset_word off"
  have s: "s \<noteq> 0" "unat s < 1024"
    using False rds_syndrome_lt [of b] offset_word_below [of off]
      below_xor [of 10 "rds_syndrome b" "offset_word off"]
    by (simp_all add: s_def below_iff_unat)
  have ok: "?ok v \<longleftrightarrow> rds_burst v \<and> rds_syndrome v = s \<and> d = ucast (drop_bit 10 (b XOR v)) \<and> n = count_ones v" for v
    using False xor_move [of "rds_syndrome b" "rds_syndrome v" "offset_word off"]
    by (cases "v = 0") (auto simp: s_def rds_syndrome_xor rds_burst_def)
  show ?thesis
  proof (cases "\<exists>v. rds_burst v \<and> rds_syndrome v = s")
    case True
    then obtain v where v: "rds_burst v" "rds_syndrome v = s" by blast
    have "v \<noteq> 0" "v \<noteq> 0xFFFFFFFF"
      using v(1) by (auto simp: rds_burst_def below_iff_unat)
    then have "rds_correct_block b off = Some (ucast (drop_bit 10 (b XOR v)), count_ones v)"
      using s rds_burst_table_hit [OF v(1)] v(2)
      by (simp add: rds_correct_block_def Let_def s_def [symmetric])
    moreover have "u = v" if "?ok u" for u
      using that v rds_burst_same [of u v] unfolding ok by simp
    ultimately show ?thesis using v unfolding ok by auto
  next
    case False
    then have "rds_burst_table ! unat s = 0"
      using s(2) by (intro rds_burst_table_miss) (auto simp: word_unat_eq_iff [symmetric])
    then have "rds_correct_block b off = None"
      using s by (simp add: rds_correct_block_def Let_def s_def [symmetric])
    then show ?thesis using False unfolding ok by auto
  qed
qed

section \<open>Properties\<close>

text \<open>
  C2: block correction is exactly bounded-burst decoding: it returns data \<open>d\<close> with \<open>n\<close> corrected
  bits if and only if the 26 bits received are the encoding of \<open>d\<close> under the offset, hit by no
  error or by one burst within five positions, whose weight is \<open>n\<close>.  In particular every such burst
  is corrected, and no block further away is.
\<close>

theorem rds_correct_block_spec:
  "rds_correct_block b off = Some (d, n) \<longleftrightarrow>
     (\<exists>v. (v = 0 \<or> rds_burst v) \<and> b AND mask 26 = rds_encode_block d off XOR v \<and> n = count_ones v)"
proof -
  have "rds_syndrome (b XOR v) = offset_word off \<and> d = ucast (drop_bit 10 (b XOR v)) \<longleftrightarrow>
      b AND mask 26 = rds_encode_block d off XOR v" if "v = 0 \<or> rds_burst v" for v
  proof -
    have v: "v AND mask 26 = v" using that by (auto simp: rds_burst_def and_mask_below)
    have "rds_syndrome (b XOR v) = offset_word off \<and> d = ucast (drop_bit 10 (b XOR v)) \<longleftrightarrow>
        (b XOR v) AND mask 26 = rds_encode_block d off"
      using rds_accepts_iff [of "b XOR v" off] rds_accepts_data [of "b XOR v" d off] by auto
    also have "\<dots> \<longleftrightarrow> b AND mask 26 = rds_encode_block d off XOR v"
      unfolding and_xor_distrib v by (metis xor_right_self)
    finally show ?thesis .
  qed
  then show ?thesis unfolding rds_correct_block_iff by blast
qed

text \<open>
  a block passes the plain check, with data \<open>d\<close>, exactly when its 26 bits are the encoding of
  \<open>d\<close> under the expected offset.
\<close>

theorem rds_check_block_spec:
  "rds_check_block b off = Some d \<longleftrightarrow> b AND mask 26 = rds_encode_block d off"
  using rds_accepts_iff [of b off] rds_accepts_data [of b d off]
  by (auto simp: rds_check_block_def)

end
