(* ===== verification/Crc_Register.thy ===== *)
theory Crc_Register
  imports Prelude
begin

text \<open>
  The shift register behind every checksum of \<open>crates/dsp/src/fec.rs\<close>: an \<open>n\<close>-bit register that
  takes a message one bit at a time, most significant first.  \<open>crc_serial\<close> is the reference; the
  byte-wise loops of the code are shown equal to it.  The locale \<open>msb_register\<close> is what its clients
  rely on: the register is additive, stays in its \<open>n\<close> bits, and absorbs up to \<open>n\<close> bits at once;
  \<open>msb_invertible\<close> adds that it can be run backwards, which gives the detection of bursts.
\<close>

section \<open>The register\<close>

definition msb_step :: "nat \<Rightarrow> 'a::len word \<Rightarrow> 'a word \<Rightarrow> 'a word" where
  "msb_step n poly r = ((if bit r (n - 1) then push_bit 1 r XOR poly else push_bit 1 r) AND mask n)"

definition msb_feed :: "nat \<Rightarrow> 'a::len word \<Rightarrow> 'a word \<Rightarrow> bool \<Rightarrow> 'a word" where
  "msb_feed n poly r b = msb_step n poly (if b then r XOR 2 ^ (n - 1) else r)"

definition crc_serial :: "nat \<Rightarrow> 'a::len word \<Rightarrow> 'a word \<Rightarrow> bool list \<Rightarrow> 'a word" where
  "crc_serial n poly = foldl (msb_feed n poly)"

text \<open>The first \<open>n\<close> bits of a message, laid over the register.\<close>

fun top_bits :: "nat \<Rightarrow> bool list \<Rightarrow> 'a::len word" where
  "top_bits n [] = 0"
| "top_bits 0 (b # bs) = 0"
| "top_bits (Suc n) (b # bs) = (if b then 2 ^ n XOR top_bits n bs else top_bits n bs)"

section \<open>Additivity\<close>

lemma msb_step_xor: "msb_step n poly (a XOR b) = msb_step n poly a XOR msb_step n poly b"
  unfolding msb_step_def
  by (rule bit_word_eqI) (auto simp: bit_xor_iff bit_and_iff bit_push_bit_iff)

lemma msb_step_0 [simp]: "msb_step n poly 0 = 0"
  using msb_step_xor [of n poly 0 0] by simp

lemma msb_steps_xor:
  "(msb_step n poly ^^ k) (a XOR b) = (msb_step n poly ^^ k) a XOR (msb_step n poly ^^ k) b"
  by (induction k) (simp_all add: msb_step_xor)

lemma msb_steps_0 [simp]: "(msb_step n poly ^^ k) 0 = 0"
  by (induction k) simp_all

lemma below_msb_step [simp]: "below n (msb_step n poly r)"
  by (simp add: msb_step_def)

lemma below_msb_feed [simp]: "below n (msb_feed n poly r b)"
  by (simp add: msb_feed_def)

lemma below_crc_serial: "below n r \<Longrightarrow> below n (crc_serial n poly r bs)"
  by (induction bs arbitrary: r) (simp_all add: crc_serial_def)

lemma msb_feed_xor: "msb_feed n poly (a XOR b) (x \<noteq> y) = msb_feed n poly a x XOR msb_feed n poly b y"
proof -
  have "(if x \<noteq> y then (a XOR b) XOR 2 ^ (n - 1) else a XOR b) =
      (if x then a XOR 2 ^ (n - 1) else a) XOR (if y then b XOR 2 ^ (n - 1) else b)"
    by (rule bit_word_eqI) (auto simp: bit_xor_iff)
  then show ?thesis by (simp add: msb_feed_def msb_step_xor)
qed

lemma crc_serial_Nil [simp]: "crc_serial n poly r [] = r"
  by (simp add: crc_serial_def)

lemma crc_serial_Cons [simp]: "crc_serial n poly r (b # bs) = crc_serial n poly (msb_feed n poly r b) bs"
  by (simp add: crc_serial_def)

lemma crc_serial_append: "crc_serial n poly r (as @ bs) = crc_serial n poly (crc_serial n poly r as) bs"
  by (simp add: crc_serial_def)

lemma crc_serial_xor:
  "length as = length bs \<Longrightarrow>
     crc_serial n poly (r XOR s) (xor_bits as bs) = crc_serial n poly r as XOR crc_serial n poly s bs"
  by (induction as bs arbitrary: r s rule: list_induct2) (simp_all add: msb_feed_xor [simplified])

lemma crc_serial_zeros: "crc_serial n poly r (replicate k False) = (msb_step n poly ^^ k) r"
  by (induction k arbitrary: r) (simp_all add: msb_feed_def funpow_swap1)

section \<open>Top bits\<close>

lemma below_top_bits: "below n (top_bits n bs :: 'a::len word)"
proof (induction n bs rule: top_bits.induct)
  case (3 n b bs)
  then have "below n (top_bits n bs :: 'a word)" by (cases b) auto
  then have "below (Suc n) (top_bits n bs :: 'a word)" by (rule below_mono) simp
  then show ?case by (auto intro!: below_xor below_two_pow)
qed simp_all

lemma bit_top_bits:
  "n \<le> LENGTH('a) \<Longrightarrow> bit (top_bits n bs :: 'a::len word) i \<longleftrightarrow> i < n \<and> n - 1 - i < length bs \<and> bs ! (n - 1 - i)"
proof (induction n bs rule: top_bits.induct)
  case (3 n b bs)
  have "\<not> bit (top_bits n bs :: 'a word) n" by (rule belowD [OF below_top_bits]) simp
  moreover have "Suc n - 1 - i = Suc (n - 1 - i)" if "i < n" using that by simp
  ultimately show ?case
    using 3 by (cases "i = n"; cases "i < n") (auto simp: bit_xor_iff)
qed simp_all

section \<open>The interface\<close>

locale msb_register =
  fixes n :: nat and poly :: "'a::len word"
  assumes n_pos: "0 < n" and n_le: "n \<le> LENGTH('a)"
begin

text \<open>A word whose top bit is clear is only moved up.\<close>

lemma step_push:
  assumes "below (n - 1) w"
  shows "msb_step n poly w = push_bit 1 w"
proof -
  have "\<not> bit w (n - 1)" using assms by (simp add: belowD)
  moreover have "below n (push_bit 1 w)" using below_push_bit [OF assms, of 1] n_pos by simp
  ultimately show ?thesis by (simp add: msb_step_def and_mask_below)
qed

lemma top_bits_push: "length bs < n \<Longrightarrow> push_bit 1 (top_bits (n - 1) bs :: 'a word) = top_bits n bs"
proof (rule bit_word_eqI)
  fix i assume len: "length bs < n" and i: "i < LENGTH('a)"
  have n1: "n - 1 \<le> LENGTH('a)" using n_le by simp
  show "bit (push_bit 1 (top_bits (n - 1) bs :: 'a word)) i \<longleftrightarrow> bit (top_bits n bs :: 'a word) i"
  proof (cases i)
    case 0
    then show ?thesis using len n_pos by (auto simp: bit_push_bit_iff bit_top_bits [OF n_le])
  next
    case (Suc j)
    have "n - 1 - 1 - j = n - 1 - Suc j" by simp
    then show ?thesis
      using i Suc by (auto simp: bit_push_bit_iff bit_top_bits [OF n_le] bit_top_bits [OF n1] simp del: One_nat_def)
  qed
qed

text \<open>Feeding up to \<open>n\<close> bits is laying them over the register first and stepping afterwards.\<close>

lemma serial_absorb:
  "length bs \<le> n \<Longrightarrow>
     crc_serial n poly r bs = (msb_step n poly ^^ length bs) (r XOR top_bits n bs)"
proof (induction bs arbitrary: r)
  case (Cons b bs)
  obtain m where m: "n = Suc m" using n_pos by (cases n) auto
  have top: "r XOR top_bits n (b # bs) = (if b then r XOR 2 ^ (n - 1) else r) XOR top_bits (n - 1) bs"
    by (simp add: m xor_ac)
  have "msb_step n poly (top_bits (n - 1) bs) = top_bits n bs"
    using Cons.prems top_bits_push [of bs] by (simp add: step_push [OF below_top_bits] del: One_nat_def)
  then have "msb_step n poly (r XOR top_bits n (b # bs)) = msb_feed n poly r b XOR top_bits n bs"
    unfolding top msb_step_xor msb_feed_def by simp
  then show ?case using Cons by (simp add: funpow_swap1)
qed simp

text \<open>The bits of the register itself drive it to zero.\<close>

lemma top_bits_self:
  assumes "below n (r :: 'a word)"
  shows "top_bits n (map (bit r) (rev [0..<n])) = r"
proof (rule bit_word_eqI)
  fix i assume "i < LENGTH('a)"
  show "bit (top_bits n (map (bit r) (rev [0..<n])) :: 'a word) i \<longleftrightarrow> bit r i"
    using assms by (cases "i < n") (simp_all add: bit_top_bits [OF n_le] rev_nth belowD)
qed

lemma serial_residue:
  assumes "below n r"
  shows "crc_serial n poly r (map (bit r) (rev [0..<n])) = 0"
  using serial_absorb [of "map (bit r) (rev [0..<n])" r] top_bits_self [OF assms] by simp

end

locale msb_invertible = msb_register +
  assumes poly_odd: "bit poly 0" and poly_below: "below n poly"
begin

lemma step_eq_0:
  assumes "below n r" "msb_step n poly r = 0"
  shows "r = 0"
proof (rule ccontr)
  assume "r \<noteq> 0"
  then obtain i where i: "bit r i" by (auto simp: bit_eq_iff)
  have z: "\<not> bit (msb_step n poly r) j" for j using assms(2) by simp
  have top: "\<not> bit r (n - 1)"
    using z [of 0] n_pos poly_odd by (auto simp: msb_step_def bit_and_iff bit_mask_iff bit_xor_iff bit_push_bit_iff)
  have "i < n" using assms(1) i by (auto simp: below_def not_le [symmetric])
  moreover have "i \<noteq> n - 1" using top i by auto
  ultimately have "Suc i < n" by simp
  then have "bit (msb_step n poly r) (Suc i)"
    using top i n_le by (auto simp: msb_step_def bit_and_iff bit_mask_iff bit_push_bit_iff)
  with z show False by blast
qed

lemma steps_eq_0: "below n r \<Longrightarrow> (msb_step n poly ^^ k) r = 0 \<longleftrightarrow> r = 0"
proof (induction k)
  case (Suc k)
  have "below n ((msb_step n poly ^^ k) r)" using Suc.prems by (cases k) simp_all
  then show ?case using Suc step_eq_0 [of "(msb_step n poly ^^ k) r"] by auto
qed simp

lemma steps_inj:
  "below n r \<Longrightarrow> below n s \<Longrightarrow> (msb_step n poly ^^ k) r = (msb_step n poly ^^ k) s \<longleftrightarrow> r = s"
  using steps_eq_0 [of "r XOR s" k] by (simp add: msb_steps_xor)

text \<open>A burst of at most \<open>n\<close> bits always changes the register.\<close>

lemma burst_detected:
  assumes "below n r" and w: "length w \<le> n" "True \<in> set w"
    and d: "d = replicate i False @ w @ replicate j False" and len: "length bs = length d"
  shows "crc_serial n poly r (xor_bits bs d) \<noteq> crc_serial n poly r bs"
proof -
  have "crc_serial n poly r (xor_bits bs d) = crc_serial n poly r bs XOR crc_serial n poly 0 d"
    using crc_serial_xor [OF len, of n poly r 0] by simp
  moreover have "crc_serial n poly 0 d = (msb_step n poly ^^ j) ((msb_step n poly ^^ length w) (top_bits n w))"
    unfolding d crc_serial_append crc_serial_zeros serial_absorb [OF w(1)] by simp
  moreover have "(top_bits n w :: 'a word) \<noteq> 0"
  proof -
    obtain k where k: "k < length w" "w ! k" using w(2) by (metis in_set_conv_nth)
    then have "bit (top_bits n w :: 'a word) (n - 1 - k)"
      using w(1) by (simp add: bit_top_bits [OF n_le])
    then show ?thesis by auto
  qed
  moreover have "(msb_step n poly ^^ j) ((msb_step n poly ^^ length w) (top_bits n w)) =
      (msb_step n poly ^^ (j + length w)) (top_bits n w)"
    by (simp add: funpow_add)
  ultimately show ?thesis
    using steps_eq_0 [OF below_top_bits, of "j + length w" w] by simp
qed

end

end
