(* ===== verification/Crc.thy ===== *)
theory Crc
  imports Crc_Register
begin

text \<open>
  The checksums of \<open>crates/dsp/src/fec.rs\<close>: the byte-wise CRC loops, each shown equal to the
  bit-serial register of the polynomial, and the keyed LFSR digests.
\<close>

section \<open>Definitions\<close>

definition crc16_reflected_step :: "u16 \<Rightarrow> u16" where
  "crc16_reflected_step crc =
     (let lsb = crc AND 1; crc = drop_bit 1 crc in if lsb \<noteq> 0 then crc XOR 0x8408 else crc)"

definition crc16_reflected :: "u16 \<Rightarrow> bytes \<Rightarrow> u16" where
  "crc16_reflected init data =
     foldl (\<lambda>crc byte. (crc16_reflected_step ^^ 8) (crc XOR ucast byte)) init data"

definition crc16_x25 :: "bytes \<Rightarrow> u16" where
  "crc16_x25 data = NOT (crc16_reflected 0xFFFF data)"

definition crc16_ccitt :: "bytes \<Rightarrow> u16" where
  "crc16_ccitt data = crc16_reflected 0 data"

definition crc16_msb_bits :: "u16 \<Rightarrow> u16 \<Rightarrow> bool list \<Rightarrow> u16" where
  "crc16_msb_bits poly init bits =
     foldl (\<lambda>crc b. let msb = crc AND 0x8000 \<noteq> 0; crc = push_bit 1 crc
                    in if msb \<noteq> b then crc XOR poly else crc) init bits"

definition crc16_msb :: "u16 \<Rightarrow> u16 \<Rightarrow> bytes \<Rightarrow> u16" where
  "crc16_msb poly init data =
     foldl (\<lambda>crc byte.
       ((\<lambda>crc. let msb = crc AND 0x8000 \<noteq> 0; crc = push_bit 1 crc
               in if msb then crc XOR poly else crc) ^^ 8) (crc XOR push_bit 8 (ucast byte))) init data"

definition crc32_mpeg :: "bytes \<Rightarrow> u32" where
  "crc32_mpeg data =
     foldl (\<lambda>crc byte.
       ((\<lambda>crc. if crc AND 0x80000000 \<noteq> 0 then push_bit 1 crc XOR 0x04C11DB7 else push_bit 1 crc) ^^ 8)
         (crc XOR push_bit 24 (ucast byte))) 0xFFFFFFFF data"

definition crc8_msb :: "u8 \<Rightarrow> u8 \<Rightarrow> bytes \<Rightarrow> u8" where
  "crc8_msb poly init data =
     foldl (\<lambda>crc byte.
       ((\<lambda>acc. if acc AND 0x80 = 0 then push_bit 1 acc else push_bit 1 acc XOR poly) ^^ 8)
         (crc XOR byte)) init data"

definition crc4_msb :: "u8 \<Rightarrow> u8 \<Rightarrow> bytes \<Rightarrow> u8" where
  "crc4_msb poly init data =
     drop_bit 4 (foldl (\<lambda>crc byte.
       ((\<lambda>acc. if acc AND 0x80 = 0 then push_bit 1 acc else push_bit 1 acc XOR push_bit 4 poly) ^^ 8)
         (crc XOR byte)) (push_bit 4 init) data)"

text \<open>The bits of a byte in the order the two families of loops take them.\<close>

definition msb_first :: "u8 \<Rightarrow> bool list" where
  "msb_first byte = map (bit byte) [7, 6, 5, 4, 3, 2, 1, 0]"

definition lsb_first :: "u8 \<Rightarrow> bool list" where
  "lsb_first byte = map (bit byte) [0, 1, 2, 3, 4, 5, 6, 7]"

definition lfsr_digest8 :: "u8 \<Rightarrow> u8 \<Rightarrow> bytes \<Rightarrow> u8" where
  "lfsr_digest8 poly key data =
     snd (foldl (\<lambda>state byte.
       foldl (\<lambda>(key, sum) b.
         ((if key AND 1 = 0 then drop_bit 1 key else drop_bit 1 key XOR poly),
          (if b then sum XOR key else sum))) state (msb_first byte)) (key, 0) data)"

definition lfsr_digest8_reflect :: "u8 \<Rightarrow> u8 \<Rightarrow> bytes \<Rightarrow> u8" where
  "lfsr_digest8_reflect poly key data =
     snd (foldl (\<lambda>state byte.
       foldl (\<lambda>(key, sum) b.
         ((if key AND 0x80 = 0 then push_bit 1 key else push_bit 1 key XOR poly),
          (if b then sum XOR key else sum))) state (lsb_first byte)) (key, 0) (rev data))"

section \<open>Bytes and bits\<close>

abbreviation message_bits :: "bytes \<Rightarrow> bool list" where
  "message_bits data \<equiv> concat (map msb_first data)"

lemma length_msb_first [simp]: "length (msb_first b) = 8"
  by (simp add: msb_first_def)

lemma length_lsb_first [simp]: "length (lsb_first b) = 8"
  by (simp add: lsb_first_def)

lemma msb_first_eq: "msb_first b = map (bit b) (rev [0..<8])"
  by (simp add: msb_first_def upt_from_0)

lemma lsb_first_eq: "lsb_first b = map (bit b) [0..<8]"
  by (simp add: lsb_first_def upt_from_0)

lemma length_message_bits [simp]: "length (message_bits data) = 8 * length data"
  by (induction data) simp_all

lemma msb_first_xor: "msb_first (a XOR b) = xor_bits (msb_first a) (msb_first b)"
  by (simp add: msb_first_def bit_xor_iff)

lemma xor_bits_append:
  "length as = length bs \<Longrightarrow> xor_bits (as @ cs) (bs @ ds) = xor_bits as bs @ xor_bits cs ds"
  by (induction as bs rule: list_induct2) simp_all

lemma message_bits_xor:
  "length as = length bs \<Longrightarrow>
     message_bits (map2 (XOR) as bs) = xor_bits (message_bits as) (message_bits bs)"
  by (induction as bs rule: list_induct2) (simp_all add: msb_first_xor xor_bits_append)

context msb_register
begin

text \<open>A byte laid over the top of the register.\<close>

lemma top_bits_byte:
  assumes "8 \<le> n"
  shows "top_bits n (msb_first b) = (push_bit (n - 8) (ucast b) :: 'a word)"
proof (rule bit_word_eqI)
  fix i assume "i < LENGTH('a)"
  have "n - Suc i < 8 \<longleftrightarrow> n - 8 \<le> i" if "i < n" using that assms by auto
  moreover have "7 - (n - Suc i) = i - (n - 8)" if "n - 8 \<le> i" "i < n" using that assms by auto
  moreover have "\<not> bit b (i - (n - 8))" if "\<not> i < n"
    using that assms bit_imp_le_length [of b "i - (n - 8)"] by auto
  ultimately show "bit (top_bits n (msb_first b) :: 'a word) i \<longleftrightarrow> bit (push_bit (n - 8) (ucast b) :: 'a word) i"
    using \<open>i < LENGTH('a)\<close> n_le
    by (cases "i < n") (auto simp: bit_top_bits [OF n_le] msb_first_eq rev_nth bit_push_bit_iff bit_ucast_iff)
qed

lemma serial_byte:
  "8 \<le> n \<Longrightarrow> crc_serial n poly r (msb_first b) = (msb_step n poly ^^ 8) (r XOR push_bit (n - 8) (ucast b))"
  using serial_absorb [of "msb_first b" r] by (simp add: top_bits_byte)

lemma serial_bytes:
  "8 \<le> n \<Longrightarrow> foldl (\<lambda>r b. (msb_step n poly ^^ 8) (r XOR push_bit (n - 8) (ucast b))) r data =
     crc_serial n poly r (message_bits data)"
  by (induction data arbitrary: r) (simp_all add: crc_serial_append serial_byte)

end

interpretation r16: msb_register 16 "poly :: u16" for poly
  by unfold_locales simp_all

interpretation r32: msb_register 32 "poly :: u32" for poly
  by unfold_locales simp_all

interpretation r8: msb_register 8 "poly :: u8" for poly
  by unfold_locales simp_all

section \<open>The loops are the register\<close>

lemma and_top_bit:
  "(crc :: u16) AND 0x8000 = 0 \<longleftrightarrow> \<not> bit crc 15"
  "(crc32 :: u32) AND 0x80000000 = 0 \<longleftrightarrow> \<not> bit crc32 31"
  "(crc8 :: u8) AND 0x80 = 0 \<longleftrightarrow> \<not> bit crc8 7"
  using and_exp_eq_0_iff_not_bit [of crc 15] and_exp_eq_0_iff_not_bit [of crc32 31]
    and_exp_eq_0_iff_not_bit [of crc8 7] by simp_all

lemma msb_step_full:
  "LENGTH('a) = n \<Longrightarrow> msb_step n poly crc = (if bit crc (n - 1) then push_bit 1 crc XOR poly else push_bit 1 crc)"
  for crc :: "'a::len word"
  unfolding msb_step_def by (intro and_mask_below below_full) simp

lemma crc16_loop_step:
  "(\<lambda>crc :: u16. let msb = crc AND 0x8000 \<noteq> 0; crc = push_bit 1 crc in if msb then crc XOR poly else crc) =
     msb_step 16 poly"
  by (rule ext) (simp add: msb_step_full and_top_bit Let_def)

lemma crc16_msb_serial: "crc16_msb poly init data = crc_serial 16 poly init (message_bits data)"
  unfolding crc16_msb_def crc16_loop_step using r16.serial_bytes [of poly init data] by simp

lemma crc16_msb_bits_serial: "crc16_msb_bits poly init bits = crc_serial 16 poly init bits"
proof -
  have "(let msb = crc AND 0x8000 \<noteq> 0; crc = push_bit 1 crc in if msb \<noteq> b then crc XOR poly else crc) =
      msb_feed 16 poly crc b" for crc :: u16 and b
  proof -
    have wrap: "(0x10000 :: u16) = 0" by simp
    show ?thesis
      by (auto simp: wrap push_bit_xor msb_feed_def msb_step_full and_top_bit Let_def bit_xor_iff)
  qed
  then show ?thesis by (simp add: crc16_msb_bits_def crc_serial_def)
qed

lemma crc32_mpeg_serial: "crc32_mpeg data = crc_serial 32 0x04C11DB7 0xFFFFFFFF (message_bits data)"
proof -
  have "(\<lambda>crc :: u32. if crc AND 0x80000000 \<noteq> 0 then push_bit 1 crc XOR 0x04C11DB7 else push_bit 1 crc) =
      msb_step 32 0x04C11DB7"
    by (rule ext) (simp add: msb_step_full and_top_bit)
  then show ?thesis
    unfolding crc32_mpeg_def using r32.serial_bytes [of "0x04C11DB7" "0xFFFFFFFF" data] by simp
qed

lemma crc8_loop_step:
  "(\<lambda>acc :: u8. if acc AND 0x80 = 0 then push_bit 1 acc else push_bit 1 acc XOR poly) = msb_step 8 poly"
  by (rule ext) (simp add: msb_step_full and_top_bit)

lemma crc8_msb_serial: "crc8_msb poly init data = crc_serial 8 poly init (message_bits data)"
  unfolding crc8_msb_def crc8_loop_step using r8.serial_bytes [of poly init data] by simp

text \<open>The four-bit checksum runs in the upper half of an eight-bit register.\<close>

lemma msb_feed_upper:
  assumes "below 4 (r :: u8)"
  shows "msb_feed 8 (push_bit 4 poly) (push_bit 4 r) b = push_bit 4 (msb_feed 4 (poly AND mask 4) r b)"
proof -
  have step: "msb_step 8 (push_bit 4 poly) (push_bit 4 r) = push_bit 4 (msb_step 4 (poly AND mask 4) r)"
    for r :: u8
    by (rule bit_word_eqI)
      (auto simp: msb_step_def bit_push_bit_iff bit_and_iff bit_xor_iff bit_mask_iff)
  show ?thesis
    using step [of r] step [of "r XOR 2 ^ 3"] by (simp add: msb_feed_def push_bit_xor)
qed

lemma crc_serial_upper:
  "below 4 (r :: u8) \<Longrightarrow>
     crc_serial 8 (push_bit 4 poly) (push_bit 4 r) bits = push_bit 4 (crc_serial 4 (poly AND mask 4) r bits)"
  by (induction bits arbitrary: r) (simp_all add: msb_feed_upper)

lemma crc4_msb_serial:
  "crc4_msb poly init data = crc_serial 4 (poly AND mask 4) (init AND mask 4) (message_bits data)"
proof -
  have init: "push_bit 4 init = push_bit 4 (init AND mask 4)"
    by (rule bit_word_eqI) (auto simp: bit_push_bit_iff bit_and_iff bit_mask_iff)
  have "crc4_msb poly init data =
      drop_bit 4 (push_bit 4 (crc_serial 4 (poly AND mask 4) (init AND mask 4) (message_bits data)))"
    unfolding crc4_msb_def crc8_loop_step
    using r8.serial_bytes [of "push_bit 4 poly" "push_bit 4 init" data]
      crc_serial_upper [of "init AND mask 4" poly "message_bits data", folded init]
    by simp
  moreover have "below 4 (crc_serial 4 (poly AND mask 4) (init AND mask 4) (message_bits data))"
    by (simp add: below_crc_serial)
  ultimately show ?thesis by (simp add: drop_bit_push_bit)
qed

section \<open>Reflected registers\<close>

text \<open>\<open>reflect\<close> reverses the bits of a word; a register that shifts down is the reflection of one
  that shifts up.\<close>

definition reflect :: "'a::len word \<Rightarrow> 'a word" where
  "reflect w = horner_sum of_bool 2 (map (bit w) (rev [0..<LENGTH('a)]))"

lemma bit_reflect: "bit (reflect w) i \<longleftrightarrow> i < LENGTH('a) \<and> bit w (LENGTH('a) - 1 - i)"
  for w :: "'a::len word"
  by (auto simp: reflect_def bit_horner_sum_bit_word_iff rev_nth)

lemma reflect_reflect [simp]: "reflect (reflect w) = w"
  by (rule bit_word_eqI) (simp add: bit_reflect)

lemma reflect_xor: "reflect (a XOR b) = reflect a XOR reflect b"
  by (rule bit_word_eqI) (simp add: bit_reflect bit_xor_iff)

lemma reflect_eq_iff [simp]: "reflect a = reflect b \<longleftrightarrow> a = b"
  using reflect_reflect by metis

lemma reflected_step: "reflect (crc16_reflected_step r) = msb_step 16 0x1021 (reflect r)"
proof -
  have poly: "reflect (0x8408 :: u16) = 0x1021"
    by (simp add: reflect_def upt_from_0)
  have "crc16_reflected_step r = (if bit r 0 then drop_bit 1 r XOR 0x8408 else drop_bit 1 r)"
    by (simp add: crc16_reflected_step_def Let_def and_one_eq mod2_eq_if bit_0)
  moreover have "reflect (drop_bit 1 r) = push_bit 1 (reflect r)"
  proof (rule bit_word_eqI)
    fix i assume i: "i < LENGTH(16)"
    show "bit (reflect (drop_bit 1 r)) i = bit (push_bit 1 (reflect r)) i"
    proof (cases i)
      case 0
      then show ?thesis using bit_imp_le_length [of r 16] by (auto simp: bit_reflect bit_drop_bit_eq bit_push_bit_iff)
    next
      case (Suc j)
      then have "Suc (15 - i) = 15 - j" using i by simp
      then show ?thesis using i Suc by (simp add: bit_reflect bit_drop_bit_eq bit_push_bit_iff)
    qed
  qed
  moreover have "bit (reflect r) 15 \<longleftrightarrow> bit r 0" by (simp add: bit_reflect)
  ultimately show ?thesis by (simp add: msb_step_full reflect_xor poly)
qed

lemma crc16_reflected_step_numeral:
  "crc16_reflected_step (numeral v) =
     (if bit (numeral v :: u16) 0 then drop_bit 1 (numeral v) XOR 0x8408 else drop_bit 1 (numeral v))"
  by (simp only: crc16_reflected_step_def Let_def and_one_eq mod2_eq_if bit_0) simp

lemma crc16_reflected_eval:
  "crc16_reflected init [] = init"
  "crc16_reflected init (b # data) = crc16_reflected ((crc16_reflected_step ^^ 8) (init XOR ucast b)) data"
  by (simp_all add: crc16_reflected_def)

lemma reflected_steps: "reflect ((crc16_reflected_step ^^ k) r) = (msb_step 16 0x1021 ^^ k) (reflect r)"
  by (induction k) (simp_all add: reflected_step)

lemma reflect_byte: "reflect (ucast b :: u16) = top_bits 16 (lsb_first b)"
proof (rule bit_word_eqI)
  fix i assume "i < LENGTH(16)"
  then show "bit (reflect (ucast b :: u16)) i = bit (top_bits 16 (lsb_first b) :: u16) i"
    using bit_imp_le_length [of b "15 - i"]
    by (cases "15 - i < 8") (auto simp: bit_reflect bit_ucast_iff bit_top_bits lsb_first_eq)
qed

abbreviation octet_bits :: "bytes \<Rightarrow> bool list" where
  "octet_bits data \<equiv> concat (map lsb_first data)"

lemma crc16_reflected_serial:
  "reflect (crc16_reflected init data) = crc_serial 16 0x1021 (reflect init) (octet_bits data)"
proof (induction data arbitrary: init)
  case (Cons b data)
  have "reflect ((crc16_reflected_step ^^ 8) (init XOR ucast b)) =
      crc_serial 16 0x1021 (reflect init) (lsb_first b)"
    by (simp add: reflected_steps reflect_xor reflect_byte r16.serial_absorb)
  then show ?case using Cons by (simp add: crc16_reflected_def crc_serial_append)
qed (simp add: crc16_reflected_def)

section \<open>Digests\<close>

text \<open>One bit of a digest, the key moved by \<open>step\<close>; the key's course does not depend on the message.\<close>

fun digest_bits :: "(u8 \<Rightarrow> u8) \<Rightarrow> u8 \<times> u8 \<Rightarrow> bool list \<Rightarrow> u8 \<times> u8" where
  "digest_bits step state [] = state"
| "digest_bits step (key, acc) (b # bs) =
     digest_bits step (step key, if b then acc XOR key else acc) bs"

lemma digest_bits_append: "digest_bits step state (as @ bs) = digest_bits step (digest_bits step state as) bs"
  by (induction step state as rule: digest_bits.induct) simp_all

lemma foldl_digest:
  "foldl (\<lambda>(key, sum) b. (step key, if b then sum XOR key else sum)) state bs = digest_bits step state bs"
  by (induction step state bs rule: digest_bits.induct) simp_all

lemma foldl_digest_bytes:
  "foldl (\<lambda>state byte. digest_bits step state (f byte)) state data = digest_bits step state (concat (map f data))"
  by (induction data arbitrary: state) (simp_all add: digest_bits_append)

lemma digest_bits_xor:
  "length as = length bs \<Longrightarrow>
     snd (digest_bits step (key, s XOR t) (xor_bits as bs)) =
       snd (digest_bits step (key, s) as) XOR snd (digest_bits step (key, t) bs)"
proof (induction as bs arbitrary: key s t rule: list_induct2)
  case (Cons a as b bs)
  have "(if a = (\<not> b) then (s XOR t) XOR key else s XOR t) =
      (if a then s XOR key else s) XOR (if b then t XOR key else t)"
    by (rule bit_word_eqI) (auto simp: bit_xor_iff)
  then show ?case using Cons.IH by simp
qed simp

lemma lfsr_digest8_bits:
  "lfsr_digest8 poly key data =
     snd (digest_bits (\<lambda>key. if key AND 1 = 0 then drop_bit 1 key else drop_bit 1 key XOR poly) (key, 0)
       (message_bits data))"
  unfolding lfsr_digest8_def foldl_digest foldl_digest_bytes ..

lemma lfsr_digest8_reflect_bits:
  "lfsr_digest8_reflect poly key data =
     snd (digest_bits (\<lambda>key. if key AND 0x80 = 0 then push_bit 1 key else push_bit 1 key XOR poly) (key, 0)
       (octet_bits (rev data)))"
  unfolding lfsr_digest8_reflect_def foldl_digest foldl_digest_bytes ..

lemma lsb_first_xor: "lsb_first (a XOR b) = xor_bits (lsb_first a) (lsb_first b)"
  by (simp add: lsb_first_def bit_xor_iff)

lemma length_octet_bits [simp]: "length (octet_bits data) = 8 * length data"
  by (induction data) simp_all

lemma octet_bits_xor:
  "length as = length bs \<Longrightarrow>
     octet_bits (map2 (XOR) as bs) = xor_bits (octet_bits as) (octet_bits bs)"
  by (induction as bs rule: list_induct2) (simp_all add: lsb_first_xor xor_bits_append)

lemma rev_map2_xor: "length as = length bs \<Longrightarrow> rev (map2 (XOR) as bs) = map2 (XOR) (rev as) (rev bs)"
  by (simp add: rev_map [symmetric] zip_rev)

section \<open>Properties\<close>

text \<open>
  C13: every byte-wise checksum loop computes the register of its polynomial over the message's bits,
  most significant bit first: the 16-bit loop and its bit-wise variant, the MPEG 32-bit loop, the
  8-bit fold and the 4-bit fold that runs in the upper half of a byte; the reflected 16-bit loop is
  the reflection of the CCITT register fed least significant bit first.
\<close>

theorem crc_loops_are_registers:
  "crc16_msb poly16 init16 data = crc16_msb_bits poly16 init16 (message_bits data) \<and>
   crc16_msb_bits poly16 init16 bits = crc_serial 16 poly16 init16 bits \<and>
   crc32_mpeg data = crc_serial 32 0x04C11DB7 0xFFFFFFFF (message_bits data) \<and>
   crc8_msb poly8 init8 data = crc_serial 8 poly8 init8 (message_bits data) \<and>
   crc4_msb poly8 init8 data = crc_serial 4 (poly8 AND mask 4) (init8 AND mask 4) (message_bits data) \<and>
   reflect (crc16_ccitt data) = crc_serial 16 0x1021 0 (octet_bits data)"
proof -
  have "reflect (0 :: u16) = 0" by (rule bit_word_eqI) (simp add: bit_reflect)
  then show ?thesis
    by (simp add: crc16_msb_serial crc16_msb_bits_serial crc32_mpeg_serial crc8_msb_serial
      crc4_msb_serial crc16_ccitt_def crc16_reflected_serial)
qed

text \<open>
  a message followed by its own checksum, most significant byte first, has checksum zero.
\<close>

theorem crc_residue:
  "crc16_msb poly init (data @ [ucast (drop_bit 8 (crc16_msb poly init data)), ucast (crc16_msb poly init data)]) = 0 \<and>
   crc8_msb poly8 init8 (data @ [crc8_msb poly8 init8 data]) = 0"
proof
  define c where "c = crc16_msb poly init data"
  have "msb_first (ucast (drop_bit 8 c)) @ msb_first (ucast c) = map (bit c) (rev [0..<16])"
    by (simp add: msb_first_def upt_from_0 bit_ucast_iff bit_drop_bit_eq)
  then show "crc16_msb poly init (data @ [ucast (drop_bit 8 (crc16_msb poly init data)), ucast (crc16_msb poly init data)]) = 0"
    unfolding c_def [symmetric] crc16_msb_serial [of poly init "data @ _"]
    using r16.serial_residue [OF below_full, of poly c]
    by (simp add: crc_serial_append crc16_msb_serial [symmetric] c_def [symmetric])
  show "crc8_msb poly8 init8 (data @ [crc8_msb poly8 init8 data]) = 0"
    using r8.serial_residue [OF below_full, of poly8 "crc8_msb poly8 init8 data"]
    by (simp add: crc8_msb_serial crc_serial_append msb_first_eq)
qed

text \<open>
  the keyed digests are additive in the message: the digest of the sum of two messages of one
  length is the sum of their digests.
\<close>

theorem lfsr_digests_additive:
  assumes "length xs = length ys"
  shows "lfsr_digest8 poly key (map2 (XOR) xs ys) = lfsr_digest8 poly key xs XOR lfsr_digest8 poly key ys \<and>
    lfsr_digest8_reflect poly key (map2 (XOR) xs ys) =
      lfsr_digest8_reflect poly key xs XOR lfsr_digest8_reflect poly key ys"
proof -
  have "length (rev xs) = length (rev ys)" using assms by simp
  note bits = message_bits_xor [OF assms] octet_bits_xor [OF this]
  show ?thesis
    unfolding lfsr_digest8_bits lfsr_digest8_reflect_bits rev_map2_xor [OF assms] bits
    using assms digest_bits_xor [of "message_bits xs" "message_bits ys" _ key 0 0]
      digest_bits_xor [of "octet_bits (rev xs)" "octet_bits (rev ys)" _ key 0 0]
    by simp
qed

theorem lfsr_digests_additive_witness:
  "lfsr_digest8 0x98 0x3E (map2 (XOR) [1, 2] [3, 4]) = lfsr_digest8 0x98 0x3E [1, 2] XOR lfsr_digest8 0x98 0x3E [3, 4]"
  using lfsr_digests_additive [of "[1, 2]" "[3, 4]" "0x98" "0x3E"] by simp

end
