(* ===== verification/Mode_S.thy ===== *)
theory Mode_S
  imports Crc
begin

text \<open>
  Mode S parity of \<open>crates/dsp/src/fec.rs\<close>: a 24-bit checksum over frames of 7 or 14 bytes, the
  address overlaid on it, and the repair of a single flipped bit by running the register backwards
  through the frame.
\<close>

section \<open>Definitions\<close>

definition mode_s_step :: "u32 \<Rightarrow> u32" where
  "mode_s_step reg =
     (if reg AND 0x00800000 \<noteq> 0 then (push_bit 1 reg XOR 0x00FFF409) AND 0x00FFFFFF
      else push_bit 1 reg AND 0x00FFFFFF)"

definition mode_s_crc :: "bytes \<Rightarrow> u32" where
  "mode_s_crc data = foldl (\<lambda>reg byte. (mode_s_step ^^ 8) (reg XOR push_bit 16 (ucast byte))) 0 data"

definition mode_s_syndrome :: "bytes \<Rightarrow> u32" where
  "mode_s_syndrome frame =
     (if length frame \<noteq> 7 \<and> length frame \<noteq> 14 then 0xFFFFFFFF else mode_s_crc frame)"

definition mode_s_overlay :: "bytes \<Rightarrow> u32 option" where
  "mode_s_overlay frame =
     (if length frame \<noteq> 7 \<and> length frame \<noteq> 14 then None
      else let body = take (length frame - 3) frame; field = drop (length frame - 3) frame in
        case field of
          [hi, mid, lo] \<Rightarrow>
            Some (mode_s_crc body XOR (push_bit 16 (ucast hi) OR push_bit 8 (ucast mid) OR ucast lo))
        | _ \<Rightarrow> None)"

definition mode_s_bit_overlays :: "nat \<Rightarrow> u32 list" where
  "mode_s_bit_overlays frame_len =
     map (\<lambda>i. case mode_s_overlay ((replicate frame_len 0)[i div 8 := drop_bit (i mod 8) 0x80]) of
            Some overlay \<Rightarrow> overlay | None \<Rightarrow> 0xFFFFFFFF) [0..<frame_len * 8]"

definition mode_s_append_overlaid_parity :: "bytes \<Rightarrow> u32 \<Rightarrow> bytes panics" where
  "mode_s_append_overlaid_parity body overlay =
     (if length body = 4 \<or> length body = 11 then
        let parity = mode_s_crc body XOR (overlay AND 0x00FFFFFF)
        in Inr (body @ [ucast (drop_bit 16 parity), ucast (drop_bit 8 parity), ucast parity])
      else Inl Assertion)"

definition mode_s_append_parity :: "bytes \<Rightarrow> bytes panics" where
  "mode_s_append_parity body = mode_s_append_overlaid_parity body 0"

text \<open>The loop of the repair: \<open>i\<close> runs down from the last bit, \<open>trial\<close> is the syndrome of a flip at \<open>i\<close>.\<close>

fun mode_s_find :: "u32 \<Rightarrow> u32 \<Rightarrow> nat \<Rightarrow> nat option" where
  "mode_s_find syndrome trial 0 = None"
| "mode_s_find syndrome trial (Suc i) =
     (if trial = syndrome then Some i else mode_s_find syndrome (mode_s_step trial) i)"

definition mode_s_flip :: "bytes \<Rightarrow> nat \<Rightarrow> bytes" where
  "mode_s_flip frame i = frame[i div 8 := (frame ! (i div 8)) XOR drop_bit (i mod 8) 0x80]"

definition mode_s_fix_single_bit :: "bytes \<Rightarrow> nat option \<times> bytes" where
  "mode_s_fix_single_bit frame =
     (let syndrome = mode_s_syndrome frame in
      if syndrome = 0 then (None, frame)
      else case mode_s_find syndrome 0x00FFF409 (length frame * 8) of
        Some i \<Rightarrow> (Some i, mode_s_flip frame i)
      | None \<Rightarrow> (None, frame))"

section \<open>The register\<close>

interpretation ms: msb_invertible 24 "0x00FFF409 :: u32"
proof
  show "below 24 (0x00FFF409 :: u32)" by (simp add: below_iff_unat)
qed simp_all

lemma mode_s_step_eq: "mode_s_step = msb_step 24 0x00FFF409"
proof (rule ext)
  fix r :: u32
  have "r AND 0x00800000 = 0 \<longleftrightarrow> \<not> bit r 23"
    using and_exp_eq_0_iff_not_bit [of r 23] by simp
  moreover have "(0x00FFFFFF :: u32) = mask 24" by (simp add: mask_eq_exp_minus_1)
  ultimately show "mode_s_step r = msb_step 24 0x00FFF409 r"
    by (simp add: mode_s_step_def msb_step_def)
qed

lemma mode_s_crc_serial: "mode_s_crc data = crc_serial 24 0x00FFF409 0 (message_bits data)"
  unfolding mode_s_crc_def mode_s_step_eq using ms.serial_bytes [of 0 data] by simp

lemma below_mode_s_crc [simp]: "below 24 (mode_s_crc data)"
  by (simp add: mode_s_crc_serial below_crc_serial)

text \<open>The message with one bit set.\<close>

definition unit_bits :: "nat \<Rightarrow> nat \<Rightarrow> bool list" where
  "unit_bits n i = replicate i False @ [True] @ replicate (n - Suc i) False"

lemma unit_bits_eq: "i < n \<Longrightarrow> unit_bits n i = (replicate n False)[i := True]"
  by (auto simp: unit_bits_def list_eq_iff_nth_eq nth_append nth_list_update nth_Cons')

lemma bit_0x80: "bit (0x80 :: u8) m \<longleftrightarrow> m = 7"
proof -
  have "(0x80 :: u8) = 2 ^ 7" by simp
  then show ?thesis by (simp only: bit_two_pow) auto
qed

lemma msb_first_drop: "k < 8 \<Longrightarrow> msb_first (drop_bit k 0x80) = (replicate 8 False)[k := True]"
proof (rule nth_equalityI)
  fix j assume k: "k < 8" and "j < length (msb_first (drop_bit k 0x80))"
  then have j: "j < 8" by simp
  have "msb_first (drop_bit k 0x80) ! j = bit (drop_bit k (0x80 :: u8)) (7 - j)"
    using j by (simp add: msb_first_eq rev_nth)
  also have "\<dots> \<longleftrightarrow> k + (7 - j) = 7" by (simp only: bit_drop_bit_eq comp_apply bit_0x80)
  also have "\<dots> \<longleftrightarrow> j = k" using j k by auto
  also have "\<dots> \<longleftrightarrow> (replicate 8 False)[k := True] ! j"
    using j k by (cases "j = k") (simp_all add: nth_list_update)
  finally show "msb_first (drop_bit k 0x80) ! j = (replicate 8 False)[k := True] ! j" .
qed simp

lemma message_bits_flip:
  assumes "i < 8 * length frame"
  shows "message_bits (mode_s_flip frame i) = xor_bits (message_bits frame) (unit_bits (8 * length frame) i)"
  using assms
proof (induction frame arbitrary: i)
  case (Cons b frame)
  show ?case
  proof (cases "i < 8")
    case True
    have "unit_bits (8 * length (b # frame)) i = (replicate 8 False)[i := True] @ replicate (8 * length frame) False"
      using True Cons.prems by (simp add: unit_bits_eq replicate_add list_update_append1)
    then show ?thesis
      using True by (simp add: mode_s_flip_def msb_first_xor msb_first_drop xor_bits_append)
  next
    case False
    then obtain j where j: "i = 8 + j" by (metis le_add_diff_inverse not_less)
    have "i div 8 = Suc (j div 8)" "i mod 8 = j mod 8" by (simp_all add: j)
    then have "mode_s_flip (b # frame) i = b # mode_s_flip frame j" by (simp add: mode_s_flip_def)
    moreover have "unit_bits (8 * length (b # frame)) i = replicate 8 False @ unit_bits (8 * length frame) j"
      by (simp add: j unit_bits_def replicate_add)
    ultimately show ?thesis using Cons j by (simp add: xor_bits_append)
  qed
qed simp

lemma length_mode_s_flip [simp]: "length (mode_s_flip frame i) = length frame"
  by (simp add: mode_s_flip_def)

lemma mode_s_flip_flip [simp]: "i < 8 * length frame \<Longrightarrow> mode_s_flip (mode_s_flip frame i) i = frame"
  by (simp add: mode_s_flip_def)

section \<open>The syndrome of a flipped bit\<close>

text \<open>Counting from the end of the frame: the flip of the last bit but \<open>k\<close> has syndrome \<open>mode_s_trial k\<close>.\<close>

definition mode_s_trial :: "nat \<Rightarrow> u32" where
  "mode_s_trial k = (mode_s_step ^^ k) 0x00FFF409"

lemma mode_s_trial_below [simp]: "below 24 (mode_s_trial k)"
proof (cases k)
  case 0
  then show ?thesis using ms.poly_below by (simp add: mode_s_trial_def)
next
  case (Suc m)
  then show ?thesis by (simp add: mode_s_trial_def mode_s_step_eq)
qed

lemma crc_serial_unit:
  assumes "i < n"
  shows "crc_serial 24 0x00FFF409 0 (unit_bits n i) = mode_s_trial (n - Suc i)"
proof -
  have "msb_feed 24 0x00FFF409 0 True = (0x00FFF409 :: u32)"
    by (simp add: msb_feed_def msb_step_def mask_eq_exp_minus_1)
  then show ?thesis
    by (simp add: unit_bits_def crc_serial_append crc_serial_zeros mode_s_trial_def mode_s_step_eq)
qed

lemma mode_s_crc_flip:
  assumes "i < 8 * length frame"
  shows "mode_s_crc (mode_s_flip frame i) = mode_s_crc frame XOR mode_s_trial (8 * length frame - Suc i)"
proof -
  have "length (message_bits frame) = length (unit_bits (8 * length frame) i)"
    using assms by (simp add: unit_bits_def)
  from crc_serial_xor [OF this, of 24 "0x00FFF409 :: u32" 0 0] show ?thesis
    using assms by (simp add: mode_s_crc_serial message_bits_flip crc_serial_unit)
qed

text \<open>The trials of a long frame are pairwise different: the register can be run backwards, and it does
  not come back to the polynomial within 112 steps.\<close>

lemma mode_s_step_numeral:
  "mode_s_step (numeral v) = (if bit (numeral v :: u32) 23 then (push_bit 1 (numeral v) XOR 0x00FFF409) AND 0x00FFFFFF
     else push_bit 1 (numeral v) AND 0x00FFFFFF)"
  using and_exp_eq_0_iff_not_bit [of "numeral v :: u32" 23] by (simp add: mode_s_step_def)

fun mode_s_away :: "nat \<Rightarrow> u32 \<Rightarrow> bool" where
  "mode_s_away 0 r = True"
| "mode_s_away (Suc k) r = (r \<noteq> 0x00FFF409 \<and> mode_s_away k (mode_s_step r))"

lemma mode_s_away_sound: "mode_s_away k r \<Longrightarrow> j < k \<Longrightarrow> (mode_s_step ^^ j) r \<noteq> 0x00FFF409"
proof (induction k r arbitrary: j rule: mode_s_away.induct)
  case (2 k r)
  then show ?case by (cases j) (simp_all add: funpow_swap1)
qed simp

lemma mode_s_away_numeral:
  "mode_s_away (numeral v) r \<longleftrightarrow> r \<noteq> 0x00FFF409 \<and> mode_s_away (pred_numeral v) (mode_s_step r)"
  by (simp add: numeral_eq_Suc)

lemma mode_s_away_111: "mode_s_away 111 (mode_s_step 0x00FFF409)"
  by (simp add: mode_s_step_numeral mode_s_away_numeral)

lemma mode_s_trial_away: "0 < k \<Longrightarrow> k < 112 \<Longrightarrow> mode_s_trial k \<noteq> 0x00FFF409"
  using mode_s_away_sound [OF mode_s_away_111, of "k - 1"]
  by (cases k) (simp_all add: mode_s_trial_def funpow_swap1)

lemma mode_s_trial_inj:
  assumes "j < 112" "k < 112" "mode_s_trial j = mode_s_trial k"
  shows "j = k"
proof -
  have "j = k" if "j \<le> k" "k < 112" "mode_s_trial j = mode_s_trial k" for j k
  proof (rule ccontr)
    assume "j \<noteq> k"
    have "mode_s_trial k = (msb_step 24 0x00FFF409 ^^ j) (mode_s_trial (k - j))"
      using that(1) funpow_add [of j "k - j" mode_s_step] by (simp add: mode_s_trial_def mode_s_step_eq)
    moreover have "mode_s_trial j = (msb_step 24 0x00FFF409 ^^ j) 0x00FFF409"
      by (simp add: mode_s_trial_def mode_s_step_eq)
    ultimately have "mode_s_trial (k - j) = 0x00FFF409"
      using that(3) ms.steps_inj [OF mode_s_trial_below ms.poly_below, of j "k - j"] by simp
    then show False using mode_s_trial_away [of "k - j"] that \<open>j \<noteq> k\<close> by simp
  qed
  then show ?thesis using assms by (cases "j \<le> k") (metis nat_le_linear)+
qed

lemma mode_s_trial_nonzero: "mode_s_trial k \<noteq> 0"
  using ms.steps_eq_0 [OF ms.poly_below, of k] by (simp add: mode_s_trial_def mode_s_step_eq)

lemma mode_s_find_iff:
  assumes "m \<le> n" "n \<le> 112"
  shows "mode_s_find s (mode_s_trial (n - m)) m = Some i \<longleftrightarrow> i < m \<and> mode_s_trial (n - Suc i) = s"
  using assms(1)
proof (induction m)
  case (Suc m)
  have step: "mode_s_step (mode_s_trial (n - Suc m)) = mode_s_trial (n - m)"
    using Suc.prems by (simp add: mode_s_trial_def Suc_diff_Suc [symmetric])
  show ?case
  proof (cases "mode_s_trial (n - Suc m) = s")
    case True
    have "i = m" if "i < Suc m" "mode_s_trial (n - Suc i) = s"
    proof -
      have "n - Suc i = n - Suc m"
        using that True Suc.prems assms(2) by (intro mode_s_trial_inj) auto
      then show ?thesis using that(1) Suc.prems by simp
    qed
    then show ?thesis using True by auto
  next
    case False
    then show ?thesis using Suc step by (auto simp: less_Suc_eq)
  qed
qed simp

lemma mode_s_find_frame:
  assumes "length frame = 7 \<or> length frame = 14"
  shows "mode_s_find s 0x00FFF409 (length frame * 8) = Some i \<longleftrightarrow>
    i < 8 * length frame \<and> mode_s_trial (8 * length frame - Suc i) = s"
  using mode_s_find_iff [of "8 * length frame" "8 * length frame" s i] assms
  by (auto simp: mode_s_trial_def mult.commute)

lemma mode_s_find_bad:
  assumes "\<not> below 24 s"
  shows "mode_s_find s (mode_s_trial k) m = None"
proof (induction m arbitrary: k)
  case (Suc m)
  have "mode_s_trial k \<noteq> s" using assms by auto
  moreover have "mode_s_step (mode_s_trial k) = mode_s_trial (Suc k)" by (simp add: mode_s_trial_def)
  ultimately show ?case using Suc by simp
qed simp

section \<open>Parity and overlay\<close>

lemma mode_s_field:
  fixes p :: u32
  assumes "below 24 p"
  shows "(push_bit 16 (ucast (ucast (drop_bit 16 p) :: u8)) OR push_bit 8 (ucast (ucast (drop_bit 8 p) :: u8)) OR
    ucast (ucast p :: u8) :: u32) = p"
proof (rule bit_word_eqI)
  fix i assume "i < LENGTH(32)"
  have p: "bit p i \<Longrightarrow> i < 24" using assms by (metis belowD not_le)
  have "bit (push_bit 16 (ucast (ucast (drop_bit 16 p) :: u8)) :: u32) i \<longleftrightarrow> 16 \<le> i \<and> i < 24 \<and> bit p i"
    "bit (push_bit 8 (ucast (ucast (drop_bit 8 p) :: u8)) :: u32) i \<longleftrightarrow> 8 \<le> i \<and> i < 16 \<and> bit p i"
    "bit (ucast (ucast p :: u8) :: u32) i \<longleftrightarrow> i < 8 \<and> bit p i"
    using \<open>i < LENGTH(32)\<close> by (auto simp: bit_push_bit_iff bit_ucast_iff bit_drop_bit_eq)
  then show "bit (push_bit 16 (ucast (ucast (drop_bit 16 p) :: u8)) OR push_bit 8 (ucast (ucast (drop_bit 8 p) :: u8)) OR
      ucast (ucast p :: u8) :: u32) i = bit p i"
    unfolding bit_or_iff using p by linarith
qed

text \<open>The three parity bytes laid over the register.\<close>

lemma top_bits_field:
  "top_bits 24 (message_bits [hi, mid, lo]) =
     (push_bit 16 (ucast hi) OR push_bit 8 (ucast mid) OR ucast lo :: u32)"
proof (rule bit_word_eqI)
  fix i assume i: "i < LENGTH(32)"
  have high: "\<not> bit b i" if "8 \<le> i" for b :: u8 and i using that bit_imp_le_length [of b i] by auto
  consider "i < 8" | "8 \<le> i" "i < 16" | "16 \<le> i" "i < 24" | "24 \<le> i" by linarith
  then show "bit (top_bits 24 (message_bits [hi, mid, lo]) :: u32) i =
      bit (push_bit 16 (ucast hi) OR push_bit 8 (ucast mid) OR ucast lo :: u32) i"
    by cases (auto simp: bit_top_bits msb_first_eq nth_append rev_nth bit_or_iff bit_push_bit_iff bit_ucast_iff high)
qed

lemma mode_s_crc_append:
  "mode_s_crc (body @ [hi, mid, lo]) =
     (mode_s_step ^^ 24) (mode_s_crc body XOR (push_bit 16 (ucast hi) OR push_bit 8 (ucast mid) OR ucast lo))"
proof -
  have "mode_s_crc (body @ [hi, mid, lo]) = crc_serial 24 0x00FFF409 (mode_s_crc body) (message_bits [hi, mid, lo])"
    by (simp add: mode_s_crc_serial crc_serial_append)
  then show ?thesis
    using ms.serial_absorb [of "message_bits [hi, mid, lo]" "mode_s_crc body"]
    unfolding top_bits_field mode_s_step_eq by simp
qed

lemma mode_s_overlay_append:
  "length body = 4 \<or> length body = 11 \<Longrightarrow> mode_s_overlay (body @ [hi, mid, lo]) =
     Some (mode_s_crc body XOR (push_bit 16 (ucast hi) OR push_bit 8 (ucast mid) OR ucast lo))"
  by (auto simp: mode_s_overlay_def)

text \<open>The checksum of a whole frame is the overlay moved through the register.\<close>

lemma mode_s_overlay_crc:
  assumes "length frame = 7 \<or> length frame = 14"
  obtains overlay where "mode_s_overlay frame = Some overlay" "below 24 overlay"
    "mode_s_crc frame = (msb_step 24 0x00FFF409 ^^ 24) overlay"
proof -
  have "3 \<le> length frame" using assms by auto
  then obtain body hi mid lo where f: "frame = body @ [hi, mid, lo]" by (rule last_three)
  then have len: "length body = 4 \<or> length body = 11" using assms by auto
  let ?o = "mode_s_crc body XOR (push_bit 16 (ucast hi) OR push_bit 8 (ucast mid) OR ucast lo)"
  have "below 24 ?o"
    using below_top_bits [of 24 "message_bits [hi, mid, lo]", where 'a = 32] unfolding top_bits_field
    by (intro below_xor below_mode_s_crc)
  moreover have "mode_s_overlay frame = Some ?o" unfolding f by (rule mode_s_overlay_append [OF len])
  moreover have "mode_s_crc frame = (msb_step 24 0x00FFF409 ^^ 24) ?o"
    unfolding f mode_s_crc_append mode_s_step_eq ..
  ultimately show thesis using that by blast
qed

lemma mode_s_crc_zero: "mode_s_crc (replicate n 0) = 0"
proof -
  have "message_bits (replicate n 0) = replicate (8 * n) False"
    by (induction n) (simp_all add: msb_first_def replicate_add numeral_eq_Suc)
  then show ?thesis by (simp only: mode_s_crc_serial crc_serial_zeros msb_steps_0)
qed

section \<open>Properties\<close>

text \<open>
  C4: the repair finds a bit exactly when there is one to find: it returns \<open>Some i\<close> with frame
  \<open>out\<close> if and only if the frame has a Mode S length, bit \<open>i\<close> is in the frame, \<open>out\<close> is the frame
  with bit \<open>i\<close> flipped, and \<open>out\<close> has syndrome zero.  So every single-bit error is undone.
\<close>

theorem mode_s_fix_single_bit_spec:
  "mode_s_fix_single_bit frame = (Some i, out) \<longleftrightarrow>
     (length frame = 7 \<or> length frame = 14) \<and> i < 8 * length frame \<and>
     out = mode_s_flip frame i \<and> mode_s_syndrome out = 0"
proof (cases "length frame = 7 \<or> length frame = 14")
  case True
  have "mode_s_syndrome (mode_s_flip frame i) = 0 \<longleftrightarrow> mode_s_trial (8 * length frame - Suc i) = mode_s_crc frame"
    if "i < 8 * length frame"
    using True mode_s_crc_flip [OF that] by (auto simp: mode_s_syndrome_def)
  moreover have "mode_s_syndrome frame = mode_s_crc frame" using True by (auto simp: mode_s_syndrome_def)
  moreover have "mode_s_fix_single_bit frame = (Some i, out) \<longleftrightarrow> mode_s_syndrome frame \<noteq> 0 \<and>
      mode_s_find (mode_s_syndrome frame) 0x00FFF409 (length frame * 8) = Some i \<and> out = mode_s_flip frame i"
    by (auto simp: mode_s_fix_single_bit_def Let_def split: option.splits)
  ultimately show ?thesis
    unfolding mode_s_find_frame [OF True] using True mode_s_trial_nonzero by metis
next
  case False
  have "\<not> below 24 (0xFFFFFFFF :: u32)" by (simp add: below_iff_unat)
  from mode_s_find_bad [OF this, of 0] have "mode_s_find 0xFFFFFFFF 0x00FFF409 m = None" for m
    by (simp add: mode_s_trial_def)
  then show ?thesis
    using False by (simp add: mode_s_fix_single_bit_def mode_s_syndrome_def)
qed

text \<open>
  what is appended is what is read back: a body of 4 or 11 bytes with parity overlaid by an
  address yields that address, in 24 bits; with plain parity the syndrome is zero; any other
  body is refused by the assertion.
\<close>

theorem mode_s_overlay_roundtrip:
  "case mode_s_append_overlaid_parity body overlay of
     Inr frame \<Rightarrow> (length body = 4 \<or> length body = 11) \<and> take (length body) frame = body \<and>
       length frame = length body + 3 \<and> mode_s_overlay frame = Some (overlay AND 0x00FFFFFF) \<and>
       (mode_s_syndrome frame = 0 \<longleftrightarrow> overlay AND 0x00FFFFFF = 0)
   | Inl e \<Rightarrow> e = Assertion \<and> length body \<noteq> 4 \<and> length body \<noteq> 11"
proof (cases "length body = 4 \<or> length body = 11")
  case True
  define p where "p = mode_s_crc body XOR (overlay AND 0x00FFFFFF)"
  have m: "(0x00FFFFFF :: u32) = mask 24" by (simp add: mask_eq_exp_minus_1)
  have p: "below 24 p" unfolding p_def m by (intro below_xor) simp_all
  have undo: "mode_s_crc body XOR p = overlay AND 0x00FFFFFF" by (simp add: p_def)
  let ?frame = "body @ [ucast (drop_bit 16 p), ucast (drop_bit 8 p), ucast p]"
  have "mode_s_overlay ?frame = Some (overlay AND 0x00FFFFFF)"
    unfolding mode_s_overlay_append [OF True] mode_s_field [OF p] undo ..
  moreover have "mode_s_crc ?frame = (msb_step 24 0x00FFF409 ^^ 24) (overlay AND mask 24)"
    unfolding mode_s_crc_append mode_s_field [OF p] undo by (simp only: mode_s_step_eq m)
  then have "mode_s_crc ?frame = 0 \<longleftrightarrow> overlay AND 0x00FFFFFF = 0"
    unfolding m using ms.steps_eq_0 [of "overlay AND mask 24" 24] by simp
  ultimately show ?thesis
    using True by (auto simp: mode_s_append_overlaid_parity_def Let_def p_def [symmetric] mode_s_syndrome_def)
next
  case False
  then show ?thesis by (simp add: mode_s_append_overlaid_parity_def)
qed

text \<open>
  a frame of a Mode S length has syndrome zero exactly when nothing is overlaid on its parity,
  and a frame of another length has neither.
\<close>

theorem mode_s_syndrome_overlay:
  "mode_s_syndrome frame = 0 \<longleftrightarrow> mode_s_overlay frame = Some 0"
proof (cases "length frame = 7 \<or> length frame = 14")
  case True
  then obtain overlay where "mode_s_overlay frame = Some overlay" "below 24 overlay"
    "mode_s_crc frame = (msb_step 24 0x00FFF409 ^^ 24) overlay" by (rule mode_s_overlay_crc)
  then show ?thesis
    using True ms.steps_eq_0 [of overlay 24] by (auto simp: mode_s_syndrome_def)
next
  case False
  then show ?thesis by (simp add: mode_s_syndrome_def mode_s_overlay_def)
qed

text \<open>
  the table of bit overlays is the effect of a bit error: flipping bit \<open>i\<close> of a frame changes
  its overlay by exactly entry \<open>i\<close> of the table for the frame's length.
\<close>

theorem mode_s_bit_overlays_spec:
  assumes "length frame = 7 \<or> length frame = 14" and "i < 8 * length frame"
  shows "mode_s_overlay (mode_s_flip frame i) =
    map_option (\<lambda>overlay. overlay XOR mode_s_bit_overlays (length frame) ! i) (mode_s_overlay frame)"
proof -
  let ?s = "msb_step 24 0x00FFF409 ^^ 24 :: u32 \<Rightarrow> u32"
  let ?zero = "replicate (length frame) 0 :: bytes"
  obtain a where a: "mode_s_overlay frame = Some a" "below 24 a" "mode_s_crc frame = ?s a"
    using assms(1) by (rule mode_s_overlay_crc)
  obtain b where b: "mode_s_overlay (mode_s_flip frame i) = Some b" "below 24 b" "mode_s_crc (mode_s_flip frame i) = ?s b"
    using assms(1) by (rule mode_s_overlay_crc [of "mode_s_flip frame i", unfolded length_mode_s_flip])
  obtain u where u: "mode_s_overlay (mode_s_flip ?zero i) = Some u" "below 24 u" "mode_s_crc (mode_s_flip ?zero i) = ?s u"
    using assms(1) by (rule mode_s_overlay_crc [of "mode_s_flip ?zero i", unfolded length_mode_s_flip length_replicate])
  have "mode_s_crc (mode_s_flip frame i) = mode_s_crc frame XOR mode_s_crc (mode_s_flip ?zero i)"
    using mode_s_crc_flip [OF assms(2)] mode_s_crc_flip [of i ?zero] assms(2) by (simp add: mode_s_crc_zero)
  then have "?s b = ?s (a XOR u)" unfolding a(3) b(3) u(3) by (simp only: msb_steps_xor)
  then have "b = a XOR u" using ms.steps_inj [OF b(2) below_xor [OF a(2) u(2)], of 24] by simp
  moreover have "i div 8 < length frame" using assms(2) by auto
  then have "mode_s_bit_overlays (length frame) ! i = u"
    using u(1) assms(2) by (simp add: mode_s_bit_overlays_def mode_s_flip_def)
  ultimately show ?thesis using a(1) b(1) by simp
qed

theorem mode_s_bit_overlays_spec_witness:
  "mode_s_overlay (mode_s_flip [0x8D, 0x48, 0x40, 0xD6, 0x20, 0x2C, 0xC3] 5) =
    map_option (\<lambda>overlay. overlay XOR mode_s_bit_overlays 7 ! 5) (mode_s_overlay [0x8D, 0x48, 0x40, 0xD6, 0x20, 0x2C, 0xC3])"
  using mode_s_bit_overlays_spec [of "[0x8D, 0x48, 0x40, 0xD6, 0x20, 0x2C, 0xC3]" 5] by (simp add: eval_nat_numeral)

end
