(* ===== verification/Bit_Stream.thy ===== *)
theory Bit_Stream
  imports Crc
begin

text \<open>
  The bit-level building blocks of \<open>crates/dsp/src/bits.rs\<close>: line decoders, the self-synchronising
  scrambler pair, the sync-word detector and the packing of bits into bytes.  The HDLC deframer of
  the same file is in \<open>Hdlc\<close>.
\<close>

section \<open>Line decoders\<close>

record NrziDecoder = nrzi_last :: bool

definition NrziDecoder_new :: NrziDecoder where
  "NrziDecoder_new = \<lparr>nrzi_last = False\<rparr>"

definition nrzi_decode :: "NrziDecoder \<Rightarrow> bool \<Rightarrow> bool \<times> NrziDecoder" where
  "nrzi_decode d level = ((level = nrzi_last d), d\<lparr>nrzi_last := level\<rparr>)"

definition nrzi_reset :: "NrziDecoder \<Rightarrow> NrziDecoder" where
  "nrzi_reset d = d\<lparr>nrzi_last := False\<rparr>"

record DifferentialDecoder = diff_last :: bool

definition DifferentialDecoder_new :: DifferentialDecoder where
  "DifferentialDecoder_new = \<lparr>diff_last = False\<rparr>"

definition differential_decode :: "DifferentialDecoder \<Rightarrow> bool \<Rightarrow> bool \<times> DifferentialDecoder" where
  "differential_decode d b = ((b \<noteq> diff_last d), d\<lparr>diff_last := b\<rparr>)"

definition differential_reset :: "DifferentialDecoder \<Rightarrow> DifferentialDecoder" where
  "differential_reset d = d\<lparr>diff_last := False\<rparr>"

definition manchester_decode :: "bool \<Rightarrow> bool \<Rightarrow> bool option" where
  "manchester_decode first second = (if first \<noteq> second then Some first else None)"

section \<open>Scrambler and descrambler\<close>

text \<open>The tap mask; a tap outside \<open>1..=32\<close> fails the assertion.\<close>

fun taps_mask_from :: "u32 \<Rightarrow> u8 list \<Rightarrow> u32 panics" where
  "taps_mask_from m [] = Inr m"
| "taps_mask_from m (k # ks) =
     (if 1 \<le> k \<and> k \<le> 32 then taps_mask_from (m OR push_bit (unat k - 1) 1) ks else Inl Assertion)"

definition taps_mask :: "u8 list \<Rightarrow> u32 panics" where
  "taps_mask taps = taps_mask_from 0 taps"

definition feedback :: "u32 \<Rightarrow> u32 \<Rightarrow> bool" where
  "feedback reg taps = (count_ones (reg AND taps) mod 2 = 1)"

record Descrambler = dreg :: u32  dtaps :: u32

record Scrambler = sreg :: u32  staps :: u32

definition Descrambler_new :: "u8 list \<Rightarrow> Descrambler panics" where
  "Descrambler_new taps = map_sum id (\<lambda>m. \<lparr>dreg = 0, dtaps = m\<rparr>) (taps_mask taps)"

definition Scrambler_new :: "u8 list \<Rightarrow> Scrambler panics" where
  "Scrambler_new taps = map_sum id (\<lambda>m. \<lparr>sreg = 0, staps = m\<rparr>) (taps_mask taps)"

definition Descrambler_g3ruh :: "Descrambler panics" where
  "Descrambler_g3ruh = Descrambler_new [17, 12]"

definition Scrambler_g3ruh :: "Scrambler panics" where
  "Scrambler_g3ruh = Scrambler_new [17, 12]"

definition descrambler_push :: "Descrambler \<Rightarrow> bool \<Rightarrow> bool \<times> Descrambler" where
  "descrambler_push d b =
     (let out = (b \<noteq> feedback (dreg d) (dtaps d))
      in (out, d\<lparr>dreg := push_bit 1 (dreg d) OR of_bool b\<rparr>))"

definition scrambler_push :: "Scrambler \<Rightarrow> bool \<Rightarrow> bool \<times> Scrambler" where
  "scrambler_push s b =
     (let out = (b \<noteq> feedback (sreg s) (staps s))
      in (out, s\<lparr>sreg := push_bit 1 (sreg s) OR of_bool out\<rparr>))"

definition descrambler_reset :: "Descrambler \<Rightarrow> Descrambler" where
  "descrambler_reset d = d\<lparr>dreg := 0\<rparr>"

definition scrambler_reset :: "Scrambler \<Rightarrow> Scrambler" where
  "scrambler_reset s = s\<lparr>sreg := 0\<rparr>"

section \<open>Sync detector\<close>

record SyncDetector = sync_reg :: u64  sync_word :: u64  sync_mask :: u64  tolerance :: nat

definition hamming_distance :: "u64 \<Rightarrow> u64 \<Rightarrow> nat" where
  "hamming_distance a b = count_ones (a XOR b)"

definition SyncDetector_new :: "u64 \<Rightarrow> nat \<Rightarrow> nat \<Rightarrow> SyncDetector panics" where
  "SyncDetector_new word bits tol =
     (if \<not> (1 \<le> bits \<and> bits \<le> 64) then Inl Assertion
      else if \<not> tol \<le> bits then Inl Assertion
      else let m = (if bits = 64 then - 1 else push_bit bits 1 - 1)
           in Inr \<lparr>sync_reg = 0, sync_word = word AND m, sync_mask = m, tolerance = tol\<rparr>)"

definition sync_push :: "SyncDetector \<Rightarrow> bool \<Rightarrow> bool \<times> SyncDetector" where
  "sync_push d b =
     (let reg = (push_bit 1 (sync_reg d) OR of_bool b) AND sync_mask d
      in (hamming_distance reg (sync_word d) \<le> tolerance d, d\<lparr>sync_reg := reg\<rparr>))"

definition sync_register :: "SyncDetector \<Rightarrow> u64" where
  "sync_register d = sync_reg d"

definition sync_reset :: "SyncDetector \<Rightarrow> SyncDetector" where
  "sync_reset d = d\<lparr>sync_reg := 0\<rparr>"

section \<open>Packing\<close>

definition reverse_byte :: "u8 \<Rightarrow> u8" where
  "reverse_byte b = reflect b"

definition pack_msb :: "bool list \<Rightarrow> bytes" where
  "pack_msb bits =
     foldl (\<lambda>out (i, b). out[i div 8 := (out ! (i div 8)) OR push_bit (7 - i mod 8) (of_bool b)])
       (replicate ((length bits + 7) div 8) 0) (enumerate 0 bits)"

definition pack_lsb :: "bool list \<Rightarrow> bytes" where
  "pack_lsb bits =
     foldl (\<lambda>out (i, b). out[i div 8 := (out ! (i div 8)) OR push_bit (i mod 8) (of_bool b)])
       (replicate ((length bits + 7) div 8) 0) (enumerate 0 bits)"

definition bits_be :: "bytes \<Rightarrow> nat \<Rightarrow> nat \<Rightarrow> u64" where
  "bits_be bytes offset len =
     (if len = 0 \<or> len > 64 then 0
      else if offset + len \<ge> 2 ^ 64 \<or> length bytes * 8 \<ge> 2 ^ 64 then 0
      else if offset + len > length bytes * 8 then 0
      else foldl (\<lambda>value i. push_bit 1 value OR ucast (drop_bit (7 - i mod 8) (bytes ! (i div 8)) AND 1))
             0 [offset..<offset + len])"

section \<open>Streams\<close>

text \<open>A decoder run over a stream: its outputs in order and its final state.\<close>

fun run :: "('s \<Rightarrow> 'i \<Rightarrow> 'o \<times> 's) \<Rightarrow> 's \<Rightarrow> 'i list \<Rightarrow> 'o list \<times> 's" where
  "run f s [] = ([], s)"
| "run f s (x # xs) = (let (y, s') = f s x; (ys, s'') = run f s' xs in (y # ys, s''))"

lemma length_run [simp]: "length (fst (run f s xs)) = length xs"
  by (induction xs arbitrary: s) (simp_all add: split_beta)

lemma run_append:
  "run f s (xs @ ys) = (fst (run f s xs) @ fst (run f (snd (run f s xs)) ys), snd (run f (snd (run f s xs)) ys))"
  by (induction xs arbitrary: s) (simp_all add: split_beta)

text \<open>A transmitter and a receiver that stay in step: whatever one sends, the other reads.\<close>

locale stream_codec =
  fixes enc :: "'s \<Rightarrow> 'a \<Rightarrow> 'b \<times> 's" and dec :: "'t \<Rightarrow> 'b \<Rightarrow> 'a \<times> 't" and sync :: "'s \<Rightarrow> 't \<Rightarrow> bool"
  assumes step: "sync s t \<Longrightarrow> fst (dec t (fst (enc s x))) = x \<and> sync (snd (enc s x)) (snd (dec t (fst (enc s x))))"
begin

lemma roundtrip: "sync s t \<Longrightarrow> fst (run dec t (fst (run enc s xs))) = xs"
proof (induction xs arbitrary: s t)
  case (Cons x xs)
  then show ?case using step [of s t x] by (simp add: split_beta)
qed simp

end

section \<open>Line codes\<close>

text \<open>The line codes the decoders undo: NRZI keeps the level for a one, the differential code changes it.\<close>

definition nrzi_encode :: "bool \<Rightarrow> bool \<Rightarrow> bool \<times> bool" where
  "nrzi_encode level b = (let level' = (if b then level else \<not> level) in (level', level'))"

definition differential_encode :: "bool \<Rightarrow> bool \<Rightarrow> bool \<times> bool" where
  "differential_encode level b = (let level' = (level \<noteq> b) in (level', level'))"

interpretation nrzi: stream_codec nrzi_encode nrzi_decode "\<lambda>level d. level = nrzi_last d"
  by unfold_locales (simp add: nrzi_encode_def nrzi_decode_def Let_def)

interpretation differential: stream_codec differential_encode differential_decode "\<lambda>level d. level = diff_last d"
  by unfold_locales (auto simp: differential_encode_def differential_decode_def Let_def)

interpretation scrambled: stream_codec scrambler_push descrambler_push
  "\<lambda>s d. sreg s = dreg d \<and> staps s = dtaps d"
  by unfold_locales (auto simp: scrambler_push_def descrambler_push_def Let_def)

section \<open>Shift registers\<close>

lemma bit_shift_in:
  "bit (push_bit 1 w OR of_bool b) i \<longleftrightarrow> i < LENGTH('a) \<and> (case i of 0 \<Rightarrow> b | Suc j \<Rightarrow> bit w j)"
  for w :: "'a::len word"
  by (cases i) (auto simp: bit_or_iff bit_push_bit_iff)

text \<open>A scrambler and a descrambler that share taps agree on one more bit with each step.\<close>

definition agree :: "nat \<Rightarrow> Scrambler \<Rightarrow> Descrambler \<Rightarrow> bool" where
  "agree k s d \<longleftrightarrow> staps s = dtaps d \<and> (\<forall>i < k. bit (sreg s) i = bit (dreg d) i)"

lemma agree_push:
  assumes "agree k s d"
  shows "agree (Suc k) (snd (scrambler_push s b)) (snd (descrambler_push d (fst (scrambler_push s b))))"
proof -
  define out where "out = fst (scrambler_push s b)"
  have "sreg (snd (scrambler_push s b)) = push_bit 1 (sreg s) OR of_bool out"
    "dreg (snd (descrambler_push d out)) = push_bit 1 (dreg d) OR of_bool out"
    "staps (snd (scrambler_push s b)) = staps s" "dtaps (snd (descrambler_push d out)) = dtaps d"
    by (simp_all add: scrambler_push_def descrambler_push_def Let_def out_def)
  then show ?thesis
    using assms unfolding out_def [symmetric] agree_def by (simp only: bit_shift_in) (auto split: nat.splits)
qed

lemma agree_feedback:
  assumes "agree n s d" "below n (staps s)"
  shows "feedback (sreg s) (staps s) = feedback (dreg d) (dtaps d)"
proof -
  have "sreg s AND staps s = dreg d AND dtaps d"
  proof (rule bit_word_eqI)
    fix i
    show "bit (sreg s AND staps s) i = bit (dreg d AND dtaps d) i"
      using assms belowD [OF assms(2), of i] by (cases "i < n") (auto simp: agree_def bit_and_iff)
  qed
  then show ?thesis by (simp add: feedback_def)
qed

lemma descramble_agree:
  "agree n s d \<Longrightarrow> below n (staps s) \<Longrightarrow>
     fst (run descrambler_push d (fst (run scrambler_push s bits))) = bits"
proof (induction bits arbitrary: s d)
  case (Cons b bits)
  let ?s = "snd (scrambler_push s b)" and ?d = "snd (descrambler_push d (fst (scrambler_push s b)))"
  have "agree n ?s ?d" using agree_push [OF Cons.prems(1), of b] by (simp add: agree_def)
  moreover have "staps ?s = staps s" by (simp add: scrambler_push_def Let_def)
  moreover have "fst (descrambler_push d (fst (scrambler_push s b))) = b"
    using agree_feedback [OF Cons.prems] by (auto simp add: descrambler_push_def scrambler_push_def Let_def)
  ultimately show ?case using Cons.IH [of ?s ?d] Cons.prems(2) by (simp add: split_beta)
qed simp

lemma descramble_catch_up:
  "agree k s d \<Longrightarrow> below n (staps s) \<Longrightarrow> k \<le> n \<Longrightarrow>
     drop (n - k) (fst (run descrambler_push d (fst (run scrambler_push s bits)))) = drop (n - k) bits"
proof (induction bits arbitrary: k s d)
  case (Cons b bits)
  show ?case
  proof (cases "k = n")
    case True
    then show ?thesis using descramble_agree [of n s d "b # bits"] Cons.prems by (simp del: run.simps)
  next
    case False
    let ?s = "snd (scrambler_push s b)" and ?d = "snd (descrambler_push d (fst (scrambler_push s b)))"
    have "staps ?s = staps s" by (simp add: scrambler_push_def Let_def)
    moreover have "n - k = Suc (n - Suc k)" using False Cons.prems(3) by simp
    ultimately show ?thesis
      using Cons.IH [OF agree_push [OF Cons.prems(1), of b]] Cons.prems(2,3) False by (simp add: split_beta)
  qed
qed simp

section \<open>The sync window\<close>

lemma sync_push_simps [simp]:
  "sync_word (snd (sync_push d b)) = sync_word d" "sync_mask (snd (sync_push d b)) = sync_mask d"
  "tolerance (snd (sync_push d b)) = tolerance d"
  by (simp_all add: sync_push_def Let_def)

lemma run_sync_fields [simp]:
  "sync_word (snd (run sync_push d bs)) = sync_word d" "sync_mask (snd (run sync_push d bs)) = sync_mask d"
  "tolerance (snd (run sync_push d bs)) = tolerance d"
  by (induction bs arbitrary: d) (simp_all add: split_beta)

text \<open>Bit \<open>j\<close> of the register is the bit received \<open>j\<close> bits ago.\<close>

lemma run_sync_reg:
  assumes "sync_reg d = 0" "sync_mask d = mask n"
  shows "bit (sync_reg (snd (run sync_push d bs))) j \<longleftrightarrow> j < n \<and> j < 64 \<and> j < length bs \<and> rev bs ! j"
proof (induction bs arbitrary: j rule: rev_induct)
  case Nil
  then show ?case using assms by simp
next
  case (snoc b bs)
  define r where "r = sync_reg (snd (run sync_push d bs))"
  have reg: "sync_reg (snd (run sync_push d (bs @ [b]))) = (push_bit 1 r OR of_bool b) AND mask n"
    using assms(2) by (simp add: run_append split_beta sync_push_def Let_def r_def)
  have "bit ((push_bit 1 r OR of_bool b) AND mask n) j \<longleftrightarrow>
      j < n \<and> j < 64 \<and> (case j of 0 \<Rightarrow> b | Suc i \<Rightarrow> bit r i)"
    unfolding bit_and_iff bit_mask_iff bit_shift_in by auto
  then show ?case
    unfolding reg using snoc.IH [folded r_def, of "j - 1"] by (cases j) auto
qed

lemma run_nth:
  "i < length xs \<Longrightarrow> fst (run f s xs) ! i = fst (f (snd (run f s (take i xs))) (xs ! i))"
  by (induction xs arbitrary: s i) (auto simp: split_beta nth_Cons split: nat.splits)

lemma SyncDetector_new_mask:
  assumes "SyncDetector_new word n tol = Inr d"
  shows "1 \<le> n" "n \<le> 64" "tol \<le> n" "sync_reg d = 0" "sync_mask d = mask n" "sync_word d = word AND mask n" "tolerance d = tol"
proof -
  have m: "(if n = 64 then - 1 else push_bit n 1 - 1) = (mask n :: u64)"
  proof (cases "n = 64")
    case True
    then have "mask n = (- 1 :: u64)" by (intro bit_word_eqI) (simp add: bit_mask_iff)
    then show ?thesis using True by simp
  qed (simp add: mask_eq_exp_minus_1)
  show "1 \<le> n" "n \<le> 64" "tol \<le> n" "sync_reg d = 0" "sync_mask d = mask n" "sync_word d = word AND mask n" "tolerance d = tol"
    using assms unfolding SyncDetector_new_def m Let_def by (auto split: if_splits)
qed

section \<open>Byte orders\<close>

text \<open>An order of the eight bits of a byte, \<open>p k\<close> the position of the bit sent at \<open>k\<close>.\<close>

definition bits_in_order :: "(nat \<Rightarrow> nat) \<Rightarrow> bytes \<Rightarrow> bool list" where
  "bits_in_order p bytes = concat (map (\<lambda>b. map (\<lambda>k. bit b (p k)) [0..<8]) bytes)"

definition pack_in_order :: "(nat \<Rightarrow> nat) \<Rightarrow> bytes \<Rightarrow> (nat \<times> bool) list \<Rightarrow> bytes" where
  "pack_in_order p =
     foldl (\<lambda>out (i, b). out[i div 8 := (out ! (i div 8)) OR push_bit (p (i mod 8)) (of_bool b)])"

locale byte_order =
  fixes p :: "nat \<Rightarrow> nat"
  assumes p_lt: "k < 8 \<Longrightarrow> p k < 8" and p_inj: "j < 8 \<Longrightarrow> k < 8 \<Longrightarrow> p j = p k \<Longrightarrow> j = k"
begin

lemma length_bits [simp]: "length (bits_in_order p bytes) = 8 * length bytes"
  by (induction bytes) (simp_all add: bits_in_order_def)

lemma bits_nth: "i < 8 * length bytes \<Longrightarrow> bits_in_order p bytes ! i = bit (bytes ! (i div 8)) (p (i mod 8))"
proof (induction bytes arbitrary: i)
  case (Cons b bytes)
  show ?case
  proof (cases "i < 8")
    case True
    then show ?thesis by (simp add: bits_in_order_def nth_append)
  next
    case False
    then have "i div 8 = Suc ((i - 8) div 8)" "i mod 8 = (i - 8) mod 8"
      by (auto simp: le_div_geq le_mod_geq not_less)
    then show ?thesis using False Cons by (simp add: bits_in_order_def nth_append)
  qed
qed simp

text \<open>Setting a bit of the packed bytes sets one bit of the stream.\<close>

lemma bits_update:
  assumes "i < 8 * length out"
  shows "bits_in_order p (out[i div 8 := (out ! (i div 8)) OR push_bit (p (i mod 8)) (of_bool b)]) =
    (bits_in_order p out)[i := bits_in_order p out ! i \<or> b]"
proof (rule nth_equalityI)
  fix j assume "j < length (bits_in_order p (out[i div 8 := (out ! (i div 8)) OR push_bit (p (i mod 8)) (of_bool b)]))"
  then have j: "j < 8 * length out" by simp
  have ij: "i div 8 < length out" "j div 8 < length out" using assms j by auto
  have same: "p (j mod 8) = p (i mod 8) \<longleftrightarrow> j mod 8 = i mod 8" using p_inj [of "j mod 8" "i mod 8"] by auto
  have one: "bit (push_bit (p (i mod 8)) (of_bool b) :: u8) (p (j mod 8)) \<longleftrightarrow> b \<and> j mod 8 = i mod 8"
    using p_lt [of "j mod 8"] p_lt [of "i mod 8"] same by (auto simp: bit_push_bit_iff)
  have eq: "i = j \<longleftrightarrow> i div 8 = j div 8 \<and> i mod 8 = j mod 8" by (metis mod_mult_div_eq)
  show "bits_in_order p (out[i div 8 := (out ! (i div 8)) OR push_bit (p (i mod 8)) (of_bool b)]) ! j =
      (bits_in_order p out)[i := bits_in_order p out ! i \<or> b] ! j"
    using assms j ij one eq by (auto simp: bits_nth nth_list_update bit_or_iff)
qed simp

lemma length_pack [simp]: "length (pack_in_order p out xs) = length out"
  by (induction xs rule: rev_induct) (simp_all add: pack_in_order_def split_beta)

lemma pack_bits:
  "length bits \<le> 8 * m \<Longrightarrow>
     bits_in_order p (pack_in_order p (replicate m 0) (enumerate 0 bits)) =
       bits @ replicate (8 * m - length bits) False"
proof (induction bits rule: rev_induct)
  case Nil
  have "bits_in_order p (replicate m 0) = replicate (8 * m) False"
    by (rule nth_equalityI) (simp_all add: bits_nth)
  then show ?case by (simp add: pack_in_order_def)
next
  case (snoc b bits)
  let ?out = "pack_in_order p (replicate m 0) (enumerate 0 bits)" and ?i = "length bits"
  have "pack_in_order p (replicate m 0) (enumerate 0 (bits @ [b])) =
      ?out[?i div 8 := (?out ! (?i div 8)) OR push_bit (p (?i mod 8)) (of_bool b)]"
    by (simp add: pack_in_order_def enumerate_append_eq)
  moreover have "8 * m - ?i = Suc (8 * m - Suc ?i)" using snoc.prems by simp
  ultimately show ?case
    using snoc bits_update [of ?i ?out b] by (simp add: nth_append list_update_append)
qed

lemma bits_inj:
  assumes surj: "\<And>q. q < 8 \<Longrightarrow> \<exists>k < 8. p k = q"
    and "length xs = length ys" "bits_in_order p xs = bits_in_order p ys"
  shows "xs = ys"
proof (rule nth_equalityI)
  fix n assume n: "n < length xs"
  show "xs ! n = ys ! n"
  proof (rule bit_word_eqI)
    fix q assume "q < LENGTH(8)"
    then obtain k where k: "k < 8" "p k = q" using surj by auto
    have "bits_in_order p xs ! (8 * n + k) = bits_in_order p ys ! (8 * n + k)" using assms(3) by simp
    then show "bit (xs ! n) q = bit (ys ! n) q"
      using n k assms(2) by (simp add: bits_nth)
  qed
qed (rule assms(2))

end

interpretation msb: byte_order "\<lambda>k. 7 - k"
  by unfold_locales auto

interpretation lsb: byte_order "\<lambda>k. k"
  by unfold_locales auto

lemma message_bits_order: "message_bits bytes = bits_in_order (\<lambda>k. 7 - k) bytes"
  by (induction bytes) (simp_all add: bits_in_order_def msb_first_def upt_from_0)

lemma octet_bits_order: "octet_bits bytes = bits_in_order (\<lambda>k. k) bytes"
  by (induction bytes) (simp_all add: bits_in_order_def lsb_first_def upt_from_0)

lemma pack_msb_order: "pack_msb bits = pack_in_order (\<lambda>k. 7 - k) (replicate ((length bits + 7) div 8) 0) (enumerate 0 bits)"
  by (simp add: pack_msb_def pack_in_order_def)

lemma pack_lsb_order: "pack_lsb bits = pack_in_order (\<lambda>k. k) (replicate ((length bits + 7) div 8) 0) (enumerate 0 bits)"
  by (simp add: pack_lsb_def pack_in_order_def)

section \<open>Big-endian fields\<close>

lemma bit_horner_be:
  "bit (foldl (\<lambda>v b. push_bit 1 v OR of_bool b) 0 bs :: 'a::len word) j \<longleftrightarrow>
     j < LENGTH('a) \<and> j < length bs \<and> rev bs ! j"
proof (induction bs arbitrary: j rule: rev_induct)
  case (snoc b bs)
  define v where "v = (foldl (\<lambda>v b. push_bit 1 v OR of_bool b) 0 bs :: 'a word)"
  show ?case
    using snoc.IH [of "j - 1", folded v_def] unfolding foldl_append v_def [symmetric] foldl.simps bit_shift_in
    by (cases j) auto
qed simp

lemma bits_be_window:
  assumes "0 < len" "len \<le> 64" "offset + len \<le> length bytes * 8" "length bytes * 8 < 2 ^ 64"
  shows "bits_be bytes offset len =
    foldl (\<lambda>v b. push_bit 1 v OR of_bool b) 0 (take len (drop offset (message_bits bytes)))"
proof -
  have "ucast (drop_bit (7 - i mod 8) (bytes ! (i div 8)) AND 1 :: u8) = (of_bool (message_bits bytes ! i) :: u64)"
    if "i < length bytes * 8" for i
    using that by (simp add: message_bits_order msb.bits_nth and_one_eq bit_iff_odd_drop_bit mod2_eq_if)
  then have "foldl (\<lambda>value i. push_bit 1 value OR ucast (drop_bit (7 - i mod 8) (bytes ! (i div 8)) AND 1 :: u8)) v is =
      foldl (\<lambda>v b. push_bit 1 v OR of_bool b) v (map (\<lambda>i. message_bits bytes ! i) is)"
    if "\<forall>i \<in> set is. i < length bytes * 8" for v :: u64 and "is"
    using that by (induction "is" arbitrary: v) simp_all
  moreover have "map (\<lambda>i. message_bits bytes ! i) [offset..<offset + len] = take len (drop offset (message_bits bytes))"
    using assms(3) by (intro nth_equalityI) simp_all
  ultimately show ?thesis using assms by (simp add: bits_be_def)
qed

lemma pack_msb_bits: "message_bits (pack_msb bits) = bits @ replicate (8 * ((length bits + 7) div 8) - length bits) False"
  unfolding message_bits_order pack_msb_order by (rule msb.pack_bits) simp

lemma pack_lsb_bits: "octet_bits (pack_lsb bits) = bits @ replicate (8 * ((length bits + 7) div 8) - length bits) False"
  unfolding octet_bits_order pack_lsb_order by (rule lsb.pack_bits) simp

lemma pack_roundtrip_msb: "pack_msb (message_bits bytes) = bytes"
proof (rule msb.bits_inj)
  show "\<exists>k < 8. 7 - k = q" if "q < 8" for q :: nat using that by (intro exI [of _ "7 - q"]) simp
  show "length (pack_msb (message_bits bytes)) = length bytes"
    unfolding pack_msb_order by simp
  show "bits_in_order (\<lambda>k. 7 - k) (pack_msb (message_bits bytes)) = bits_in_order (\<lambda>k. 7 - k) bytes"
    unfolding message_bits_order [symmetric] pack_msb_bits by simp
qed

lemma pack_roundtrip_lsb: "pack_lsb (octet_bits bytes) = bytes"
proof (rule lsb.bits_inj)
  show "\<exists>k < 8. k = q" if "q < 8" for q :: nat using that by simp
  show "length (pack_lsb (octet_bits bytes)) = length bytes"
    unfolding pack_lsb_order by simp
  show "bits_in_order (\<lambda>k. k) (pack_lsb (octet_bits bytes)) = bits_in_order (\<lambda>k. k) bytes"
    unfolding octet_bits_order [symmetric] pack_lsb_bits by simp
qed

section \<open>Properties\<close>

text \<open>
  the descrambler synchronises itself: whatever the two registers hold, if all taps lie in the
  low \<open>n\<close> bits then the descrambler's output on the scrambled stream is the original stream from
  bit \<open>n\<close> on (bit 17 for the G3RUH pair, and never later than bit 32).
\<close>

theorem descrambler_self_synchronises:
  assumes "staps s = dtaps d" and "below n (staps s)"
  shows "drop n (fst (run descrambler_push d (fst (run scrambler_push s bits)))) = drop n bits"
  using descramble_catch_up [of 0 s d n bits] assms by (simp add: agree_def)

theorem descrambler_self_synchronises_witness:
  "drop 17 (fst (run descrambler_push \<lparr>dreg = 0, dtaps = 0x10800\<rparr>
     (fst (run scrambler_push \<lparr>sreg = 0x1FFFF, staps = 0x10800\<rparr>
       (replicate 9 True @ replicate 8 False @ [True, False, True]))))) = [True, False, True]"
proof -
  have "below 17 (0x10800 :: u32)" by (simp add: below_iff_unat)
  then show ?thesis
    using descrambler_self_synchronises
      [of "\<lparr>sreg = 0x1FFFF, staps = 0x10800\<rparr>" "\<lparr>dreg = 0, dtaps = 0x10800\<rparr>" 17
       "replicate 9 True @ replicate 8 False @ [True, False, True]"] by simp
qed

text \<open>
  the line decoders undo their line codes, and a scrambler and descrambler started from the same
  register and taps are exact inverses from the first bit.
\<close>

theorem line_codes_roundtrip:
  "fst (run nrzi_decode NrziDecoder_new (fst (run nrzi_encode False bits))) = bits \<and>
   fst (run differential_decode DifferentialDecoder_new (fst (run differential_encode False bits))) = bits \<and>
   fst (run descrambler_push \<lparr>dreg = r, dtaps = t\<rparr> (fst (run scrambler_push \<lparr>sreg = r, staps = t\<rparr> bits))) = bits"
  by (simp add: nrzi.roundtrip differential.roundtrip scrambled.roundtrip NrziDecoder_new_def
    DifferentialDecoder_new_def)

text \<open>
  a sync detector fires at bit \<open>i\<close> of a stream exactly when the last \<open>n\<close> bits received (zeros
  before the stream began) differ from the sync word in at most \<open>tol\<close> places.
\<close>

theorem sync_detector_spec:
  assumes "SyncDetector_new word n tol = Inr d" and "i < length bits"
  shows "fst (run sync_push d bits) ! i \<longleftrightarrow>
    card {j. j < n \<and> (j \<le> i \<and> bits ! (i - j)) \<noteq> bit word j} \<le> tol"
proof -
  note new = SyncDetector_new_mask [OF assms(1)]
  let ?d = "snd (run sync_push d (take i bits))"
  define r where "r = sync_reg (snd (run sync_push d (take (Suc i) bits)))"
  have "fst (run sync_push d bits) ! i = fst (sync_push ?d (bits ! i))"
    using assms(2) by (rule run_nth)
  also have "sync_reg (snd (sync_push ?d (bits ! i))) = r"
    using assms(2) by (simp add: r_def take_Suc_conv_app_nth run_append split_beta)
  then have "fst (sync_push ?d (bits ! i)) \<longleftrightarrow> hamming_distance r (word AND mask n) \<le> tol"
    using new by (simp add: sync_push_def Let_def)
  also have "hamming_distance r (word AND mask n) =
      card {j. j < n \<and> (j \<le> i \<and> bits ! (i - j)) \<noteq> bit word j}"
  proof -
    have r: "bit r j \<longleftrightarrow> j < n \<and> j \<le> i \<and> bits ! (i - j)" for j
      using run_sync_reg [OF new(4,5), of "take (Suc i) bits" j] new(2) assms(2)
      by (auto simp: r_def rev_nth less_Suc_eq_le)
    have "bit (word AND mask n) j \<longleftrightarrow> j < n \<and> bit word j" for j
      using new(2) by (auto simp: bit_and_iff bit_mask_iff)
    then have "bit (r XOR (word AND mask n)) j \<longleftrightarrow> j < n \<and> (j \<le> i \<and> bits ! (i - j)) \<noteq> bit word j" for j
      unfolding bit_xor_iff r by blast
    then show ?thesis by (simp add: hamming_distance_def count_ones_card)
  qed
  finally show ?thesis .
qed

theorem sync_detector_spec_witness:
  "fst (run sync_push \<lparr>sync_reg = 0, sync_word = 0x7, sync_mask = 0x7, tolerance = 1\<rparr> [True, True, False]) ! 2 \<longleftrightarrow>
     card {j. j < 3 \<and> (j \<le> 2 \<and> [True, True, False] ! (2 - j)) \<noteq> bit (0x7 :: u64) j} \<le> 1"
proof -
  have "SyncDetector_new 0x7 3 1 = Inr \<lparr>sync_reg = 0, sync_word = 0x7, sync_mask = 0x7, tolerance = 1\<rparr>"
    by (simp add: SyncDetector_new_def Let_def)
  from sync_detector_spec [OF this, of 2 "[True, True, False]"] show ?thesis by simp
qed

text \<open>
  packing is lossless in both bit orders: unpacking gives the bits back, padded with zeros to
  whole bytes, and packing the bits of a byte string gives the byte string.
\<close>

theorem pack_roundtrip:
  "message_bits (pack_msb bits) = bits @ replicate (8 * ((length bits + 7) div 8) - length bits) False \<and>
   octet_bits (pack_lsb bits) = bits @ replicate (8 * ((length bits + 7) div 8) - length bits) False \<and>
   pack_msb (message_bits bytes) = bytes \<and> pack_lsb (octet_bits bytes) = bytes"
  by (simp add: pack_msb_bits pack_lsb_bits pack_roundtrip_msb pack_roundtrip_lsb)

text \<open>
  a bit field read from a byte string holds exactly the addressed bits, first bit most
  significant, and reading outside the string or more than 64 bits gives zero.
\<close>

theorem bits_be_spec:
  "bit (bits_be bytes offset len) j \<longleftrightarrow>
     j < len \<and> len \<le> 64 \<and> offset + len \<le> length bytes * 8 \<and> length bytes * 8 < 2 ^ 64 \<and>
     message_bits bytes ! (offset + (len - 1 - j))"
proof (cases "0 < len \<and> len \<le> 64 \<and> offset + len \<le> length bytes * 8 \<and> length bytes * 8 < 2 ^ 64")
  case True
  then have "bits_be bytes offset len =
      foldl (\<lambda>v b. push_bit 1 v OR of_bool b) 0 (take len (drop offset (message_bits bytes)))"
    by (intro bits_be_window) auto
  then show ?thesis
    using True by (simp only: bit_horner_be) (auto simp: rev_nth)
next
  case False
  then have "bits_be bytes offset len = 0" by (auto simp: bits_be_def)
  then show ?thesis using False by auto
qed

end
