(* ===== verification/Gf2_Matrix.thy ===== *)
theory Gf2_Matrix
  imports Gf2_Codes Crc_Register
begin

text \<open>
  Additive maps on words as bit matrices, so that a high power of a register is computed by repeated
  squaring, and the periods of a register: the steps after which it returns to a value are closed
  under greatest common divisors.
\<close>

section \<open>Periods\<close>

lemma period_diff: "(f ^^ a) v = v \<Longrightarrow> (f ^^ b) v = v \<Longrightarrow> a \<le> b \<Longrightarrow> (f ^^ (b - a)) v = v"
  using funpow_add [of "b - a" a f] by simp

lemma period_mult: "(f ^^ a) v = v \<Longrightarrow> (f ^^ (a * k)) v = v"
  by (induction k) (simp_all add: funpow_add)

lemma period_mod: "(f ^^ a) v = v \<Longrightarrow> (f ^^ b) v = v \<Longrightarrow> (f ^^ (b mod a)) v = v"
  using period_diff [where f = f and a = "a * (b div a)" and v = v and b = b]
    period_mult [where f = f and a = a and v = v and k = "b div a"]
  by (simp add: minus_mult_div_eq_mod)

lemma period_gcd: "(f ^^ a) v = v \<Longrightarrow> (f ^^ b) v = v \<Longrightarrow> (f ^^ (gcd a b)) v = v"
proof (induction a b rule: gcd_nat_induct)
  case (step m n)
  then show ?case using period_mod [where f = f and a = n and v = v and b = m] by (simp add: gcd_red_nat [of m n])
qed simp

section \<open>Matrices\<close>

definition represents :: "bitvec list \<Rightarrow> ('a::len word \<Rightarrow> 'a word) \<Rightarrow> bool" where
  "represents A f \<longleftrightarrow> length A = LENGTH('a) \<and> (\<forall>c \<in> set A. length c = LENGTH('a)) \<and>
     (\<forall>w. bits_of LENGTH('a) (f w) = mix (bits_of LENGTH('a) w) A (replicate LENGTH('a) False))"

definition matrix_times :: "bitvec list \<Rightarrow> bitvec list \<Rightarrow> bitvec list" where
  "matrix_times A B = map (\<lambda>c. mix c A (replicate (length A) False)) B"

lemma length_mix: "\<forall>c \<in> set cs. length c = n \<Longrightarrow> length acc = n \<Longrightarrow> length (mix sel cs acc) = n"
  by (induction sel cs acc rule: mix.induct) auto

lemma mix_add:
  "length as = length bs \<Longrightarrow> \<forall>c \<in> set cs. length c = n \<Longrightarrow> length x = n \<Longrightarrow> length y = n \<Longrightarrow>
     mix (xor_bits as bs) cs (xor_bits x y) = xor_bits (mix as cs x) (mix bs cs y)"
proof (induction as bs arbitrary: cs x y rule: list_induct2)
  case (Cons a as b bs)
  show ?case
  proof (cases cs)
    case Nil
    then show ?thesis by simp
  next
    case cs: (Cons c cs')
    let ?x = "if a then xor_bits x c else x" and ?y = "if b then xor_bits y c else y"
    have len: "length x = n" "length y = n" "length c = n" using Cons.prems cs by simp_all
    have "(if a = (\<not> b) then xor_bits (xor_bits x y) c else xor_bits x y) = xor_bits ?x ?y"
      using len by (intro nth_equalityI) (auto simp: xor_bits_nth)
    moreover have "mix (xor_bits as bs) cs' (xor_bits ?x ?y) = xor_bits (mix as cs' ?x) (mix bs cs' ?y)"
      using Cons.prems len cs by (intro Cons.IH) simp_all
    ultimately show ?thesis by (simp add: cs)
  qed
qed simp

text \<open>An additive map of bit vectors goes through a sum of columns.\<close>

lemma mix_image:
  assumes add: "\<And>a b. length a = n \<Longrightarrow> length b = n \<Longrightarrow> h (xor_bits a b) = xor_bits (h a) (h b)"
  shows "\<forall>c \<in> set cs. length c = n \<Longrightarrow> length acc = n \<Longrightarrow> h (mix sel cs acc) = mix sel (map h cs) (h acc)"
  by (induction sel cs acc rule: mix.induct) (simp_all add: add)

lemma represents_compose:
  fixes f g :: "'a::len word \<Rightarrow> 'a word"
  assumes f: "represents A f" and g: "represents B g"
  shows "represents (matrix_times A B) (f \<circ> g)"
proof -
  let ?n = "LENGTH('a)" and ?z = "replicate LENGTH('a) False"
  let ?h = "\<lambda>c. mix c A ?z"
  have A: "length A = ?n" "\<forall>c \<in> set A. length c = ?n" and B: "length B = ?n" "\<forall>c \<in> set B. length c = ?n"
    using f g by (simp_all add: represents_def)
  have zero: "?h ?z = ?z" by (simp add: mix_none)
  have add: "?h (xor_bits a b) = xor_bits (?h a) (?h b)" if "length a = ?n" "length b = ?n" for a b
    using mix_add [of a b A ?n ?z ?z] that A(2) by simp
  have "bits_of ?n ((f \<circ> g) w) = mix (bits_of ?n w) (matrix_times A B) ?z" for w
  proof -
    have "bits_of ?n ((f \<circ> g) w) = ?h (mix (bits_of ?n w) B ?z)"
      using f g by (simp add: represents_def)
    also have "\<dots> = mix (bits_of ?n w) (map ?h B) (?h ?z)"
      using add B(2) by (intro mix_image [where n = ?n]) simp_all
    finally show ?thesis by (simp add: zero matrix_times_def A(1))
  qed
  moreover have "\<forall>c \<in> set (matrix_times A B). length c = ?n"
    using A by (auto simp: matrix_times_def length_mix)
  ultimately show ?thesis using B(1) by (simp add: represents_def matrix_times_def)
qed

text \<open>The matrix of an additive map is its value on the powers of two.\<close>

definition matrix_of :: "('a::len word \<Rightarrow> 'a word) \<Rightarrow> bitvec list" where
  "matrix_of f = map (\<lambda>i. bits_of LENGTH('a) (f (2 ^ i))) [0..<LENGTH('a)]"

lemma represents_matrix_of:
  fixes f :: "'a::len word \<Rightarrow> 'a word"
  assumes add: "\<And>a b. f (a XOR b) = f a XOR f b"
  shows "represents (matrix_of f) f"
proof -
  let ?n = "LENGTH('a)" and ?z = "replicate LENGTH('a) False"
  have zero: "f 0 = 0" using add [of 0 0] by simp
  have main: "bits_of ?n (f (w AND mask m)) = mix (map (bit w) [0..<m]) (map (\<lambda>i. bits_of ?n (f (2 ^ i))) [0..<m]) ?z"
    for w m
  proof (induction m)
    case (Suc m)
    have "bits_of ?n (f (w AND mask (Suc m))) =
        (if bit w m then xor_bits (bits_of ?n (f (w AND mask m))) (bits_of ?n (f (2 ^ m)))
         else bits_of ?n (f (w AND mask m)))"
      by (simp add: and_mask_Suc add zero bits_of_xor)
    then show ?case using Suc by (simp add: mix_append)
  qed (simp add: zero)
  have "bits_of ?n (f w) = mix (bits_of ?n w) (matrix_of f) ?z" for w
    using main [of w ?n] unfolding and_mask_below [OF below_full [OF order_refl]]
      bits_of_def [symmetric, where w = w] matrix_of_def .
  note rep = this
  show ?thesis unfolding represents_def
    by (intro conjI allI rep) (simp_all add: matrix_of_def)
qed

text \<open>Powers of two by repeated squaring.\<close>

fun square :: "nat \<Rightarrow> bitvec list \<Rightarrow> bitvec list" where
  "square 0 A = A"
| "square (Suc k) A = square k (matrix_times A A)"

lemma represents_square: "represents A f \<Longrightarrow> represents (square k A) (f ^^ (2 ^ k))"
proof (induction k arbitrary: A f)
  case (Suc k)
  have pow: "(f \<circ> f) ^^ (2 ^ k) = f ^^ (2 * 2 ^ k)"
    using funpow_mult [where f = f and m = 2 and n = "2 ^ k"] by (simp add: numeral_2_eq_2)
  show ?case
    using Suc.IH [OF represents_compose [OF Suc.prems Suc.prems]] unfolding pow square.simps power_Suc .
qed simp

end
