(* ===== verification/Hdlc.thy ===== *)
theory Hdlc
  imports Bit_Stream Gf2_Matrix
begin

text \<open>
  HDLC: the deframer of \<open>crates/dsp/src/bits.rs\<close> (flags, bit stuffing, size bounds) and the frame
  check of \<open>crates/dsp/src/fec.rs\<close> with its repair of one flipped bit or two adjacent ones.
\<close>

section \<open>The deframer\<close>

record HdlcDeframer =
  min_bytes :: nat
  max_bytes :: nat
  ones_run :: nat
  cur_byte :: u8
  nbits :: nat
  dframe :: bytes
  in_frame :: bool
  overflow :: bool

definition HdlcDeframer_new :: "nat \<Rightarrow> nat \<Rightarrow> HdlcDeframer panics" where
  "HdlcDeframer_new mn mx =
     (if mn > 0 \<and> mx \<ge> mn then
        Inr \<lparr>min_bytes = mn, max_bytes = mx, ones_run = 0, cur_byte = 0, nbits = 0, dframe = [],
             in_frame = False, overflow = False\<rparr>
      else Inl Assertion)"

definition hdlc_append :: "HdlcDeframer \<Rightarrow> bool \<Rightarrow> HdlcDeframer" where
  "hdlc_append d b =
     (if \<not> in_frame d then d
      else
        let d = d\<lparr>cur_byte := cur_byte d OR push_bit (nbits d) (of_bool b), nbits := nbits d + 1\<rparr> in
        if nbits d = 8 then
          let d = (if length (dframe d) = max_bytes d then d\<lparr>overflow := True\<rparr>
                   else d\<lparr>dframe := dframe d @ [cur_byte d]\<rparr>)
          in d\<lparr>cur_byte := 0, nbits := 0\<rparr>
        else d)"

definition hdlc_discard :: "HdlcDeframer \<Rightarrow> HdlcDeframer" where
  "hdlc_discard d = d\<lparr>dframe := [], cur_byte := 0, nbits := 0, overflow := False\<rparr>"

definition hdlc_close :: "HdlcDeframer \<Rightarrow> bytes option \<times> HdlcDeframer" where
  "hdlc_close d =
     (let aligned = (nbits d = 5 \<or> nbits d = 6);
          keep = (in_frame d \<and> aligned \<and> \<not> overflow d \<and>
            min_bytes d \<le> length (dframe d) \<and> length (dframe d) \<le> max_bytes d);
          out = (if keep then Some (dframe d) else None)
      in (out, hdlc_discard (d\<lparr>ones_run := 0, in_frame := True\<rparr>)))"

definition hdlc_push :: "HdlcDeframer \<Rightarrow> bool \<Rightarrow> bytes option \<times> HdlcDeframer" where
  "hdlc_push d b =
     (if ones_run d \<le> 4 then (None, hdlc_append (d\<lparr>ones_run := if b then ones_run d + 1 else 0\<rparr>) b)
      else if ones_run d = 5 then (None, d\<lparr>ones_run := if b then 6 else 0\<rparr>)
      else if ones_run d = 6 \<and> \<not> b then hdlc_close d
      else (None, hdlc_discard (d\<lparr>ones_run := if b then 7 else 0, in_frame := False\<rparr>)))"

definition hdlc_reset :: "HdlcDeframer \<Rightarrow> HdlcDeframer" where
  "hdlc_reset d = hdlc_discard (d\<lparr>ones_run := 0, in_frame := False\<rparr>)"

section \<open>The frame check\<close>

definition hdlc_fcs_ok :: "bytes \<Rightarrow> bool" where
  "hdlc_fcs_ok frame =
     (if length frame < 3 then False
      else let payload = take (length frame - 2) frame; fcs = drop (length frame - 2) frame in
        case fcs of [lo, hi] \<Rightarrow> crc16_x25 payload = ucast lo OR push_bit 8 (ucast hi) | _ \<Rightarrow> False)"

definition hdlc_flip :: "bytes \<Rightarrow> nat \<Rightarrow> bytes" where
  "hdlc_flip frame at = frame[at div 8 := (frame ! (at div 8)) XOR push_bit (at mod 8) 1]"

definition hdlc_flip_span :: "bytes \<Rightarrow> nat \<Rightarrow> nat \<Rightarrow> bytes" where
  "hdlc_flip_span frame at span = foldl hdlc_flip frame [at..<at + span]"

text \<open>The inner loop over the positions of one span: flip, check, flip back.\<close>

fun hdlc_try :: "nat \<Rightarrow> nat list \<Rightarrow> bytes \<Rightarrow> bool \<times> bytes" where
  "hdlc_try span [] frame = (False, frame)"
| "hdlc_try span (at # ats) frame =
     (let frame = hdlc_flip_span frame at span in
      if hdlc_fcs_ok frame then (True, frame)
      else hdlc_try span ats (hdlc_flip_span frame at span))"

fun hdlc_spans :: "nat \<Rightarrow> nat list \<Rightarrow> bytes \<Rightarrow> (bool \<times> bytes) panics" where
  "hdlc_spans bits [] frame = Inr (False, frame)"
| "hdlc_spans bits (span # spans) frame =
     (if bits < span then Inl Overflow
      else let (found, frame) = hdlc_try span [0..<bits - span + 1] frame
           in if found then Inr (True, frame) else hdlc_spans bits spans frame)"

definition hdlc_repair :: "bytes \<Rightarrow> (bool \<times> bytes) panics" where
  "hdlc_repair frame =
     (if hdlc_fcs_ok frame then Inr (True, frame) else hdlc_spans (length frame * 8) [1, 2] frame)"

section \<open>Bounds\<close>

definition hdlc_wf :: "HdlcDeframer \<Rightarrow> bool" where
  "hdlc_wf d \<longleftrightarrow> 0 < min_bytes d \<and> min_bytes d \<le> max_bytes d \<and> ones_run d \<le> 7 \<and> nbits d < 8 \<and>
     below (nbits d) (cur_byte d) \<and> length (dframe d) \<le> max_bytes d"

lemma hdlc_append_bounds [simp]:
  "min_bytes (hdlc_append d b) = min_bytes d" "max_bytes (hdlc_append d b) = max_bytes d"
  "ones_run (hdlc_append d b) = ones_run d" "in_frame (hdlc_append d b) = in_frame d"
  by (simp_all add: hdlc_append_def Let_def)

lemma hdlc_append_wf: "hdlc_wf d \<Longrightarrow> hdlc_wf (hdlc_append d b)"
proof -
  assume wf: "hdlc_wf d"
  have "below (nbits d + 1) (cur_byte d OR push_bit (nbits d) (of_bool b))"
    using wf by (auto simp: hdlc_wf_def below_def bit_or_iff bit_push_bit_iff)
  then show ?thesis using wf by (auto simp: hdlc_wf_def hdlc_append_def Let_def)
qed

lemma hdlc_discard_wf: "hdlc_wf d \<Longrightarrow> hdlc_wf (hdlc_discard d)"
  by (simp add: hdlc_wf_def hdlc_discard_def)

lemma hdlc_push_wf:
  assumes "hdlc_wf d"
  shows "hdlc_wf (snd (hdlc_push d b))"
proof -
  have upd: "hdlc_wf (d\<lparr>ones_run := n\<rparr>)" "hdlc_wf (d\<lparr>ones_run := n, in_frame := i\<rparr>)" if "n \<le> 7" for n i
    using assms that by (simp_all add: hdlc_wf_def)
  show ?thesis
    using upd by (simp add: hdlc_push_def hdlc_close_def Let_def hdlc_append_wf hdlc_discard_wf)
qed

lemma hdlc_push_bounds [simp]:
  "min_bytes (snd (hdlc_push d b)) = min_bytes d" "max_bytes (snd (hdlc_push d b)) = max_bytes d"
  by (simp_all add: hdlc_push_def hdlc_close_def hdlc_discard_def Let_def)

lemma hdlc_push_out:
  "fst (hdlc_push d b) = Some f \<Longrightarrow> min_bytes d \<le> length f \<and> length f \<le> max_bytes d"
  by (auto simp: hdlc_push_def hdlc_close_def Let_def split: if_splits)

lemma hdlc_new_wf: "HdlcDeframer_new mn mx = Inr d \<Longrightarrow> hdlc_wf d \<and> min_bytes d = mn \<and> max_bytes d = mx"
  by (auto simp: HdlcDeframer_new_def hdlc_wf_def split: if_splits)

section \<open>Stuffing\<close>




abbreviation hdlc_frames :: "HdlcDeframer \<Rightarrow> bool list \<Rightarrow> bytes list" where
  "hdlc_frames d bits \<equiv> List.map_filter id (fst (run hdlc_push d bits))"





definition hdlc_ready :: "HdlcDeframer \<Rightarrow> bool" where
  "hdlc_ready d \<longleftrightarrow> in_frame d \<and> cur_byte d = 0 \<and> nbits d = 0"




section \<open>Flags\<close>

definition hdlc_synced :: "HdlcDeframer \<Rightarrow> HdlcDeframer" where
  "hdlc_synced d = hdlc_discard (d\<lparr>ones_run := 0, in_frame := True\<rparr>)"

lemma hdlc_ready_synced [simp]: "hdlc_ready (hdlc_synced d)"
  by (simp add: hdlc_ready_def hdlc_synced_def hdlc_discard_def)


lemma hdlc_synced_ones [simp]: "ones_run (hdlc_synced d) = 0"
  by (simp add: hdlc_synced_def hdlc_discard_def)





lemma foldl_append_bounds [simp]:
  "min_bytes (foldl hdlc_append d bs) = min_bytes d" "max_bytes (foldl hdlc_append d bs) = max_bytes d"
  "in_frame (foldl hdlc_append d bs) = in_frame d"
  by (induction bs arbitrary: d) simp_all





lemma run_wf: "hdlc_wf d \<Longrightarrow> hdlc_wf (snd (run hdlc_push d bits)) \<and>
    min_bytes (snd (run hdlc_push d bits)) = min_bytes d \<and> max_bytes (snd (run hdlc_push d bits)) = max_bytes d"
  by (induction bits arbitrary: d) (simp_all add: split_beta hdlc_push_wf)

section \<open>The check is a residue\<close>

text \<open>A frame passes the check when the register ends in one fixed value.\<close>

interpretation ccitt: msb_invertible 16 "0x1021 :: u16"
  by unfold_locales (simp_all add: below_full)

lemma reflect_FFFF: "reflect (0xFFFF :: u16) = 0xFFFF"
  by (simp add: reflect_def upt_from_0)

lemma reflect_le:
  "reflect (ucast lo OR push_bit 8 (ucast hi) :: u16) = top_bits 16 (octet_bits [lo, hi])"
proof (rule bit_word_eqI)
  fix i assume i: "i < LENGTH(16)"
  have high: "\<not> bit b j" if "8 \<le> j" for b :: u8 and j using that bit_imp_le_length [of b j] by auto
  show "bit (reflect (ucast lo OR push_bit 8 (ucast hi) :: u16)) i = bit (top_bits 16 (octet_bits [lo, hi]) :: u16) i"
    using i by (cases "i < 8") (auto simp: bit_reflect bit_or_iff bit_push_bit_iff bit_ucast_iff bit_top_bits
      lsb_first_eq nth_append high)
qed

definition hdlc_register :: "bool list \<Rightarrow> u16" where
  "hdlc_register bits = crc_serial 16 0x1021 0xFFFF bits"

lemma hdlc_fcs_ok_residue:
  "hdlc_fcs_ok f \<longleftrightarrow> 3 \<le> length f \<and> hdlc_register (octet_bits f) = 0x1D0F"
proof (cases "3 \<le> length f")
  case True
  then obtain ys a lo hi where "f = ys @ [a, lo, hi]" by (rule last_three)
  then have f: "f = (ys @ [a]) @ [lo, hi]" by simp
  let ?p = "ys @ [a]" and ?fcs = "ucast lo OR push_bit 8 (ucast hi) :: u16"
  define r where "r = crc16_reflected 0xFFFF ?p"
  have "hdlc_fcs_ok f \<longleftrightarrow> NOT r = ?fcs" by (simp add: f hdlc_fcs_ok_def r_def crc16_x25_def)
  also have "\<dots> \<longleftrightarrow> r XOR ?fcs = 0xFFFF"
  proof -
    have full: "(0xFFFF :: u16) = - 1" by simp
    have "NOT r = r XOR 0xFFFF" unfolding full by (rule bit_word_eqI) (simp add: bit_not_iff bit_xor_iff)
    then show ?thesis by (metis xor_move)
  qed
  also have "\<dots> \<longleftrightarrow> reflect r XOR reflect ?fcs = 0xFFFF"
    by (subst reflect_eq_iff [symmetric]) (simp only: reflect_xor reflect_FFFF)
  also have "\<dots> \<longleftrightarrow> (msb_step 16 0x1021 ^^ 16) (reflect r XOR reflect ?fcs) = (msb_step 16 0x1021 ^^ 16) 0xFFFF"
    by (simp add: ccitt.steps_inj below_full)
  also have "(msb_step 16 0x1021 ^^ 16) (0xFFFF :: u16) = 0x1D0F"
    by (simp add: msb_step_full funpow_eval)
  also have "(msb_step 16 0x1021 ^^ 16) (reflect r XOR reflect ?fcs) = hdlc_register (octet_bits f)"
    unfolding r_def crc16_reflected_serial reflect_FFFF reflect_le hdlc_register_def f
    using r16.serial_absorb [of "octet_bits [lo, hi]"] by (simp add: crc_serial_append)
  finally show ?thesis using True by simp
next
  case False
  then show ?thesis by (simp add: hdlc_fcs_ok_def)
qed

section \<open>The period of the register\<close>

text \<open>The register returns to the checksum of two adjacent ones after 32767 steps and not before; the
  powers are evaluated by repeated squaring of its matrix.\<close>

definition ccitt_matrix :: "bitvec list" where
  "ccitt_matrix = [
     [False, True, False, False, False, False, False, False, False, False, False, False, False, False, False, False],
     [False, False, True, False, False, False, False, False, False, False, False, False, False, False, False, False],
     [False, False, False, True, False, False, False, False, False, False, False, False, False, False, False, False],
     [False, False, False, False, True, False, False, False, False, False, False, False, False, False, False, False],
     [False, False, False, False, False, True, False, False, False, False, False, False, False, False, False, False],
     [False, False, False, False, False, False, True, False, False, False, False, False, False, False, False, False],
     [False, False, False, False, False, False, False, True, False, False, False, False, False, False, False, False],
     [False, False, False, False, False, False, False, False, True, False, False, False, False, False, False, False],
     [False, False, False, False, False, False, False, False, False, True, False, False, False, False, False, False],
     [False, False, False, False, False, False, False, False, False, False, True, False, False, False, False, False],
     [False, False, False, False, False, False, False, False, False, False, False, True, False, False, False, False],
     [False, False, False, False, False, False, False, False, False, False, False, False, True, False, False, False],
     [False, False, False, False, False, False, False, False, False, False, False, False, False, True, False, False],
     [False, False, False, False, False, False, False, False, False, False, False, False, False, False, True, False],
     [False, False, False, False, False, False, False, False, False, False, False, False, False, False, False, True],
     [True, False, False, False, False, True, False, False, False, False, False, False, True, False, False, False]]"

abbreviation ccitt_step :: "u16 \<Rightarrow> u16" where
  "ccitt_step \<equiv> msb_step 16 0x1021"

lemma represents_ccitt: "represents ccitt_matrix ccitt_step"
proof -
  have upt: "[0..<16] = [0, Suc 0, 2, 3, 4, 5, 6, 7, 8, 9, 10, 11, 12, 13, 14, 15]" by (simp add: upt_from_0)
  have "matrix_of ccitt_step = ccitt_matrix"
    unfolding matrix_of_def by (simp add: upt bits_of_def msb_step_full ccitt_matrix_def)
  then show ?thesis using represents_matrix_of [of ccitt_step] by (simp add: msb_step_xor)
qed

abbreviation ccitt_square :: "nat \<Rightarrow> bitvec list" where
  "ccitt_square k \<equiv> square k ccitt_matrix"

abbreviation zeros16 :: bitvec where
  "zeros16 \<equiv> replicate 16 False"

lemma ccitt_power_bits:
  "bits_of 16 ((ccitt_step ^^ (2 ^ k)) w) = mix (bits_of 16 w) (ccitt_square k) zeros16"
  using represents_square [OF represents_ccitt, of k] by (simp add: represents_def)

text \<open>The checksum of two adjacent ones.\<close>

definition pair_value :: u16 where
  "pair_value = 0x3063"

lemma bits_of_pair: "bits_of 16 pair_value =
    [True, True, False, False, False, True, True, False, False, False, False, False, True, True, False, False]"
  by (simp add: bits_of_def upt_from_0 pair_value_def)

lemmas matrix_eval = square.simps matrix_times_def list.map mix.simps xor_bits.simps
  list.size(3,4) replicate.simps simp_thms if_True if_False ccitt_matrix_def
  eval_nat_numeral BitM.simps add_Suc_right add_0_right

lemma ccitt_period_15: "mix (bits_of 16 pair_value) (ccitt_square 15) zeros16 = mix (bits_of 16 pair_value) (ccitt_square 0) zeros16"
  by (simp only: bits_of_pair matrix_eval)

lemma ccitt_period: "(ccitt_step ^^ 32767) pair_value = pair_value"
proof -
  have "bits_of 16 ((ccitt_step ^^ (2 ^ 15)) pair_value) = bits_of 16 ((ccitt_step ^^ (2 ^ 0)) pair_value)"
    unfolding ccitt_power_bits by (rule ccitt_period_15)
  then have "(ccitt_step ^^ 2 ^ 15) pair_value = (ccitt_step ^^ 2 ^ 0) pair_value"
    by (intro bits_of_inj [of 16]) (simp_all add: below_full)
  moreover have "ccitt_step ^^ 2 ^ 15 = ccitt_step \<circ> (ccitt_step ^^ 32767)"
    using funpow_add [where f = ccitt_step and m = 1 and n = 32767] by simp
  ultimately have "(ccitt_step ^^ 1) ((ccitt_step ^^ 32767) pair_value) = (ccitt_step ^^ 1) pair_value" by simp
  moreover have "below 16 w" for w :: u16 by (rule below_full) simp
  ultimately show ?thesis using ccitt.steps_inj by blast
qed

lemma ccitt_power_add:
  "bits_of 16 ((ccitt_step ^^ (2 ^ k + m)) w) = mix (bits_of 16 ((ccitt_step ^^ m) w)) (ccitt_square k) zeros16"
  by (simp add: funpow_add ccitt_power_bits)

lemma ccitt_not_4681: "(ccitt_step ^^ 4681) pair_value \<noteq> pair_value"
proof -
  have "(ccitt_step ^^ 4681) pair_value = (ccitt_step ^^ (2 ^ 12 + (2 ^ 9 + (2 ^ 6 + (2 ^ 3 + 2 ^ 0))))) pair_value"
    by simp
  moreover have "bits_of 16 ((ccitt_step ^^ (2 ^ 12 + (2 ^ 9 + (2 ^ 6 + (2 ^ 3 + 2 ^ 0))))) pair_value) \<noteq> bits_of 16 pair_value"
    unfolding ccitt_power_add ccitt_power_bits bits_of_pair by (simp only: matrix_eval list.inject)
  ultimately show ?thesis by metis
qed

lemma ccitt_not_1057: "(ccitt_step ^^ 1057) pair_value \<noteq> pair_value"
proof -
  have "(ccitt_step ^^ 1057) pair_value = (ccitt_step ^^ (2 ^ 10 + (2 ^ 5 + 2 ^ 0))) pair_value"
    by simp
  moreover have "bits_of 16 ((ccitt_step ^^ (2 ^ 10 + (2 ^ 5 + 2 ^ 0))) pair_value) \<noteq> bits_of 16 pair_value"
    unfolding ccitt_power_add ccitt_power_bits bits_of_pair by (simp only: matrix_eval list.inject)
  ultimately show ?thesis by metis
qed

lemma ccitt_not_217: "(ccitt_step ^^ 217) pair_value \<noteq> pair_value"
proof -
  have "(ccitt_step ^^ 217) pair_value = (ccitt_step ^^ (2 ^ 7 + (2 ^ 6 + (2 ^ 4 + (2 ^ 3 + 2 ^ 0))))) pair_value"
    by simp
  moreover have "bits_of 16 ((ccitt_step ^^ (2 ^ 7 + (2 ^ 6 + (2 ^ 4 + (2 ^ 3 + 2 ^ 0))))) pair_value) \<noteq> bits_of 16 pair_value"
    unfolding ccitt_power_add ccitt_power_bits bits_of_pair by (simp only: matrix_eval list.inject)
  ultimately show ?thesis by metis
qed

text \<open>\<open>32767 = 7 \<cdot> 31 \<cdot> 151\<close>, so a proper divisor divides one of the three quotients.\<close>

lemma coprime_or_dvd:
  fixes k p :: nat
  assumes "\<And>x. x dvd p \<Longrightarrow> x = 1 \<or> x = p"
  shows "coprime k p \<or> p dvd k"
  using assms [of "gcd k p"] by (auto simp: coprime_iff_gcd_eq_1) (metis gcd_dvd1)

lemma no_divisors:
  fixes p :: nat
  assumes "list_all (\<lambda>x. x dvd p \<longrightarrow> x = 1 \<or> x = p) [0..<Suc p]" "0 < p" "x dvd p"
  shows "x = 1 \<or> x = p"
  using assms dvd_imp_le [of x p] by (auto simp: list_all_iff less_Suc_eq_le simp del: upt_Suc)

lemma proper_divisor_32767:
  fixes g :: nat
  assumes "g dvd 32767" "g < 32767"
  shows "g dvd 4681 \<or> g dvd 1057 \<or> g dvd 217"
proof -
  obtain k where k: "32767 = g * k" using assms(1) by (rule dvdE)
  have "k \<noteq> 1" using k assms(2) by auto
  have "x = 1 \<or> x = 7" if "x dvd 7" for x :: nat
    by (rule no_divisors [OF _ _ that]) (simp_all add: upt_from_0)
  moreover have "x = 1 \<or> x = 31" if "x dvd 31" for x :: nat
    by (rule no_divisors [OF _ _ that]) (simp_all add: upt_from_0)
  moreover have "x = 1 \<or> x = 151" if "x dvd 151" for x :: nat
    by (rule no_divisors [OF _ _ that]) (simp_all add: upt_from_0)
  moreover have "\<not> (coprime k 7 \<and> coprime k 31 \<and> coprime k 151)"
  proof
    assume "coprime k 7 \<and> coprime k 31 \<and> coprime k 151"
    then have "coprime k (7 * 31 * 151)" by (simp only: coprime_mult_right_iff)
    moreover have "k dvd 32767" using k by (metis dvd_triv_right)
    then have "k dvd 7 * 31 * 151" by simp
    ultimately have "k = 1" by (metis coprime_absorb_left nat_dvd_1_iff_1)
    with \<open>k \<noteq> 1\<close> show False ..
  qed
  ultimately have "7 dvd k \<or> 31 dvd k \<or> 151 dvd k" using coprime_or_dvd by blast
  then show ?thesis
  proof (elim disjE dvdE)
    fix m assume "k = 7 * m"
    then have "4681 = g * m" using k by simp
    then have "g dvd 4681" by (metis dvd_triv_left)
    then show ?thesis by simp
  next
    fix m assume "k = 31 * m"
    then have "1057 = g * m" using k by simp
    then have "g dvd 1057" by (metis dvd_triv_left)
    then show ?thesis by simp
  next
    fix m assume "k = 151 * m"
    then have "217 = g * m" using k by simp
    then have "g dvd 217" by (metis dvd_triv_left)
    then show ?thesis by simp
  qed
qed

lemma ccitt_order:
  assumes "0 < d" "d < 32767"
  shows "(ccitt_step ^^ d) pair_value \<noteq> pair_value"
proof
  assume d: "(ccitt_step ^^ d) pair_value = pair_value"
  let ?g = "gcd d 32767"
  have g: "(ccitt_step ^^ ?g) pair_value = pair_value" by (rule period_gcd [OF d ccitt_period])
  have "?g \<le> d" using assms(1) by (intro dvd_imp_le) auto
  then have "?g dvd 4681 \<or> ?g dvd 1057 \<or> ?g dvd 217"
    using assms(2) by (intro proper_divisor_32767) auto
  then show False
    using period_mult [OF g] ccitt_not_4681 ccitt_not_1057 ccitt_not_217 by (auto elim!: dvdE)
qed

section \<open>Repair\<close>

lemma length_hdlc_flip [simp]: "length (hdlc_flip f i) = length f"
  by (simp add: hdlc_flip_def)

lemma length_flip_span [simp]: "length (hdlc_flip_span f i span) = length f"
  by (induction span) (simp_all add: hdlc_flip_span_def)

lemma octet_bits_flip:
  assumes "i < 8 * length f" "j < 8 * length f"
  shows "octet_bits (hdlc_flip f i) ! j \<longleftrightarrow> octet_bits f ! j \<noteq> (j = i)"
proof -
  have "i div 8 < length f" "j div 8 < length f" using assms by auto
  moreover have "bit (push_bit (i mod 8) 1 :: u8) (j mod 8) \<longleftrightarrow> i mod 8 = j mod 8"
    by (auto simp: bit_push_bit_iff)
  moreover have "j = i \<longleftrightarrow> j div 8 = i div 8 \<and> j mod 8 = i mod 8" by (metis mod_mult_div_eq)
  ultimately show ?thesis
    using assms by (auto simp: octet_bits_order lsb.bits_nth hdlc_flip_def nth_list_update bit_xor_iff
      simp del: push_bit_of_1)
qed

lemma octet_bits_span:
  "i + span \<le> 8 * length f \<Longrightarrow> j < 8 * length f \<Longrightarrow>
     octet_bits (hdlc_flip_span f i span) ! j \<longleftrightarrow> octet_bits f ! j \<noteq> (i \<le> j \<and> j < i + span)"
proof (induction span)
  case (Suc span)
  have "hdlc_flip_span f i (Suc span) = hdlc_flip (hdlc_flip_span f i span) (i + span)"
    by (simp add: hdlc_flip_span_def)
  then show ?case
    using Suc octet_bits_flip [of "i + span" "hdlc_flip_span f i span" j] by auto
qed (simp add: hdlc_flip_span_def)

lemma octet_bits_eqI:
  assumes "length f = length g" "\<And>j. j < 8 * length f \<Longrightarrow> octet_bits f ! j = octet_bits g ! j"
  shows "f = g"
proof (rule lsb.bits_inj [OF _ assms(1)])
  show "bits_in_order (\<lambda>k. k) f = bits_in_order (\<lambda>k. k) g"
    unfolding octet_bits_order [symmetric] using assms by (intro nth_equalityI) simp_all
qed simp

lemma flip_span_twice:
  "i + span \<le> 8 * length f \<Longrightarrow> hdlc_flip_span (hdlc_flip_span f i span) i span = f"
  by (rule octet_bits_eqI) (auto simp: octet_bits_span)

text \<open>The frames the repair considers, in its order: the frame itself, every single flip, every
  adjacent pair.\<close>

definition hdlc_candidates :: "bytes \<Rightarrow> bytes list" where
  "hdlc_candidates f =
     f # map (\<lambda>i. hdlc_flip_span f i 1) [0..<8 * length f] @ map (\<lambda>i. hdlc_flip_span f i 2) [0..<8 * length f - 1]"

lemma hdlc_try_find:
  "\<forall>i \<in> set is. i + span \<le> 8 * length f \<Longrightarrow>
     hdlc_try span is f =
       (case find hdlc_fcs_ok (map (\<lambda>i. hdlc_flip_span f i span) is) of Some g \<Rightarrow> (True, g) | None \<Rightarrow> (False, f))"
  by (induction "is") (simp_all add: Let_def flip_span_twice)

lemma find_append: "find P (xs @ ys) = (case find P xs of Some x \<Rightarrow> Some x | None \<Rightarrow> find P ys)"
  by (induction xs) simp_all

lemma hdlc_repair_find:
  assumes "f \<noteq> []"
  shows "hdlc_repair f =
    Inr (case find hdlc_fcs_ok (hdlc_candidates f) of Some g \<Rightarrow> (True, g) | None \<Rightarrow> (False, f))"
proof -
  have pos: "0 < length f" using assms by simp
  let ?c = "\<lambda>span n. map (\<lambda>i. hdlc_flip_span f i span) [0..<n]"
  have t1: "hdlc_try 1 [0..<8 * length f] f =
      (case find hdlc_fcs_ok (?c 1 (8 * length f)) of Some g \<Rightarrow> (True, g) | None \<Rightarrow> (False, f))"
    by (rule hdlc_try_find) auto
  have t2: "hdlc_try 2 [0..<8 * length f - 1] f =
      (case find hdlc_fcs_ok (?c 2 (8 * length f - 1)) of Some g \<Rightarrow> (True, g) | None \<Rightarrow> (False, f))"
    by (rule hdlc_try_find) auto
  have bits: "length f * 8 - 1 + 1 = 8 * length f" "length f * 8 - 2 + 1 = 8 * length f - 1"
    using pos by linarith+
  have many: "(length f * 8 < 1) = False" "(length f * 8 < 2) = False"
    using pos by auto
  have "hdlc_spans (length f * 8) [1, 2] f =
      Inr (case find hdlc_fcs_ok (?c 1 (8 * length f) @ ?c 2 (8 * length f - 1)) of
        Some g \<Rightarrow> (True, g) | None \<Rightarrow> (False, f))"
    unfolding hdlc_spans.simps bits many t1 if_False find_append
    by (cases "find hdlc_fcs_ok (?c 1 (8 * length f))";
        cases "find hdlc_fcs_ok (?c 2 (8 * length f - 1))") (simp_all add: t2 del: One_nat_def)
  then show ?thesis by (simp add: hdlc_repair_def hdlc_candidates_def)
qed

text \<open>The change of the register by a flipped span.\<close>

definition span_bits :: "nat \<Rightarrow> nat \<Rightarrow> nat \<Rightarrow> bool list" where
  "span_bits n i span = replicate i False @ replicate span True @ replicate (n - i - span) False"

definition span_value :: "nat \<Rightarrow> nat \<Rightarrow> nat \<Rightarrow> u16" where
  "span_value n i span = (ccitt_step ^^ (n - i - span)) (crc_serial 16 0x1021 0 (replicate span True))"

lemma register_span:
  assumes "i + span \<le> 8 * length f"
  shows "hdlc_register (octet_bits (hdlc_flip_span f i span)) =
    hdlc_register (octet_bits f) XOR span_value (8 * length f) i span"
proof -
  let ?n = "8 * length f"
  have "octet_bits (hdlc_flip_span f i span) = xor_bits (octet_bits f) (span_bits ?n i span)"
    using assms by (intro nth_equalityI)
      (auto simp: octet_bits_span span_bits_def xor_bits_nth nth_append)
  moreover have "length (octet_bits f) = length (span_bits ?n i span)"
    using assms by (simp add: span_bits_def)
  from crc_serial_xor [OF this, of 16 "0x1021 :: u16" "0xFFFF" 0]
  have "crc_serial 16 0x1021 0xFFFF (xor_bits (octet_bits f) (span_bits ?n i span)) =
      hdlc_register (octet_bits f) XOR crc_serial 16 0x1021 0 (span_bits ?n i span)"
    by (simp add: hdlc_register_def)
  moreover have "crc_serial 16 0x1021 0 (span_bits ?n i span) = span_value ?n i span"
    by (simp add: span_bits_def crc_serial_append crc_serial_zeros span_value_def)
  ultimately show ?thesis by (simp add: hdlc_register_def)
qed

lemma span_value_eqs:
  "span_value n i 0 = 0" "span_value n i 1 = (ccitt_step ^^ (n - i - 1)) 0x1021"
  "span_value n i 2 = (ccitt_step ^^ (n - i - 2)) pair_value"
proof -
  have wrap: "(0x11021 :: u16) = 0x1021" "(0x33063 :: u16) = 0x3063" "(0x13063 :: u16) = 0x3063" by simp_all
  show "span_value n i 0 = 0" "span_value n i 1 = (ccitt_step ^^ (n - i - 1)) 0x1021"
    "span_value n i 2 = (ccitt_step ^^ (n - i - 2)) pair_value"
    by (simp_all add: span_value_def msb_feed_def msb_step_full pair_value_def numeral_2_eq_2 wrap)
qed

text \<open>The register keeps the parity of its ones, because the polynomial has a factor \<open>x + 1\<close>.\<close>

lemma ccitt_parity: "odd (count_ones (ccitt_step w)) \<longleftrightarrow> odd (count_ones w)"
proof -
  have "{i. bit (push_bit 1 w) i} = Suc ` ({i. bit w i} - {15})"
  proof (rule set_eqI)
    fix i
    have "bit (push_bit 1 w) i \<longleftrightarrow> i < 16 \<and> (case i of 0 \<Rightarrow> False | Suc j \<Rightarrow> bit w j)"
      by (cases i) (auto simp: bit_push_bit_iff)
    then show "i \<in> {i. bit (push_bit 1 w) i} \<longleftrightarrow> i \<in> Suc ` ({i. bit w i} - {15})"
      using bit_imp_le_length [of w "i - 1"] by (cases i) auto
  qed
  then have "count_ones (push_bit 1 w) = card ({i. bit w i} - {15})"
    by (simp add: count_ones_card card_image)
  also have "\<dots> = count_ones w - (if bit w 15 then 1 else 0)"
    by (simp add: count_ones_card)
  finally have "odd (count_ones (push_bit 1 w)) \<longleftrightarrow> odd (count_ones w) \<noteq> bit w 15"
    using count_ones_card [of w] by (cases "bit w 15") (auto simp: card_gt_0_iff)
  moreover have "odd (count_ones (0x1021 :: u16))" by (simp add: count_ones_def upt_from_0)
  ultimately show ?thesis
    using odd_count_ones_xor [of "push_bit 1 w" "0x1021"] by (cases "bit w 15") (auto simp: msb_step_full)
qed

lemma ccitt_steps_parity: "odd (count_ones ((ccitt_step ^^ k) w)) \<longleftrightarrow> odd (count_ones w)"
  by (induction k) (simp_all add: ccitt_parity)

lemma span_value_nonzero:
  assumes "span = 1 \<or> span = 2"
  shows "span_value n i span \<noteq> 0"
proof -
  have "(ccitt_step ^^ k) w = 0 \<longleftrightarrow> w = 0" for k w by (rule ccitt.steps_eq_0) (simp add: below_full)
  then show ?thesis using assms span_value_eqs(2,3) by (auto simp: pair_value_def)
qed

lemma span_value_parity:
  "odd (count_ones (span_value n i 1))" "even (count_ones (span_value n i 2))"
proof -
  have "odd (count_ones (0x1021 :: u16))" "even (count_ones pair_value)"
    by (simp_all add: count_ones_def upt_from_0 pair_value_def)
  then show "odd (count_ones (span_value n i 1))" "even (count_ones (span_value n i 2))"
    unfolding span_value_eqs
    using ccitt_steps_parity [of "n - i - 1" "0x1021"] ccitt_steps_parity [of "n - i - 2" pair_value] by blast+
qed

text \<open>A single one or a pair at two places is told apart within the period.\<close>

lemma ccitt_apart:
  assumes "a \<le> b" "b - a < 32767" "(ccitt_step ^^ a) w = (ccitt_step ^^ b) w" and w: "w = 0x1021 \<or> w = pair_value"
  shows "a = b"
proof (rule ccontr)
  assume "a \<noteq> b"
  let ?d = "b - a"
  have "(ccitt_step ^^ a) w = (ccitt_step ^^ a) ((ccitt_step ^^ ?d) w)"
    using assms(1,3) funpow_add [where f = ccitt_step and m = a and n = ?d] by simp
  then have d: "(ccitt_step ^^ ?d) w = w"
    using ccitt.steps_inj [of w "(ccitt_step ^^ ?d) w" a] by (simp add: below_full)
  have "(ccitt_step ^^ ?d) pair_value = pair_value"
  proof (cases "w = pair_value")
    case False
    then have w1: "w = 0x1021" using w by simp
    have "(0x2042 :: u16) XOR 0x1021 = 0x3063" by simp
    moreover have "ccitt_step 0x1021 = 0x2042" by (simp add: msb_step_full)
    ultimately have pair: "pair_value = ccitt_step 0x1021 XOR 0x1021" by (simp add: pair_value_def)
    have "(ccitt_step ^^ ?d) (ccitt_step 0x1021) = ccitt_step ((ccitt_step ^^ ?d) 0x1021)"
      by (simp add: funpow_swap1)
    then show ?thesis using d w1 unfolding pair msb_steps_xor by simp
  qed (use d in simp)
  then show False using ccitt_order [of ?d] assms(1,2) \<open>a \<noteq> b\<close> by simp
qed

lemma span_value_inj:
  assumes "i + s \<le> n" "j + t \<le> n" "n < 32767" "s = 1 \<or> s = 2" "t = 0 \<or> t = 1 \<or> t = 2"
    and eq: "span_value n i s = span_value n j t"
  shows "i = j \<and> s = t"
proof -
  have "t \<noteq> 0" using eq span_value_nonzero [OF assms(4)] span_value_eqs(1) by metis
  moreover have "s = t"
    using assms(4,5) calculation eq span_value_parity by metis
  moreover have "n - i - s = n - j - s"
  proof -
    define w where "w = (if s = 1 then 0x1021 else pair_value)"
    have w: "w = 0x1021 \<or> w = pair_value" by (simp add: w_def)
    have pow: "(ccitt_step ^^ (n - i - s)) w = (ccitt_step ^^ (n - j - s)) w"
      using eq \<open>s = t\<close> assms(4) span_value_eqs(2,3) by (auto simp: w_def)
    have near: "n - i - s - (n - j - s) < 32767" "n - j - s - (n - i - s) < 32767" using assms(3) by auto
    show ?thesis
    proof (cases "n - i - s \<le> n - j - s")
      case True
      then show ?thesis using near(2) pow w by (rule ccitt_apart)
    next
      case False
      then have "n - j - s \<le> n - i - s" by simp
      then show ?thesis using near(1) pow [symmetric] w by (rule ccitt_apart [symmetric])
    qed
  qed
  ultimately show ?thesis using assms(1,2) by simp
qed

lemma candidate_span:
  assumes "h \<in> set (hdlc_candidates g)"
  shows "\<exists>j t. h = hdlc_flip_span g j t \<and> j + t \<le> 8 * length g \<and> (t = 0 \<or> t = 1 \<or> t = 2)"
proof -
  have zero: "g = hdlc_flip_span g 0 0" by (simp add: hdlc_flip_span_def)
  consider "h = g" | "h \<in> (\<lambda>j. hdlc_flip_span g j 1) ` {0..<8 * length g}"
    | "h \<in> (\<lambda>j. hdlc_flip_span g j 2) ` {0..<8 * length g - 1}"
    using assms unfolding hdlc_candidates_def by auto
  then show ?thesis
  proof cases
    case 1
    then show ?thesis using zero by (intro exI [of _ 0]) simp
  next
    case 2
    then obtain j where "j < 8 * length g" "h = hdlc_flip_span g j 1" by auto
    then show ?thesis by (intro exI [of _ j] exI [of _ 1]) simp
  next
    case 3
    then obtain j where "j < 8 * length g - 1" "h = hdlc_flip_span g j 2" by auto
    then show ?thesis by (intro exI [of _ j] exI [of _ 2]) simp
  qed
qed

lemma candidate_mem:
  "t = 1 \<or> t = 2 \<Longrightarrow> j + t \<le> 8 * length g \<Longrightarrow> hdlc_flip_span g j t \<in> set (hdlc_candidates g)"
proof (elim disjE)
  assume "t = 1" "j + t \<le> 8 * length g"
  then show ?thesis unfolding hdlc_candidates_def by (simp del: One_nat_def)
next
  assume "t = 2" "j + t \<le> 8 * length g"
  then have "hdlc_flip_span g j t \<in> set (map (\<lambda>i. hdlc_flip_span g i 2) [0..<8 * length g - 1])" by auto
  then show ?thesis unfolding hdlc_candidates_def by (metis Un_iff list.set_intros(2) set_append)
qed

lemma hdlc_example_ok: "hdlc_fcs_ok [0x41, 0x42, 0xEF, 0x31]"
  by (simp add: hdlc_fcs_ok_def crc16_x25_def crc16_reflected_eval crc16_reflected_step_numeral funpow_eval)

section \<open>Properties\<close>



text \<open>
  on any bit stream the deframer's buffer stays within its bound, its counters within their
  ranges, and every frame it delivers has a length between the two bounds.
\<close>

theorem hdlc_deframer_bounded:
  assumes "HdlcDeframer_new mn mx = Inr d"
  shows "hdlc_wf (snd (run hdlc_push d bits)) \<and>
    (\<forall>f \<in> set (hdlc_frames d bits). mn \<le> length f \<and> length f \<le> mx)"
proof -
  note new = hdlc_new_wf [OF assms]
  have "\<forall>f \<in> set (hdlc_frames d bits). min_bytes d \<le> length f \<and> length f \<le> max_bytes d" for d
  proof (induction bits arbitrary: d)
    case (Cons b bits)
    then show ?case
      using hdlc_push_out [of d b] Cons.IH [of "snd (hdlc_push d b)"]
      by (auto simp: List.map_filter_def split_beta split: option.splits)
  qed (simp add: List.map_filter_def)
  from this [of d] show ?thesis using new run_wf [of d bits] by simp
qed

theorem hdlc_deframer_bounded_witness:
  "hdlc_wf (snd (run hdlc_push \<lparr>min_bytes = 1, max_bytes = 4, ones_run = 0, cur_byte = 0, nbits = 0, dframe = [],
      in_frame = False, overflow = False\<rparr> (replicate 99 True)))"
proof -
  have "HdlcDeframer_new 1 4 = Inr \<lparr>min_bytes = 1, max_bytes = 4, ones_run = 0, cur_byte = 0, nbits = 0,
      dframe = [], in_frame = False, overflow = False\<rparr>"
    by (simp add: HdlcDeframer_new_def)
  from hdlc_deframer_bounded [OF this, of "replicate 99 True"] show ?thesis by blast
qed

text \<open>
  C1: the repair is exact: a frame of at most 4095 bytes that passes the check and then has one bit
  or two adjacent bits flipped is restored to what it was.
\<close>

theorem hdlc_repair_restores:
  assumes ok: "hdlc_fcs_ok f" and len: "length f \<le> 4095"
    and span: "span = 1 \<or> span = 2" and i: "i + span \<le> 8 * length f"
  shows "hdlc_repair (hdlc_flip_span f i span) = Inr (True, f)"
proof -
  let ?g = "hdlc_flip_span f i span" and ?n = "8 * length f"
  have reg: "hdlc_register (octet_bits f) = 0x1D0F" "3 \<le> length f" using ok by (simp_all add: hdlc_fcs_ok_residue)
  have "h = f" if "h \<in> set (hdlc_candidates ?g)" "hdlc_fcs_ok h" for h
  proof -
    from candidate_span [OF that(1)] obtain j t
      where h: "h = hdlc_flip_span ?g j t" and j: "j + t \<le> ?n" and t: "t = 0 \<or> t = 1 \<or> t = 2" by auto
    have "hdlc_register (octet_bits h) = 0x1D0F" using that(2) by (simp add: hdlc_fcs_ok_residue)
    then have "span_value ?n i span = span_value ?n j t"
      using register_span [of j t ?g] register_span [OF i] j reg(1) by (simp add: h xor.assoc)
    then have "i = j \<and> span = t"
      using i j span t len by (intro span_value_inj) simp_all
    then show ?thesis using h flip_span_twice [OF i] by simp
  qed
  moreover have "f \<in> set (hdlc_candidates ?g)"
    using candidate_mem [of span i ?g] i span flip_span_twice [OF i] by simp
  ultimately have "find hdlc_fcs_ok (hdlc_candidates ?g) = Some f"
    using ok by (intro find_unique) auto
  moreover have "?g \<noteq> []" using reg(2) by (metis length_flip_span list.size(3) not_numeral_le_zero)
  ultimately show ?thesis by (simp add: hdlc_repair_find)
qed

theorem hdlc_repair_restores_witness:
  "hdlc_repair (hdlc_flip_span [0x41, 0x42, 0xEF, 0x31] 9 2) = Inr (True, [0x41, 0x42, 0xEF, 0x31])"
proof -
  show ?thesis using hdlc_repair_restores [of "[0x41, 0x42, 0xEF, 0x31]" 2 9] hdlc_example_ok by simp
qed

text \<open>
  on a non-empty frame the repair returns the first candidate that passes the check, in the order
  frame, single flips, adjacent pairs, and otherwise leaves the frame as it was and reports failure;
  on an empty frame it panics, because the number of positions underflows.
\<close>

theorem hdlc_repair_spec:
  "hdlc_repair f =
     (if f = [] then Inl Overflow
      else Inr (case find hdlc_fcs_ok (hdlc_candidates f) of Some g \<Rightarrow> (True, g) | None \<Rightarrow> (False, f)))"
  by (simp add: hdlc_repair_find) (simp add: hdlc_repair_def hdlc_fcs_ok_def)

text \<open>
  no burst of at most 16 bits goes undetected: two frames of one length whose transmitted bits
  differ, and only within 16 consecutive places, never both pass the check.
\<close>

theorem hdlc_fcs_detects_bursts:
  assumes "hdlc_fcs_ok f" and "octet_bits g = xor_bits (octet_bits f) (replicate i False @ w @ replicate j False)"
    and "True \<in> set w" and "length w \<le> 16" and "i + length w + j = 8 * length f"
  shows "\<not> hdlc_fcs_ok g"
proof -
  have "crc_serial 16 0x1021 0xFFFF (octet_bits g) \<noteq> (crc_serial 16 0x1021 0xFFFF (octet_bits f) :: u16)"
    unfolding assms(2) using assms(3-5)
    by (intro ccitt.burst_detected [OF below_full _ _ refl]) simp_all
  then show ?thesis using assms(1) by (auto simp: hdlc_fcs_ok_residue hdlc_register_def)
qed

theorem hdlc_fcs_detects_bursts_witness: "\<not> hdlc_fcs_ok [0x40, 0x42, 0xEF, 0x31]"
proof (rule hdlc_fcs_detects_bursts)
  show "hdlc_fcs_ok [0x41, 0x42, 0xEF, 0x31]"
    by (rule hdlc_example_ok)
  show "octet_bits [0x40, 0x42, 0xEF, 0x31] =
      xor_bits (octet_bits [0x41, 0x42, 0xEF, 0x31]) (replicate 0 False @ [True] @ replicate 31 False)"
    by (simp add: lsb_first_def numeral_eq_Suc)
qed simp_all

end
