(* ===== verification/Parity_Code.thy ===== *)
theory Parity_Code
  imports Prelude
begin

text \<open>
  The short Hamming codes of \<open>crates/dsp/src/fec/block.rs\<close>: systematic parity codes given by one
  mask of data bits per check bit.  The locale \<open>single_error_code\<close> states what makes such a code
  correct one error, and every code of the file is an instance of it.
\<close>

section \<open>Definitions\<close>

record ParityCode =
  code_k :: nat
  code_parity :: "u16 list"

definition HAMMING_7_4 :: ParityCode where
  "HAMMING_7_4 = \<lparr>code_k = 4, code_parity = [0x7, 0xE, 0xB]\<rparr>"

definition HAMMING_13_9 :: ParityCode where
  "HAMMING_13_9 = \<lparr>code_k = 9, code_parity = [0x06B, 0x0D7, 0x1AF, 0x135]\<rparr>"

definition HAMMING_15_11 :: ParityCode where
  "HAMMING_15_11 = \<lparr>code_k = 11, code_parity = [0x1AF, 0x35E, 0x6BC, 0x4D7]\<rparr>"

definition HAMMING_16_11 :: ParityCode where
  "HAMMING_16_11 = \<lparr>code_k = 11, code_parity = [0x1AF, 0x35E, 0x6BC, 0x4D7, 0x765]\<rparr>"

definition HAMMING_10_6 :: ParityCode where
  "HAMMING_10_6 = \<lparr>code_k = 6, code_parity = [0x27, 0x2B, 0x1D, 0x1E]\<rparr>"

definition HAMMING_17_12 :: ParityCode where
  "HAMMING_17_12 = \<lparr>code_k = 12, code_parity = [0x2CF, 0x59F, 0xB3E, 0x4B3, 0x967]\<rparr>"

definition code_n :: "ParityCode \<Rightarrow> nat" where
  "code_n c = code_k c + length (code_parity c)"

text \<open>The parity of the data bits selected by a mask.\<close>

definition parity_sum :: "ParityCode \<Rightarrow> bool list \<Rightarrow> u16 \<Rightarrow> bool" where
  "parity_sum c word m =
     foldl (\<lambda>acc (i, b). acc \<noteq> (drop_bit i m AND 1 = 1 \<and> b)) False (take (code_k c) (enumerate 0 word))"

definition parity_column :: "ParityCode \<Rightarrow> nat \<Rightarrow> u32" where
  "parity_column c i =
     foldl (\<lambda>acc (j, m). acc OR push_bit j 1) 0
       (filter (\<lambda>(j, m). drop_bit i m AND 1 = 1) (enumerate 0 (code_parity c)))"

definition parity_encode :: "ParityCode \<Rightarrow> bool list \<Rightarrow> bool list panics" where
  "parity_encode c word =
     (if length word \<ge> code_n c then
        Inr (foldl (\<lambda>word (j, m). word[code_k c + j := parity_sum c word m]) word
          (enumerate 0 (code_parity c)))
      else Inl Assertion)"

definition parity_syndrome :: "ParityCode \<Rightarrow> bool list \<Rightarrow> u32" where
  "parity_syndrome c word =
     foldl (\<lambda>syndrome (j, m).
       if parity_sum c word m \<noteq> word ! (code_k c + j) then syndrome OR push_bit j 1 else syndrome) 0
       (enumerate 0 (code_parity c))"

fun parity_find :: "ParityCode \<Rightarrow> u32 \<Rightarrow> nat list \<Rightarrow> bool list \<Rightarrow> nat option \<times> bool list" where
  "parity_find c syndrome [] word = (None, word)"
| "parity_find c syndrome (i # is) word =
     (if parity_column c i = syndrome then (Some 1, word[i := \<not> word ! i])
      else parity_find c syndrome is word)"

definition parity_decode :: "ParityCode \<Rightarrow> bool list \<Rightarrow> (nat option \<times> bool list) panics" where
  "parity_decode c word =
     (if length word \<ge> code_n c then
        let syndrome = parity_syndrome c word in
        Inr (if syndrome = 0 then (Some 0, word)
             else if count_ones syndrome = 1 then
               (let j = trailing_zeros syndrome in (Some 1, word[code_k c + j := \<not> word ! (code_k c + j)]))
             else parity_find c syndrome [0..<code_k c] word)
      else Inl Assertion)"

section \<open>Bits set by a loop\<close>

lemma bit_or_loop:
  "i < 32 \<Longrightarrow> bit (foldl (\<lambda>acc (j, m). if P j m then acc OR push_bit j 1 else acc) a (enumerate n xs) :: u32) i \<longleftrightarrow>
     bit a i \<or> n \<le> i \<and> i < n + length xs \<and> P i (xs ! (i - n))"
proof (induction xs arbitrary: a n)
  case (Cons x xs)
  have "bit (if P n x then a OR push_bit n 1 else a :: u32) i \<longleftrightarrow> bit a i \<or> i = n \<and> P n x"
    using Cons.prems by (auto simp: bit_or_iff)
  then show ?case
    using Cons by (auto simp: nth_Cons' Suc_le_eq)
qed auto

lemma foldl_filter: "foldl f a (filter P xs) = foldl (\<lambda>acc x. if P x then f acc x else acc) a xs"
  by (induction xs arbitrary: a) simp_all

lemma odd_iff_and_one: "drop_bit i m AND 1 = (1 :: 'a::len word) \<longleftrightarrow> bit m i"
  by (simp add: and_one_eq mod2_eq_if bit_iff_odd_drop_bit)

lemma bit_parity_column:
  assumes "length (code_parity c) \<le> 32"
  shows "bit (parity_column c i) j \<longleftrightarrow> j < length (code_parity c) \<and> bit (code_parity c ! j) i"
proof (cases "j < 32")
  case True
  have "parity_column c i =
      foldl (\<lambda>acc (j, m). if bit m i then acc OR push_bit j 1 else acc) 0 (enumerate 0 (code_parity c))"
    unfolding parity_column_def foldl_filter odd_iff_and_one by (rule arg_cong [of _ _ "\<lambda>f. foldl f _ _"]) auto
  then show ?thesis using bit_or_loop [OF True, where P = "\<lambda>j (m :: u16). bit m i"] by simp
next
  case False
  then show ?thesis using assms bit_imp_le_length [of "parity_column c i" j] by auto
qed

lemma bit_parity_syndrome:
  assumes "length (code_parity c) \<le> 32"
  shows "bit (parity_syndrome c word) j \<longleftrightarrow>
    j < length (code_parity c) \<and> parity_sum c word (code_parity c ! j) \<noteq> word ! (code_k c + j)"
proof (cases "j < 32")
  case True
  then show ?thesis
    unfolding parity_syndrome_def
    using bit_or_loop [OF True, where P = "\<lambda>j m. parity_sum c word m \<noteq> word ! (code_k c + j)"] by simp
next
  case False
  then show ?thesis using assms bit_imp_le_length [of "parity_syndrome c word" j] by auto
qed

section \<open>Sums\<close>

text \<open>The sum depends on the data bits only, and one flipped data bit changes it by its mask bit.\<close>

fun xor_all :: "bool list \<Rightarrow> bool" where
  "xor_all [] = False"
| "xor_all (b # bs) = (b \<noteq> xor_all bs)"

lemma xor_all_update: "i < length bs \<Longrightarrow> xor_all (bs[i := v]) = (xor_all bs \<noteq> (bs ! i \<noteq> v))"
  by (induction bs arbitrary: i) (auto simp: nth_Cons split: nat.splits)

lemma foldl_xor_all: "foldl (\<lambda>acc x. acc \<noteq> f x) a xs = (a \<noteq> xor_all (map f xs))"
  by (induction xs arbitrary: a) auto

lemma parity_sum_eq:
  "parity_sum c word m = xor_all (map (\<lambda>i. bit m i \<and> word ! i) [0..<min (code_k c) (length word)])"
proof -
  have "map (\<lambda>(i, b). drop_bit i m AND 1 = 1 \<and> b) (take (code_k c) (enumerate 0 word)) =
      map (\<lambda>i. bit m i \<and> word ! i) [0..<min (code_k c) (length word)]"
    by (rule nth_equalityI) (simp_all add: nth_enumerate_eq odd_iff_and_one)
  moreover have "(\<lambda>acc (i, b). acc \<noteq> (drop_bit i m AND 1 = 1 \<and> b)) =
      (\<lambda>acc x. acc \<noteq> (case x of (i, b) \<Rightarrow> drop_bit i m AND 1 = 1 \<and> b))"
    by auto
  ultimately show ?thesis by (simp only: parity_sum_def foldl_xor_all) simp
qed

lemma parity_sum_cong:
  "length v = length w \<Longrightarrow> (\<And>i. i < code_k c \<Longrightarrow> i < length w \<Longrightarrow> v ! i = w ! i) \<Longrightarrow> parity_sum c v m = parity_sum c w m"
  unfolding parity_sum_eq by (intro arg_cong [of _ _ xor_all] map_cong) auto

lemma parity_sum_flip:
  assumes "i < code_k c" "i < length w"
  shows "parity_sum c (w[i := \<not> w ! i]) m \<longleftrightarrow> parity_sum c w m \<noteq> bit m i"
proof -
  let ?n = "min (code_k c) (length w)"
  let ?bits = "map (\<lambda>i. bit m i \<and> w ! i) [0..<?n]"
  have "map (\<lambda>j. bit m j \<and> w[i := \<not> w ! i] ! j) [0..<?n] = ?bits[i := bit m i \<and> \<not> w ! i]"
    using assms by (intro nth_equalityI) (auto simp: nth_list_update)
  moreover have "xor_all (?bits[i := bit m i \<and> \<not> w ! i]) = (xor_all ?bits \<noteq> bit m i)"
    using assms by (subst xor_all_update) auto
  ultimately show ?thesis by (simp add: parity_sum_eq)
qed

section \<open>Codewords\<close>

definition flip_at :: "bool list \<Rightarrow> nat \<Rightarrow> bool list" where
  "flip_at w i = w[i := \<not> w ! i]"

lemma length_flip_at [simp]: "length (flip_at w i) = length w"
  by (simp add: flip_at_def)

lemma flip_at_twice [simp]: "flip_at (flip_at w i) i = w"
  by (cases "i < length w") (simp_all add: flip_at_def not_less list_update_beyond)

text \<open>The syndrome of a single error at position \<open>i\<close> of the codeword.\<close>

definition error_syndrome :: "ParityCode \<Rightarrow> nat \<Rightarrow> u32" where
  "error_syndrome c i = (if i < code_k c then parity_column c i else 2 ^ (i - code_k c))"

lemma parity_syndrome_flip:
  assumes "length (code_parity c) \<le> 32" "code_n c \<le> length w" "i < code_n c"
  shows "parity_syndrome c (flip_at w i) = parity_syndrome c w XOR error_syndrome c i"
proof (rule bit_word_eqI)
  fix j :: nat
  have k: "code_k c + j < length w" if "j < length (code_parity c)"
    using that assms(2) by (simp add: code_n_def)
  show "bit (parity_syndrome c (flip_at w i)) j = bit (parity_syndrome c w XOR error_syndrome c i) j"
  proof (cases "i < code_k c")
    case True
    then have "i < length w" using assms(2) by (simp add: code_n_def)
    then show ?thesis
      using True k by (auto simp: bit_parity_syndrome [OF assms(1)] bit_parity_column [OF assms(1)]
        bit_xor_iff error_syndrome_def flip_at_def parity_sum_flip)
  next
    case False
    have same: "parity_sum c (flip_at w i) m = parity_sum c w m" for m
      using False by (intro parity_sum_cong) (auto simp: flip_at_def)
    have "flip_at w i ! (code_k c + j) \<longleftrightarrow> w ! (code_k c + j) \<noteq> (i = code_k c + j)"
      if "j < length (code_parity c)"
      using k [OF that] by (auto simp: flip_at_def nth_list_update)
    moreover have "bit (error_syndrome c i) j \<longleftrightarrow> j < length (code_parity c) \<and> i = code_k c + j"
      using False assms(1,3) by (auto simp: error_syndrome_def code_n_def)
    ultimately show ?thesis
      unfolding bit_parity_syndrome [OF assms(1)] bit_xor_iff same by blast
  qed
qed

definition codeword :: "ParityCode \<Rightarrow> bool list \<Rightarrow> bool" where
  "codeword c w \<longleftrightarrow> parity_encode c w = Inr w"

lemma parity_encode_loop:
  "k = code_k c \<Longrightarrow> k + n + length ms \<le> length w \<Longrightarrow>
     foldl (\<lambda>w (j, m). w[k + j := parity_sum c w m]) w (enumerate n ms) =
       take (k + n) w @ map (parity_sum c w) ms @ drop (k + n + length ms) w"
proof (induction ms arbitrary: w n)
  case (Cons m ms)
  let ?w = "w[k + n := parity_sum c w m]"
  have same: "parity_sum c ?w m' = parity_sum c w m'" for m'
    using Cons.prems(1) by (intro parity_sum_cong) auto
  have "foldl (\<lambda>w (j, m). w[k + j := parity_sum c w m]) ?w (enumerate (Suc n) ms) =
      take (k + Suc n) ?w @ map (parity_sum c ?w) ms @ drop (k + Suc n + length ms) ?w"
    using Cons.prems by (intro Cons.IH) simp_all
  moreover have "take (k + Suc n) ?w = take (k + n) w @ [parity_sum c w m]"
    using Cons.prems(2) by (simp add: take_Suc_conv_app_nth)
  moreover have "drop (k + Suc n + length ms) ?w = drop (k + n + length (m # ms)) w" by simp
  ultimately show ?case by (simp add: same)
qed simp

lemma parity_encode_eq:
  "parity_encode c w =
     (if length w \<ge> code_n c then
        Inr (take (code_k c) w @ map (parity_sum c w) (code_parity c) @ drop (code_n c) w)
      else Inl Assertion)"
  using parity_encode_loop [of "code_k c" c 0 "code_parity c" w]
  by (simp add: parity_encode_def code_n_def)

lemma codeword_iff:
  assumes "length (code_parity c) \<le> 32" "code_n c \<le> length w"
  shows "codeword c w \<longleftrightarrow> parity_syndrome c w = 0"
proof -
  let ?p = "length (code_parity c)"
  have len: "code_k c \<le> length w" using assms(2) by (simp add: code_n_def)
  have "w = take (code_k c) w @ take ?p (drop (code_k c) w) @ drop (code_n c) w"
    by (metis (no_types) append_take_drop_id code_n_def drop_drop add.commute)
  then have "codeword c w \<longleftrightarrow> map (parity_sum c w) (code_parity c) = take ?p (drop (code_k c) w)"
    using assms(2) unfolding codeword_def parity_encode_eq
    by (metis (no_types) append_same_eq same_append_eq sum.inject(2))
  also have "\<dots> \<longleftrightarrow> (\<forall>j < ?p. parity_sum c w (code_parity c ! j) = w ! (code_k c + j))"
    using assms(2) by (auto simp: list_eq_iff_nth_eq code_n_def)
  also have "\<dots> \<longleftrightarrow> parity_syndrome c w = 0"
    using assms(1) by (auto simp: bit_parity_syndrome [OF assms(1)] bit_eq_iff)
  finally show ?thesis .
qed

lemma parity_encode_codeword:
  assumes "parity_encode c w = Inr v"
  shows "codeword c v" "take (code_k c) v = take (code_k c) w" "length v = length w"
proof -
  have len: "code_n c \<le> length w"
    and v: "v = take (code_k c) w @ map (parity_sum c w) (code_parity c) @ drop (code_n c) w"
    using assms by (simp_all add: parity_encode_eq split: if_splits)
  have k: "code_k c \<le> length w" using len by (simp add: code_n_def)
  show "take (code_k c) v = take (code_k c) w" using k by (simp add: v)
  show lv: "length v = length w" using len by (simp add: v code_n_def)
  have "parity_sum c v m = parity_sum c w m" for m
    using k lv by (intro parity_sum_cong) (auto simp: v nth_append)
  then show "codeword c v"
    using len lv k by (simp add: codeword_def parity_encode_eq) (simp add: v code_n_def)
qed

section \<open>Single-error correction\<close>

text \<open>What the decoder relies on: the columns of the data bits are pairwise different and none of them
  looks like an error in a check bit.\<close>

locale single_error_code =
  fixes c :: ParityCode
  assumes few_checks: "length (code_parity c) \<le> 32"
    and heavy_column: "i < code_k c \<Longrightarrow> 2 \<le> count_ones (parity_column c i)"
    and distinct_columns: "distinct (map (parity_column c) [0..<code_k c])"
begin

lemma error_syndrome_inj:
  assumes "i < code_n c" "j < code_n c" "error_syndrome c i = error_syndrome c j"
  shows "i = j"
proof -
  have one: "count_ones (2 ^ (m - code_k c) :: u32) = 1" if "m < code_n c" "\<not> m < code_k c" for m
    using that few_checks by (simp add: code_n_def count_ones_two_pow)
  consider "i < code_k c" "j < code_k c" | "\<not> i < code_k c" "\<not> j < code_k c"
    | "i < code_k c" "\<not> j < code_k c" | "\<not> i < code_k c" "j < code_k c" by blast
  then show ?thesis
  proof cases
    case 1
    then show ?thesis
      using assms(3) distinct_columns
      by (simp add: error_syndrome_def distinct_map inj_on_def)
  next
    case 2
    then have "i - code_k c = j - code_k c"
      using assms few_checks two_pow_inj [of "i - code_k c" "j - code_k c", where 'a = 32]
      by (simp add: error_syndrome_def code_n_def)
    then show ?thesis using 2 by simp
  next
    case 3
    then show ?thesis using assms heavy_column [of i] one [of j] by (simp add: error_syndrome_def)
  next
    case 4
    then show ?thesis using assms heavy_column [of j] one [of i] by (simp add: error_syndrome_def)
  qed
qed

lemma error_syndrome_nonzero: "i < code_n c \<Longrightarrow> error_syndrome c i \<noteq> 0"
  using heavy_column [of i] few_checks by (auto simp: error_syndrome_def code_n_def)

lemma parity_find_eq:
  "parity_find c s is w =
     (case find (\<lambda>i. parity_column c i = s) is of Some i \<Rightarrow> (Some 1, flip_at w i) | None \<Rightarrow> (None, w))"
  by (induction "is") (simp_all add: flip_at_def)

text \<open>The decoder looks for the one position whose error has the syndrome.\<close>

lemma parity_decode_error:
  assumes "code_n c \<le> length w" "i < code_n c" "parity_syndrome c w = error_syndrome c i"
  shows "parity_decode c w = Inr (Some 1, flip_at w i)"
proof (cases "i < code_k c")
  case True
  have "find (\<lambda>j. parity_column c j = parity_column c i) [0..<code_k c] = Some i"
  proof -
    have "j = i" if "j < code_k c" "parity_column c j = parity_column c i" for j
      using that True error_syndrome_inj [of j i] by (simp add: error_syndrome_def code_n_def)
    then show ?thesis using True by (intro find_unique) auto
  qed
  then show ?thesis
    using assms(1,3) True heavy_column [of i] error_syndrome_nonzero [OF assms(2)]
    by (auto simp: parity_decode_def Let_def error_syndrome_def parity_find_eq)
next
  case False
  then have "count_ones (error_syndrome c i) = 1" "trailing_zeros (error_syndrome c i) = i - code_k c"
    using assms(2) few_checks by (simp_all add: error_syndrome_def code_n_def count_ones_two_pow)
  then show ?thesis
    using assms(1,3) False error_syndrome_nonzero [OF assms(2)]
    by (simp add: parity_decode_def Let_def flip_at_def)
qed

lemma parity_decode_none:
  assumes "code_n c \<le> length w" "parity_syndrome c w \<noteq> 0"
    "\<And>i. i < code_n c \<Longrightarrow> parity_syndrome c w \<noteq> error_syndrome c i"
  shows "parity_decode c w = Inr (None, w)"
proof -
  let ?s = "parity_syndrome c w"
  have "count_ones ?s \<noteq> 1"
  proof
    assume one: "count_ones ?s = 1"
    then obtain j where j: "{i. bit ?s i} = {j}" by (auto simp: count_ones_card card_1_singleton_iff)
    then have "?s = 2 ^ j" by (intro bit_word_eqI) auto
    moreover have "j < length (code_parity c)"
      using j bit_parity_syndrome [OF few_checks, of w j] by blast
    ultimately show False using assms(3) [of "code_k c + j"] by (simp add: code_n_def error_syndrome_def)
  qed
  moreover have "find (\<lambda>i. parity_column c i = ?s) [0..<code_k c] = None"
    using assms(3) by (auto simp: find_None_iff error_syndrome_def code_n_def) (metis trans_less_add1)
  ultimately show ?thesis using assms(1,2) by (simp add: parity_decode_def Let_def parity_find_eq)
qed

text \<open>Bounded-distance decoding: the decoder succeeds exactly on the words within one bit of a codeword.\<close>

lemma parity_decode_iff:
  assumes "code_n c \<le> length w"
  shows "parity_decode c w = Inr (Some e, v) \<longleftrightarrow>
    codeword c v \<and> (e = 0 \<and> v = w \<or> e = 1 \<and> (\<exists>i < code_n c. v = flip_at w i))"
proof -
  have cw: "codeword c (flip_at w i) \<longleftrightarrow> parity_syndrome c w = error_syndrome c i" if "i < code_n c" for i
    using codeword_iff [OF few_checks, of "flip_at w i"] parity_syndrome_flip [OF few_checks assms that] assms
    by simp
  consider "parity_syndrome c w = 0" | i where "i < code_n c" "parity_syndrome c w = error_syndrome c i"
    | "parity_syndrome c w \<noteq> 0" "\<And>i. i < code_n c \<Longrightarrow> parity_syndrome c w \<noteq> error_syndrome c i"
    by blast
  then show ?thesis
  proof cases
    case 1
    then show ?thesis
      using cw assms error_syndrome_nonzero codeword_iff [OF few_checks assms]
      by (auto simp: parity_decode_def)
  next
    case (2 i)
    then have "j = i" if "j < code_n c" "codeword c (flip_at w j)" for j
      using cw [OF that(1)] that error_syndrome_inj [of j i] by metis
    moreover have "\<not> codeword c w" using 2 error_syndrome_nonzero [of i] codeword_iff [OF few_checks assms] by simp
    ultimately have "codeword c v \<and> (e = 0 \<and> v = w \<or> e = 1 \<and> (\<exists>i < code_n c. v = flip_at w i)) \<longleftrightarrow>
        e = 1 \<and> v = flip_at w i"
      using cw [OF 2(1)] 2 by blast
    then show ?thesis using parity_decode_error [OF assms 2] by auto
  next
    case 3
    then have "parity_decode c w = Inr (None, w)" using assms by (intro parity_decode_none) auto
    then show ?thesis using 3 cw codeword_iff [OF few_checks assms] by auto
  qed
qed

end

section \<open>The codes of the file\<close>

lemma single_error_codeI:
  assumes "length (code_parity c) \<le> 32" "map (parity_column c) [0..<code_k c] = cols"
    "distinct cols" "list_all (\<lambda>w. 2 \<le> count_ones w) cols"
  shows "single_error_code c"
proof
  show "2 \<le> count_ones (parity_column c i)" if "i < code_k c" for i
    using that assms(4) unfolding assms(2) [symmetric] by (simp add: list_all_iff)
qed (use assms in simp_all)

lemmas column_eval = parity_column_def enumerate_simps count_ones_def upt_from_0

interpretation h7_4: single_error_code HAMMING_7_4
proof (rule single_error_codeI [where cols = "[0x5, 0x7, 0x3, 0x6]"])
  have upt: "[0..<4] = [0, Suc 0, 2, 3]" by (simp add: upt_from_0)
  show "map (parity_column HAMMING_7_4) [0..<code_k HAMMING_7_4] = [0x5, 0x7, 0x3, 0x6]"
    unfolding HAMMING_7_4_def ParityCode.simps upt list.map by (simp add: parity_column_def)
  show "list_all (\<lambda>w. 2 \<le> count_ones (w :: u32)) [0x5, 0x7, 0x3, 0x6]"
    by (simp only: list.pred_inject) (simp add: count_ones_def upt_from_0)
qed (simp_all add: HAMMING_7_4_def)

interpretation h13_9: single_error_code HAMMING_13_9
proof (rule single_error_codeI [where cols = "[0xF, 0x7, 0xE, 0x5, 0xA, 0xD, 0x3, 0x6, 0xC]"])
  have upt: "[0..<9] = [0, Suc 0, 2, 3, 4, 5, 6, 7, 8]" by (simp add: upt_from_0)
  show "map (parity_column HAMMING_13_9) [0..<code_k HAMMING_13_9] = [0xF, 0x7, 0xE, 0x5, 0xA, 0xD, 0x3, 0x6, 0xC]"
    unfolding HAMMING_13_9_def ParityCode.simps upt list.map by (simp add: parity_column_def)
  show "list_all (\<lambda>w. 2 \<le> count_ones (w :: u32)) [0xF, 0x7, 0xE, 0x5, 0xA, 0xD, 0x3, 0x6, 0xC]"
    by (simp only: list.pred_inject) (simp add: count_ones_def upt_from_0)
qed (simp_all add: HAMMING_13_9_def)

interpretation h15_11: single_error_code HAMMING_15_11
proof (rule single_error_codeI [where cols = "[0x9, 0xB, 0xF, 0x7, 0xE, 0x5, 0xA, 0xD, 0x3, 0x6, 0xC]"])
  have upt: "[0..<11] = [0, Suc 0, 2, 3, 4, 5, 6, 7, 8, 9, 10]" by (simp add: upt_from_0)
  show "map (parity_column HAMMING_15_11) [0..<code_k HAMMING_15_11] = [0x9, 0xB, 0xF, 0x7, 0xE, 0x5, 0xA, 0xD, 0x3, 0x6, 0xC]"
    unfolding HAMMING_15_11_def ParityCode.simps upt list.map by (simp add: parity_column_def)
  show "list_all (\<lambda>w. 2 \<le> count_ones (w :: u32)) [0x9, 0xB, 0xF, 0x7, 0xE, 0x5, 0xA, 0xD, 0x3, 0x6, 0xC]"
    by (simp only: list.pred_inject) (simp add: count_ones_def upt_from_0)
qed (simp_all add: HAMMING_15_11_def)

interpretation h16_11: single_error_code HAMMING_16_11
proof (rule single_error_codeI [where cols = "[0x19, 0xB, 0x1F, 0x7, 0xE, 0x15, 0x1A, 0xD, 0x13, 0x16, 0x1C]"])
  have upt: "[0..<11] = [0, Suc 0, 2, 3, 4, 5, 6, 7, 8, 9, 10]" by (simp add: upt_from_0)
  show "map (parity_column HAMMING_16_11) [0..<code_k HAMMING_16_11] = [0x19, 0xB, 0x1F, 0x7, 0xE, 0x15, 0x1A, 0xD, 0x13, 0x16, 0x1C]"
    unfolding HAMMING_16_11_def ParityCode.simps upt list.map by (simp add: parity_column_def)
  show "list_all (\<lambda>w. 2 \<le> count_ones (w :: u32)) [0x19, 0xB, 0x1F, 0x7, 0xE, 0x15, 0x1A, 0xD, 0x13, 0x16, 0x1C]"
    by (simp only: list.pred_inject) (simp add: count_ones_def upt_from_0)
qed (simp_all add: HAMMING_16_11_def)

interpretation h10_6: single_error_code HAMMING_10_6
proof (rule single_error_codeI [where cols = "[0x7, 0xB, 0xD, 0xE, 0xC, 0x3]"])
  have upt: "[0..<6] = [0, Suc 0, 2, 3, 4, 5]" by (simp add: upt_from_0)
  show "map (parity_column HAMMING_10_6) [0..<code_k HAMMING_10_6] = [0x7, 0xB, 0xD, 0xE, 0xC, 0x3]"
    unfolding HAMMING_10_6_def ParityCode.simps upt list.map by (simp add: parity_column_def)
  show "list_all (\<lambda>w. 2 \<le> count_ones (w :: u32)) [0x7, 0xB, 0xD, 0xE, 0xC, 0x3]"
    by (simp only: list.pred_inject) (simp add: count_ones_def upt_from_0)
qed (simp_all add: HAMMING_10_6_def)

interpretation h17_12: single_error_code HAMMING_17_12
proof (rule single_error_codeI [where cols = "[0x1B, 0x1F, 0x17, 0x7, 0xE, 0x1C, 0x11, 0xB, 0x16, 0x5, 0xA, 0x14]"])
  have upt: "[0..<12] = [0, Suc 0, 2, 3, 4, 5, 6, 7, 8, 9, 10, 11]" by (simp add: upt_from_0)
  show "map (parity_column HAMMING_17_12) [0..<code_k HAMMING_17_12] = [0x1B, 0x1F, 0x17, 0x7, 0xE, 0x1C, 0x11, 0xB, 0x16, 0x5, 0xA, 0x14]"
    unfolding HAMMING_17_12_def ParityCode.simps upt list.map by (simp add: parity_column_def)
  show "list_all (\<lambda>w. 2 \<le> count_ones (w :: u32)) [0x1B, 0x1F, 0x17, 0x7, 0xE, 0x1C, 0x11, 0xB, 0x16, 0x5, 0xA, 0x14]"
    by (simp only: list.pred_inject) (simp add: count_ones_def upt_from_0)
qed (simp_all add: HAMMING_17_12_def)


section \<open>Properties\<close>

definition hamming_codes :: "ParityCode list" where
  "hamming_codes = [HAMMING_7_4, HAMMING_13_9, HAMMING_15_11, HAMMING_16_11, HAMMING_10_6, HAMMING_17_12]"

lemma hamming_single_error: "c \<in> set hamming_codes \<Longrightarrow> single_error_code c"
  using h7_4.single_error_code_axioms h13_9.single_error_code_axioms h15_11.single_error_code_axioms
    h16_11.single_error_code_axioms h10_6.single_error_code_axioms h17_12.single_error_code_axioms
  by (auto simp: hamming_codes_def)

text \<open>
  C7: each of the six Hamming codes decodes up to one error and nothing else: on a word long enough
  the decoder reports \<open>e\<close> corrections and leaves \<open>v\<close> if and only if \<open>v\<close> is a codeword that is
  the word itself, \<open>e = 0\<close>, or the word with one of the code's bits flipped, \<open>e = 1\<close>.
\<close>

theorem hamming_decode_spec:
  assumes "c \<in> set hamming_codes" and "code_n c \<le> length w"
  shows "parity_decode c w = Inr (Some e, v) \<longleftrightarrow>
    codeword c v \<and> (e = 0 \<and> v = w \<or> e = 1 \<and> (\<exists>i < code_n c. v = flip_at w i))"
  using single_error_code.parity_decode_iff [OF hamming_single_error [OF assms(1)] assms(2)] .

theorem hamming_decode_spec_witness:
  "parity_decode HAMMING_7_4 (replicate 7 True) = Inr (Some 0, replicate 7 True) \<longleftrightarrow>
     codeword HAMMING_7_4 (replicate 7 True)"
  using hamming_decode_spec [of HAMMING_7_4 "replicate 7 True" 0 "replicate 7 True"]
  by (simp add: hamming_codes_def code_n_def HAMMING_7_4_def)

text \<open>
  encoding then flipping any one bit of the codeword is undone by decoding: the data bits come
  back and one correction is reported.  A buffer shorter than the codeword fails the assertion.
\<close>

theorem hamming_roundtrip:
  assumes "c \<in> set hamming_codes" and "parity_encode c w = Inr v" and "i < code_n c"
  shows "parity_decode c (flip_at v i) = Inr (Some 1, v) \<and> parity_decode c v = Inr (Some 0, v) \<and>
    take (code_k c) v = take (code_k c) w"
proof -
  have "code_n c \<le> length v"
    using assms(2) parity_encode_codeword(3) [OF assms(2)] by (auto simp: parity_encode_def split: if_splits)
  moreover note parity_encode_codeword [OF assms(2)]
  moreover have "v = flip_at (flip_at v i) i" by simp
  ultimately show ?thesis
    using single_error_code.parity_decode_iff [OF hamming_single_error [OF assms(1)], of "flip_at v i" 1 v]
      single_error_code.parity_decode_iff [OF hamming_single_error [OF assms(1)], of v 0 v] assms(3)
    by (metis length_flip_at)
qed

theorem hamming_roundtrip_witness:
  "parity_decode HAMMING_7_4 [True, False, True, False, True, False, True] =
     Inr (Some 1, [True, False, False, False, True, False, True])"
proof -
  have "parity_encode HAMMING_7_4 [True, False, False, False, False, False, False] =
      Inr [True, False, False, False, True, False, True]"
    by (simp add: parity_encode_eq code_n_def parity_sum_def HAMMING_7_4_def)
  moreover have "HAMMING_7_4 \<in> set hamming_codes" "2 < code_n HAMMING_7_4"
    by (simp_all add: hamming_codes_def code_n_def HAMMING_7_4_def)
  ultimately show ?thesis
    using hamming_roundtrip [of HAMMING_7_4 "[True, False, False, False, False, False, False]"
      "[True, False, False, False, True, False, True]" 2] by (simp add: flip_at_def numeral_2_eq_2)
qed

end
