(* ===== verification/Cyclic_Code.thy ===== *)
theory Cyclic_Code
  imports Gf2_Codes Parity_Code
begin

text \<open>
  The extended cyclic codes of \<open>crates/dsp/src/fec/block.rs\<close>: a message is followed by the remainder of
  the division by the generator and by an overall parity bit; the decoder walks through all codewords in
  the order of a Gray code, adding one row per step, and keeps the nearest.

  The locale \<open>cyclic_code\<close> is what the decoder relies on of a code's parameters; it is interpreted for
  each of the five codes.
\<close>

section \<open>Definitions\<close>

record CyclicCode =
  cc_k :: nat
  cc_parity :: nat
  cc_generator :: u64
  cc_correctable :: nat

definition MAX_MESSAGE_BITS :: nat where "MAX_MESSAGE_BITS = 16"

definition GOLAY_20_8 :: CyclicCode where
  "GOLAY_20_8 = \<lparr>cc_k = 8, cc_parity = 11, cc_generator = 0xC75, cc_correctable = 3\<rparr>"

definition GOLAY_18_6 :: CyclicCode where
  "GOLAY_18_6 = \<lparr>cc_k = 6, cc_parity = 11, cc_generator = 0xC75, cc_correctable = 3\<rparr>"

definition QR_16_7 :: CyclicCode where
  "QR_16_7 = \<lparr>cc_k = 7, cc_parity = 8, cc_generator = 0x139, cc_correctable = 2\<rparr>"

definition GOLAY_24_12 :: CyclicCode where
  "GOLAY_24_12 = \<lparr>cc_k = 12, cc_parity = 11, cc_generator = 0xC75, cc_correctable = 3\<rparr>"

definition BCH_63_16 :: CyclicCode where
  "BCH_63_16 = \<lparr>cc_k = 16, cc_parity = 47, cc_generator = 0xCD930BDD3B2B, cc_correctable = 11\<rparr>"

definition cyclic_n :: "CyclicCode \<Rightarrow> nat" where
  "cyclic_n c = cc_k c + cc_parity c + 1"

definition cyclic_mask :: "CyclicCode \<Rightarrow> u64" where
  "cyclic_mask c = (let n = cyclic_n c in if 64 \<le> n then - 1 else push_bit n 1 - 1)"

definition leading_zeros :: "u64 \<Rightarrow> nat" where
  "leading_zeros w = length (takeWhile (\<lambda>i. \<not> bit w i) (rev [0..<64]))"

text \<open>The loop of \<open>encode\<close>: \<open>shift\<close> runs from \<open>lo + n - 1\<close> down to \<open>lo\<close>.\<close>

fun cyclic_reduce :: "u64 \<Rightarrow> nat \<Rightarrow> nat \<Rightarrow> nat \<Rightarrow> u64 \<Rightarrow> u64" where
  "cyclic_reduce g deg lo 0 rem = rem"
| "cyclic_reduce g deg lo (Suc n) rem =
     cyclic_reduce g deg lo n
       (if drop_bit (lo + n) rem AND 1 = 1 then rem XOR push_bit (lo + n - deg) g else rem)"

definition cyclic_encode :: "CyclicCode \<Rightarrow> u32 \<Rightarrow> u64" where
  "cyclic_encode c info =
     (let info = ucast info AND (push_bit (cc_k c) 1 - 1);
          deg = 63 - leading_zeros (cc_generator c);
          rem = cyclic_reduce (cc_generator c) deg (cc_parity c) (cc_k c) (push_bit (cc_parity c) info);
          word = push_bit (cc_parity c + 1) info OR push_bit 1 rem
      in word OR of_bool (count_ones word mod 2 = 1))"

definition cyclic_rows :: "CyclicCode \<Rightarrow> u64 list" where
  "cyclic_rows c = map (\<lambda>i. if i < cc_k c then cyclic_encode c (push_bit i 1) else 0) [0..<MAX_MESSAGE_BITS]"

definition nearest_step :: "u64 list \<Rightarrow> u64 \<Rightarrow> nat \<Rightarrow> u64 \<times> u32 \<times> nat \<Rightarrow> u64 \<times> u32 \<times> nat" where
  "nearest_step rows word n = (\<lambda>(codeword, best).
     let i = of_nat n :: u32;
         codeword = codeword XOR rows ! trailing_zeros i;
         distance = count_ones (codeword XOR word)
     in (codeword, if distance < snd best then (i XOR drop_bit 1 i, distance) else best))"

definition cyclic_decode :: "CyclicCode \<Rightarrow> u64 \<Rightarrow> (u32 \<times> nat) option" where
  "cyclic_decode c word =
     (let word = word AND cyclic_mask c;
          codeword = cyclic_encode c 0;
          (_, best) = fold (nearest_step (cyclic_rows c) word) [1..<2 ^ cc_k c]
            (codeword, 0, count_ones (codeword XOR word))
      in if snd best \<le> cc_correctable c then Some best else None)"

section \<open>The Gray code\<close>

definition gray :: "u32 \<Rightarrow> u32" where
  "gray w = w XOR drop_bit 1 w"

lemma gray_xor: "gray (a XOR b) = gray a XOR gray b"
  by (simp add: gray_def drop_bit_xor_word xor_ac)

lemma gray_below: "below k w \<Longrightarrow> below k (gray w)"
  unfolding gray_def by (intro below_xor below_drop_bit [of k]) simp_all

lemma gray_eq_0: "gray w = 0 \<Longrightarrow> w = 0"
proof -
  assume "gray w = 0"
  then have "w = drop_bit 1 w" by (simp only: gray_def xor_eq_0_iff)
  then have "unat w = unat (drop_bit 1 w)" by (rule arg_cong)
  also have "\<dots> = unat w div 2" by (simp only: unat_drop_bit_eq) (simp add: drop_bit_eq_div)
  finally have "unat w = unat w div 2" .
  then show "w = 0" by (simp add: unat_eq_0 [symmetric])
qed

lemma gray_surj:
  assumes "below k w"
  obtains v where "below k v" "gray v = w"
proof -
  let ?A = "{w :: u32. below k w}"
  have "inj_on gray ?A"
  proof (rule inj_onI)
    fix a b :: u32 assume "gray a = gray b"
    then show "a = b" using gray_eq_0 [of "a XOR b"] by (simp add: gray_xor)
  qed
  then have "gray ` ?A = ?A" by (intro endo_inj_surj) (auto simp: gray_below)
  then show ?thesis using assms that by (metis (no_types, lifting) imageE mem_Collect_eq)
qed

text \<open>Counting up by one flips, in the Gray code, the bit at the number's trailing zeros.\<close>

lemma gray_step:
  assumes t: "bit v t" "\<And>i. i < t \<Longrightarrow> \<not> bit v i"
  shows "gray v = gray (v - 1) XOR 2 ^ t"
proof -
  have "t < 32" using bit_imp_le_length [OF t(1)] by simp
  define u where "u = v XOR 2 ^ t"
  have u: "\<not> bit u i" if "i \<le> t" for i
    using that t \<open>t < 32\<close> by (cases "i = t") (auto simp: u_def bit_xor_iff)
  have "u AND 2 ^ t = 0" "u AND mask t = 0"
    using u by (auto intro!: bit_word_eqI simp: bit_and_iff bit_mask_iff)
  then have "u + 2 ^ t = u XOR 2 ^ t" "u + mask t = u XOR mask t" by (simp_all only: disjunctive_add_eq_xor)
  then have "v - 1 = u XOR mask t" by (simp add: u_def mask_eq_exp_minus_1 algebra_simps)
  then have "gray (v - 1) XOR gray v = gray (mask t XOR 2 ^ t)"
    unfolding gray_xor [symmetric] by (simp add: u_def xor_ac)
  also have "\<dots> = 2 ^ t"
    using \<open>t < 32\<close> by (intro bit_word_eqI) (auto simp: gray_def bit_xor_iff bit_drop_bit_eq bit_mask_iff)
  finally show ?thesis by (metis xor_left_self)
qed

lemma unat_u32: "n < 2 ^ 32 \<Longrightarrow> unat (of_nat n :: u32) = n"
  by (simp add: unat_of_nat)

lemma gray_count:
  assumes "0 < n" "n < 2 ^ 32"
  shows "gray (of_nat n) = gray (of_nat (n - 1)) XOR 2 ^ trailing_zeros (of_nat n :: u32)"
    "n < 2 ^ k \<Longrightarrow> trailing_zeros (of_nat n :: u32) < k"
proof -
  let ?v = "of_nat n :: u32"
  have v: "unat ?v = n" using assms(2) by (rule unat_u32)
  with assms(1) have "?v \<noteq> 0" by auto
  then have "\<exists>i. bit ?v i" by (metis bit_word_eqI bit_0_eq bot_apply bot_bool_def)
  define t where "t = (LEAST i. bit ?v i)"
  have t: "bit ?v t" "\<And>i. i < t \<Longrightarrow> \<not> bit ?v i"
    unfolding t_def using LeastI_ex [OF \<open>\<exists>i. bit ?v i\<close>] not_less_Least by blast+
  have tz: "trailing_zeros ?v = t" by (rule trailing_zerosI) (use t in auto)
  have "of_nat (n - 1) = ?v - 1" using assms(1) by simp
  then show "gray ?v = gray (of_nat (n - 1)) XOR 2 ^ trailing_zeros ?v" using gray_step [OF t] by (simp add: tz)
  show "trailing_zeros ?v < k" if "n < 2 ^ k"
  proof -
    have "below k ?v" using that v by (simp add: below_iff_unat)
    then show ?thesis unfolding tz using t(1) by (metis belowD not_le)
  qed
qed

section \<open>The encoder\<close>

lemma count_ones_push_bit:
  fixes w :: "'a::len word"
  assumes "below m w" "m + n \<le> LENGTH('a)"
  shows "count_ones (push_bit n w) = count_ones w"
proof -
  have "i < m" if "bit w i" for i using that assms(1) by (metis belowD not_le)
  then have "{i. bit (push_bit n w) i} = (\<lambda>i. i + n) ` {i. bit w i}"
    using assms(2) by (fastforce simp: bit_push_bit_iff image_iff intro: le_add_diff_inverse2 [symmetric])
  then show ?thesis by (simp add: count_ones_card card_image)
qed

lemma cyclic_reduce_xor: "cyclic_reduce g deg lo n (a XOR b) = cyclic_reduce g deg lo n a XOR cyclic_reduce g deg lo n b"
proof (induction n arbitrary: a b)
  case (Suc n)
  let ?f = "\<lambda>r. if drop_bit (lo + n) r AND 1 = 1 then r XOR push_bit (lo + n - deg) g else r"
  have "?f (a XOR b) = ?f a XOR ?f b" unfolding odd_iff_and_one by (auto simp: bit_xor_iff xor_ac)
  then show ?case using Suc.IH [of "?f a" "?f b"] by simp
qed simp

lemma cyclic_reduce_below:
  assumes "bit g p" "below (Suc p) g" "p + n \<le> 64" "below (p + n) r"
  shows "below p (cyclic_reduce g p p n r)"
  using assms(3,4)
proof (induction n arbitrary: r)
  case (Suc n)
  let ?r = "if drop_bit (p + n) r AND 1 = 1 then r XOR push_bit (p + n - p) g else r"
  have "below (p + n) ?r"
  proof (rule belowI)
    fix i assume i: "p + n \<le> i"
    have high: "\<not> bit r i" if "i \<noteq> p + n"
      using Suc.prems(2) i that by (auto simp: below_def)
    have "bit g (i - n) \<longleftrightarrow> i - n = p"
      using assms(1,2) i by (metis belowD le_diff_conv2 le_antisym add_leD2 not_less_eq_eq)
    then have "bit (push_bit n g) i \<longleftrightarrow> i = p + n"
      using i Suc.prems(1) by (auto simp: bit_push_bit_iff)
    with high show "\<not> bit ?r i" unfolding odd_iff_and_one by (auto simp: bit_xor_iff)
  qed
  with Suc show ?case by simp
qed simp

text \<open>The check bits of a message: the remainder and the parity of message and remainder.\<close>

definition cyclic_check :: "CyclicCode \<Rightarrow> u64 \<Rightarrow> u64" where
  "cyclic_check c info =
     (let rem = push_bit 1 (cyclic_reduce (cc_generator c) (cc_parity c) (cc_parity c) (cc_k c) (push_bit (cc_parity c) info))
      in rem XOR of_bool (odd (count_ones info) \<noteq> odd (count_ones rem)))"

lemma cyclic_check_xor: "cyclic_check c (a XOR b) = cyclic_check c a XOR cyclic_check c b"
proof -
  have "of_bool (x \<noteq> y) = (of_bool x XOR of_bool y :: u64)" for x y by (cases x; cases y) simp_all
  then show ?thesis
    by (simp only: cyclic_check_def Let_def push_bit_xor cyclic_reduce_xor odd_count_ones_xor) (simp add: xor_ac)
qed

locale cyclic_code =
  fixes c :: CyclicCode
  assumes few: "cc_k c \<le> MAX_MESSAGE_BITS"
    and degree: "63 - leading_zeros (cc_generator c) = cc_parity c"
    and monic: "bit (cc_generator c) (cc_parity c)" "below (Suc (cc_parity c)) (cc_generator c)"
    and fits: "cc_k c + cc_parity c < 64"
begin

lemma check_below: "below (cc_k c) info \<Longrightarrow> below (Suc (cc_parity c)) (cyclic_check c info)"
proof -
  assume "below (cc_k c) info"
  then have "below (cc_parity c + cc_k c) (push_bit (cc_parity c) info)" using below_push_bit by (metis add.commute)
  then have "below (cc_parity c) (cyclic_reduce (cc_generator c) (cc_parity c) (cc_parity c) (cc_k c) (push_bit (cc_parity c) info))"
    using fits by (intro cyclic_reduce_below monic) simp_all
  then have "below (Suc (cc_parity c)) (push_bit 1 (cyclic_reduce (cc_generator c) (cc_parity c) (cc_parity c) (cc_k c) (push_bit (cc_parity c) info)))"
    using below_push_bit [of "cc_parity c" _ 1] by simp
  then show ?thesis by (auto simp: cyclic_check_def Let_def below_def bit_simps)
qed

lemma encode_eq: "cyclic_encode c info = push_bit (cc_parity c + 1) (ucast info AND mask (cc_k c)) XOR cyclic_check c (ucast info AND mask (cc_k c))"
proof -
  let ?i = "ucast info AND mask (cc_k c) :: u64"
  let ?rem = "push_bit 1 (cyclic_reduce (cc_generator c) (cc_parity c) (cc_parity c) (cc_k c) (push_bit (cc_parity c) ?i))"
  let ?top = "push_bit (cc_parity c + 1) ?i"
  have low: "below (cc_k c) ?i" by simp
  have rem: "below (Suc (cc_parity c)) ?rem" "\<not> bit ?rem 0"
    using check_below [OF low] by (auto simp: cyclic_check_def Let_def below_def bit_simps split: if_splits)
  have "?top AND ?rem = 0" using rem(1) by (intro bit_word_eqI) (auto simp: bit_and_iff bit_push_bit_iff below_def)
  then have word: "?top OR ?rem = ?top XOR ?rem" by (rule or_eq_xor_disjoint)
  have "count_ones ?top = count_ones ?i"
    by (rule count_ones_push_bit [OF low]) (use fits in simp)
  then have odd: "odd (count_ones (?top XOR ?rem)) \<longleftrightarrow> odd (count_ones ?i) \<noteq> odd (count_ones ?rem)" by (simp only: odd_count_ones_xor)
  have "(?top XOR ?rem) AND of_bool b = 0" for b
    using rem(2) by (intro bit_word_eqI) (auto simp: bit_and_iff bit_xor_iff bit_push_bit_iff)
  then have last: "(?top XOR ?rem) OR of_bool b = (?top XOR ?rem) XOR of_bool b" for b by (rule or_eq_xor_disjoint)
  have ones: "push_bit (cc_k c) 1 - 1 = (mask (cc_k c) :: u64)" by (simp add: mask_eq_exp_minus_1)
  show ?thesis
    unfolding cyclic_encode_def Let_def degree ones word odd_iff_mod_2_eq_one [symmetric] odd last cyclic_check_def by (simp only: xor.assoc)
qed

lemma encode_xor: "cyclic_encode c (a XOR b) = cyclic_encode c a XOR cyclic_encode c b"
  by (simp only: encode_eq ucast_xor and_xor_distrib push_bit_xor cyclic_check_xor) (simp only: xor_ac)

lemma encode_0: "cyclic_encode c 0 = 0"
  using encode_xor [of 0 0] by simp

lemma encode_below: "below (cyclic_n c) (cyclic_encode c info)"
proof -
  let ?i = "ucast info AND mask (cc_k c) :: u64"
  have "below (cc_k c + (cc_parity c + 1)) (push_bit (cc_parity c + 1) ?i)" by (rule below_push_bit) simp
  moreover have "below (cc_k c + (cc_parity c + 1)) (cyclic_check c ?i)" by (rule below_mono [OF check_below]) simp_all
  ultimately show ?thesis by (simp add: encode_eq cyclic_n_def)
qed

lemma mask_eq: "cyclic_mask c = mask (cyclic_n c)"
proof (cases "64 \<le> cyclic_n c")
  case True
  with fits have "cyclic_n c = 64" by (simp add: cyclic_n_def)
  then show ?thesis by (simp add: cyclic_mask_def Let_def) (simp add: mask_eq_exp_minus_1)
qed (simp add: cyclic_mask_def Let_def mask_eq_exp_minus_1)

section \<open>The decoder\<close>

lemma rows_nth: "i < cc_k c \<Longrightarrow> cyclic_rows c ! i = cyclic_encode c (2 ^ i)"
  using few by (simp add: cyclic_rows_def push_bit_eq_mult)

text \<open>After the steps up to \<open>m\<close> the codeword is that of the Gray code of \<open>m\<close>, and the best so far is the nearest.\<close>

lemma nearest_walk:
  assumes "m < 2 ^ cc_k c"
  shows "\<exists>info d. fold (nearest_step (cyclic_rows c) word) [1..<Suc m] (cyclic_encode c 0, 0, count_ones (cyclic_encode c 0 XOR word)) =
      (cyclic_encode c (gray (of_nat m)), info, d) \<and> below (cc_k c) info \<and> d = count_ones (cyclic_encode c info XOR word) \<and>
    (\<forall>j \<le> m. d \<le> count_ones (cyclic_encode c (gray (of_nat j)) XOR word))"
  using assms
proof (induction m)
  case 0
  show ?case by (simp add: gray_def)
next
  case (Suc m)
  then obtain info d where prev: "fold (nearest_step (cyclic_rows c) word) [1..<Suc m] (cyclic_encode c 0, 0, count_ones (cyclic_encode c 0 XOR word)) =
      (cyclic_encode c (gray (of_nat m)), info, d)" "below (cc_k c) info" "d = count_ones (cyclic_encode c info XOR word)"
    "\<forall>j \<le> m. d \<le> count_ones (cyclic_encode c (gray (of_nat j)) XOR word)" by auto
  let ?i = "of_nat (Suc m) :: u32" and ?d = "count_ones (cyclic_encode c (gray (of_nat (Suc m))) XOR word)"
  have "(2::nat) ^ cc_k c \<le> 2 ^ 16" using few by (intro power_increasing) (simp_all add: MAX_MESSAGE_BITS_def)
  then have small: "Suc m < 2 ^ 32" using Suc.prems by simp
  have "trailing_zeros ?i < cc_k c" by (rule gray_count(2) [OF _ small Suc.prems]) simp
  then have row: "cyclic_encode c (gray (of_nat m)) XOR cyclic_rows c ! trailing_zeros ?i = cyclic_encode c (gray ?i)"
    using gray_count(1) [OF _ small] by (simp only: rows_nth encode_xor [symmetric]) simp
  have "below (cc_k c) ?i" using Suc.prems small by (simp only: below_iff_unat unat_u32)
  then have low: "below (cc_k c) (gray ?i)" by (rule gray_below)
  have "nearest_step (cyclic_rows c) word (Suc m) (cyclic_encode c (gray (of_nat m)), info, d) =
      (cyclic_encode c (gray ?i), if ?d < d then (gray ?i, ?d) else (info, d))"
    unfolding nearest_step_def Let_def prod.case row by (simp add: gray_def)
  then have run: "fold (nearest_step (cyclic_rows c) word) [1..<Suc (Suc m)] (cyclic_encode c 0, 0, count_ones (cyclic_encode c 0 XOR word)) =
      (cyclic_encode c (gray ?i), if ?d < d then (gray ?i, ?d) else (info, d))"
    using prev(1) by simp
  have all: "\<forall>j \<le> Suc m. min ?d d \<le> count_ones (cyclic_encode c (gray (of_nat j)) XOR word)"
  proof (intro allI impI)
    fix j assume "j \<le> Suc m"
    then consider "j = Suc m" | "j \<le> m" by linarith
    then show "min ?d d \<le> count_ones (cyclic_encode c (gray (of_nat j)) XOR word)"
      by cases (use prev(4) in \<open>auto intro: min.coboundedI2 min.coboundedI1\<close>)
  qed
  show ?case
  proof (cases "?d < d")
    case True
    then have "min ?d d = ?d" by simp
    with all True run low show ?thesis by (intro exI [of _ "gray ?i"] exI [of _ ?d]) (simp only: if_True simp_thms)
  next
    case False
    then have "min ?d d = d" by simp
    with all False run prev(2,3) show ?thesis by (intro exI [of _ info] exI [of _ d]) (simp only: if_False simp_thms)
  qed
qed

lemma decode_nearest:
  obtains info d where "below (cc_k c) info" "d = count_ones (cyclic_encode c info XOR (word AND cyclic_mask c))"
    "\<And>i. below (cc_k c) i \<Longrightarrow> d \<le> count_ones (cyclic_encode c i XOR (word AND cyclic_mask c))"
    "cyclic_decode c word = (if d \<le> cc_correctable c then Some (info, d) else None)"
proof -
  let ?w = "word AND cyclic_mask c"
  from nearest_walk [of "2 ^ cc_k c - 1" ?w] obtain info d where walk:
    "fold (nearest_step (cyclic_rows c) ?w) [1..<2 ^ cc_k c] (cyclic_encode c 0, 0, count_ones (cyclic_encode c 0 XOR ?w)) =
      (cyclic_encode c (gray (of_nat (2 ^ cc_k c - 1))), info, d)"
    "below (cc_k c) info" "d = count_ones (cyclic_encode c info XOR ?w)"
    "\<And>j. j < 2 ^ cc_k c \<Longrightarrow> d \<le> count_ones (cyclic_encode c (gray (of_nat j)) XOR ?w)" by (auto simp: less_eq_Suc_le [symmetric])
  have "d \<le> count_ones (cyclic_encode c i XOR ?w)" if i: "below (cc_k c) i" for i
  proof -
    from gray_surj [OF i] obtain v where v: "below (cc_k c) v" "gray v = i" .
    then show ?thesis using walk(4) [of "unat v"] by (simp add: below_iff_unat)
  qed
  then show ?thesis using that [OF walk(2,3)] walk(1) by (simp add: cyclic_decode_def Let_def)
qed

lemma encode_weight:
  assumes "below (cc_k c) info"
  shows "count_ones (cyclic_encode c info) = count_ones info + count_ones (cyclic_check c (ucast info))"
proof -
  let ?i = "ucast info :: u64"
  have bits: "bit ?i n = bit info n" for n using bit_imp_le_length [of info n] by (auto simp: bit_ucast_iff)
  have low: "below (cc_k c) ?i" using assms by (simp add: below_def bits)
  have "count_ones (push_bit (cc_parity c + 1) ?i) = count_ones ?i" by (rule count_ones_push_bit [OF low]) (use fits in simp)
  also have "\<dots> = count_ones info" by (simp add: count_ones_card bits)
  finally have top: "count_ones (push_bit (cc_parity c + 1) ?i) = count_ones info" .
  have "\<not> (bit (push_bit (cc_parity c + 1) ?i) i \<and> bit (cyclic_check c ?i) i)" for i
    using check_below [OF low] by (auto simp: bit_push_bit_iff below_def)
  from count_ones_xor_disjoint [OF this]
  have "count_ones (push_bit (cc_parity c + 1) ?i XOR cyclic_check c ?i) = count_ones info + count_ones (cyclic_check c ?i)"
    unfolding top .
  then show ?thesis unfolding encode_eq and_mask_below [OF low] .
qed

lemma check_mix:
  "bits_of m (cyclic_check c (w AND mask k)) =
     mix (bits_of k w) (map (\<lambda>i. bits_of m (cyclic_check c (2 ^ i))) [0..<k]) (replicate m False)"
proof (induction k)
  case 0
  have "cyclic_check c 0 = 0" using cyclic_check_xor [of c 0 0] by simp
  then show ?case by (simp add: bits_of_def [of 0])
next
  case (Suc k)
  have "bits_of m (cyclic_check c (w AND mask (Suc k))) =
      (if bit w k then xor_bits (bits_of m (cyclic_check c (w AND mask k))) (bits_of m (cyclic_check c (2 ^ k)))
       else bits_of m (cyclic_check c (w AND mask k)))"
    by (cases "bit w k") (simp_all add: and_mask_Suc cyclic_check_xor bits_of_xor)
  then show ?case using Suc by (simp add: mix_append bits_of_def)
qed

lemma encode_heavy:
  assumes hv: "heavy d (map (\<lambda>i. bits_of (Suc (cc_parity c)) (cyclic_check c (2 ^ i))) [0..<cc_k c]) (replicate (Suc (cc_parity c)) False)"
    and info: "below (cc_k c) info" "info \<noteq> 0"
  shows "d \<le> count_ones (cyclic_encode c info)"
proof -
  let ?i = "ucast info :: u64"
  have bits: "bit ?i n = bit info n" for n using bit_imp_le_length [of info n] by (auto simp: bit_ucast_iff)
  have low: "below (cc_k c) ?i" using info(1) by (simp add: below_def bits)
  obtain j where "bit info j" using info(2) by (metis bit_word_eqI bit_0_eq bot_apply bot_bool_def)
  then have "\<exists>s \<in> set (bits_of (cc_k c) ?i). s"
    using info(1) by (auto simp: bits_of_def bits intro!: bexI [of _ j]) (metis belowD not_le)
  from heavy_sound [OF hv _ this] have "d \<le> ones (bits_of (cc_k c) ?i) + ones (bits_of (Suc (cc_parity c)) (cyclic_check c ?i))"
    using check_mix [of "Suc (cc_parity c)" ?i "cc_k c"] low by simp
  moreover have "ones (bits_of (cc_k c) ?i) = count_ones info"
    using fits by (simp add: count_ones_bits_of [OF low, symmetric]) (simp add: count_ones_card bits)
  moreover have "ones (bits_of (Suc (cc_parity c)) (cyclic_check c ?i)) = count_ones (cyclic_check c ?i)"
    using fits by (simp add: count_ones_bits_of [OF check_below [OF low]])
  ultimately show ?thesis by (simp add: encode_weight [OF info(1)])
qed

end

text \<open>A code that is far enough apart for the errors it claims to correct.\<close>

locale correcting_code = cyclic_code +
  assumes distance: "below (cc_k c) info \<Longrightarrow> info \<noteq> 0 \<Longrightarrow> 2 * cc_correctable c < count_ones (cyclic_encode c info)"
begin

lemma decode_corrects:
  assumes info: "below (cc_k c) info" and e: "below (cyclic_n c) e" "count_ones e \<le> cc_correctable c"
  shows "cyclic_decode c (cyclic_encode c info XOR e) = Some (info, count_ones e)"
proof -
  let ?w = "cyclic_encode c info XOR e"
  have w: "?w AND cyclic_mask c = ?w" unfolding mask_eq by (intro and_mask_below below_xor encode_below e(1))
  obtain best d where best: "below (cc_k c) best" "d = count_ones (cyclic_encode c best XOR ?w)"
    "\<And>i. below (cc_k c) i \<Longrightarrow> d \<le> count_ones (cyclic_encode c i XOR ?w)"
    "cyclic_decode c ?w = (if d \<le> cc_correctable c then Some (best, d) else None)"
    using decode_nearest [of ?w] unfolding w by blast
  have d: "d \<le> count_ones e" using best(3) [OF info] by simp
  have "best = info"
  proof (rule ccontr)
    assume "best \<noteq> info"
    then have "2 * cc_correctable c < count_ones (cyclic_encode c (best XOR info))"
      using distance [of "best XOR info"] best(1) info by auto
    also have "cyclic_encode c (best XOR info) = (cyclic_encode c best XOR ?w) XOR e" by (simp add: encode_xor xor.assoc)
    also have "count_ones \<dots> \<le> d + count_ones e" unfolding best(2) by (rule count_ones_xor_le)
    finally show False using d e(2) by simp
  qed
  then show ?thesis using best(2,4) e(2) by simp
qed

end

section \<open>The codes\<close>

lemma cyclic_reduce_numeral [gf2_eval]:
  "cyclic_reduce g deg lo (numeral v) r =
     cyclic_reduce g deg lo (pred_numeral v) (if bit r (lo + pred_numeral v) then r XOR push_bit (lo + pred_numeral v - deg) g else r)"
  by (simp only: numeral_eq_Suc cyclic_reduce.simps odd_iff_and_one)

lemma leading_zerosI:
  assumes "bit w n" "below (Suc n) w"
  shows "63 - leading_zeros w = n"
proof -
  have n: "n < 64" using bit_imp_le_length [OF assms(1)] by simp
  then have "[0..<64] = [0..<n] @ n # [Suc n..<64]"
    by (metis le_add_diff_inverse less_or_eq_imp_le upt_add_eq_append upt_conv_Cons zero_le add_0)
  then have "rev [0..<64] = rev [Suc n..<64] @ n # rev [0..<n]" by simp
  moreover have "takeWhile (\<lambda>i. \<not> bit w i) (rev [Suc n..<64] @ n # rev [0..<n]) = rev [Suc n..<64]"
    using assms belowD by (subst takeWhile_append2) auto
  ultimately show ?thesis using n by (simp add: leading_zeros_def)
qed

lemma cyclic_codeI:
  assumes "cc_k c \<le> 16" "bit (cc_generator c) (cc_parity c)" "below (Suc (cc_parity c)) (cc_generator c)" "cc_k c + cc_parity c < 64"
  shows "cyclic_code c"
  using assms leading_zerosI by unfold_locales (simp_all add: MAX_MESSAGE_BITS_def)

interpretation golay_20_8: cyclic_code GOLAY_20_8
  by (rule cyclic_codeI) (simp_all add: GOLAY_20_8_def below_iff_unat)

interpretation golay_18_6: cyclic_code GOLAY_18_6
  by (rule cyclic_codeI) (simp_all add: GOLAY_18_6_def below_iff_unat)

interpretation qr_16_7: cyclic_code QR_16_7
  by (rule cyclic_codeI) (simp_all add: QR_16_7_def below_iff_unat)

interpretation golay_24_12: cyclic_code GOLAY_24_12
  by (rule cyclic_codeI) (simp_all add: GOLAY_24_12_def below_iff_unat)

interpretation bch_63_16: cyclic_code BCH_63_16
  by (rule cyclic_codeI) (simp_all add: BCH_63_16_def below_iff_unat)

lemma golay_20_8_pow:
  "cyclic_check GOLAY_20_8 (2 ^ 0) = 0x8EB"
  "cyclic_check GOLAY_20_8 (2 ^ 1) = 0x93E"
  "cyclic_check GOLAY_20_8 (2 ^ 2) = 0xA97"
  "cyclic_check GOLAY_20_8 (2 ^ 3) = 0xDC6"
  "cyclic_check GOLAY_20_8 (2 ^ 4) = 0x367"
  "cyclic_check GOLAY_20_8 (2 ^ 5) = 0x6CD"
  "cyclic_check GOLAY_20_8 (2 ^ 6) = 0xD99"
  "cyclic_check GOLAY_20_8 (2 ^ 7) = 0x3DA"
  by (simp_all add: upt_from_0 cyclic_check_def GOLAY_20_8_def gf2_eval count_ones_def)

lemma golay_20_8_checks:
  "map (\<lambda>i. cyclic_check GOLAY_20_8 (2 ^ i)) [0..<8] = [0x8EB, 0x93E, 0xA97, 0xDC6, 0x367, 0x6CD, 0xD99, 0x3DA]"
proof -
  have "[0..<8] = [0, 1, 2, 3, 4, 5, 6, 7 :: nat]" by (simp add: upt_from_0)
  then show ?thesis by (simp only: list.map golay_20_8_pow)
qed

lemma golay_20_8_heavy: "heavy 7 (map (\<lambda>i. bits_of 12 (cyclic_check GOLAY_20_8 (2 ^ i))) [0..<8]) (replicate 12 False)"
proof -
  have "map (\<lambda>i. bits_of 12 (cyclic_check GOLAY_20_8 (2 ^ i))) [0..<8] = map (bits_of 12) (map (\<lambda>i. cyclic_check GOLAY_20_8 (2 ^ i)) [0..<8])"
    by (simp only: list.map_comp o_def)
  also have "\<dots> = [
     [True, True, False, True, False, True, True, True, False, False, False, True],
     [False, True, True, True, True, True, False, False, True, False, False, True],
     [True, True, True, False, True, False, False, True, False, True, False, True],
     [False, True, True, False, False, False, True, True, True, False, True, True],
     [True, True, True, False, False, True, True, False, True, True, False, False],
     [True, False, True, True, False, False, True, True, False, True, True, False],
     [True, False, False, True, True, False, False, True, True, False, True, True],
     [False, True, False, True, True, False, True, True, True, True, False, False]]"
    unfolding golay_20_8_checks by (simp add: bits_of_def upt_from_0)
  finally show ?thesis by (simp only: eval_nat_numeral BitM.simps replicate.simps bit_eval)
qed

interpretation golay_20_8: correcting_code GOLAY_20_8
proof
  fix info :: u32
  assume "below (cc_k GOLAY_20_8) info" "info \<noteq> 0"
  from golay_20_8.encode_heavy [OF _ this, of 7] golay_20_8_heavy
  show "2 * cc_correctable GOLAY_20_8 < count_ones (cyclic_encode GOLAY_20_8 info)" by (simp add: GOLAY_20_8_def)
qed

lemma golay_18_6_pow:
  "cyclic_check GOLAY_18_6 (2 ^ 0) = 0x8EB"
  "cyclic_check GOLAY_18_6 (2 ^ 1) = 0x93E"
  "cyclic_check GOLAY_18_6 (2 ^ 2) = 0xA97"
  "cyclic_check GOLAY_18_6 (2 ^ 3) = 0xDC6"
  "cyclic_check GOLAY_18_6 (2 ^ 4) = 0x367"
  "cyclic_check GOLAY_18_6 (2 ^ 5) = 0x6CD"
  by (simp_all add: upt_from_0 cyclic_check_def GOLAY_18_6_def gf2_eval count_ones_def)

lemma golay_18_6_checks:
  "map (\<lambda>i. cyclic_check GOLAY_18_6 (2 ^ i)) [0..<6] = [0x8EB, 0x93E, 0xA97, 0xDC6, 0x367, 0x6CD]"
proof -
  have "[0..<6] = [0, 1, 2, 3, 4, 5 :: nat]" by (simp add: upt_from_0)
  then show ?thesis by (simp only: list.map golay_18_6_pow)
qed

lemma golay_18_6_heavy: "heavy 7 (map (\<lambda>i. bits_of 12 (cyclic_check GOLAY_18_6 (2 ^ i))) [0..<6]) (replicate 12 False)"
proof -
  have "map (\<lambda>i. bits_of 12 (cyclic_check GOLAY_18_6 (2 ^ i))) [0..<6] = map (bits_of 12) (map (\<lambda>i. cyclic_check GOLAY_18_6 (2 ^ i)) [0..<6])"
    by (simp only: list.map_comp o_def)
  also have "\<dots> = [
     [True, True, False, True, False, True, True, True, False, False, False, True],
     [False, True, True, True, True, True, False, False, True, False, False, True],
     [True, True, True, False, True, False, False, True, False, True, False, True],
     [False, True, True, False, False, False, True, True, True, False, True, True],
     [True, True, True, False, False, True, True, False, True, True, False, False],
     [True, False, True, True, False, False, True, True, False, True, True, False]]"
    unfolding golay_18_6_checks by (simp add: bits_of_def upt_from_0)
  finally show ?thesis by (simp only: eval_nat_numeral BitM.simps replicate.simps bit_eval)
qed

interpretation golay_18_6: correcting_code GOLAY_18_6
proof
  fix info :: u32
  assume "below (cc_k GOLAY_18_6) info" "info \<noteq> 0"
  from golay_18_6.encode_heavy [OF _ this, of 7] golay_18_6_heavy
  show "2 * cc_correctable GOLAY_18_6 < count_ones (cyclic_encode GOLAY_18_6 info)" by (simp add: GOLAY_18_6_def)
qed

lemma qr_16_7_pow:
  "cyclic_check QR_16_7 (2 ^ 0) = 0x73"
  "cyclic_check QR_16_7 (2 ^ 1) = 0xE5"
  "cyclic_check QR_16_7 (2 ^ 2) = 0x1C9"
  "cyclic_check QR_16_7 (2 ^ 3) = 0x1E2"
  "cyclic_check QR_16_7 (2 ^ 4) = 0x1B7"
  "cyclic_check QR_16_7 (2 ^ 5) = 0x11E"
  "cyclic_check QR_16_7 (2 ^ 6) = 0x4F"
  by (simp_all add: upt_from_0 cyclic_check_def QR_16_7_def gf2_eval count_ones_def)

lemma qr_16_7_checks:
  "map (\<lambda>i. cyclic_check QR_16_7 (2 ^ i)) [0..<7] = [0x73, 0xE5, 0x1C9, 0x1E2, 0x1B7, 0x11E, 0x4F]"
proof -
  have "[0..<7] = [0, 1, 2, 3, 4, 5, 6 :: nat]" by (simp add: upt_from_0)
  then show ?thesis by (simp only: list.map qr_16_7_pow)
qed

lemma qr_16_7_heavy: "heavy 5 (map (\<lambda>i. bits_of 9 (cyclic_check QR_16_7 (2 ^ i))) [0..<7]) (replicate 9 False)"
proof -
  have "map (\<lambda>i. bits_of 9 (cyclic_check QR_16_7 (2 ^ i))) [0..<7] = map (bits_of 9) (map (\<lambda>i. cyclic_check QR_16_7 (2 ^ i)) [0..<7])"
    by (simp only: list.map_comp o_def)
  also have "\<dots> = [
     [True, True, False, False, True, True, True, False, False],
     [True, False, True, False, False, True, True, True, False],
     [True, False, False, True, False, False, True, True, True],
     [False, True, False, False, False, True, True, True, True],
     [True, True, True, False, True, True, False, True, True],
     [False, True, True, True, True, False, False, False, True],
     [True, True, True, True, False, False, True, False, False]]"
    unfolding qr_16_7_checks by (simp add: bits_of_def upt_from_0)
  finally show ?thesis by (simp only: eval_nat_numeral BitM.simps replicate.simps bit_eval)
qed

interpretation qr_16_7: correcting_code QR_16_7
proof
  fix info :: u32
  assume "below (cc_k QR_16_7) info" "info \<noteq> 0"
  from qr_16_7.encode_heavy [OF _ this, of 5] qr_16_7_heavy
  show "2 * cc_correctable QR_16_7 < count_ones (cyclic_encode QR_16_7 info)" by (simp add: QR_16_7_def)
qed

lemma golay_24_12_pow:
  "cyclic_check GOLAY_24_12 (2 ^ 0) = 0x8EB"
  "cyclic_check GOLAY_24_12 (2 ^ 1) = 0x93E"
  "cyclic_check GOLAY_24_12 (2 ^ 2) = 0xA97"
  "cyclic_check GOLAY_24_12 (2 ^ 3) = 0xDC6"
  "cyclic_check GOLAY_24_12 (2 ^ 4) = 0x367"
  "cyclic_check GOLAY_24_12 (2 ^ 5) = 0x6CD"
  "cyclic_check GOLAY_24_12 (2 ^ 6) = 0xD99"
  "cyclic_check GOLAY_24_12 (2 ^ 7) = 0x3DA"
  "cyclic_check GOLAY_24_12 (2 ^ 8) = 0x7B4"
  "cyclic_check GOLAY_24_12 (2 ^ 9) = 0xF68"
  "cyclic_check GOLAY_24_12 (2 ^ 10) = 0x63B"
  "cyclic_check GOLAY_24_12 (2 ^ 11) = 0xC75"
  by (simp_all add: upt_from_0 cyclic_check_def GOLAY_24_12_def gf2_eval count_ones_def)

lemma golay_24_12_checks:
  "map (\<lambda>i. cyclic_check GOLAY_24_12 (2 ^ i)) [0..<12] = [0x8EB, 0x93E, 0xA97, 0xDC6, 0x367, 0x6CD, 0xD99, 0x3DA, 0x7B4, 0xF68, 0x63B, 0xC75]"
proof -
  have "[0..<12] = [0, 1, 2, 3, 4, 5, 6, 7, 8, 9, 10, 11 :: nat]" by (simp add: upt_from_0)
  then show ?thesis by (simp only: list.map golay_24_12_pow)
qed

lemma golay_24_12_heavy: "heavy 7 (map (\<lambda>i. bits_of 12 (cyclic_check GOLAY_24_12 (2 ^ i))) [0..<12]) (replicate 12 False)"
proof -
  have "map (\<lambda>i. bits_of 12 (cyclic_check GOLAY_24_12 (2 ^ i))) [0..<12] = map (bits_of 12) (map (\<lambda>i. cyclic_check GOLAY_24_12 (2 ^ i)) [0..<12])"
    by (simp only: list.map_comp o_def)
  also have "\<dots> = [
     [True, True, False, True, False, True, True, True, False, False, False, True],
     [False, True, True, True, True, True, False, False, True, False, False, True],
     [True, True, True, False, True, False, False, True, False, True, False, True],
     [False, True, True, False, False, False, True, True, True, False, True, True],
     [True, True, True, False, False, True, True, False, True, True, False, False],
     [True, False, True, True, False, False, True, True, False, True, True, False],
     [True, False, False, True, True, False, False, True, True, False, True, True],
     [False, True, False, True, True, False, True, True, True, True, False, False],
     [False, False, True, False, True, True, False, True, True, True, True, False],
     [False, False, False, True, False, True, True, False, True, True, True, True],
     [True, True, False, True, True, True, False, False, False, True, True, False],
     [True, False, True, False, True, True, True, False, False, False, True, True]]"
    unfolding golay_24_12_checks by (simp add: bits_of_def upt_from_0)
  finally show ?thesis by (simp only: eval_nat_numeral BitM.simps replicate.simps bit_eval)
qed

interpretation golay_24_12: correcting_code GOLAY_24_12
proof
  fix info :: u32
  assume "below (cc_k GOLAY_24_12) info" "info \<noteq> 0"
  from golay_24_12.encode_heavy [OF _ this, of 7] golay_24_12_heavy
  show "2 * cc_correctable GOLAY_24_12 < count_ones (cyclic_encode GOLAY_24_12 info)" by (simp add: GOLAY_24_12_def)
qed

lemma bch_63_16_pow:
  "cyclic_check BCH_63_16 (2 ^ 0) = 0x9B2617BA7657"
  "cyclic_check BCH_63_16 (2 ^ 1) = 0xAD6A38CE9AFA"
  "cyclic_check BCH_63_16 (2 ^ 2) = 0xC1F2662743A3"
  "cyclic_check BCH_63_16 (2 ^ 3) = 0x18C2DBF4F112"
  "cyclic_check BCH_63_16 (2 ^ 4) = 0x3185B7E9E224"
  "cyclic_check BCH_63_16 (2 ^ 5) = 0x630B6FD3C448"
  "cyclic_check BCH_63_16 (2 ^ 6) = 0xC616DFA78890"
  "cyclic_check BCH_63_16 (2 ^ 7) = 0x170BA8F56777"
  "cyclic_check BCH_63_16 (2 ^ 8) = 0x2E1751EACEED"
  "cyclic_check BCH_63_16 (2 ^ 9) = 0x5C2EA3D59DD9"
  "cyclic_check BCH_63_16 (2 ^ 10) = 0xB85D47AB3BB1"
  "cyclic_check BCH_63_16 (2 ^ 11) = 0xEB9C98EC0136"
  "cyclic_check BCH_63_16 (2 ^ 12) = 0x4C1F2662743B"
  "cyclic_check BCH_63_16 (2 ^ 13) = 0x983E4CC4E875"
  "cyclic_check BCH_63_16 (2 ^ 14) = 0xAB5A8E33A6BE"
  "cyclic_check BCH_63_16 (2 ^ 15) = 0xCD930BDD3B2B"
  by (simp_all add: upt_from_0 cyclic_check_def BCH_63_16_def gf2_eval count_ones_def)

text \<open>
  The search over all selections of sixteen columns is cut into the four selections of the first two.
\<close>

definition bch_63_16_tail :: "bitvec list" where
  "bch_63_16_tail = [
     [True, True, False, False, False, True, False, True, True, True, False, False, False, False, True, False, True, True, True, False, False, True, False, False, False, True, True, False, False, True, True, False, False, True, False, False, True, True, True, True, True, False, False, False, False, False, True, True],
     [False, True, False, False, True, False, False, False, True, False, False, False, True, True, True, True, False, False, True, False, True, True, True, True, True, True, False, True, True, False, True, True, False, True, False, False, False, False, True, True, False, False, False, True, True, False, False, False],
     [False, False, True, False, False, True, False, False, False, True, False, False, False, True, True, True, True, False, False, True, False, True, True, True, True, True, True, False, True, True, False, True, True, False, True, False, False, False, False, True, True, False, False, False, True, True, False, False],
     [False, False, False, True, False, False, True, False, False, False, True, False, False, False, True, True, True, True, False, False, True, False, True, True, True, True, True, True, False, True, True, False, True, True, False, True, False, False, False, False, True, True, False, False, False, True, True, False],
     [False, False, False, False, True, False, False, True, False, False, False, True, False, False, False, True, True, True, True, False, False, True, False, True, True, True, True, True, True, False, True, True, False, True, True, False, True, False, False, False, False, True, True, False, False, False, True, True],
     [True, True, True, False, True, True, True, False, True, True, True, False, False, True, True, False, True, False, True, False, True, True, True, True, False, False, False, True, False, True, False, True, True, True, False, True, False, False, False, False, True, True, True, False, True, False, False, False],
     [True, False, True, True, False, True, True, True, False, True, True, True, False, False, True, True, False, True, False, True, False, True, True, True, True, False, False, False, True, False, True, False, True, True, True, False, True, False, False, False, False, True, True, True, False, True, False, False],
     [True, False, False, True, True, False, True, True, True, False, True, True, True, False, False, True, True, False, True, False, True, False, True, True, True, True, False, False, False, True, False, True, False, True, True, True, False, True, False, False, False, False, True, True, True, False, True, False],
     [True, False, False, False, True, True, False, True, True, True, False, True, True, True, False, False, True, True, False, True, False, True, False, True, True, True, True, False, False, False, True, False, True, False, True, True, True, False, True, False, False, False, False, True, True, True, False, True],
     [False, True, True, False, True, True, False, False, True, False, False, False, False, False, False, False, False, False, True, True, False, True, True, True, False, False, False, True, True, False, False, True, False, False, True, True, True, False, False, True, True, True, False, True, False, True, True, True],
     [True, True, False, True, True, True, False, False, False, False, True, False, True, True, True, False, False, True, False, False, False, True, True, False, False, True, True, False, False, True, False, False, True, True, True, True, True, False, False, False, False, False, True, True, False, False, True, False],
     [True, False, True, False, True, True, True, False, False, False, False, True, False, True, True, True, False, False, True, False, False, False, True, True, False, False, True, True, False, False, True, False, False, True, True, True, True, True, False, False, False, False, False, True, True, False, False, True],
     [False, True, True, True, True, True, False, True, False, True, True, False, False, True, False, True, True, True, False, False, True, True, False, False, False, True, True, True, False, False, False, True, False, True, False, True, True, False, True, False, True, True, False, True, False, True, False, True],
     [True, True, False, True, False, True, False, False, True, True, False, True, True, True, False, False, True, False, True, True, True, False, True, True, True, True, False, True, False, False, False, False, True, True, False, False, True, False, False, True, True, False, True, True, False, False, True, True]]"

lemma bch_63_16_tail_0: "heavy 23 bch_63_16_tail
    [False, False, False, False, False, False, False, False, False, False, False, False, False, False, False, False, False, False, False, False, False, False, False, False, False, False, False, False, False, False, False, False, False, False, False, False, False, False, False, False, False, False, False, False, False, False, False, False]"
  unfolding bch_63_16_tail_def by (simp only: eval_nat_numeral BitM.simps bit_eval)

lemma bch_63_16_tail_1: "heavy 22 bch_63_16_tail
    [True, True, True, False, True, False, True, False, False, True, True, False, True, True, True, False, False, True, False, True, True, True, False, True, True, True, True, False, True, False, False, False, False, True, True, False, False, True, False, False, True, True, False, True, True, False, False, True]"
  unfolding bch_63_16_tail_def by (simp only: eval_nat_numeral BitM.simps bit_eval)

lemma bch_63_16_tail_2: "heavy 22 bch_63_16_tail
    [False, True, False, True, True, True, True, True, False, True, False, True, True, False, False, True, False, True, True, True, False, False, True, True, False, False, False, True, True, True, False, False, False, True, False, True, False, True, True, False, True, False, True, True, False, True, False, True]"
  unfolding bch_63_16_tail_def by (simp only: eval_nat_numeral BitM.simps bit_eval)

lemma bch_63_16_tail_3: "heavy 21 bch_63_16_tail
    [True, False, True, True, False, True, False, True, False, False, True, True, False, True, True, True, False, False, True, False, True, True, True, False, True, True, True, True, False, True, False, False, False, False, True, True, False, False, True, False, False, True, True, False, True, True, False, False]"
  unfolding bch_63_16_tail_def by (simp only: eval_nat_numeral BitM.simps bit_eval)

lemma bch_63_16_columns:
  "map (\<lambda>i. bits_of 48 (cyclic_check BCH_63_16 (2 ^ i))) [0..<16] =
    [True, True, True, False, True, False, True, False, False, True, True, False, True, True, True, False, False, True, False, True, True, True, False, True, True, True, True, False, True, False, False, False, False, True, True, False, False, True, False, False, True, True, False, True, True, False, False, True] #
    [False, True, False, True, True, True, True, True, False, True, False, True, True, False, False, True, False, True, True, True, False, False, True, True, False, False, False, True, True, True, False, False, False, True, False, True, False, True, True, False, True, False, True, True, False, True, False, True] # bch_63_16_tail"
proof -
  have "[0..<16] = [0, 1, 2, 3, 4, 5, 6, 7, 8, 9, 10, 11, 12, 13, 14, 15 :: nat]" by (simp add: upt_from_0)
  then show ?thesis by (simp only: list.map bch_63_16_pow bch_63_16_tail_def) (simp add: bits_of_def upt_from_0)
qed

lemma bch_63_16_heavy: "heavy 23 (map (\<lambda>i. bits_of 48 (cyclic_check BCH_63_16 (2 ^ i))) [0..<16]) (replicate 48 False)"
  using bch_63_16_tail_0 bch_63_16_tail_1 bch_63_16_tail_2 bch_63_16_tail_3 unfolding bch_63_16_columns
  by (simp only: eval_nat_numeral BitM.simps replicate.simps bit_eval)

interpretation bch_63_16: correcting_code BCH_63_16
proof
  fix info :: u32
  assume "below (cc_k BCH_63_16) info" "info \<noteq> 0"
  from bch_63_16.encode_heavy [OF _ this, of 23] bch_63_16_heavy
  show "2 * cc_correctable BCH_63_16 < count_ones (cyclic_encode BCH_63_16 info)" by (simp add: BCH_63_16_def)
qed

section \<open>Properties\<close>

definition cyclic_codes :: "CyclicCode list" where
  "cyclic_codes = [GOLAY_20_8, GOLAY_18_6, QR_16_7, GOLAY_24_12, BCH_63_16]"

lemma cyclic_codes_correct: "c \<in> set cyclic_codes \<Longrightarrow> correcting_code c"
  using golay_20_8.correcting_code_axioms golay_18_6.correcting_code_axioms qr_16_7.correcting_code_axioms
    golay_24_12.correcting_code_axioms bch_63_16.correcting_code_axioms
  by (auto simp: cyclic_codes_def)

text \<open>
  C9: Each of the five extended cyclic codes is decoded to a nearest codeword: the decoder returns a
  message of the code's length together with the distance of its codeword from the word received, no
  codeword is nearer, and it returns nothing exactly when every codeword is further away than the number
  of errors the code is said to correct.  That number is right: whatever message is sent, with up to that
  many bits of its codeword changed, the decoder returns the message and the number of bits changed.
\<close>

theorem cyclic_decode_nearest:
  assumes "c \<in> set cyclic_codes"
  shows "(case cyclic_decode c word of
      Some (info, d) \<Rightarrow> below (cc_k c) info \<and> d = count_ones (cyclic_encode c info XOR (word AND cyclic_mask c)) \<and>
        d \<le> cc_correctable c \<and> (\<forall>i. below (cc_k c) i \<longrightarrow> d \<le> count_ones (cyclic_encode c i XOR (word AND cyclic_mask c)))
    | None \<Rightarrow> \<forall>i. below (cc_k c) i \<longrightarrow> cc_correctable c < count_ones (cyclic_encode c i XOR (word AND cyclic_mask c))) \<and>
    (\<forall>info e. below (cc_k c) info \<longrightarrow> below (cyclic_n c) e \<longrightarrow> count_ones e \<le> cc_correctable c \<longrightarrow>
      cyclic_decode c (cyclic_encode c info XOR e) = Some (info, count_ones e))"
proof (intro conjI allI impI)
  note code = cyclic_codes_correct [OF assms]
  obtain info d where best: "below (cc_k c) info" "d = count_ones (cyclic_encode c info XOR (word AND cyclic_mask c))"
    "\<And>i. below (cc_k c) i \<Longrightarrow> d \<le> count_ones (cyclic_encode c i XOR (word AND cyclic_mask c))"
    "cyclic_decode c word = (if d \<le> cc_correctable c then Some (info, d) else None)"
    using cyclic_code.decode_nearest [OF correcting_code.axioms(1) [OF code]] by blast
  show "case cyclic_decode c word of
      Some (info, d) \<Rightarrow> below (cc_k c) info \<and> d = count_ones (cyclic_encode c info XOR (word AND cyclic_mask c)) \<and>
        d \<le> cc_correctable c \<and> (\<forall>i. below (cc_k c) i \<longrightarrow> d \<le> count_ones (cyclic_encode c i XOR (word AND cyclic_mask c)))
    | None \<Rightarrow> \<forall>i. below (cc_k c) i \<longrightarrow> cc_correctable c < count_ones (cyclic_encode c i XOR (word AND cyclic_mask c))"
    using best(1,2) best(3) unfolding best(4) by (cases "d \<le> cc_correctable c") (force simp: not_le intro: less_le_trans)+
  show "cyclic_decode c (cyclic_encode c i XOR e) = Some (i, count_ones e)"
    if "below (cc_k c) i" "below (cyclic_n c) e" "count_ones e \<le> cc_correctable c" for i e
    using correcting_code.decode_corrects [OF code that] .
qed

theorem cyclic_decode_nearest_witness:
  "cyclic_decode BCH_63_16 (cyclic_encode BCH_63_16 0xBEEF XOR 0x8000000000000001) = Some (0xBEEF, 2)"
proof -
  have "count_ones (0x8000000000000001 :: u64) = 2" by (simp add: count_ones_def upt_from_0)
  then show ?thesis
    using cyclic_decode_nearest [of BCH_63_16 0]
    by (simp add: cyclic_codes_def BCH_63_16_def cyclic_n_def below_iff_unat)
qed

end
