(* ===== verification/Trellis_Search.thy ===== *)
theory Trellis_Search
  imports Prelude
begin

text \<open>
  What makes a Viterbi decoder right, whatever its code: a graph whose every state is entered from two
  states by one bit, and steps that keep for every state the better of the two ways into it.

  The locale \<open>trellis\<close> has the graph and the gain of a transition given the symbol received; its lemmas say
  that after any number of such steps the metric of a state is the score of the path that walking back
  along the decisions finds, and that no path into the state scores more.
\<close>

text \<open>\<open>max_by_key\<close>: the last of the best.\<close>

lemma fold_best:
  fixes m :: "nat \<Rightarrow> int"
  shows "m b \<le> m (fold (\<lambda>s best. if m s < m best then best else s) xs b)"
    "s \<in> set xs \<Longrightarrow> m s \<le> m (fold (\<lambda>s best. if m s < m best then best else s) xs b)"
    "fold (\<lambda>s best. if m s < m best then best else s) xs b \<in> insert b (set xs)"
proof -
  let ?f = "\<lambda>s best. if m s < m best then best else s"
  have "m b \<le> m (fold ?f xs b) \<and> (\<forall>s \<in> set xs. m s \<le> m (fold ?f xs b)) \<and> fold ?f xs b \<in> insert b (set xs)"
  proof (induction xs arbitrary: b)
    case (Cons x xs)
    show ?case using Cons [of "?f x b"] by (cases "m x < m b") (auto dest: order_trans)
  qed simp
  then show "m b \<le> m (fold ?f xs b)" "s \<in> set xs \<Longrightarrow> m s \<le> m (fold ?f xs b)" "fold ?f xs b \<in> insert b (set xs)" by auto
qed

locale trellis =
  fixes states :: nat and adv :: "nat \<Rightarrow> bool \<Rightarrow> nat" and gain :: "nat \<Rightarrow> bool \<Rightarrow> 'y \<Rightarrow> int"
    and prev :: "nat \<Rightarrow> bool \<Rightarrow> nat" and inb :: "nat \<Rightarrow> bool" and size_of :: "'y \<Rightarrow> int"
  assumes adv_less: "p < states \<Longrightarrow> adv p b < states"
    and prev_less: "s < states \<Longrightarrow> prev s h < states"
    and adv_prev: "s < states \<Longrightarrow> adv (prev s h) (inb s) = s"
    and prev_adv: "p < states \<Longrightarrow> adv p b = s \<Longrightarrow> b = inb s \<and> (\<exists>h. p = prev s h)"
    and gain_bound: "s < states \<Longrightarrow> \<bar>gain s b y\<bar> \<le> size_of y"
begin

fun walk :: "nat \<Rightarrow> bool list \<Rightarrow> nat" where
  "walk s [] = s"
| "walk s (b # bits) = walk (adv s b) bits"

fun score :: "nat \<Rightarrow> bool list \<Rightarrow> 'y list \<Rightarrow> int" where
  "score s (b # bits) (y # ys) = gain s b y + score (adv s b) bits ys"
| "score s bits ys = 0"

lemma walk_append: "walk s (xs @ ys) = walk (walk s xs) ys"
  by (induction xs arbitrary: s) auto

lemma walk_less: "s < states \<Longrightarrow> walk s bits < states"
  by (induction bits arbitrary: s) (auto simp: adv_less)

lemma score_append:
  "length ys = length xs \<Longrightarrow> score s (xs @ bs) (ys @ zs) = score s xs ys + score (walk s xs) bs zs"
  by (induction xs ys arbitrary: s rule: list_induct2') auto

lemma score_bound: "s < states \<Longrightarrow> length bits = length ys \<Longrightarrow> \<bar>score s bits ys\<bar> \<le> sum_list (map size_of ys)"
proof (induction s bits ys rule: score.induct)
  case (1 s b bits y ys)
  then show ?case
    using gain_bound [of s b y] adv_less [of s b] abs_triangle_ineq [of "gain s b y" "score (adv s b) bits ys"] by simp
qed auto

text \<open>The decisions of the steps, the last first, lead back from a state.\<close>

fun origin :: "(nat \<Rightarrow> bool) list \<Rightarrow> nat \<Rightarrow> nat" where
  "origin [] s = s"
| "origin (d # ds) s = origin ds (prev s (d s))"

fun path :: "(nat \<Rightarrow> bool) list \<Rightarrow> nat \<Rightarrow> bool list" where
  "path [] s = []"
| "path (d # ds) s = path ds (prev s (d s)) @ [inb s]"

lemma length_path [simp]: "length (path ds s) = length ds"
  by (induction ds arbitrary: s) auto

lemma origin_less: "s < states \<Longrightarrow> origin ds s < states"
  by (induction ds arbitrary: s) (auto simp: prev_less)

lemma walk_path: "s < states \<Longrightarrow> walk (origin ds s) (path ds s) = s"
  by (induction ds arbitrary: s) (auto simp: walk_append prev_less adv_prev)

definition survives :: "int list \<Rightarrow> 'y \<Rightarrow> int list \<Rightarrow> (nat \<Rightarrow> bool) \<Rightarrow> bool" where
  "survives metrics y later d \<longleftrightarrow> length later = states \<and>
     (\<forall>s < states. later ! s = metrics ! prev s (d s) + gain (prev s (d s)) (inb s) y \<and>
       (\<forall>h. metrics ! prev s h + gain (prev s h) (inb s) y \<le> later ! s))"

definition known :: "(nat \<Rightarrow> int) \<Rightarrow> int list \<Rightarrow> (nat \<Rightarrow> bool) list \<Rightarrow> 'y list \<Rightarrow> bool" where
  "known init metrics ds ys \<longleftrightarrow> length metrics = states \<and> length ys = length ds \<and>
     (\<forall>s < states. metrics ! s = init (origin ds s) + score (origin ds s) (path ds s) ys \<and>
       (\<forall>p bs. p < states \<and> length bs = length ds \<and> walk p bs = s \<longrightarrow> init p + score p bs ys \<le> metrics ! s))"

lemma survivesD: "survives metrics y later d \<Longrightarrow> s < states \<Longrightarrow> metrics ! prev s h + gain (prev s h) (inb s) y \<le> later ! s"
  unfolding survives_def by blast

lemma knownD: "known init metrics ds ys \<Longrightarrow> walk p bs < states \<Longrightarrow> p < states \<Longrightarrow> length bs = length ds \<Longrightarrow> init p + score p bs ys \<le> metrics ! walk p bs"
  unfolding known_def by blast

lemma known_start: "length metrics = states \<Longrightarrow> (\<And>s. s < states \<Longrightarrow> metrics ! s = init s) \<Longrightarrow> known init metrics [] []"
  by (auto simp: known_def)

lemma known_step:
  assumes k: "known init metrics ds ys" and step: "survives metrics y later d"
  shows "known init later (d # ds) (ys @ [y])"
proof -
  have len: "length ys = length ds" using k by (simp add: known_def)
  have "later ! s = init (origin (d # ds) s) + score (origin (d # ds) s) (path (d # ds) s) (ys @ [y])"
    and "p < states \<Longrightarrow> length bs = length (d # ds) \<Longrightarrow> walk p bs = s \<Longrightarrow> init p + score p bs (ys @ [y]) \<le> later ! s"
    if s: "s < states" for s p bs
  proof -
    let ?q = "prev s (d s)"
    have q: "?q < states" by (rule prev_less [OF s])
    have "metrics ! ?q = init (origin ds ?q) + score (origin ds ?q) (path ds ?q) ys" using k q by (simp add: known_def)
    then show "later ! s = init (origin (d # ds) s) + score (origin (d # ds) s) (path (d # ds) s) (ys @ [y])"
      using step s len walk_path [OF q, of ds] by (simp add: survives_def score_append)
    assume p: "p < states" "length bs = length (d # ds)" "walk p bs = s"
    obtain xs b where bs: "bs = xs @ [b]" "length xs = length ds" using p(2) by (metis length_Suc_conv_rev length_Cons)
    define u where "u = walk p xs"
    have u: "u < states" "adv u b = s" using p walk_less [OF p(1)] bs by (auto simp: u_def walk_append)
    obtain h where h: "b = inb s" "u = prev s h" using prev_adv [OF u] by blast
    have "init p + score p xs ys \<le> metrics ! u" using k u(1) p(1) bs(2) by (auto simp: known_def u_def)
    moreover have "metrics ! u + gain u b y \<le> later ! s" using survivesD [OF step s, of h] h by simp
    moreover have "score p bs (ys @ [y]) = score p xs ys + gain u b y" using bs len by (simp add: score_append u_def)
    ultimately show "init p + score p bs (ys @ [y]) \<le> later ! s" by linarith
  qed
  then show ?thesis using len step by (auto simp: known_def survives_def)
qed

lemma known_bound:
  assumes "known init metrics ds ys" "s < states" "\<And>p. p < states \<Longrightarrow> \<bar>init p\<bar> \<le> B"
  shows "\<bar>metrics ! s\<bar> \<le> B + sum_list (map size_of ys)"
proof -
  have o: "origin ds s < states" by (rule origin_less [OF assms(2)])
  have "metrics ! s = init (origin ds s) + score (origin ds s) (path ds s) ys" "length ys = length ds"
    using assms(1,2) by (simp_all add: known_def)
  then show ?thesis using assms(3) [OF o] score_bound [OF o, of "path ds s" ys] by simp
qed

text \<open>
  A path that starts elsewhere than in state 0 carries a handicap that no message can make up for, so the
  path that is found from a good state starts there.
\<close>

lemma known_reach:
  assumes k: "known (\<lambda>s. if s = 0 then 0 else - H) metrics ds ys" and n: "0 < states" "length bs = length ds"
  shows "score 0 bs ys \<le> metrics ! walk 0 bs" "- sum_list (map size_of ys) \<le> metrics ! walk 0 bs"
proof -
  show le: "score 0 bs ys \<le> metrics ! walk 0 bs" using knownD [OF k walk_less [OF n(1)] n] by simp
  have "length ys = length ds" using k by (simp add: known_def)
  then show "- sum_list (map size_of ys) \<le> metrics ! walk 0 bs" using score_bound [OF n(1), of bs ys] n(2) le by simp
qed

lemma known_origin:
  assumes k: "known (\<lambda>s. if s = 0 then 0 else - H) metrics ds ys"
    and H: "2 * sum_list (map size_of ys) < H" and s: "s < states" "- sum_list (map size_of ys) \<le> metrics ! s"
  shows "origin ds s = 0" "metrics ! s = score 0 (path ds s) ys" "walk 0 (path ds s) = s"
proof -
  have o: "origin ds s < states" by (rule origin_less [OF s(1)])
  have m: "metrics ! s = (if origin ds s = 0 then 0 else - H) + score (origin ds s) (path ds s) ys" "length ys = length ds"
    using k s(1) by (simp_all add: known_def)
  show zero: "origin ds s = 0"
  proof (rule ccontr)
    assume "origin ds s \<noteq> 0"
    then have "metrics ! s \<le> - H + sum_list (map size_of ys)" using m score_bound [OF o, of "path ds s" ys] by simp
    then show False using H s(2) by linarith
  qed
  then show "metrics ! s = score 0 (path ds s) ys" using m(1) by simp
  show "walk 0 (path ds s) = s" using walk_path [OF s(1), of ds] zero by simp
qed

end

end
