(* ===== verification/Viterbi.thy ===== *)
theory Viterbi
  imports Trellis_Search
begin

text \<open>
  The rate 1/2 convolutional code of constraint length five and its soft-decision decoder
  (\<open>crates/dsp/src/fec/conv.rs\<close>).

  Soft bits are the integers of an \<open>i16\<close>; metrics are integers with the saturation of an \<open>i32\<close> written
  out.  \<open>decode\<close> appends to its output; here it returns what it appends.
\<close>

section \<open>The code\<close>

definition ERASURE :: int where "ERASURE = 0"
definition CONFIDENT :: int where "CONFIDENT = 64"
definition STATES :: nat where "STATES = 16"
definition G1 :: u8 where "G1 = 0x19"
definition G2 :: u8 where "G2 = 0x17"

definition soft :: "bool \<Rightarrow> int" where
  "soft b = (if b then CONFIDENT else - CONFIDENT)"

definition tap :: "u8 \<Rightarrow> u8 \<Rightarrow> bool" where
  "tap reg g \<longleftrightarrow> count_ones (reg AND g) mod 2 = 1"

fun conv_encode_from :: "u8 \<Rightarrow> bool list \<Rightarrow> bool list" where
  "conv_encode_from reg [] = []"
| "conv_encode_from reg (b # bits) =
     (let reg = (push_bit 1 reg OR of_bool b) AND 0x1F
      in tap reg G1 # tap reg G2 # conv_encode_from reg bits)"

definition conv_encode :: "bool list \<Rightarrow> bool list" where
  "conv_encode bits = conv_encode_from 0 bits"

section \<open>The decoder\<close>

definition I32_MIN :: int where "I32_MIN = - (2 ^ 31)"
definition I32_MAX :: int where "I32_MAX = 2 ^ 31 - 1"

definition saturating_add :: "int \<Rightarrow> int \<Rightarrow> int" where
  "saturating_add a b = max I32_MIN (min I32_MAX (a + b))"

definition prev_state :: "nat \<Rightarrow> bool \<Rightarrow> nat" where
  "prev_state state prev_high = drop_bit 1 state OR push_bit 3 (of_bool prev_high)"

definition branch_metric :: "int \<Rightarrow> int \<Rightarrow> nat \<Rightarrow> bool \<Rightarrow> int" where
  "branch_metric r1 r2 state prev_high =
     (let prev = prev_state state prev_high; reg = of_nat (push_bit 1 prev OR (state AND 1)) :: u8
      in (if tap reg G1 then r1 else - r1) + (if tap reg G2 then r2 else - r2))"

definition best_branch :: "int list \<Rightarrow> int \<Rightarrow> int \<Rightarrow> nat \<Rightarrow> int \<times> bool" where
  "best_branch metrics r1 r2 state =
     fold (\<lambda>prev_high best.
       let metric = saturating_add (metrics ! prev_state state prev_high) (branch_metric r1 r2 state prev_high)
       in if fst best < metric then (metric, prev_high) else best) [False, True] (I32_MIN, False)"

definition viterbi_step :: "int list \<Rightarrow> int \<Rightarrow> int \<Rightarrow> int list \<times> u16" where
  "viterbi_step metrics r1 r2 =
     (map (\<lambda>state. fst (best_branch metrics r1 r2 state)) [0..<STATES],
      fold (\<lambda>state decisions. decisions OR push_bit state (of_bool (snd (best_branch metrics r1 r2 state)))) [0..<STATES] 0)"

fun viterbi_forward :: "int list \<Rightarrow> int list \<Rightarrow> int list \<times> u16 list" where
  "viterbi_forward metrics (r1 # r2 # coded) =
     (let (next_metrics, decisions) = viterbi_step metrics r1 r2; (last_metrics, later) = viterbi_forward next_metrics coded
      in (last_metrics, decisions # later))"
| "viterbi_forward metrics coded = (metrics, [])"

text \<open>\<open>max_by_key\<close> over the states: the last of the best.\<close>

definition best_state :: "int list \<Rightarrow> nat" where
  "best_state metrics = fold (\<lambda>s best. if metrics ! s < metrics ! best then best else s) [0..<STATES] 0"

text \<open>The walk back, given the decisions from the last step to the first; it pushes bits to the front.\<close>

fun traceback :: "u16 list \<Rightarrow> nat \<Rightarrow> bool list \<Rightarrow> bool list" where
  "traceback [] state out = out"
| "traceback (d # ds) state out =
     traceback ds (prev_state state (drop_bit state d AND 1 = 1)) ((state AND 1 = 1) # out)"

definition viterbi_decode :: "int list \<Rightarrow> (bool list \<times> int) panics" where
  "viterbi_decode coded =
     (if length coded mod 2 \<noteq> 0 then Inl Assertion
      else
        let (metrics, decisions) = viterbi_forward ((replicate STATES (- (2 ^ 29)))[0 := 0]) coded; state = best_state metrics
        in Inr (traceback (rev decisions) state [], metrics ! state))"

section \<open>The trellis\<close>

text \<open>
  A state is the last four bits; a step with bit \<open>b\<close> shifts it in.  \<open>agreement\<close> is how well a sequence of coded
  bits agrees with what is received.
\<close>

definition shift_in :: "nat \<Rightarrow> bool \<Rightarrow> nat" where
  "shift_in s b = (2 * s + of_bool b) mod 16"

definition emit :: "nat \<Rightarrow> bool \<Rightarrow> u8 \<Rightarrow> bool" where
  "emit s b g = tap (of_nat (2 * s + of_bool b)) g"

definition gainp :: "bool \<Rightarrow> int \<Rightarrow> int" where
  "gainp b r = (if b then r else - r)"

definition gain5 :: "nat \<Rightarrow> bool \<Rightarrow> int \<times> int \<Rightarrow> int" where
  "gain5 s b y = gainp (emit s b G1) (fst y) + gainp (emit s b G2) (snd y)"

definition agreement :: "bool list \<Rightarrow> int list \<Rightarrow> int" where
  "agreement sent coded = sum_list (map2 gainp sent coded)"

lemma shift_in_less [simp]: "shift_in s b < 16"
  by (simp add: shift_in_def)

lemma prev_state_eq: "s < 16 \<Longrightarrow> prev_state s h = s div 2 + 8 * of_bool h"
proof -
  assume "s < 16"
  then have "s = 0 \<or> s = 1 \<or> s = 2 \<or> s = 3 \<or> s = 4 \<or> s = 5 \<or> s = 6 \<or> s = 7 \<or> s = 8 \<or> s = 9 \<or>
     s = 10 \<or> s = 11 \<or> s = 12 \<or> s = 13 \<or> s = 14 \<or> s = 15" by presburger
  then show ?thesis by (elim disjE) (cases h; simp add: prev_state_def drop_bit_eq_div)+
qed

lemma branch_metric_eq:
  assumes "s < 16"
  shows "branch_metric r1 r2 s h = gain5 (prev_state s h) (odd s) (r1, r2)"
proof -
  have "push_bit 1 p OR (s AND 1) = 2 * p + of_bool (odd s)" for p :: nat
    by (cases "even s") (simp_all add: and_one_eq mod2_eq_if or_one_eq or_Suc_0_eq push_bit_eq_mult mult.commute)
  then show ?thesis by (simp only: branch_metric_def emit_def gainp_def gain5_def Let_def fst_conv snd_conv)
qed

text \<open>Every state is entered from exactly two, by its lowest bit.\<close>

lemma shift_in_prev: "s < 16 \<Longrightarrow> shift_in (prev_state s h) (odd s) = s" "s < 16 \<Longrightarrow> prev_state s h < 16"
proof -
  assume s: "s < 16"
  have "2 * (s div 2) + of_bool (odd s) = s" by (cases "even s") simp_all
  then have "2 * (s div 2 + 8 * of_bool h) + of_bool (odd s) = s + 16 * of_bool h" by (simp add: algebra_simps)
  with s show "shift_in (prev_state s h) (odd s) = s" by (simp only: prev_state_eq shift_in_def mod_mult_self2 mod_less)
  have "s div 2 < 8" using s by presburger
  then show "prev_state s h < 16" using s by (simp add: prev_state_eq)
qed

lemma prev_of_shift_in:
  assumes "p < 16" "shift_in p b = s"
  shows "b = odd s" "p = prev_state s (8 \<le> p)"
proof -
  have s: "s < 16" "s = (2 * p + of_bool b) mod 16" using assms(2) by (auto simp: shift_in_def)
  have m: "(2 * p + of_bool b) mod 16 = 2 * p + of_bool b - 16 * of_bool (8 \<le> p)"
    using assms(1) by (cases "8 \<le> p"; cases b) (simp_all add: mod_if)
  show "b = odd s" unfolding s(2) m using assms(1) by (cases "8 \<le> p"; cases b) auto
  have "prev_state s (8 \<le> p) = (2 * p + of_bool b - 16 * of_bool (8 \<le> p)) div 2 + 8 * of_bool (8 \<le> p)"
    using prev_state_eq [OF s(1)] s(2) m by simp
  also have "\<dots> = p" using assms(1) by (cases "8 \<le> p"; cases b) (simp_all add: diff_mult_distrib2 [symmetric])
  finally show "p = prev_state s (8 \<le> p)" by simp
qed

interpretation k5: trellis 16 shift_in gain5 prev_state odd "\<lambda>y. \<bar>fst y\<bar> + \<bar>snd y\<bar>"
proof
  show "\<bar>gain5 s b y\<bar> \<le> \<bar>fst y\<bar> + \<bar>snd y\<bar>" for s b y
    unfolding gain5_def gainp_def by (simp only: split: if_split) linarith
  show "b = odd s \<and> (\<exists>h. p = prev_state s h)" if "p < 16" "shift_in p b = s" for p b s
    using prev_of_shift_in [OF that] by blast
qed (simp_all add: shift_in_prev)

section \<open>A step keeps the better way into every state\<close>

lemma saturating_add_id: "- (2 ^ 31) \<le> a + b \<Longrightarrow> a + b < 2 ^ 31 \<Longrightarrow> saturating_add a b = a + b"
  by (simp add: saturating_add_def I32_MIN_def I32_MAX_def)

lemma best_branch_max:
  assumes "\<And>h. - (2 ^ 31) < metrics ! prev_state s h + branch_metric r1 r2 s h \<and> metrics ! prev_state s h + branch_metric r1 r2 s h < 2 ^ 31"
  shows "fst (best_branch metrics r1 r2 s) =
      metrics ! prev_state s (snd (best_branch metrics r1 r2 s)) + branch_metric r1 r2 s (snd (best_branch metrics r1 r2 s))"
    and "metrics ! prev_state s h + branch_metric r1 r2 s h \<le> fst (best_branch metrics r1 r2 s)"
proof -
  have sat: "saturating_add (metrics ! prev_state s h) (branch_metric r1 r2 s h) = metrics ! prev_state s h + branch_metric r1 r2 s h" for h
    using assms [of h] by (intro saturating_add_id) simp_all
  have b: "best_branch metrics r1 r2 s =
      (if metrics ! prev_state s False + branch_metric r1 r2 s False < metrics ! prev_state s True + branch_metric r1 r2 s True
       then (metrics ! prev_state s True + branch_metric r1 r2 s True, True)
       else (metrics ! prev_state s False + branch_metric r1 r2 s False, False))"
    using assms [of False] by (simp add: best_branch_def sat I32_MIN_def)
  show "fst (best_branch metrics r1 r2 s) =
      metrics ! prev_state s (snd (best_branch metrics r1 r2 s)) + branch_metric r1 r2 s (snd (best_branch metrics r1 r2 s))" by (simp add: b)
  show "metrics ! prev_state s h + branch_metric r1 r2 s h \<le> fst (best_branch metrics r1 r2 s)" by (cases h) (simp_all add: b)
qed

lemma decision_bit:
  assumes "s < 16"
  shows "drop_bit s (snd (viterbi_step metrics r1 r2)) AND 1 = 1 \<longleftrightarrow> snd (best_branch metrics r1 r2 s)"
proof -
  have one: "bit (push_bit k (of_bool b) :: u16) s \<longleftrightarrow> k = s \<and> b" for k b using assms by (auto simp: bit_simps)
  have "bit (fold (\<lambda>k d. d OR push_bit k (of_bool (f k))) xs d) s \<longleftrightarrow> bit d s \<or> s \<in> set xs \<and> f s" for xs f and d :: u16
    by (induction xs arbitrary: d) (auto simp: bit_or_iff one simp del: push_bit_of_1)
  then have "bit (snd (viterbi_step metrics r1 r2)) s \<longleftrightarrow> snd (best_branch metrics r1 r2 s)"
    using assms by (simp add: viterbi_step_def STATES_def)
  then show ?thesis by (auto simp: bit_iff_odd_drop_bit and_one_eq mod2_eq_if)
qed

lemma viterbi_step_survives:
  assumes "\<And>p. p < 16 \<Longrightarrow> \<bar>metrics ! p\<bar> + (\<bar>r1\<bar> + \<bar>r2\<bar>) < 2 ^ 31"
  shows "k5.survives metrics (r1, r2) (fst (viterbi_step metrics r1 r2)) (bit (snd (viterbi_step metrics r1 r2)))"
  unfolding k5.survives_def
proof (intro conjI allI impI)
  fix s h assume s: "s < (16 :: nat)"
  have fit: "- (2 ^ 31) < metrics ! prev_state s h + branch_metric r1 r2 s h \<and> metrics ! prev_state s h + branch_metric r1 r2 s h < 2 ^ 31" for h
  proof -
    have "\<bar>branch_metric r1 r2 s h\<bar> \<le> \<bar>r1\<bar> + \<bar>r2\<bar>"
      using k5.gain_bound [OF k5.prev_less [OF s, of h], of "odd s" "(r1, r2)"] by (simp add: branch_metric_eq [OF s])
    then have "\<bar>metrics ! prev_state s h + branch_metric r1 r2 s h\<bar> < 2 ^ 31" using assms [OF k5.prev_less [OF s, of h]] by linarith
    then show ?thesis by (simp add: abs_less_iff)
  qed
  have m: "fst (viterbi_step metrics r1 r2) ! s = fst (best_branch metrics r1 r2 s)" using s by (simp add: viterbi_step_def STATES_def)
  have d: "bit (snd (viterbi_step metrics r1 r2)) s = snd (best_branch metrics r1 r2 s)"
    using decision_bit [OF s, of metrics r1 r2] by (simp add: bit_iff_odd_drop_bit and_one_eq mod2_eq_if split: if_splits)
  show "fst (viterbi_step metrics r1 r2) ! s = metrics ! prev_state s (bit (snd (viterbi_step metrics r1 r2)) s) +
      gain5 (prev_state s (bit (snd (viterbi_step metrics r1 r2)) s)) (odd s) (r1, r2)"
    unfolding m d using best_branch_max(1) [OF fit] by (simp add: branch_metric_eq [OF s])
  show "metrics ! prev_state s h + gain5 (prev_state s h) (odd s) (r1, r2) \<le> fst (viterbi_step metrics r1 r2) ! s"
    unfolding m using best_branch_max(2) [OF fit] by (simp add: branch_metric_eq [OF s])
qed (simp add: viterbi_step_def STATES_def)

fun pairs :: "int list \<Rightarrow> (int \<times> int) list" where
  "pairs (r1 # r2 # coded) = (r1, r2) # pairs coded"
| "pairs coded = []"

lemma pairs_size: "sum_list (map (\<lambda>y. \<bar>fst y\<bar> + \<bar>snd y\<bar>) (pairs coded)) \<le> sum_list (map abs coded)"
  by (induction coded rule: pairs.induct) auto

lemma viterbi_forward_known:
  assumes "\<And>p. p < 16 \<Longrightarrow> \<bar>init p\<bar> \<le> 2 ^ 29"
  shows "k5.known init metrics (map bit ds) ys \<Longrightarrow> sum_list (map (\<lambda>y. \<bar>fst y\<bar> + \<bar>snd y\<bar>) (ys @ pairs coded)) < 2 ^ 30 \<Longrightarrow>
    viterbi_forward metrics coded = (last_metrics, later) \<Longrightarrow> k5.known init last_metrics (map bit (rev later @ ds)) (ys @ pairs coded)"
proof (induction metrics coded arbitrary: ds ys later rule: viterbi_forward.induct)
  case (1 metrics r1 r2 coded)
  let ?size = "\<lambda>ys. sum_list (map (\<lambda>y. \<bar>fst y\<bar> + \<bar>snd y\<bar>) ys)"
  obtain m d where step: "viterbi_step metrics r1 r2 = (m, d)" by (cases "viterbi_step metrics r1 r2")
  obtain rest where rest: "viterbi_forward m coded = (last_metrics, rest)" and later: "later = d # rest"
    using 1(4) step by (auto split: prod.splits)
  have "0 \<le> ?size (pairs coded)" by (rule sum_list_nonneg) auto
  then have "\<bar>metrics ! p\<bar> + (\<bar>r1\<bar> + \<bar>r2\<bar>) < 2 ^ 31" if "p < 16" for p
    using k5.known_bound [OF 1(2) that assms] 1(3) by simp
  from k5.known_step [OF 1(2) viterbi_step_survives [OF this]] have "k5.known init m (map bit (d # ds)) (ys @ [(r1, r2)])" by (simp add: step)
  from 1(1) [OF step [symmetric] refl this _ rest] 1(3) show ?case by (simp add: later)
qed simp_all

lemma traceback_path: "traceback ds s out = k5.path (map bit ds) s @ out"
proof (induction ds arbitrary: s out)
  case (Cons d ds)
  have "drop_bit s d AND 1 = 1 \<longleftrightarrow> bit d s" by (simp add: bit_iff_odd_drop_bit and_one_eq mod2_eq_if)
  moreover have "s AND 1 = 1 \<longleftrightarrow> odd s" by (simp add: and_one_eq mod2_eq_if)
  ultimately show ?case using Cons by simp
qed simp

lemma best_state_max: "best_state metrics < 16" "s < 16 \<Longrightarrow> metrics ! s \<le> metrics ! best_state metrics"
  using fold_best(2,3) [where m = "\<lambda>s. metrics ! s" and xs = "[0..<16]" and b = 0] by (auto simp: best_state_def STATES_def)

section \<open>The encoder\<close>

lemma unat_of_small: "n < 256 \<Longrightarrow> unat (of_nat n :: u8) = n"
  by (simp add: unat_of_nat)

lemma of_unat: "unat w = n \<Longrightarrow> w = (of_nat n :: u8)"
  by auto

lemma encoder_step: "(push_bit 1 reg OR of_bool b) AND 0x1F = (of_nat (2 * (unat reg mod 16) + of_bool b) :: u8)"
proof -
  have "push_bit 1 reg OR of_bool b = 2 * reg + of_bool b" by (cases b) (simp_all add: or_one_eq push_bit_eq_mult mult.commute)
  moreover have "w AND 0x1F = take_bit 5 w" for w :: u8 by (simp add: take_bit_eq_mask mask_numeral)
  moreover have "unat (take_bit 5 (2 * reg + of_bool b)) = 2 * (unat reg mod 16) + of_bool b"
  proof -
    have "unat (take_bit 5 (2 * reg + of_bool b)) = unat (2 * reg + of_bool b) mod 32" by (simp add: take_bit_eq_mod unat_mod_distrib)
    also have "\<dots> = (2 * unat reg + of_bool b) mod 256 mod 32" by (cases b) (simp_all add: unat_word_ariths mod_Suc_eq)
    also have "\<dots> = (2 * unat reg + of_bool b) mod 32" by (simp add: mod_mod_cancel)
    also have "2 * unat reg + of_bool b = 32 * (unat reg div 16) + (2 * (unat reg mod 16) + of_bool b)"
      using mult_div_mod_eq [of 16 "unat reg"] by linarith
    also have "\<dots> mod 32 = 2 * (unat reg mod 16) + of_bool b"
      using mod_less_divisor [of 16 "unat reg"] by (cases b) simp_all
    finally show ?thesis .
  qed
  ultimately show ?thesis by (simp only: of_unat)
qed

lemma encoder_score:
  "length coded = 2 * length bits \<Longrightarrow> agreement (conv_encode_from reg bits) coded = k5.score (unat reg mod 16) bits (pairs coded)"
proof (induction bits arbitrary: reg coded)
  case (Cons b bits)
  then obtain r1 r2 cs where coded: "coded = r1 # r2 # cs" "length cs = 2 * length bits" by (auto simp: length_Suc_conv)
  define reg' where "reg' = (of_nat (2 * (unat reg mod 16) + of_bool b) :: u8)"
  have "2 * (unat reg mod 16) + of_bool b < 256" using mod_less_divisor [of 16 "unat reg"] by (cases b) simp_all
  then have "unat reg' = 2 * (unat reg mod 16) + of_bool b" 
    unfolding reg'_def by (rule unat_of_small)
  then have "unat reg' mod 16 = shift_in (unat reg mod 16) b" by (simp add: shift_in_def)
  moreover have "conv_encode_from reg (b # bits) = tap reg' G1 # tap reg' G2 # conv_encode_from reg' bits"
    unfolding conv_encode_from.simps Let_def encoder_step reg'_def ..
  moreover have "gain5 (unat reg mod 16) b (r1, r2) = gainp (tap reg' G1) r1 + gainp (tap reg' G2) r2"
    unfolding gain5_def emit_def reg'_def by simp
  ultimately show ?case using Cons.IH [OF coded(2), of reg'] unfolding coded(1)
    by (simp add: agreement_def)
qed (simp add: agreement_def)

lemma encode_score: "length coded = 2 * length bits \<Longrightarrow> agreement (conv_encode bits) coded = k5.score 0 bits (pairs coded)"
  using encoder_score [of coded bits 0] by (simp add: conv_encode_def)

lemma length_conv_encode [simp]: "length (conv_encode bits) = 2 * length bits"
proof -
  have "length (conv_encode_from reg bits) = 2 * length bits" for reg by (induction bits arbitrary: reg) (simp_all add: Let_def)
  then show ?thesis by (simp add: conv_encode_def)
qed

text \<open>The first tap shows every bit, so the code loses nothing.\<close>

lemma conv_encode_from_inj: "conv_encode_from reg xs = conv_encode_from reg ys \<Longrightarrow> xs = ys"
proof (induction xs arbitrary: reg ys)
  case Nil
  then show ?case by (cases ys) (simp_all add: Let_def)
next
  case (Cons x xs)
  then obtain y ys' where ys: "ys = y # ys'" by (cases ys) (simp_all add: Let_def)
  have bits: "tap ((push_bit 1 reg OR of_bool b) AND 0x1F) G1 \<longleftrightarrow> (b \<noteq> (bit reg (Suc (Suc 0)) \<noteq> bit reg (Suc (Suc (Suc 0)))))" for b
    by (cases b; cases "bit reg (Suc (Suc 0))"; cases "bit reg (Suc (Suc (Suc 0)))") (simp_all add: tap_def G1_def count_ones_def upt_rec bit_simps)
  have "x = y" using Cons.prems unfolding ys conv_encode_from.simps Let_def list.inject bits by blast
  with Cons show ?case unfolding ys by (simp add: Let_def)
qed

lemma agreement_soft:
  "length xs = length ys \<Longrightarrow> agreement xs (map soft ys) \<le> 64 * int (length ys) \<and> (agreement xs (map soft ys) = 64 * int (length ys) \<longrightarrow> xs = ys)"
proof (induction xs ys rule: list_induct2)
  case (Cons x xs y ys)
  have "gainp x (soft y) = (if x = y then 64 else - 64)" by (cases x; cases y) (simp_all add: gainp_def soft_def CONFIDENT_def)
  with Cons show ?case by (auto simp: agreement_def algebra_simps)
qed (simp add: agreement_def)

lemma agreement_self: "agreement ys (map soft ys) = 64 * int (length ys)"
  by (induction ys) (auto simp: agreement_def gainp_def soft_def CONFIDENT_def)

lemma viterbi_best:
  assumes "even (length coded)" "2 * sum_list (map abs coded) < 2 ^ 29"
  shows "\<exists>bits. viterbi_decode coded = Inr (bits, agreement (conv_encode bits) coded) \<and> length coded = 2 * length bits \<and>
    (\<forall>bs. length coded = 2 * length bs \<longrightarrow> agreement (conv_encode bs) coded \<le> agreement (conv_encode bits) coded)"
proof -
  let ?start = "(replicate STATES (- (2 ^ 29)))[0 := 0]" and ?init = "\<lambda>s :: nat. if s = 0 then 0 else - (2 ^ 29 :: int)"
  let ?size = "sum_list (map (\<lambda>y. \<bar>fst y\<bar> + \<bar>snd y\<bar>) (pairs coded))"
  obtain metrics later where run: "viterbi_forward ?start coded = (metrics, later)" by (cases "viterbi_forward ?start coded")
  define s where "s = best_state metrics"
  define bits where "bits = traceback (rev later) s []"
  have "k5.known ?init ?start (map bit ([] :: u16 list)) []" unfolding list.map
    by (rule k5.known_start) (auto simp: STATES_def nth_list_update)
  from viterbi_forward_known [OF _ this _ run] assms(2) pairs_size [of coded]
  have k: "k5.known ?init metrics (map bit (rev later)) (pairs coded)" by simp
  have "length coded = 2 * length (pairs coded)" using assms(1) by (induction coded rule: pairs.induct) auto
  then have n: "length coded = 2 * length later" using k by (simp add: k5.known_def)
  have s: "s < 16" "\<And>u. u < 16 \<Longrightarrow> metrics ! u \<le> metrics ! s" using best_state_max by (simp_all add: s_def)
  have reach: "k5.score 0 bs (pairs coded) \<le> metrics ! s" "- ?size \<le> metrics ! s" if "length bs = length later" for bs
    using k5.known_reach [OF k, of bs] s(2) [OF k5.walk_less [of 0 bs]] that by simp_all
  have "2 * ?size < 2 ^ 29" using assms(2) pairs_size [of coded] by linarith
  note o = k5.known_origin [OF k this s(1) reach(2) [of "replicate (length later) False"]]
  have "bits = k5.path (map bit (rev later)) s" by (simp add: bits_def traceback_path)
  then have at: "length bits = length later" "metrics ! s = agreement (conv_encode bits) coded"
    using o(2) n by (simp_all add: encode_score)
  moreover have "viterbi_decode coded = Inr (bits, metrics ! s)"
    using assms(1) run by (simp add: viterbi_decode_def s_def bits_def even_iff_mod_2_eq_zero Let_def)
  moreover have "agreement (conv_encode bs) coded \<le> metrics ! s" if "length coded = 2 * length bs" for bs
    using reach(1) [of bs] that n by (simp add: encode_score)
  ultimately show ?thesis using n by auto
qed

section \<open>Properties\<close>

text \<open>
  C8: The decoder finds a message whose code agrees best with the soft bits received, over all
  messages of that length, and returns the agreement as its metric, whatever the soft bits, erasures
  included, as long as twice the sum of their sizes is below \<open>2 ^ 29\<close>, the handicap of the states that a
  message cannot start in.  So what is received without errors is decoded to what was sent, with or
  without bits that flush the register; an odd number of soft bits is refused.
\<close>

theorem viterbi_maximum_likelihood:
  assumes "2 * sum_list (map abs coded) < 2 ^ 29"
  shows "(if even (length coded)
     then \<exists>bits. viterbi_decode coded = Inr (bits, agreement (conv_encode bits) coded) \<and> length coded = 2 * length bits \<and>
       (\<forall>bs. length coded = 2 * length bs \<longrightarrow> agreement (conv_encode bs) coded \<le> agreement (conv_encode bits) coded)
     else viterbi_decode coded = Inl Assertion) \<and>
    (\<forall>sent. coded = map soft (conv_encode sent) \<longrightarrow> viterbi_decode coded = Inr (sent, 64 * int (length coded)))"
proof (intro conjI allI impI)
  show "if even (length coded)
     then \<exists>bits. viterbi_decode coded = Inr (bits, agreement (conv_encode bits) coded) \<and> length coded = 2 * length bits \<and>
       (\<forall>bs. length coded = 2 * length bs \<longrightarrow> agreement (conv_encode bs) coded \<le> agreement (conv_encode bits) coded)
     else viterbi_decode coded = Inl Assertion"
    using viterbi_best [OF _ assms] by (auto simp: viterbi_decode_def odd_iff_mod_2_eq_one)
next
  fix sent
  assume coded: "coded = map soft (conv_encode sent)"
  then have "even (length coded)" by simp
  from viterbi_best [OF this assms] obtain bits where bits: "viterbi_decode coded = Inr (bits, agreement (conv_encode bits) coded)"
    "length coded = 2 * length bits" "agreement (conv_encode sent) coded \<le> agreement (conv_encode bits) coded" using coded by auto
  have len: "length (conv_encode bits) = length (conv_encode sent)" using bits(2) coded by simp
  have "64 * int (length (conv_encode sent)) \<le> agreement (conv_encode bits) coded" using bits(3) by (simp only: coded agreement_self)
  with agreement_soft [OF len] have top: "agreement (conv_encode bits) coded = 64 * int (length (conv_encode sent))" "conv_encode bits = conv_encode sent"
    unfolding coded by auto
  from top(2) have "bits = sent" unfolding conv_encode_def by (rule conv_encode_from_inj)
  with bits(1) top(1) show "viterbi_decode coded = Inr (sent, 64 * int (length coded))" by (simp add: coded)
qed

theorem viterbi_maximum_likelihood_witness:
  "viterbi_decode (map soft (conv_encode [True, False, True])) = Inr ([True, False, True], 384)"
proof -
  have "2 * sum_list (map abs (map soft (conv_encode [True, False, True]))) < 2 ^ 29"
  proof -
    have "sum_list (map abs (map soft ys)) = 64 * int (length ys)" for ys
      by (induction ys) (auto simp: soft_def CONFIDENT_def)
    then show ?thesis by simp
  qed
  from viterbi_maximum_likelihood [OF this] show ?thesis by simp
qed

end
