(* ===== verification/Conv7.thy ===== *)
theory Conv7
  imports Trellis_Search Viterbi Parity_Code
begin

text \<open>
  The convolutional codes of constraint length seven (\<open>crates/dsp/src/fec/conv7.rs\<close>, with the step of
  \<open>conv7/butterfly.rs\<close>): any one to eight generators, puncturing, the decoder of a block and the decoder of
  a stream.

  The butterfly is that of the portable build; the vector versions compute the same four lanes at a time.
  An \<open>i32\<close> that a step adds without saturation wraps.  A decoder's output is what it appends to its
  argument.
\<close>

section \<open>The code\<close>

definition K7_STATES :: nat where "K7_STATES = 64"
definition MAX_OUTPUTS :: nat where "MAX_OUTPUTS = 8"
definition STATE_MASK :: nat where "STATE_MASK = K7_STATES - 1"

record ConvCode =
  cv_outputs :: nat
  cv_branch :: "u8 list"
  cv_pair_signs :: "int list list option"

definition branch_mask :: "u16 list \<Rightarrow> nat \<Rightarrow> u8" where
  "branch_mask polys register =
     foldl (\<lambda>m (index, poly). if count_ones (of_nat register AND poly) mod 2 = 1 then m OR push_bit index 1 else m) 0
       (enumerate 0 polys)"

definition pair_signs_of :: "u16 list \<Rightarrow> u8 list \<Rightarrow> int list list option" where
  "pair_signs_of polys branch =
     (if length polys = 2 \<and> list_all (\<lambda>poly. poly AND 0x41 = 0x41) polys
      then Some (map (\<lambda>b. map (\<lambda>state. if branch ! (2 * state) AND push_bit b 1 = 0 then - 1 else 0) [0..<32]) [0..<2])
      else None)"

definition conv_code_new :: "u16 list \<Rightarrow> ConvCode panics" where
  "conv_code_new polys =
     (if 1 \<le> length polys \<and> length polys \<le> MAX_OUTPUTS then
        let branch = map (branch_mask polys) [0..<128]
        in Inr \<lparr>cv_outputs = length polys, cv_branch = branch, cv_pair_signs = pair_signs_of polys branch\<rparr>
      else Inl Assertion)"





section \<open>Steps of the trellis\<close>

text \<open>The gain of every output pattern, built by doubling.\<close>

definition branch_table :: "int list \<Rightarrow> int list" where
  "branch_table symbol =
     foldl (\<lambda>branches (b, value).
       foldl (\<lambda>branches m. branches[m OR push_bit b 1 := branches ! m + 2 * value]) branches [0..<push_bit b 1])
       ((replicate 256 0)[0 := - sum_list symbol]) (enumerate 0 symbol)"

definition scalar_first :: "ConvCode \<Rightarrow> int list \<Rightarrow> int list \<Rightarrow> nat \<Rightarrow> int" where
  "scalar_first code metrics symbol state =
     saturating_add (metrics ! ((state AND 31) * 2)) (branch_table symbol ! unat (cv_branch code ! (state * 2)))"

definition scalar_second :: "ConvCode \<Rightarrow> int list \<Rightarrow> int list \<Rightarrow> nat \<Rightarrow> int" where
  "scalar_second code metrics symbol state =
     saturating_add (metrics ! ((state AND 31) * 2 + 1)) (branch_table symbol ! unat (cv_branch code ! (state * 2 + 1)))"

definition scalar_step :: "ConvCode \<Rightarrow> int list \<Rightarrow> int list \<Rightarrow> int list \<times> u64" where
  "scalar_step code metrics symbol =
     (map (\<lambda>state. max (scalar_first code metrics symbol state) (scalar_second code metrics symbol state)) [0..<K7_STATES],
      foldl (\<lambda>decisions state. decisions OR push_bit state (of_bool (scalar_first code metrics symbol state < scalar_second code metrics symbol state)))
        0 [0..<K7_STATES])"

definition wrapping_i32 :: "int \<Rightarrow> int" where
  "wrapping_i32 x = signed_take_bit 31 x"

definition butterfly_branch :: "int list list \<Rightarrow> int \<Rightarrow> int \<Rightarrow> nat \<Rightarrow> int" where
  "butterfly_branch signs v0 v1 i =
     wrapping_i32 (((v0 XOR signs ! 0 ! i) - signs ! 0 ! i) + ((v1 XOR signs ! 1 ! i) - signs ! 1 ! i))"

definition butterfly_step :: "int list \<Rightarrow> int list list \<Rightarrow> int \<Rightarrow> int \<Rightarrow> int list \<times> u64" where
  "butterfly_step metrics signs v0 v1 =
     (let a = (\<lambda>i. wrapping_i32 (metrics ! (2 * i) + butterfly_branch signs v0 v1 i));
          b = (\<lambda>i. wrapping_i32 (metrics ! (2 * i + 1) - butterfly_branch signs v0 v1 i));
          c = (\<lambda>i. wrapping_i32 (metrics ! (2 * i) - butterfly_branch signs v0 v1 i));
          d = (\<lambda>i. wrapping_i32 (metrics ! (2 * i + 1) + butterfly_branch signs v0 v1 i))
      in (map (\<lambda>i. max (a i) (b i)) [0..<32] @ map (\<lambda>i. max (c i) (d i)) [0..<32],
          foldl (\<lambda>decisions i. (decisions OR push_bit i (of_bool (a i < b i))) OR push_bit (i + 32) (of_bool (c i < d i))) 0 [0..<32]))"

record Trellis =
  survivors :: "int list list"
  front :: nat
  normalization_steps :: nat

definition FLOOR :: int where "FLOOR = - (2 ^ 24)"
definition CEILING :: int where "CEILING = 2 ^ 28"

definition Trellis_new :: Trellis where
  "Trellis_new = \<lparr>survivors = replicate 2 (replicate K7_STATES FLOOR), front = 0, normalization_steps = 0\<rparr>"

definition trellis_metrics :: "Trellis \<Rightarrow> int list" where
  "trellis_metrics t = survivors t ! front t"


definition trellis_open :: "Trellis \<Rightarrow> Trellis" where
  "trellis_open t = t\<lparr>survivors := (survivors t)[front t := replicate K7_STATES 0]\<rparr>"

definition trellis_step :: "ConvCode \<Rightarrow> int list \<Rightarrow> Trellis \<Rightarrow> Trellis \<times> u64" where
  "trellis_step code symbol t =
     (let metrics = trellis_metrics t;
          (later, decisions) = (case cv_pair_signs code of
            Some signs \<Rightarrow> butterfly_step metrics signs (symbol ! 0) (symbol ! 1)
          | None \<Rightarrow> scalar_step code metrics symbol)
      in (t\<lparr>survivors := (survivors t)[1 - front t := later], front := front t XOR 1\<rparr>, decisions))"

definition trellis_normalize :: "Trellis \<Rightarrow> Trellis" where
  "trellis_normalize t =
     (let t = t\<lparr>normalization_steps := normalization_steps t + 1\<rparr> in
      if normalization_steps t < 256 then t
      else
        let t = t\<lparr>normalization_steps := 0\<rparr>; peak = Max (set (trellis_metrics t)) in
        if CEILING < peak
        then t\<lparr>survivors := (survivors t)[front t := map (\<lambda>metric. wrapping_i32 (metric - peak)) (trellis_metrics t)]\<rparr>
        else t)"

definition trellis_best :: "Trellis \<Rightarrow> nat" where
  "trellis_best t = fold (\<lambda>s best. if trellis_metrics t ! s < trellis_metrics t ! best then best else s) [0..<K7_STATES] 0"

text \<open>The bits are visited from the last to the first; the decisions are given in that order.\<close>

fun trace_back :: "u64 list \<Rightarrow> nat \<Rightarrow> bool list \<times> nat" where
  "trace_back [] state = ([], state AND STATE_MASK)"
| "trace_back (word # words) state =
     (let (bits, origin) = trace_back words (push_bit 1 (state AND 0x1F) OR of_bool (drop_bit state word AND 1 = 1))
      in ((drop_bit 5 state = 1) # bits, origin))"

definition trace :: "u64 list \<Rightarrow> nat \<Rightarrow> bool list \<times> nat" where
  "trace decisions from_state = trace_back (rev decisions) from_state"

section \<open>The block decoder\<close>



definition symbols :: "nat \<Rightarrow> int list \<Rightarrow> int list list" where
  "symbols n coded = map (\<lambda>i. take n (drop (i * n) coded)) [0..<length coded div n]"





section \<open>The stream decoder\<close>

text \<open>The first \<open>carried\<close> places of the array \<open>carry\<close> are a list; \<open>pending\<close> is only used inside a call.\<close>

record StreamViterbiK7 =
  sv_code :: ConvCode
  sv_trellis :: Trellis
  sv_decisions :: "u64 list"
  sv_depth :: nat
  sv_batch :: nat
  sv_carry :: "int list"

definition StreamViterbiK7_new :: "ConvCode \<Rightarrow> nat \<Rightarrow> StreamViterbiK7" where
  "StreamViterbiK7_new code depth =
     (let depth = max depth 8 in
      \<lparr>sv_code = code, sv_trellis = trellis_open Trellis_new, sv_decisions = [], sv_depth = depth, sv_batch = 8 * depth, sv_carry = []\<rparr>)"

definition stream_reset :: "StreamViterbiK7 \<Rightarrow> StreamViterbiK7" where
  "stream_reset v = v\<lparr>sv_trellis := trellis_open Trellis_new, sv_decisions := [], sv_carry := []\<rparr>"

definition release7 :: "StreamViterbiK7 \<Rightarrow> StreamViterbiK7 \<times> bool list" where
  "release7 v =
     (let settled = length (sv_decisions v) - sv_depth v;
          survivor = trellis_best (sv_trellis v);
          (_, state) = trace (drop settled (sv_decisions v)) survivor;
          (pending, _) = trace (take settled (sv_decisions v)) state
      in (v\<lparr>sv_decisions := drop settled (sv_decisions v)\<rparr>, rev pending))"

definition stream_step :: "StreamViterbiK7 \<Rightarrow> int list \<Rightarrow> StreamViterbiK7 \<times> bool list" where
  "stream_step v symbol =
     (let (t, word) = trellis_step (sv_code v) symbol (sv_trellis v);
          v = v\<lparr>sv_trellis := trellis_normalize t, sv_decisions := sv_decisions v @ [word]\<rparr>
      in if sv_batch v \<le> length (sv_decisions v) then release7 v else (v, []))"

fun stream_steps :: "StreamViterbiK7 \<Rightarrow> int list list \<Rightarrow> StreamViterbiK7 \<times> bool list" where
  "stream_steps v [] = (v, [])"
| "stream_steps v (symbol # rest) =
     (let (v, out) = stream_step v symbol; (v, later) = stream_steps v rest in (v, out @ later))"

definition push7 :: "StreamViterbiK7 \<Rightarrow> int list \<Rightarrow> StreamViterbiK7 \<times> bool list" where
  "push7 v coded =
     (let outputs = cv_outputs (sv_code v); take_count = min (outputs - length (sv_carry v)) (length coded);
          carry = sv_carry v @ take take_count coded; source = drop take_count coded
      in if sv_carry v \<noteq> [] \<and> length carry < outputs then (v\<lparr>sv_carry := carry\<rparr>, [])
         else
           let (v, out, source) = (if sv_carry v \<noteq> []
                 then (let (v, out) = stream_step (v\<lparr>sv_carry := []\<rparr>) carry in (v, out, source))
                 else (v, [], coded));
               usable = length source div outputs * outputs;
               (v, later) = stream_steps v (symbols outputs source)
           in (v\<lparr>sv_carry := drop usable source\<rparr>, out @ later))"

definition flush7 :: "StreamViterbiK7 \<Rightarrow> StreamViterbiK7 \<times> bool list" where
  "flush7 v =
     (if sv_decisions v = [] then (v, [])
      else let (pending, _) = trace (sv_decisions v) (trellis_best (sv_trellis v))
           in (v\<lparr>sv_decisions := []\<rparr>, rev pending))"

section \<open>States and registers\<close>













section \<open>The gains of all patterns\<close>





section \<open>The codes that are built\<close>

lemma bit_branch_mask:
  assumes "length polys \<le> 8"
  shows "bit (branch_mask polys r) i \<longleftrightarrow> i < length polys \<and> odd (count_ones (of_nat r AND polys ! i))"
proof -
  have "bit (foldl (\<lambda>m (index, poly). if P poly then m OR push_bit index 1 else m) acc (enumerate n ps)) i \<longleftrightarrow>
      bit acc i \<or> (n \<le> i \<and> i < n + length ps \<and> P (ps ! (i - n)))" if "n + length ps \<le> 8" for P n and acc :: u8 and ps :: "u16 list"
    using that
  proof (induction ps arbitrary: n acc)
    case (Cons p ps)
    have one: "bit (push_bit n 1 :: u8) i \<longleftrightarrow> i = n" using Cons.prems by (auto simp: bit_simps)
    have "bit (foldl (\<lambda>m (index, poly). if P poly then m OR push_bit index 1 else m) (if P p then acc OR push_bit n 1 else acc) (enumerate (Suc n) ps)) i \<longleftrightarrow>
      bit (if P p then acc OR push_bit n 1 else acc) i \<or> (Suc n \<le> i \<and> i < Suc n + length ps \<and> P (ps ! (i - Suc n)))"
      using Cons.prems by (intro Cons.IH) simp
    moreover have "bit (if P p then acc OR push_bit n 1 else acc) i \<longleftrightarrow> bit acc i \<or> (P p \<and> i = n)"
      using one by (cases "P p") (simp_all add: bit_or_iff)
    ultimately show ?case by (cases "i = n") (auto simp: nth_Cons' Suc_le_eq Suc_diff_Suc)
  qed auto
  from this [of 0 polys "\<lambda>poly. count_ones (of_nat r AND poly) mod 2 = 1" 0] show ?thesis
    using assms by (simp add: branch_mask_def odd_iff_mod_2_eq_one)
qed

definition code7_ok :: "ConvCode \<Rightarrow> bool" where
  "code7_ok code \<longleftrightarrow> 1 \<le> cv_outputs code \<and> cv_outputs code \<le> 8 \<and> (\<forall>r < 128. below (cv_outputs code) (cv_branch code ! r)) \<and>
     (\<forall>signs. cv_pair_signs code = Some signs \<longrightarrow> cv_outputs code = 2 \<and>
        (\<forall>b < 2. \<forall>i < 32. signs ! b ! i = (if bit (cv_branch code ! (2 * i)) b then 0 else - 1) \<and>
           bit (cv_branch code ! (2 * i + 1)) b = (\<not> bit (cv_branch code ! (2 * i)) b) \<and>
           bit (cv_branch code ! (64 + 2 * i)) b = (\<not> bit (cv_branch code ! (2 * i)) b) \<and>
           bit (cv_branch code ! (64 + 2 * i + 1)) b = bit (cv_branch code ! (2 * i)) b))"

text \<open>A generator with its first and last tap turns over whenever the oldest or the newest bit does.\<close>

lemma unat_u16: "n < 2 ^ 16 \<Longrightarrow> unat (of_nat n :: u16) = n"
  by (simp add: unat_of_nat)

lemma tap_turns:
  fixes poly :: u16
  assumes "poly AND 0x41 = 0x41" "i < 32"
  shows "odd (count_ones (of_nat (2 * i + 1) AND poly)) = (\<not> odd (count_ones (of_nat (2 * i) AND poly)))"
    "odd (count_ones (of_nat (64 + 2 * i) AND poly)) = (\<not> odd (count_ones (of_nat (2 * i) AND poly)))"
    "odd (count_ones (of_nat (64 + 2 * i + 1) AND poly)) = odd (count_ones (of_nat (2 * i) AND poly))"
proof -
  have poly: "bit poly 0" "bit poly 6"
  proof -
    have "bit (poly AND 0x41) 0" "bit (poly AND 0x41) 6" unfolding assms(1) by simp_all
    then show "bit poly 0" "bit poly 6" by (simp_all only: bit_and_iff)
  qed
  have "unat (of_nat (2 * i) :: u16) = 2 * i" by (rule unat_u16) (use assms(2) in simp)
  then have low: "below 6 (of_nat (2 * i) :: u16)" unfolding below_iff_unat using assms(2) by simp
  have even: "\<not> bit (of_nat (2 * i) :: u16) 0" by (simp add: bit_0)
  have none: "w AND 2 ^ k = 0" if "\<not> bit w k" for w :: u16 and k using that by (simp add: and_exp_eq_0_iff_not_bit)
  have "(of_nat (2 * i) :: u16) AND 1 = 0" using none [OF even] by simp
  then have one: "of_nat (2 * i + 1) = (of_nat (2 * i) XOR 1 :: u16)" using disjunctive_add_eq_xor by (metis of_nat_add of_nat_1)
  have sixth: "(64 :: u16) = 2 ^ 6" by simp
  have "(of_nat (2 * i) :: u16) AND 2 ^ 6 = 0" by (rule none) (use belowD [OF low, of 6] in simp)
  then have six: "of_nat (64 + 2 * i) = (of_nat (2 * i) XOR 2 ^ 6 :: u16)"
    using disjunctive_add_eq_xor [of "of_nat (2 * i) :: u16" "2 ^ 6"] by (simp add: add.commute)
  have "\<not> bit (of_nat (64 + 2 * i) :: u16) 0" unfolding six using even by (simp add: bit_xor_iff)
  from none [OF this] have "(of_nat (64 + 2 * i) :: u16) AND 1 = 0" by simp
  then have both: "of_nat (64 + 2 * i + 1) = (of_nat (64 + 2 * i) XOR 1 :: u16)" using disjunctive_add_eq_xor by (metis of_nat_add of_nat_1)
  have "2 ^ k AND poly = 2 ^ k" if "bit poly k" for k
    using that by (intro bit_word_eqI) (auto simp: bit_and_iff)
  from this [OF poly(1)] this [OF poly(2)] have taps: "1 AND poly = 1" "2 ^ 6 AND poly = 2 ^ 6" by simp_all
  have turn: "odd (count_ones ((w XOR 2 ^ k) AND poly)) = (\<not> odd (count_ones (w AND poly)))" if "2 ^ k AND poly = 2 ^ k" "k < 16" for w :: u16 and k
    using that by (simp add: and_xor_distrib odd_count_ones_xor)
  show first: "odd (count_ones (of_nat (2 * i + 1) AND poly)) = (\<not> odd (count_ones (of_nat (2 * i) AND poly)))"
    unfolding one using turn [of 0 "of_nat (2 * i)"] taps(1) by simp
  show second: "odd (count_ones (of_nat (64 + 2 * i) AND poly)) = (\<not> odd (count_ones (of_nat (2 * i) AND poly)))"
    unfolding six by (rule turn [OF taps(2)]) simp
  show "odd (count_ones (of_nat (64 + 2 * i + 1) AND poly)) = odd (count_ones (of_nat (2 * i) AND poly))"
    unfolding both using turn [of 0 "of_nat (64 + 2 * i)"] taps(1) second by auto
qed

lemma conv_code_ok:
  assumes "conv_code_new polys = Inr code"
  shows "code7_ok code" "cv_outputs code = length polys"
proof -
  have n: "1 \<le> length polys" "length polys \<le> 8" and code: "code = \<lparr>cv_outputs = length polys, cv_branch = map (branch_mask polys) [0..<128],
      cv_pair_signs = pair_signs_of polys (map (branch_mask polys) [0..<128])\<rparr>"
    using assms by (auto simp: conv_code_new_def MAX_OUTPUTS_def Let_def split: if_splits)
  show "cv_outputs code = length polys" by (simp add: code)
  have at: "cv_branch code ! r = branch_mask polys r" if "r < 128" for r using that by (simp add: code)
  have "below (cv_outputs code) (cv_branch code ! r)" if "r < 128" for r
    unfolding at [OF that] below_def using bit_branch_mask [OF n(2)] by (simp add: code)
  moreover have "cv_outputs code = 2 \<and> (\<forall>b < 2. \<forall>i < 32. signs ! b ! i = (if bit (cv_branch code ! (2 * i)) b then 0 else - 1) \<and>
           bit (cv_branch code ! (2 * i + 1)) b = (\<not> bit (cv_branch code ! (2 * i)) b) \<and>
           bit (cv_branch code ! (64 + 2 * i)) b = (\<not> bit (cv_branch code ! (2 * i)) b) \<and>
           bit (cv_branch code ! (64 + 2 * i + 1)) b = bit (cv_branch code ! (2 * i)) b)" if "cv_pair_signs code = Some signs" for signs
  proof (intro conjI allI impI)
    have two: "length polys = 2" and taps: "\<And>poly. poly \<in> set polys \<Longrightarrow> poly AND 0x41 = 0x41"
      and signs: "signs = map (\<lambda>b. map (\<lambda>state. if map (branch_mask polys) [0..<128] ! (2 * state) AND push_bit b 1 = 0 then - 1 else 0) [0..<32]) [0..<2]"
      using that by (auto simp: code pair_signs_of_def list_all_iff split: if_splits)
    show "cv_outputs code = 2" by (simp add: code two)
    fix b i :: nat assume b: "b < 2" and i: "i < 32"
    have poly: "polys ! b AND 0x41 = 0x41" using b two by (intro taps) simp
    have bits: "bit (cv_branch code ! r) b = odd (count_ones (of_nat r AND polys ! b))" if "r < 128" for r
      unfolding at [OF that] using bit_branch_mask [OF n(2)] b two by simp
    have "w AND push_bit b 1 = 0 \<longleftrightarrow> \<not> bit w b" for w :: u8
      by (simp add: and_exp_eq_0_iff_not_bit)
    moreover have "cv_branch code ! (2 * i) = map (branch_mask polys) [0..<128] ! (2 * i)" by (simp add: code)
    ultimately show "signs ! b ! i = (if bit (cv_branch code ! (2 * i)) b then 0 else - 1)" using b i by (simp add: signs)
    show "bit (cv_branch code ! (2 * i + 1)) b = (\<not> bit (cv_branch code ! (2 * i)) b)"
      using bits [of "2 * i + 1"] bits [of "2 * i"] tap_turns(1) [OF poly i] i by simp
    show "bit (cv_branch code ! (64 + 2 * i)) b = (\<not> bit (cv_branch code ! (2 * i)) b)"
      using bits [of "64 + 2 * i"] bits [of "2 * i"] tap_turns(2) [OF poly i] i by simp
    show "bit (cv_branch code ! (64 + 2 * i + 1)) b = bit (cv_branch code ! (2 * i)) b"
      using bits [of "64 + 2 * i + 1"] bits [of "2 * i"] tap_turns(3) [OF poly i] i by simp
  qed
  ultimately show "code7_ok code" unfolding code7_ok_def using n by (simp add: code)
qed

section \<open>Both steps keep the better way into every state\<close>











section \<open>The block decoder finds the best message\<close>












lemma symbols_sizes: "0 < n \<Longrightarrow> length (symbols n coded) = length coded div n" "0 < n \<Longrightarrow> y \<in> set (symbols n coded) \<Longrightarrow> length y = n"
proof -
  assume n: "0 < n"
  show "length (symbols n coded) = length coded div n" by (simp add: symbols_def)
  assume "y \<in> set (symbols n coded)"
  then obtain i where i: "i < length coded div n" "y = take n (drop (i * n) coded)" by (auto simp: symbols_def)
  then have "Suc i * n \<le> length coded div n * n" by (intro mult_le_mono1) simp
  also have "\<dots> \<le> length coded" by simp
  finally show "length y = n" using i(2) by simp
qed







section \<open>The stream decoder\<close>

definition leftover :: "nat \<Rightarrow> 'a list \<Rightarrow> 'a list" where
  "leftover n xs = drop (length xs div n * n) xs"

lemma symbols_rec:
  assumes "0 < n"
  shows "symbols n xs = (if length xs < n then [] else take n xs # symbols n (drop n xs))"
    "leftover n xs = (if length xs < n then xs else leftover n (drop n xs))"
proof -
  have "length xs div n = Suc ((length xs - n) div n)" if "n \<le> length xs" using assms that by (simp add: le_div_geq)
  note long = this
  have "symbols n xs = take n xs # symbols n (drop n xs)" if "n \<le> length xs"
  proof -
    have "[0..<Suc k] = 0 # map Suc [0..<k]" for k by (simp add: map_Suc_upt upt_conv_Cons del: upt_Suc)
    then show ?thesis using long [OF that] by (simp add: symbols_def o_def add.commute del: upt_Suc)
  qed
  then show "symbols n xs = (if length xs < n then [] else take n xs # symbols n (drop n xs))" by (simp add: symbols_def)
  show "leftover n xs = (if length xs < n then xs else leftover n (drop n xs))"
    using long by (simp add: leftover_def add.commute)
qed

lemma symbols_append:
  assumes "0 < n"
  shows "symbols n (xs @ ys) = symbols n xs @ symbols n (leftover n xs @ ys) \<and> leftover n (xs @ ys) = leftover n (leftover n xs @ ys)"
proof (induction xs rule: length_induct)
  case (1 xs)
  show ?case
  proof (cases "length xs < n")
    case True
    then show ?thesis using symbols_rec [OF assms, of xs] by simp
  next
    case False
    then have "length (drop n xs) < length xs" using assms by simp
    then have "symbols n (drop n xs @ ys) = symbols n (drop n xs) @ symbols n (leftover n (drop n xs) @ ys) \<and>
        leftover n (drop n xs @ ys) = leftover n (leftover n (drop n xs) @ ys)" using 1 by blast
    moreover have "symbols n (xs @ ys) = take n xs # symbols n (drop n xs @ ys)" "leftover n (xs @ ys) = leftover n (drop n xs @ ys)"
      using symbols_rec [OF assms, of "xs @ ys"] False by simp_all
    ultimately show ?thesis using symbols_rec [OF assms, of xs] False by simp
  qed
qed

lemma stream_step_carry: "stream_step (v\<lparr>sv_carry := c\<rparr>) y = (fst (stream_step v y)\<lparr>sv_carry := c\<rparr>, snd (stream_step v y))"
  by (simp add: stream_step_def release7_def Let_def split_def)

lemma stream_step_keeps:
  "sv_code (fst (stream_step v y)) = sv_code v" "sv_depth (fst (stream_step v y)) = sv_depth v" "sv_batch (fst (stream_step v y)) = sv_batch v"
  "sv_carry (fst (stream_step v y)) = sv_carry v"
  by (simp_all add: stream_step_def release7_def Let_def split_def)

lemma stream_steps_carry: "stream_steps (v\<lparr>sv_carry := c\<rparr>) ys = (fst (stream_steps v ys)\<lparr>sv_carry := c\<rparr>, snd (stream_steps v ys))"
  by (induction ys arbitrary: v) (simp_all add: stream_step_carry Let_def split_def)

lemma stream_steps_keeps:
  "sv_code (fst (stream_steps v ys)) = sv_code v" "sv_depth (fst (stream_steps v ys)) = sv_depth v" "sv_batch (fst (stream_steps v ys)) = sv_batch v"
  "sv_carry (fst (stream_steps v ys)) = sv_carry v"
  by (induction ys arbitrary: v) (simp_all add: stream_step_keeps Let_def split_def)

lemma stream_steps_append:
  "stream_steps v (xs @ ys) = (fst (stream_steps (fst (stream_steps v xs)) ys), snd (stream_steps v xs) @ snd (stream_steps (fst (stream_steps v xs)) ys))"
  by (induction xs arbitrary: v) (simp_all add: Let_def split_def)

text \<open>A push decodes the symbols of what was carried over and what arrives, and carries the rest.\<close>

lemma push7_eq:
  assumes "0 < cv_outputs (sv_code v)" "length (sv_carry v) < cv_outputs (sv_code v)"
  shows "push7 v coded =
    (let n = cv_outputs (sv_code v); (v', out) = stream_steps v (symbols n (sv_carry v @ coded))
     in (v'\<lparr>sv_carry := leftover n (sv_carry v @ coded)\<rparr>, out))"
proof (cases "sv_carry v = []")
  case True
  then show ?thesis by (simp add: push7_def leftover_def Let_def split_def)
next
  case carried: False
  let ?n = "cv_outputs (sv_code v)" and ?c = "sv_carry v"
  let ?k = "min (?n - length ?c) (length coded)"
  show ?thesis
  proof (cases "length coded < ?n - length ?c")
    case True
    then have short: "length (?c @ coded) < ?n" by simp
    then have "symbols ?n (?c @ coded) = []" "leftover ?n (?c @ coded) = ?c @ coded" using symbols_rec [OF assms(1)] by simp_all
    then show ?thesis using True carried short by (simp add: push7_def Let_def)
  next
    case False
    then have k: "?k = ?n - length ?c" by simp
    then have full: "length (?c @ take ?k coded) = ?n" using False assms(2) by simp
    have cut: "take ?n (?c @ coded) = ?c @ take ?k coded" "drop ?n (?c @ coded) = drop ?k coded" using k assms(2) by simp_all
    have "\<not> length (?c @ coded) < ?n" using False by simp
    then have rest: "symbols ?n (?c @ coded) = (?c @ take ?k coded) # symbols ?n (drop ?k coded)" "leftover ?n (?c @ coded) = leftover ?n (drop ?k coded)"
      using symbols_rec [OF assms(1), of "?c @ coded"] cut by simp_all
    have carry: "drop (length (drop ?k coded) div ?n * ?n) (drop ?k coded) = leftover ?n (drop ?k coded)" by (simp only: leftover_def)
    show ?thesis using carried full
      by (simp add: push7_def Let_def split_def rest carry stream_step_carry stream_steps_carry del: length_append drop_drop length_drop)
  qed
qed

definition stream_ok :: "StreamViterbiK7 \<Rightarrow> bool" where
  "stream_ok v \<longleftrightarrow> 0 < cv_outputs (sv_code v) \<and> length (sv_carry v) < cv_outputs (sv_code v) \<and>
     8 \<le> sv_depth v \<and> sv_batch v = 8 * sv_depth v \<and> length (sv_decisions v) < sv_batch v"

lemma length_trace: "length (fst (trace ds s)) = length ds"
proof -
  have "length (fst (trace_back ws s)) = length ws" for ws by (induction ws arbitrary: s) (simp_all add: Let_def split_def)
  then show ?thesis by (simp add: trace_def)
qed

lemma stream_step_counts:
  assumes "8 \<le> sv_depth v" "sv_batch v = 8 * sv_depth v" "length (sv_decisions v) < sv_batch v"
  shows "length (sv_decisions (fst (stream_step v y))) < sv_batch v"
    "length (snd (stream_step v y)) + length (sv_decisions (fst (stream_step v y))) = Suc (length (sv_decisions v))"
  using assms by (auto simp: stream_step_def release7_def Let_def split_def length_trace)

lemma stream_steps_counts:
  "8 \<le> sv_depth v \<Longrightarrow> sv_batch v = 8 * sv_depth v \<Longrightarrow> length (sv_decisions v) < sv_batch v \<Longrightarrow>
    length (sv_decisions (fst (stream_steps v ys))) < sv_batch v \<and>
    length (snd (stream_steps v ys)) + length (sv_decisions (fst (stream_steps v ys))) = length (sv_decisions v) + length ys"
proof (induction ys arbitrary: v)
  case (Cons y ys)
  note c = stream_step_counts [OF Cons.prems, of y]
  have "length (sv_decisions (fst (stream_steps (fst (stream_step v y)) ys))) < sv_batch v \<and>
      length (snd (stream_steps (fst (stream_step v y)) ys)) + length (sv_decisions (fst (stream_steps (fst (stream_step v y)) ys))) =
      length (sv_decisions (fst (stream_step v y))) + length ys"
    using Cons.IH [of "fst (stream_step v y)"] Cons.prems c(1) by (simp add: stream_step_keeps)
  then show ?case using c(2) by (simp add: Let_def split_def)
qed simp

section \<open>Properties\<close>



text \<open>
  C12: The stream decoder does not depend on how the soft bits are cut into pushes: two pushes leave the
  same state and hand out the same bits as one push of both.  It stays within its bounds, a push hands out
  or holds back one bit for every complete symbol, at most eight times its depth are held back, and a
  flush hands out all of them.
\<close>

theorem k7_stream_accounts:
  assumes "stream_ok v"
  shows "push7 v (a @ b) = (fst (push7 (fst (push7 v a)) b), snd (push7 v a) @ snd (push7 (fst (push7 v a)) b)) \<and>
    stream_ok (fst (push7 v a)) \<and>
    length (snd (push7 v a)) + length (sv_decisions (fst (push7 v a))) = length (sv_decisions v) + (length (sv_carry v) + length a) div cv_outputs (sv_code v) \<and>
    length (snd (flush7 v)) = length (sv_decisions v) \<and> sv_decisions (fst (flush7 v)) = [] \<and> stream_ok (fst (flush7 v)) \<and>
    stream_ok (stream_reset v)"
proof (intro conjI)
  let ?n = "cv_outputs (sv_code v)"
  have n: "0 < ?n" "length (sv_carry v) < ?n" using assms by (simp_all add: stream_ok_def)
  let ?w = "fst (stream_steps v (symbols ?n (sv_carry v @ a)))"
  have pa: "push7 v a = (?w\<lparr>sv_carry := leftover ?n (sv_carry v @ a)\<rparr>, snd (stream_steps v (symbols ?n (sv_carry v @ a))))"
    by (simp add: push7_eq [OF n] Let_def split_def)
  have less: "length (leftover ?n xs) < ?n" for xs :: "int list" using n(1) by (simp add: leftover_def minus_div_mult_eq_mod)
  have cnt: "length (sv_decisions ?w) < sv_batch v"
    "length (snd (stream_steps v (symbols ?n (sv_carry v @ a)))) + length (sv_decisions ?w) = length (sv_decisions v) + length (symbols ?n (sv_carry v @ a))"
    using stream_steps_counts [of v "symbols ?n (sv_carry v @ a)"] assms by (auto simp: stream_ok_def)
  show ok: "stream_ok (fst (push7 v a))" using assms cnt(1) less [of "sv_carry v @ a"] by (simp add: stream_ok_def pa stream_steps_keeps)
  show "length (snd (push7 v a)) + length (sv_decisions (fst (push7 v a))) = length (sv_decisions v) + (length (sv_carry v) + length a) div ?n"
    using cnt(2) symbols_sizes(1) [OF n(1), of "sv_carry v @ a"] by (simp add: pa)
  have m: "0 < cv_outputs (sv_code (fst (push7 v a)))" "length (sv_carry (fst (push7 v a))) < cv_outputs (sv_code (fst (push7 v a)))"
    using ok by (simp_all add: stream_ok_def)
  have sy: "symbols ?n (sv_carry v @ a @ b) = symbols ?n (sv_carry v @ a) @ symbols ?n (leftover ?n (sv_carry v @ a) @ b)"
    "leftover ?n (sv_carry v @ a @ b) = leftover ?n (leftover ?n (sv_carry v @ a) @ b)"
    using symbols_append [OF n(1), of "sv_carry v @ a" b] by simp_all
  show "push7 v (a @ b) = (fst (push7 (fst (push7 v a)) b), snd (push7 v a) @ snd (push7 (fst (push7 v a)) b))"
    unfolding push7_eq [OF m] unfolding pa unfolding push7_eq [OF n]
    by (simp add: sy stream_steps_append stream_steps_carry stream_steps_keeps Let_def split_def)
  show "length (snd (flush7 v)) = length (sv_decisions v)" by (auto simp: flush7_def length_trace split_def Let_def)
  show "sv_decisions (fst (flush7 v)) = []" by (auto simp: flush7_def split_def Let_def)
  show "stream_ok (fst (flush7 v))" using assms by (auto simp: flush7_def split_def Let_def stream_ok_def)
  show "stream_ok (stream_reset v)" using assms by (auto simp: stream_reset_def stream_ok_def)
qed

theorem k7_stream_accounts_witness:
  "case conv_code_new [0x79, 0x5B] of Inl _ \<Rightarrow> False
   | Inr code \<Rightarrow> length (snd (push7 (StreamViterbiK7_new code 40) [64, 64, 64])) + length (sv_decisions (fst (push7 (StreamViterbiK7_new code 40) [64, 64, 64]))) = 1"
proof -
  obtain code where code: "conv_code_new [0x79, 0x5B] = Inr code" by (simp add: conv_code_new_def MAX_OUTPUTS_def Let_def)
  then have "cv_outputs code = 2" using conv_code_ok(2) [OF code] by simp
  moreover from this have "stream_ok (StreamViterbiK7_new code 40)" by (simp add: stream_ok_def StreamViterbiK7_new_def Let_def)
  from k7_stream_accounts [OF this, of "[64, 64, 64]" "[]"]
  have "length (snd (push7 (StreamViterbiK7_new code 40) [64, 64, 64])) + length (sv_decisions (fst (push7 (StreamViterbiK7_new code 40) [64, 64, 64]))) =
      length (sv_decisions (StreamViterbiK7_new code 40)) + (length (sv_carry (StreamViterbiK7_new code 40)) + length [64, 64, 64 :: int]) div cv_outputs (sv_code (StreamViterbiK7_new code 40))"
    by blast
  ultimately show ?thesis by (simp add: code StreamViterbiK7_new_def Let_def)
qed

end
