(* ===== verification/Puncture.thy ===== *)
theory Puncture
  imports Viterbi
begin

text \<open>
  Puncturing of a convolutional code and putting erasures back where bits were left out, of a whole block
  and of a stream (\<open>crates/dsp/src/fec/conv7.rs\<close>).

  \<open>puncture\<close> divides by the length of its pattern, so an empty pattern panics as soon as there is a bit.  The
  loop of \<open>Depuncturer::process\<close> that skips to the next place that is kept may not end by itself; that it
  does is shown.
\<close>

section \<open>Definitions\<close>

definition puncture :: "bool list \<Rightarrow> bool list \<Rightarrow> bool list panics" where
  "puncture coded pattern =
     (if pattern = [] \<and> coded \<noteq> [] then Inl Overflow
      else Inr (map snd (filter (\<lambda>(index, b). pattern ! (index mod length pattern)) (enumerate 0 coded))))"

text \<open>One cycle over the pattern: what it appends, what is left of the source, and whether the source ran out.\<close>

fun depuncture_cycle :: "bool list \<Rightarrow> int list \<Rightarrow> int list \<times> int list \<times> bool" where
  "depuncture_cycle [] source = ([], source, False)"
| "depuncture_cycle (keep # pattern) source =
     (if keep then
        (case source of
           [] \<Rightarrow> ([], [], True)
         | value # source \<Rightarrow> (let (out, rest, stop) = depuncture_cycle pattern source in (value # out, rest, stop)))
      else (let (out, rest, stop) = depuncture_cycle pattern source in (ERASURE # out, rest, stop)))"

fun depuncture_cycles :: "nat \<Rightarrow> bool list \<Rightarrow> int list \<Rightarrow> int list" where
  "depuncture_cycles 0 pattern source = []"
| "depuncture_cycles (Suc cycles) pattern source =
     (let (out, rest, stop) = depuncture_cycle pattern source
      in if stop then out else out @ depuncture_cycles cycles pattern rest)"

definition depuncture :: "int list \<Rightarrow> bool list \<Rightarrow> int list" where
  "depuncture received pattern =
     (let kept = length (filter (\<lambda>keep. keep) pattern) in
      if kept = 0 then [] else depuncture_cycles ((length received + kept - 1) div kept) pattern received)"

record Depuncturer =
  dp_pattern :: "bool list"
  dp_at :: nat

definition Depuncturer_new :: "bool list \<Rightarrow> Depuncturer" where
  "Depuncturer_new pattern = \<lparr>dp_pattern = pattern, dp_at = 0\<rparr>"

definition depuncturer_set_pattern :: "Depuncturer \<Rightarrow> bool list \<Rightarrow> Depuncturer" where
  "depuncturer_set_pattern d pattern = d\<lparr>dp_pattern := pattern, dp_at := 0\<rparr>"

definition depuncturer_reset :: "Depuncturer \<Rightarrow> Depuncturer" where
  "depuncturer_reset d = d\<lparr>dp_at := 0\<rparr>"

partial_function (option) skip_to_kept :: "bool list \<Rightarrow> nat \<Rightarrow> int list \<Rightarrow> (nat \<times> int list) option" where
  "skip_to_kept pattern at out =
     (if pattern ! at then Some (at, out)
      else skip_to_kept pattern ((at + 1) mod length pattern) (out @ [ERASURE]))"

fun process_values :: "bool list \<Rightarrow> int list \<Rightarrow> nat \<Rightarrow> int list \<Rightarrow> (nat \<times> int list) option" where
  "process_values pattern [] at out = Some (at, out)"
| "process_values pattern (value # received) at out =
     (case skip_to_kept pattern at out of
        None \<Rightarrow> None
      | Some (at, out) \<Rightarrow> process_values pattern received ((at + 1) mod length pattern) (out @ [value]))"

definition depuncturer_process :: "Depuncturer \<Rightarrow> int list \<Rightarrow> (Depuncturer \<times> int list) option" where
  "depuncturer_process d received =
     (if \<not> list_ex (\<lambda>keep. keep) (dp_pattern d) then Some (d, [])
      else map_option (\<lambda>(at, out). (d\<lparr>dp_at := at\<rparr>, out)) (process_values (dp_pattern d) received (dp_at d) []))"

section \<open>Places of a pattern\<close>

text \<open>The bits that are kept, and the soft bits with erasures for those that are not, from a place of the pattern on.\<close>

fun kept_from :: "bool list \<Rightarrow> nat \<Rightarrow> bool list \<Rightarrow> bool list" where
  "kept_from pattern at [] = []"
| "kept_from pattern at (b # bits) =
     (if pattern ! at then b # kept_from pattern ((at + 1) mod length pattern) bits
      else kept_from pattern ((at + 1) mod length pattern) bits)"

fun erased_from :: "bool list \<Rightarrow> nat \<Rightarrow> bool list \<Rightarrow> int list" where
  "erased_from pattern at [] = []"
| "erased_from pattern at (b # bits) =
     (if pattern ! at then soft b else ERASURE) # erased_from pattern ((at + 1) mod length pattern) bits"

lemma puncture_kept: "pattern \<noteq> [] \<Longrightarrow> puncture coded pattern = Inr (kept_from pattern 0 coded)"
proof -
  assume p: "pattern \<noteq> []"
  have "map snd (filter (\<lambda>(index, b). pattern ! (index mod length pattern)) (enumerate n coded)) = kept_from pattern (n mod length pattern) coded" for n
    by (induction coded arbitrary: n) (simp_all add: mod_Suc_eq)
  from this [of 0] p show ?thesis by (simp add: puncture_def)
qed

lemma erased_nth: "i < length bits \<Longrightarrow> erased_from pattern (n mod length pattern) bits ! i = (if pattern ! ((n + i) mod length pattern) then soft (bits ! i) else ERASURE)"
proof (induction bits arbitrary: n i)
  case (Cons b bits)
  have "erased_from pattern (Suc (n mod length pattern) mod length pattern) bits = erased_from pattern (Suc n mod length pattern) bits" by (simp add: mod_Suc_eq)
  then show ?case using Cons.IH [of _ "Suc n"] Cons.prems by (cases i) auto
qed simp

lemma length_erased [simp]: "length (erased_from pattern at bits) = length bits"
  by (induction bits arbitrary: at) auto

section \<open>The stream\<close>

lemma skip_to_kept_ends:
  assumes "\<And>j. j < k \<Longrightarrow> \<not> pattern ! ((at + j) mod length pattern)" "pattern ! ((at + k) mod length pattern)"
  shows "skip_to_kept pattern (at mod length pattern) out = Some ((at + k) mod length pattern, out @ replicate k ERASURE)"
  using assms
proof (induction k arbitrary: at out)
  case 0
  then show ?case by (subst skip_to_kept.simps) simp
next
  case (Suc k)
  have "\<not> pattern ! (at mod length pattern)" using Suc.prems(1) [of 0] by simp
  then have "skip_to_kept pattern (at mod length pattern) out = skip_to_kept pattern (Suc at mod length pattern) (out @ [ERASURE])"
    by (subst skip_to_kept.simps) (simp add: mod_Suc_eq)
  also have "\<dots> = Some ((Suc at + k) mod length pattern, (out @ [ERASURE]) @ replicate k ERASURE)"
    by (rule Suc.IH) (use Suc.prems(1) [of "Suc _"] Suc.prems(2) in simp_all)
  finally show ?case by (simp add: replicate_append_same [symmetric])
qed

text \<open>The depuncturer lags behind by the places that are left out since the last value.\<close>

lemma process_kept:
  assumes "\<And>j. j < k \<Longrightarrow> \<not> pattern ! ((at + j) mod length pattern)"
  shows "\<exists>at' more_out gap. process_values pattern (map soft (kept_from pattern ((at + k) mod length pattern) bits)) (at mod length pattern) out = Some (at', out @ more_out) \<and>
    replicate k ERASURE @ erased_from pattern ((at + k) mod length pattern) bits = more_out @ replicate gap ERASURE"
  using assms
proof (induction bits arbitrary: at k out)
  case Nil
  show ?case by (intro exI [of _ "at mod length pattern"] exI [of _ "[]"] exI [of _ k]) simp
next
  case (Cons b bits)
  have next_at: "Suc ((at + k) mod length pattern) mod length pattern = (Suc (at + k)) mod length pattern" by (simp add: mod_Suc_eq)
  show ?case
  proof (cases "pattern ! ((at + k) mod length pattern)")
    case True
    from Cons.IH [of 0 "Suc (at + k)" "out @ replicate k ERASURE @ [soft b]"] obtain at' more_out gap where
      ih: "process_values pattern (map soft (kept_from pattern (Suc (at + k) mod length pattern) bits)) (Suc (at + k) mod length pattern) (out @ replicate k ERASURE @ [soft b]) =
        Some (at', (out @ replicate k ERASURE @ [soft b]) @ more_out)"
      "erased_from pattern (Suc (at + k) mod length pattern) bits = more_out @ replicate gap ERASURE" by auto
    show ?thesis using skip_to_kept_ends [OF Cons.prems True, of out] True ih
      by (intro exI [of _ at'] exI [of _ "replicate k ERASURE @ soft b # more_out"] exI [of _ gap]) (simp add: next_at)
  next
    case False
    have "\<not> pattern ! ((at + j) mod length pattern)" if "j < Suc k" for j using Cons.prems [of j] False that by (auto simp: less_Suc_eq)
    from Cons.IH [of "Suc k" at out, OF this] False show ?thesis by (simp add: next_at replicate_app_Cons_same)
  qed
qed

section \<open>The block\<close>

lemma depuncture_cycle_kept:
  "depuncture_cycle (drop at pattern) (map soft (kept_from pattern at bits) @ rest) = (erased_from pattern at bits, rest, False)"
  if "length bits = length pattern - at" "at \<le> length pattern"
  using that
proof (induction bits arbitrary: at)
  case Nil
  then show ?case by simp
next
  case (Cons b bits)
  have at: "at < length pattern" using Cons.prems by simp
  show ?case
  proof (cases "bits = []")
    case True
    then have "drop (Suc at) pattern = []" using Cons.prems by simp
    then show ?thesis using at True by (simp add: Cons_nth_drop_Suc [symmetric] split_def Let_def)
  next
    case False
    then have "Suc at < length pattern" using Cons.prems by (cases bits) auto
    moreover have "depuncture_cycle (drop (Suc at) pattern) (map soft (kept_from pattern (Suc at) bits) @ rest) = (erased_from pattern (Suc at) bits, rest, False)"
      using Cons.IH [of "Suc at"] Cons.prems by simp
    ultimately show ?thesis using at by (simp add: Cons_nth_drop_Suc [symmetric])
  qed
qed

lemma kept_whole:
  assumes "length xs = length pattern - at" "at < length pattern"
  shows "kept_from pattern at (xs @ ys) = kept_from pattern at xs @ kept_from pattern 0 ys"
    "erased_from pattern at (xs @ ys) = erased_from pattern at xs @ erased_from pattern 0 ys"
proof -
  have "kept_from pattern at (xs @ ys) = kept_from pattern at xs @ kept_from pattern ((at + length xs) mod length pattern) ys \<and>
      erased_from pattern at (xs @ ys) = erased_from pattern at xs @ erased_from pattern ((at + length xs) mod length pattern) ys"
    if "at < length pattern" for at
    using that
  proof (induction xs arbitrary: at)
    case (Cons x xs)
    have "(Suc at mod length pattern + length xs) mod length pattern = Suc (at + length xs) mod length pattern" by (simp add: mod_add_left_eq)
    moreover have "Suc at mod length pattern < length pattern" using Cons.prems by (intro mod_less_divisor) auto
    ultimately show ?case using Cons.IH [of "Suc at mod length pattern"] by simp
  qed simp
  from this [OF assms(2)] show "kept_from pattern at (xs @ ys) = kept_from pattern at xs @ kept_from pattern 0 ys"
    "erased_from pattern at (xs @ ys) = erased_from pattern at xs @ erased_from pattern 0 ys" using assms by simp_all
qed

lemma length_kept_whole: "at \<le> length pattern \<Longrightarrow> length bits = length pattern - at \<Longrightarrow> length (kept_from pattern at bits) = length (filter (\<lambda>keep. keep) (drop at pattern))"
proof (induction bits arbitrary: at)
  case (Cons b bits)
  have at: "at < length pattern" using Cons.prems by simp
  show ?case
  proof (cases "bits = []")
    case True
    then have "drop (Suc at) pattern = []" using Cons.prems by simp
    then show ?thesis using at True by (simp add: Cons_nth_drop_Suc [symmetric])
  next
    case False
    then have "Suc at < length pattern" using Cons.prems by (cases bits) auto
    then show ?thesis using Cons.IH [of "Suc at"] Cons.prems at by (simp add: Cons_nth_drop_Suc [symmetric])
  qed
qed simp

lemma depuncture_cycles_kept:
  assumes "pattern \<noteq> []"
  shows "length coded = c * length pattern \<Longrightarrow>
    depuncture_cycles c pattern (map soft (kept_from pattern 0 coded)) = erased_from pattern 0 coded \<and>
    length (kept_from pattern 0 coded) = c * length (filter (\<lambda>keep. keep) pattern)"
proof (induction c arbitrary: coded)
  case (Suc c)
  define xs ys where "xs = take (length pattern) coded" and "ys = drop (length pattern) coded"
  have xy: "coded = xs @ ys" "length xs = length pattern" "length ys = c * length pattern" using Suc.prems by (simp_all add: xs_def ys_def)
  have whole: "kept_from pattern 0 coded = kept_from pattern 0 xs @ kept_from pattern 0 ys" "erased_from pattern 0 coded = erased_from pattern 0 xs @ erased_from pattern 0 ys"
    using kept_whole [of xs pattern 0 ys] xy assms by simp_all
  have "depuncture_cycle pattern (map soft (kept_from pattern 0 xs) @ map soft (kept_from pattern 0 ys)) = (erased_from pattern 0 xs, map soft (kept_from pattern 0 ys), False)"
    using depuncture_cycle_kept [of xs pattern 0] xy(2) by simp
  then show ?case using Suc.IH [OF xy(3)] length_kept_whole [of 0 pattern xs] xy(2) by (simp add: whole)
qed simp

section \<open>Properties\<close>

text \<open>
  What is punctured and put back has the soft bits where they were sent and erasures where they were left
  out: for a whole number of cycles of the pattern exactly, and for a stream up to the erasures that
  follow the last bit sent, which are only put in before the next one.
\<close>

theorem puncture_roundtrip:
  assumes "True \<in> set pattern" "puncture coded pattern = Inr sent"
  defines "expected \<equiv> map (\<lambda>i. if pattern ! (i mod length pattern) then soft (coded ! i) else ERASURE) [0..<length coded]"
  shows "(length coded mod length pattern = 0 \<longrightarrow> depuncture (map soft sent) pattern = expected) \<and>
    (\<exists>d out gap. depuncturer_process (Depuncturer_new pattern) (map soft sent) = Some (d, out) \<and> expected = out @ replicate gap ERASURE)"
proof (intro conjI impI)
  have p: "pattern \<noteq> []" using assms(1) by auto
  have sent: "sent = kept_from pattern 0 coded" using puncture_kept [OF p] assms(2) by simp
  have ex: "expected = erased_from pattern 0 coded"
    unfolding expected_def by (rule nth_equalityI) (use erased_nth [of _ coded pattern 0] in simp_all)
  show "depuncture (map soft sent) pattern = expected" if "length coded mod length pattern = 0"
  proof -
    let ?c = "length coded div length pattern" and ?k = "length (filter (\<lambda>keep. keep) pattern)"
    have "length coded = ?c * length pattern" using that by (metis add_0_right div_mult_mod_eq)
    note cycles = depuncture_cycles_kept [OF p this]
    have k: "0 < ?k" using assms(1) by (auto simp: filter_empty_conv)
    then have "(?c * ?k + (?k - 1)) div ?k = ?c + (?k - 1) div ?k" by (intro div_mult_self3) simp
    moreover have "(?k - 1) div ?k = 0" using k by (intro div_less) simp
    moreover have "?c * ?k + ?k - 1 = ?c * ?k + (?k - 1)" using k by linarith
    ultimately have "(?c * ?k + ?k - 1) div ?k = ?c" by (simp only: add_0_right)
    then show ?thesis using cycles k by (simp only: depuncture_def Let_def sent ex length_map) simp
  qed
  from process_kept [of 0 pattern 0 coded "[]"] obtain at' out gap where
    "process_values pattern (map soft sent) 0 [] = Some (at', out)" "expected = out @ replicate gap ERASURE" by (auto simp: sent ex)
  moreover have "list_ex (\<lambda>keep. keep) pattern" using assms(1) by (auto simp: list_ex_iff)
  ultimately show "\<exists>d out gap. depuncturer_process (Depuncturer_new pattern) (map soft sent) = Some (d, out) \<and> expected = out @ replicate gap ERASURE"
    by (auto simp: depuncturer_process_def Depuncturer_new_def)
qed

end
