(* ===== verification/Bptc.thy ===== *)
theory Bptc
  imports Parity_Code Viterbi
begin

text \<open>
  The block product turbo codes of \<open>crates/dsp/src/fec/bptc.rs\<close>: 96 bits in a matrix of 13 by 15 whose columns
  and first nine rows are Hamming codewords, and 77 bits in a matrix of 8 by 16 with Hamming rows and a row
  of column parities, both interleaved; their decoders for hard and for soft bits.

  A row or a column is the list of its places in the matrix: \<open>gather\<close> reads it, \<open>scatter\<close> writes it.  Soft
  bits are the integers of an \<open>i16\<close>.  A decoder that fails drops the matrix it worked on, so a failure is
  \<open>None\<close> without one.
\<close>

section \<open>Definitions\<close>

definition MAX_PASSES :: nat where "MAX_PASSES = 5"
definition MAX_COMPONENT_BITS :: nat where "MAX_COMPONENT_BITS = 16"
definition CHASE_FLIPS :: nat where "CHASE_FLIPS = 4"
definition MAX_SETTLE_REPAIRS :: nat where "MAX_SETTLE_REPAIRS = 4"

type_synonym word_decoder = "bool list \<Rightarrow> (nat option \<times> bool list) panics"

subsection \<open>Chase decoding of one component\<close>

text \<open>One trial: the word with the unreliable bits that \<open>pattern\<close> selects changed.\<close>

definition chase_trial :: "bool list \<Rightarrow> nat list \<Rightarrow> nat \<Rightarrow> nat \<Rightarrow> bool list" where
  "chase_trial base order flips pattern =
     foldl (\<lambda>cand (j, i). if drop_bit j pattern AND 1 = 1 then cand[i := \<not> cand ! i] else cand) base
       (take flips (enumerate 0 order))"

definition chase_cost :: "int list \<Rightarrow> bool list \<Rightarrow> nat" where
  "chase_cost softs cand =
     sum_list (map (\<lambda>(s, c). nat \<bar>s\<bar>) (filter (\<lambda>(s, c). (0 < s) \<noteq> c) (zip softs cand)))"

fun chase_loop :: "int list \<Rightarrow> bool list \<Rightarrow> nat list \<Rightarrow> nat \<Rightarrow> word_decoder \<Rightarrow> nat list \<Rightarrow> nat option \<times> bool list \<Rightarrow> (nat option \<times> bool list) panics" where
  "chase_loop softs base order flips decode [] state = Inr state"
| "chase_loop softs base order flips decode (pattern # patterns) (best, winner) =
     (let cand = chase_trial base order flips pattern; n = length softs in
      case decode (take n cand) of
        Inl p \<Rightarrow> Inl p
      | Inr (None, _) \<Rightarrow> chase_loop softs base order flips decode patterns (best, winner)
      | Inr (Some _, front) \<Rightarrow>
          (let cand = front @ drop n cand; cost = chase_cost softs cand
           in chase_loop softs base order flips decode patterns
                (if (case best of None \<Rightarrow> True | Some b \<Rightarrow> cost < b) then (Some cost, cand) else (best, winner))))"

definition chase_mend :: "int \<Rightarrow> bool \<Rightarrow> int" where
  "chase_mend s w =
     (if (0 < s) \<noteq> w \<or> s = 0 then (let mag = min 32767 (max 1 \<bar>s\<bar>) in if w then mag else - mag) else s)"

text \<open>
  The indices are sorted by reliability and, where it is equal, by index: a stable sort of the
  ascending indices.  The assertion is that of a debug build.
\<close>

definition chase :: "int list \<Rightarrow> nat \<Rightarrow> word_decoder \<Rightarrow> (int list \<times> bool) panics" where
  "chase softs flips decode =
     (let n = length softs in
      if n \<le> MAX_COMPONENT_BITS \<and> flips \<le> n then
        let base = map (\<lambda>s. 0 < s) softs @ replicate (MAX_COMPONENT_BITS - n) False;
            order = sort_key (\<lambda>i. nat \<bar>softs ! i\<bar>) [0..<n] @ [n..<MAX_COMPONENT_BITS]
        in case chase_loop softs base order flips decode [0..<push_bit flips 1] (None, base) of
             Inl p \<Rightarrow> Inl p
           | Inr (None, _) \<Rightarrow> Inr (softs, False)
           | Inr (Some _, winner) \<Rightarrow>
               Inr (map (\<lambda>(s, w). chase_mend s w) (zip softs winner),
                    list_ex (\<lambda>(s, w). (0 < s) \<noteq> w \<or> s = 0) (zip softs winner))
      else Inl Assertion)"

definition even_parity_decode :: word_decoder where
  "even_parity_decode word =
     Inr (if foldl (\<lambda>acc b. acc \<noteq> b) False word then None else Some 0, word)"

subsection \<open>Rows and columns\<close>

definition gather :: "'a list \<Rightarrow> nat list \<Rightarrow> 'a list" where
  "gather m places = map (\<lambda>i. m ! i) places"

definition scatter :: "'a list \<Rightarrow> nat list \<Rightarrow> 'a list \<Rightarrow> 'a list" where
  "scatter m places word = foldl (\<lambda>m (i, b). m[i := b]) m (zip places word)"

text \<open>The loops over rows or columns: decode each, encode each, run the soft decoder on each.\<close>

fun repair_all :: "ParityCode \<Rightarrow> nat list list \<Rightarrow> bool list \<Rightarrow> nat \<Rightarrow> (bool list \<times> nat) option panics" where
  "repair_all code [] matrix corrected = Inr (Some (matrix, corrected))"
| "repair_all code (places # rest) matrix corrected =
     (case parity_decode code (gather matrix places) of
        Inl p \<Rightarrow> Inl p
      | Inr (None, _) \<Rightarrow> Inr None
      | Inr (Some e, word) \<Rightarrow> repair_all code rest (scatter matrix places word) (corrected + e))"

fun encode_all :: "ParityCode \<Rightarrow> nat list list \<Rightarrow> bool list \<Rightarrow> bool list panics" where
  "encode_all code [] matrix = Inr matrix"
| "encode_all code (places # rest) matrix =
     (case parity_encode code (gather matrix places) of
        Inl p \<Rightarrow> Inl p
      | Inr word \<Rightarrow> encode_all code rest (scatter matrix places word))"

fun chase_all :: "word_decoder \<Rightarrow> nat \<Rightarrow> nat list list \<Rightarrow> int list \<times> bool \<Rightarrow> (int list \<times> bool) panics" where
  "chase_all decode flips [] state = Inr state"
| "chase_all decode flips (places # rest) (matrix, changed) =
     (case chase (gather matrix places) flips decode of
        Inl p \<Rightarrow> Inl p
      | Inr (word, c) \<Rightarrow> chase_all decode flips rest (scatter matrix places word, changed \<or> c))"

subsection \<open>Bptc196\<close>

definition column196 :: "nat \<Rightarrow> nat list" where
  "column196 c = map (\<lambda>r. r * 15 + c + 1) [0..<13]"

definition row196 :: "nat \<Rightarrow> nat list" where
  "row196 r = [r * 15 + 1..<r * 15 + 1 + 15]"

definition interleave196 :: "nat list" where
  "interleave196 = map (\<lambda>a. a * 181 mod 196) [0..<196]"

definition data_positions :: "nat list" where
  "data_positions = [4..<12] @ concat (map (\<lambda>row. [row * 15 + 1..<row * 15 + 12]) [1..<9])"

definition deinterleave :: "'a list \<Rightarrow> 'a list" where
  "deinterleave coded = gather coded interleave196"

definition pass196 :: "bool list \<Rightarrow> (bool list \<times> nat) option panics" where
  "pass196 matrix =
     (case repair_all HAMMING_13_9 (map column196 [0..<15]) matrix 0 of
        Inr (Some (matrix, corrected)) \<Rightarrow> repair_all HAMMING_15_11 (map row196 [0..<9]) matrix corrected
      | failed \<Rightarrow> failed)"

fun settle196_from :: "nat \<Rightarrow> bool list \<Rightarrow> nat \<Rightarrow> (bool list \<times> nat) option panics" where
  "settle196_from 0 matrix corrected = Inr None"
| "settle196_from (Suc passes) matrix corrected =
     (case pass196 matrix of
        Inr (Some (matrix, repaired)) \<Rightarrow>
          if repaired = 0 then Inr (Some (matrix, corrected + repaired))
          else settle196_from passes matrix (corrected + repaired)
      | failed \<Rightarrow> failed)"

definition settle196 :: "bool list \<Rightarrow> (bool list \<times> nat) option panics" where
  "settle196 matrix = settle196_from MAX_PASSES matrix 0"

definition extract196 :: "bool list \<Rightarrow> bool list" where
  "extract196 matrix = gather matrix data_positions"

definition decode196 :: "bool list \<Rightarrow> (bool list \<times> nat) option panics" where
  "decode196 coded =
     (case settle196 (deinterleave coded) of
        Inl p \<Rightarrow> Inl p
      | Inr None \<Rightarrow> Inr None
      | Inr (Some (matrix, corrected)) \<Rightarrow> Inr (Some (extract196 matrix, corrected)))"

definition soft_pass196 :: "int list \<Rightarrow> (int list \<times> bool) panics" where
  "soft_pass196 matrix =
     (case chase_all (parity_decode HAMMING_13_9) CHASE_FLIPS (map column196 [0..<15]) (matrix, False) of
        Inl p \<Rightarrow> Inl p
      | Inr state \<Rightarrow> chase_all (parity_decode HAMMING_15_11) CHASE_FLIPS (map row196 [0..<13]) state)"

text \<open>The soft passes, until one changes nothing.\<close>

fun soft_passes :: "(int list \<Rightarrow> (int list \<times> bool) panics) \<Rightarrow> nat \<Rightarrow> int list \<Rightarrow> int list panics" where
  "soft_passes step 0 matrix = Inr matrix"
| "soft_passes step (Suc passes) matrix =
     (case step matrix of
        Inl p \<Rightarrow> Inl p
      | Inr (matrix, changed) \<Rightarrow> if changed then soft_passes step passes matrix else Inr matrix)"

text \<open>What both soft decoders do with the matrix: pass over it, settle it and count the bits that changed.\<close>

definition soft_settle :: "(int list \<Rightarrow> (int list \<times> bool) panics) \<Rightarrow> (bool list \<Rightarrow> (bool list \<times> nat) option panics) \<Rightarrow> (bool list \<Rightarrow> bool list) \<Rightarrow> int list \<Rightarrow> (bool list \<times> nat) option panics" where
  "soft_settle step settle extract matrix =
     (let received = map (\<lambda>s. 0 < s) matrix in
      case soft_passes step MAX_PASSES matrix of
        Inl p \<Rightarrow> Inl p
      | Inr matrix \<Rightarrow>
          (case settle (map (\<lambda>s. 0 < s) matrix) of
             Inl p \<Rightarrow> Inl p
           | Inr None \<Rightarrow> Inr None
           | Inr (Some (hard, repairs)) \<Rightarrow>
               if MAX_SETTLE_REPAIRS < repairs then Inr None
               else Inr (Some (extract hard, length (filter (\<lambda>(a, b). a \<noteq> b) (zip hard received))))))"

definition decode_soft196 :: "int list \<Rightarrow> (bool list \<times> nat) option panics" where
  "decode_soft196 coded =
     (if list_all (\<lambda>s. s = 0) coded then Inr None
      else soft_settle soft_pass196 settle196 extract196 (gather coded interleave196))"

definition encode196 :: "bool list \<Rightarrow> bool list panics" where
  "encode196 data =
     (case encode_all HAMMING_15_11 (map row196 [0..<9]) (scatter (replicate 196 False) data_positions data) of
        Inl p \<Rightarrow> Inl p
      | Inr matrix \<Rightarrow>
          (case encode_all HAMMING_13_9 (map column196 [0..<15]) matrix of
             Inl p \<Rightarrow> Inl p
           | Inr matrix \<Rightarrow> Inr (scatter (replicate 196 False) interleave196 matrix)))"

subsection \<open>Bptc128\<close>

definition transpose128 :: "nat \<Rightarrow> nat" where
  "transpose128 index = (if index = 127 then 127 else index * 16 mod 127)"

definition transposed128 :: "nat list" where
  "transposed128 = map transpose128 [0..<128]"

definition row128 :: "nat \<Rightarrow> nat list" where
  "row128 r = [r * 16..<r * 16 + 16]"

definition column128 :: "nat \<Rightarrow> nat list" where
  "column128 c = map (\<lambda>r. r * 16 + c) [0..<8]"

definition data128 :: "nat list" where
  "data128 = map (\<lambda>i. i div 11 * 16 + i mod 11) [0..<77]"

definition settle128 :: "bool list \<Rightarrow> (bool list \<times> nat) option panics" where
  "settle128 matrix =
     (case repair_all HAMMING_16_11 (map row128 [0..<7]) matrix 0 of
        Inr (Some (matrix, corrected)) \<Rightarrow>
          if list_ex (\<lambda>c. foldl (\<lambda>acc r. acc \<noteq> matrix ! (r * 16 + c)) False [0..<8]) [0..<16] then Inr None
          else Inr (Some (matrix, corrected))
      | failed \<Rightarrow> failed)"

definition extract128 :: "bool list \<Rightarrow> bool list" where
  "extract128 matrix = gather matrix data128"

definition decode128 :: "bool list \<Rightarrow> (bool list \<times> nat) option panics" where
  "decode128 coded =
     (case settle128 (scatter (replicate 128 False) transposed128 coded) of
        Inl p \<Rightarrow> Inl p
      | Inr None \<Rightarrow> Inr None
      | Inr (Some (matrix, corrected)) \<Rightarrow> Inr (Some (extract128 matrix, corrected)))"

definition soft_pass128 :: "int list \<Rightarrow> (int list \<times> bool) panics" where
  "soft_pass128 matrix =
     (case chase_all (parity_decode HAMMING_16_11) CHASE_FLIPS (map row128 [0..<8]) (matrix, False) of
        Inl p \<Rightarrow> Inl p
      | Inr state \<Rightarrow> chase_all even_parity_decode 1 (map column128 [0..<16]) state)"

definition decode_soft128 :: "int list \<Rightarrow> (bool list \<times> nat) option panics" where
  "decode_soft128 coded =
     (if list_all (\<lambda>s. s = 0) coded then Inr None
      else soft_settle soft_pass128 settle128 extract128 (scatter (replicate 128 0) transposed128 coded))"

definition encode128 :: "bool list \<Rightarrow> bool list panics" where
  "encode128 data =
     (case encode_all HAMMING_16_11 (map row128 [0..<7]) (scatter (replicate 128 False) data128 data) of
        Inl p \<Rightarrow> Inl p
      | Inr matrix \<Rightarrow>
          (let matrix = foldl (\<lambda>m c. m[7 * 16 + c := foldl (\<lambda>acc r. acc \<noteq> m ! (r * 16 + c)) False [0..<7]]) matrix [0..<16]
           in Inr (gather matrix transposed128)))"

section \<open>Reading and writing places\<close>

lemma length_gather [simp]: "length (gather m p) = length p"
  by (simp add: gather_def)

lemma gather_nth [simp]: "i < length p \<Longrightarrow> gather m p ! i = m ! (p ! i)"
  by (simp add: gather_def)

lemma scatter_simps [simp]:
  "scatter m [] w = m" "scatter m p [] = m" "scatter m (i # p) (b # w) = scatter (m[i := b]) p w"
  by (simp_all add: scatter_def)

lemma length_scatter [simp]: "length (scatter m p w) = length m"
  by (induction p w arbitrary: m rule: list_induct2') simp_all

lemma scatter_other: "j \<notin> set p \<Longrightarrow> scatter m p w ! j = m ! j"
  by (induction p w arbitrary: m rule: list_induct2') simp_all

lemma scatter_nth:
  "distinct p \<Longrightarrow> i < length p \<Longrightarrow> length w = length p \<Longrightarrow> p ! i < length m \<Longrightarrow> scatter m p w ! (p ! i) = w ! i"
proof (induction p w arbitrary: m i rule: list_induct2')
  case (4 x xs y ys)
  then show ?case by (cases i) (simp_all add: scatter_other)
qed simp_all

lemma gather_scatter:
  "distinct p \<Longrightarrow> length w = length p \<Longrightarrow> (\<And>i. i \<in> set p \<Longrightarrow> i < length m) \<Longrightarrow> gather (scatter m p w) p = w"
  by (rule nth_equalityI) (simp_all add: scatter_nth)

lemma gather_cong: "(\<And>i. i \<in> set p \<Longrightarrow> m ! i = m' ! i) \<Longrightarrow> gather m p = gather m' p"
  by (simp add: gather_def)

lemma gather_scatter_other: "set p \<inter> set q = {} \<Longrightarrow> gather (scatter m p w) q = gather m q"
  by (rule gather_cong) (auto intro: scatter_other)

lemma scatter_gather [simp]: "scatter m p (gather m p) = m"
  by (induction p arbitrary: m) (simp_all add: gather_def)

lemma gather_map: "(\<And>i. i \<in> set p \<Longrightarrow> i < length m) \<Longrightarrow> gather (map f m) p = map f (gather m p)"
  by (simp add: gather_def)

text \<open>A word with the bits of a set of places changed.\<close>

definition flip_set :: "nat set \<Rightarrow> bool list \<Rightarrow> bool list" where
  "flip_set E w = map (\<lambda>i. w ! i \<noteq> (i \<in> E)) [0..<length w]"

lemma length_flip_set [simp]: "length (flip_set E w) = length w"
  by (simp add: flip_set_def)

lemma flip_set_nth [simp]: "i < length w \<Longrightarrow> flip_set E w ! i = (w ! i \<noteq> (i \<in> E))"
  by (simp add: flip_set_def)

lemma gather_flip_none: "(\<And>i. i \<in> set p \<Longrightarrow> i < length m) \<Longrightarrow> E \<inter> set p = {} \<Longrightarrow> gather (flip_set E m) p = gather m p"
  by (rule gather_cong) auto

lemma gather_flip_one:
  assumes "\<And>i. i \<in> set p \<Longrightarrow> i < length m" "distinct p" "E \<inter> set p = {x}"
  shows "\<exists>i < length p. gather (flip_set E m) p = flip_at (gather m p) i"
proof -
  have "x \<in> set p" using assms(3) by blast
  then obtain i where i: "i < length p" "p ! i = x" by (auto simp: in_set_conv_nth)
  have "p ! j \<in> E \<longleftrightarrow> j = i" if "j < length p" for j
  proof -
    have "p ! j \<in> E \<longleftrightarrow> p ! j \<in> E \<inter> set p" using that by simp
    also have "\<dots> \<longleftrightarrow> j = i" unfolding assms(3) using i that assms(2) by (auto simp: nth_eq_iff_index_eq)
    finally show ?thesis .
  qed
  then have "gather (flip_set E m) p = flip_at (gather m p) i"
    using assms(1) by (intro nth_equalityI) (auto simp: flip_at_def nth_list_update)
  then show ?thesis using i(1) by blast
qed

section \<open>Hard decoding of rows and columns\<close>

lemma parity_decode_clean:
  assumes "single_error_code code" "codeword code v" "length v = code_n code"
  shows "parity_decode code v = Inr (Some 0, v)"
  using single_error_code.parity_decode_iff [OF assms(1), of v 0 v] assms(2,3) by simp

lemma parity_decode_flip:
  assumes "single_error_code code" "codeword code v" "length v = code_n code" "i < code_n code"
  shows "parity_decode code (flip_at v i) = Inr (Some 1, v)"
proof -
  have "v = flip_at (flip_at v i) i" by simp
  then show ?thesis using single_error_code.parity_decode_iff [OF assms(1), of "flip_at v i" 1 v] assms(2-4) by (metis length_flip_at order_refl)
qed

lemma repair_all_clean:
  assumes "single_error_code code"
  shows "(\<And>p. p \<in> set ps \<Longrightarrow> codeword code (gather m p) \<and> length p = code_n code) \<Longrightarrow> repair_all code ps m k = Inr (Some (m, k))"
  by (induction ps arbitrary: k) (simp_all add: parity_decode_clean [OF assms])

text \<open>One wrong bit in each of some rows or columns is repaired.\<close>

lemma repair_all_restores:
  assumes "single_error_code code"
  shows "distinct (concat ps) \<Longrightarrow>
    (\<And>p. p \<in> set ps \<Longrightarrow> codeword code (gather M p) \<and> length p = code_n code \<and> (\<forall>i \<in> set p. i < length m)) \<Longrightarrow>
    (\<And>p. p \<in> set ps \<Longrightarrow> gather m p = gather M p \<or> (\<exists>i < code_n code. gather m p = flip_at (gather M p) i)) \<Longrightarrow>
    \<exists>m'. repair_all code ps m k = Inr (Some (m', k + length (filter (\<lambda>p. gather m p \<noteq> gather M p) ps))) \<and> length m' = length m \<and>
      (\<forall>p \<in> set ps. gather m' p = gather M p) \<and> (\<forall>j. j \<notin> set (concat ps) \<longrightarrow> m' ! j = m ! j)"
proof (induction ps arbitrary: m k)
  case (Cons p ps)
  let ?m = "scatter m p (gather M p)" and ?e = "if gather m p = gather M p then 0 else Suc 0"
  have p: "codeword code (gather M p)" "length p = code_n code" "\<And>i. i \<in> set p \<Longrightarrow> i < length m" "distinct p"
    "\<And>q. q \<in> set ps \<Longrightarrow> set p \<inter> set q = {}" using Cons.prems(1) Cons.prems(2) [of p] by auto
  have same: "gather ?m q = gather m q" if "q \<in> set ps" for q by (rule gather_scatter_other [OF p(5) [OF that]])
  have decode: "parity_decode code (gather m p) = Inr (Some ?e, gather M p)"
  proof (cases "gather m p = gather M p")
    case True
    then show ?thesis using parity_decode_clean [OF assms p(1)] p(2) by simp
  next
    case False
    then obtain i where "i < code_n code" "gather m p = flip_at (gather M p) i" using Cons.prems(3) [of p] by auto
    then show ?thesis using parity_decode_flip [OF assms p(1)] p(2) False by simp
  qed
  have "\<exists>m'. repair_all code ps ?m (k + ?e) = Inr (Some (m', k + ?e + length (filter (\<lambda>q. gather ?m q \<noteq> gather M q) ps))) \<and> length m' = length ?m \<and>
      (\<forall>q \<in> set ps. gather m' q = gather M q) \<and> (\<forall>j. j \<notin> set (concat ps) \<longrightarrow> m' ! j = ?m ! j)"
  proof (rule Cons.IH)
    show "codeword code (gather M q) \<and> length q = code_n code \<and> (\<forall>i \<in> set q. i < length ?m)" if "q \<in> set ps" for q
      using Cons.prems(2) [of q] that by simp
    show "gather ?m q = gather M q \<or> (\<exists>i < code_n code. gather ?m q = flip_at (gather M q) i)" if "q \<in> set ps" for q
      using Cons.prems(3) [of q] that same [OF that] by simp
  qed (use Cons.prems(1) in simp)
  then obtain m' where m': "repair_all code ps ?m (k + ?e) = Inr (Some (m', k + ?e + length (filter (\<lambda>q. gather ?m q \<noteq> gather M q) ps)))"
    "length m' = length m" "\<forall>q \<in> set ps. gather m' q = gather M q" "\<forall>j. j \<notin> set (concat ps) \<longrightarrow> m' ! j = ?m ! j" by auto
  have "gather m' p = gather ?m p" using m'(4) p(5) by (intro gather_cong) auto
  also have "\<dots> = gather M p" using p(2,3,4) by (intro gather_scatter) simp_all
  finally have "\<forall>q \<in> set (p # ps). gather m' q = gather M q" using m'(3) by simp
  moreover have "\<forall>j. j \<notin> set (concat (p # ps)) \<longrightarrow> m' ! j = m ! j" using m'(4) by (simp add: scatter_other)
  moreover have "filter (\<lambda>q. gather ?m q \<noteq> gather M q) ps = filter (\<lambda>q. gather m q \<noteq> gather M q) ps"
    by (rule filter_cong) (simp_all add: same)
  then have "repair_all code (p # ps) m k = Inr (Some (m', k + length (filter (\<lambda>q. gather m q \<noteq> gather M q) (p # ps))))"
    using m'(1) decode by simp
  ultimately show ?case using m'(2) by blast
qed simp

text \<open>Rows or columns that do not meet.\<close>

definition apart :: "(nat \<Rightarrow> nat list) \<Rightarrow> nat \<Rightarrow> bool" where
  "apart col n \<longleftrightarrow> (\<forall>c < n. distinct (col c)) \<and> (\<forall>c < n. \<forall>d < n. c \<noteq> d \<longrightarrow> set (col c) \<inter> set (col d) = {})"

lemma apart_distinct: "apart col n \<Longrightarrow> distinct (concat (map col [0..<n]))"
proof (induction n)
  case (Suc n)
  have "x \<notin> set (col n)" if "a < n" "x \<in> set (col a)" for a x
  proof -
    have "set (col a) \<inter> set (col n) = {}" using Suc.prems that(1) by (simp add: apart_def)
    then show ?thesis using that(2) by blast
  qed
  moreover have "apart col n" "distinct (col n)" using Suc.prems by (simp_all add: apart_def)
  ultimately show ?case using Suc.IH by auto
qed simp

lemma repair_flipped:
  assumes code: "single_error_code code"
    and places: "apart col n"
      "\<And>c. c < n \<Longrightarrow> codeword code (gather M (col c)) \<and> length (col c) = code_n code \<and> (\<forall>i \<in> set (col c). i < length M)"
    and E: "\<And>x. x \<in> E \<Longrightarrow> num x < n \<and> x \<in> set (col (num x))" "inj_on num E"
    and n: "0 < code_n code"
  shows "\<exists>m'. repair_all code (map col [0..<n]) (flip_set E M) k = Inr (Some (m', k + card E)) \<and> length m' = length M \<and>
      (\<forall>c < n. gather m' (col c) = gather M (col c)) \<and> (\<forall>j. j \<notin> set (concat (map col [0..<n])) \<longrightarrow> m' ! j = flip_set E M ! j)"
proof -
  have only: "num x = c" if "x \<in> E" "x \<in> set (col c)" "c < n" for x c
  proof (rule ccontr)
    assume "num x \<noteq> c"
    then have "set (col (num x)) \<inter> set (col c) = {}"
      using places(1) E(1) [OF that(1)] that(3) by (auto simp: apart_def)
    then show False using E(1) [OF that(1)] that(2) by blast
  qed
  have hit: "gather (flip_set E M) (col c) = gather M (col c) \<and> c \<notin> num ` E \<or>
      (\<exists>i < code_n code. gather (flip_set E M) (col c) = flip_at (gather M (col c)) i) \<and> c \<in> num ` E" if c: "c < n" for c
  proof (cases "c \<in> num ` E")
    case True
    then obtain x where x: "x \<in> E" "c = num x" by blast
    have "y = x" if y: "y \<in> E" "y \<in> set (col c)" for y
    proof (rule inj_onD [OF E(2) _ y(1) x(1)])
      show "num y = num x" using only [OF y c] x(2) by simp
    qed
    moreover have "x \<in> set (col c)" using E(1) [OF x(1)] x(2) by simp
    ultimately have "E \<inter> set (col c) = {x}" using x(1) by blast
    moreover have "distinct (col c)" using places(1) c by (simp add: apart_def)
    ultimately show ?thesis using gather_flip_one [of "col c" M E x] places(2) [OF c] True by auto
  next
    case False
    then have "E \<inter> set (col c) = {}" using only [OF _ _ c] by blast
    then show ?thesis using gather_flip_none [of "col c" M E] places(2) [OF c] False by auto
  qed
  have changed: "flip_at w i \<noteq> w" if "i < length w" for w i using that by (auto simp: flip_at_def list_eq_iff_nth_eq)
  have "filter (\<lambda>p. gather (flip_set E M) p \<noteq> gather M p) (map col [0..<n]) = map col (filter (\<lambda>c. c \<in> num ` E) [0..<n])"
    unfolding filter_map o_def
  proof (rule arg_cong [of _ _ "map col"], rule filter_cong)
    show "(gather (flip_set E M) (col c) \<noteq> gather M (col c)) = (c \<in> num ` E)" if "c \<in> set [0..<n]" for c
      using that hit [of c] changed [of _ "gather M (col c)"] places(2) [of c] by auto
  qed simp
  moreover have "length (filter (\<lambda>c. c \<in> num ` E) [0..<n]) = card E"
  proof -
    have "length (filter (\<lambda>c. c \<in> num ` E) [0..<n]) = card (set (filter (\<lambda>c. c \<in> num ` E) [0..<n]))"
      by (rule distinct_card [symmetric]) simp
    also have "set (filter (\<lambda>c. c \<in> num ` E) [0..<n]) = num ` E" using E(1) by auto
    finally show ?thesis using E(2) by (simp add: card_image)
  qed
  ultimately have count: "length (filter (\<lambda>p. gather (flip_set E M) p \<noteq> gather M p) (map col [0..<n])) = card E" by simp
  show ?thesis
    using repair_all_restores [OF code apart_distinct [OF places(1)], of M "flip_set E M" k] places(2) hit unfolding count by fastforce
qed

section \<open>Encoding rows and columns\<close>

lemma encode_all_codewords:
  "distinct (concat ps) \<Longrightarrow> (\<And>p. p \<in> set ps \<Longrightarrow> length p = code_n code \<and> (\<forall>i \<in> set p. i < length m)) \<Longrightarrow>
    \<exists>m'. encode_all code ps m = Inr m' \<and> length m' = length m \<and> (\<forall>j. j \<notin> set (concat ps) \<longrightarrow> m' ! j = m ! j) \<and>
      (\<forall>p \<in> set ps. codeword code (gather m' p) \<and> (\<forall>i < code_k code. m' ! (p ! i) = m ! (p ! i)))"
proof (induction ps arbitrary: m)
  case (Cons p ps)
  have p: "length p = code_n code" "\<And>i. i \<in> set p \<Longrightarrow> i < length m" "distinct p" "\<And>q. q \<in> set ps \<Longrightarrow> set p \<inter> set q = {}"
    using Cons.prems(1) Cons.prems(2) [of p] by auto
  obtain v where v: "parity_encode code (gather m p) = Inr v" using p(1) by (simp add: parity_encode_def)
  note word = parity_encode_codeword [OF v]
  let ?m = "scatter m p v"
  have "\<exists>m'. encode_all code ps ?m = Inr m' \<and> length m' = length ?m \<and> (\<forall>j. j \<notin> set (concat ps) \<longrightarrow> m' ! j = ?m ! j) \<and>
      (\<forall>p \<in> set ps. codeword code (gather m' p) \<and> (\<forall>i < code_k code. m' ! (p ! i) = ?m ! (p ! i)))"
  proof (rule Cons.IH)
    show "length q = code_n code \<and> (\<forall>i \<in> set q. i < length ?m)" if "q \<in> set ps" for q using Cons.prems(2) [of q] that by simp
  qed (use Cons.prems(1) in simp)
  then obtain m' where m': "encode_all code ps ?m = Inr m'" "length m' = length m" "\<And>j. j \<notin> set (concat ps) \<Longrightarrow> m' ! j = ?m ! j"
    "\<And>q. q \<in> set ps \<Longrightarrow> codeword code (gather m' q)" "\<And>q i. q \<in> set ps \<Longrightarrow> i < code_k code \<Longrightarrow> m' ! (q ! i) = ?m ! (q ! i)" by auto
  have k: "code_k code \<le> code_n code" by (simp add: code_n_def)
  have at: "m' ! j = ?m ! j" if "j \<in> set p" for j using that p(4) by (intro m'(3)) auto
  have "gather m' p = gather ?m p" using at by (rule gather_cong)
  also have "\<dots> = v" using p(1-3) word(3) by (intro gather_scatter) simp_all
  finally have "codeword code (gather m' p)" using word(1) by simp
  moreover have "m' ! (p ! i) = m ! (p ! i)" if i: "i < code_k code" for i
  proof -
    have "i < length p" using i k p(1) by simp
    then have "m' ! (p ! i) = v ! i" using at p word(3) by (simp add: scatter_nth)
    also have "\<dots> = gather m p ! i" using word(2) i by (metis nth_take)
    finally show ?thesis using \<open>i < length p\<close> by simp
  qed
  moreover have "m' ! (q ! i) = m ! (q ! i)" if q: "q \<in> set ps" and i: "i < code_k code" for q i
  proof -
    have "q ! i \<in> set q" using Cons.prems(2) [of q] q i k by simp
    then have "q ! i \<notin> set p" using p(4) [OF q] by blast
    then show ?thesis using m'(5) [OF q i] by (simp add: scatter_other)
  qed
  moreover have "m' ! j = m ! j" if "j \<notin> set (concat (p # ps))" for j using m'(3) [of j] that by (simp add: scatter_other)
  ultimately show ?case using v m'(1,2,4) by auto
qed simp

text \<open>Codewords add up to codewords, so the rows that the columns' check bits form are codewords too.\<close>

lemma codeword_nth:
  assumes "length w = code_n code"
  shows "codeword code w \<longleftrightarrow> (\<forall>j < length (code_parity code). w ! (code_k code + j) = parity_sum code w (code_parity code ! j))"
proof -
  have "codeword code w \<longleftrightarrow> take (code_k code) w @ map (parity_sum code w) (code_parity code) = w"
    using assms by (simp add: codeword_def parity_encode_eq)
  also have "\<dots> \<longleftrightarrow> map (parity_sum code w) (code_parity code) = drop (code_k code) w"
    using same_append_eq [of "take (code_k code) w" _ "drop (code_k code) w"] by (simp only: append_take_drop_id)
  also have "\<dots> \<longleftrightarrow> (\<forall>j < length (code_parity code). w ! (code_k code + j) = parity_sum code w (code_parity code ! j))"
  proof -
    have len: "length w = code_k code + length (code_parity code)" using assms by (simp only: code_n_def)
    then have at: "drop (code_k code) w ! j = w ! (code_k code + j)" for j by (simp add: nth_drop)
    have "length (drop (code_k code) w) = length (code_parity code)" using len by simp
    then show ?thesis unfolding list_eq_iff_nth_eq length_map at by (metis nth_map)
  qed
  finally show ?thesis .
qed

lemma xor_all_add: "xor_all (map (\<lambda>i. f i \<noteq> g i) is) = (xor_all (map f is) \<noteq> xor_all (map g is))"
  by (induction "is") auto

lemma xor_all_none: "xor_all (map (\<lambda>i. False) is) = False"
  by (induction "is") auto

lemma xor_all_swap:
  "xor_all (map (\<lambda>i. P i \<and> xor_all (map (\<lambda>r. Q r \<and> F r i) rs)) is) = xor_all (map (\<lambda>r. Q r \<and> xor_all (map (\<lambda>i. P i \<and> F r i) is)) rs)"
proof (induction rs)
  case (Cons r rs)
  have "xor_all (map (\<lambda>i. P i \<and> xor_all (map (\<lambda>r. Q r \<and> F r i) (r # rs))) is) =
      xor_all (map (\<lambda>i. (P i \<and> Q r \<and> F r i) \<noteq> (P i \<and> xor_all (map (\<lambda>r. Q r \<and> F r i) rs))) is)"
    by (rule arg_cong [of _ _ xor_all], rule map_cong) auto
  moreover have "xor_all (map (\<lambda>i. P i \<and> Q r \<and> F r i) is) = (Q r \<and> xor_all (map (\<lambda>i. P i \<and> F r i) is))"
    by (cases "Q r") (simp_all add: xor_all_none)
  ultimately show ?case using Cons by (simp only: xor_all_add list.map xor_all.simps)
qed (simp add: xor_all_none)

lemma sum_of_codewords:
  assumes rows: "\<And>r. r \<in> set rs \<Longrightarrow> codeword code (f r) \<and> length (f r) = code_n code"
    and w: "length w = code_n code" "\<And>i. i < code_n code \<Longrightarrow> w ! i = xor_all (map (\<lambda>r. sel r \<and> f r ! i) rs)"
  shows "codeword code w"
  unfolding codeword_nth [OF w(1)]
proof (intro allI impI)
  fix j assume j: "j < length (code_parity code)"
  let ?m = "code_parity code ! j"
  have k: "min (code_k code) (code_n code) = code_k code" by (simp add: code_n_def)
  have "parity_sum code w ?m = xor_all (map (\<lambda>i. bit ?m i \<and> xor_all (map (\<lambda>r. sel r \<and> f r ! i) rs)) [0..<code_k code])"
    unfolding parity_sum_eq w(1) k by (intro arg_cong [of _ _ xor_all] map_cong) (simp_all add: w(2) code_n_def)
  also have "\<dots> = xor_all (map (\<lambda>r. sel r \<and> xor_all (map (\<lambda>i. bit ?m i \<and> f r ! i) [0..<code_k code])) rs)"
    by (rule xor_all_swap)
  also have "\<dots> = xor_all (map (\<lambda>r. sel r \<and> f r ! (code_k code + j)) rs)"
  proof (intro arg_cong [of _ _ xor_all] map_cong refl)
    fix r assume "r \<in> set rs"
    then have "f r ! (code_k code + j) = parity_sum code (f r) ?m" using rows [of r] j codeword_nth [of "f r" code] by blast
    then show "(sel r \<and> xor_all (map (\<lambda>i. bit ?m i \<and> f r ! i) [0..<code_k code])) = (sel r \<and> f r ! (code_k code + j))"
      using rows [OF \<open>r \<in> set rs\<close>] by (simp add: parity_sum_eq k)
  qed
  also have "\<dots> = w ! (code_k code + j)" using j by (simp add: w(2) code_n_def)
  finally show "w ! (code_k code + j) = parity_sum code w ?m" by simp
qed

section \<open>Soft decoding of a clean word\<close>

lemma length_chase_trial: "length (chase_trial base order flips pattern) = length base"
proof -
  have "length (foldl (\<lambda>w (j, i). if P j then w[i := \<not> w ! i] else w) w xs) = length w" for P w and xs :: "(nat \<times> nat) list"
    by (induction xs arbitrary: w) auto
  then show ?thesis by (simp only: chase_trial_def)
qed

lemma chase_loop_done: "(\<And>w. length w = length softs \<Longrightarrow> \<exists>r v. decode w = Inr (r, v)) \<Longrightarrow> length base = 16 \<Longrightarrow> length softs \<le> 16 \<Longrightarrow>
    chase_loop softs base order flips decode patterns (Some 0, winner) = Inr (Some 0, winner)"
proof (induction patterns)
  case (Cons x patterns)
  have "length (chase_trial base order flips x) = 16" using Cons.prems(2) by (simp add: length_chase_trial)
  then obtain r v where "decode (take (length softs) (chase_trial base order flips x)) = Inr (r, v)"
    using Cons.prems(1) [of "take (length softs) (chase_trial base order flips x)"] Cons.prems(3) by auto
  then show ?case using Cons.IH [OF Cons.prems] by (cases r) (simp_all add: Let_def)
qed simp

lemma chase_trial_0: "chase_trial base order flips 0 = base"
proof -
  have "foldl (\<lambda>w (j, i). w) base xs = base" for xs :: "(nat \<times> nat) list" by (induction xs) auto
  then show ?thesis by (simp add: chase_trial_def)
qed

lemma chase_clean:
  assumes total: "\<And>w. length w = length softs \<Longrightarrow> \<exists>r v. decode w = Inr (r, v)"
    and clean: "decode (map (\<lambda>s. 0 < s) softs) = Inr (Some e, map (\<lambda>s. 0 < s) softs)"
    and size: "length softs \<le> 16" "flips \<le> length softs" and sure: "0 \<notin> set softs"
  shows "chase softs flips decode = Inr (softs, False)"
proof -
  let ?w = "map (\<lambda>s. 0 < s) softs"
  let ?base = "?w @ replicate (16 - length softs) False"
  let ?order = "sort_key (\<lambda>i. nat \<bar>softs ! i\<bar>) [0..<length softs] @ [length softs..<16]"
  have same: "zip softs ?base = map (\<lambda>s. (s, 0 < s)) softs" by (simp add: zip_append2 zip_map2 zip_same_conv_map)
  have "filter (\<lambda>(s, c). (0 < s) \<noteq> c) (zip softs ?base) = []" unfolding same by (simp add: filter_empty_conv)
  then have cost: "chase_cost softs ?base = 0" by (simp add: chase_cost_def)
  have "[0..<push_bit flips 1] = 0 # [1..<push_bit flips 1]" by (simp add: push_bit_eq_mult upt_conv_Cons)
  then have "chase_loop softs ?base ?order flips decode [0..<push_bit flips 1] (None, ?base) =
      chase_loop softs ?base ?order flips decode [1..<push_bit flips 1] (Some 0, ?base)"
    using clean cost by (simp add: chase_trial_0 Let_def)
  also have "\<dots> = Inr (Some 0, ?base)" using total size(1) by (intro chase_loop_done) simp_all
  finally have run: "chase_loop softs ?base ?order flips decode [0..<push_bit flips 1] (None, ?base) = Inr (Some 0, ?base)" .
  have "map (\<lambda>(s, w). chase_mend s w) (zip softs ?base) = softs"
    unfolding same map_map by (rule map_idI) (use sure in \<open>auto simp: chase_mend_def\<close>)
  moreover have "\<not> list_ex (\<lambda>(s, w). (0 < s) \<noteq> w \<or> s = 0) (zip softs ?base)" unfolding same using sure by (auto simp: list_ex_iff)
  ultimately show ?thesis using run size by (simp add: chase_def MAX_COMPONENT_BITS_def Let_def)
qed

lemma chase_all_clean:
  "(\<And>p. p \<in> set ps \<Longrightarrow> chase (gather m p) flips decode = Inr (gather m p, False)) \<Longrightarrow> chase_all decode flips ps (m, b) = Inr (m, b)"
  by (induction ps) simp_all

lemma parity_decode_total: "code_n code \<le> length w \<Longrightarrow> \<exists>r v. parity_decode code w = Inr (r, v)"
  by (simp add: parity_decode_def Let_def)

lemma chase_codeword:
  assumes "single_error_code code" "code_n code = length p" "code_n code \<le> 16" "flips \<le> code_n code"
    and "codeword code (gather M p)" "M = map (\<lambda>s. 0 < s) m" "\<And>i. i \<in> set p \<Longrightarrow> i < length m" "0 \<notin> set m"
  shows "chase (gather m p) flips (parity_decode code) = Inr (gather m p, False)"
proof (rule chase_clean)
  have "map (\<lambda>s. 0 < s) (gather m p) = gather M p" unfolding assms(6) using assms(7) by (simp add: gather_map)
  then show "parity_decode code (map (\<lambda>s. 0 < s) (gather m p)) = Inr (Some 0, map (\<lambda>s. 0 < s) (gather m p))"
    using parity_decode_clean [OF assms(1,5)] assms(2) by simp
  show "0 \<notin> set (gather m p)"
  proof
    assume "0 \<in> set (gather m p)"
    then obtain i where "i \<in> set p" "m ! i = 0" by (auto simp: gather_def)
    then show False using assms(7,8) nth_mem [of i m] by simp
  qed
qed (use assms(2-4) parity_decode_total in auto)

section \<open>Bptc196\<close>

lemma code_sizes [simp]:
  "code_k HAMMING_13_9 = 9" "code_n HAMMING_13_9 = 13" "code_k HAMMING_15_11 = 11" "code_n HAMMING_15_11 = 15"
  "code_k HAMMING_16_11 = 11" "code_n HAMMING_16_11 = 16"
  by (simp_all add: code_n_def HAMMING_13_9_def HAMMING_15_11_def HAMMING_16_11_def)

lemmas single_error_codes = h13_9.single_error_code_axioms h15_11.single_error_code_axioms h16_11.single_error_code_axioms

lemma column196_places: "length (column196 c) = 13" "r < 13 \<Longrightarrow> column196 c ! r = r * 15 + c + 1" "set (column196 c) = {r * 15 + c + 1 | r. r < 13}"
  by (auto simp: column196_def)

lemma row196_places: "length (row196 r) = 15" "c < 15 \<Longrightarrow> row196 r ! c = r * 15 + c + 1" "set (row196 r) = {r * 15 + 1..<r * 15 + 16}"
  by (auto simp: row196_def)

lemma column196_less: "c < 15 \<Longrightarrow> i \<in> set (column196 c) \<Longrightarrow> i < 196"
  by (auto simp: column196_places)

lemma row196_less: "r < 13 \<Longrightarrow> i \<in> set (row196 r) \<Longrightarrow> i < 196"
  by (auto simp: row196_places)

lemma apart196: "apart column196 15" "apart row196 n"
proof -
  have "r = s \<and> c = d" if "r * 15 + c = s * 15 + d" "c < 15" "d < 15" for r s c d :: nat
  proof -
    have "(r * 15 + c) mod 15 = (s * 15 + d) mod 15" "(r * 15 + c) div 15 = (s * 15 + d) div 15" using that(1) by simp_all
    then show ?thesis using that(2,3) by simp
  qed
  then show "apart column196 15" by (auto simp: apart_def column196_places) (auto simp: column196_def distinct_map inj_on_def)
  have "set (row196 c) \<inter> set (row196 d) = {}" if "c \<noteq> d" for c d
    using that by (cases "c < d") (auto simp: row196_places)
  then show "apart row196 n" by (simp add: apart_def) (simp add: row196_def)
qed

lemma interleave196_inverse: "a < 196 \<Longrightarrow> (a * 181 mod 196) * 13 mod 196 = a" "a < 196 \<Longrightarrow> (a * 13 mod 196) * 181 mod 196 = a" for a :: nat
proof -
  have "a * 2353 mod 196 = a" if "a < 196" for a :: nat
  proof -
    have "a * 2353 = a + a * 12 * 196" by simp
    then show ?thesis using that by (simp only: mod_mult_self1 mod_less)
  qed
  then show "(a * 181 mod 196) * 13 mod 196 = a" "(a * 13 mod 196) * 181 mod 196 = a" if "a < 196"
    using that by (simp_all add: mod_mult_left_eq mult.assoc)
qed

lemma interleave196_places: "length interleave196 = 196" "a < 196 \<Longrightarrow> interleave196 ! a = a * 181 mod 196" "distinct interleave196"
  "i \<in> set interleave196 \<Longrightarrow> i < 196"
proof -
  have "inj_on (\<lambda>a. a * 181 mod 196) {0..<196 :: nat}" by (rule inj_on_inverseI [of _ "\<lambda>a. a * 13 mod 196"]) (simp add: interleave196_inverse)
  then show "distinct interleave196" by (simp add: interleave196_def distinct_map)
qed (auto simp: interleave196_def)

lemma data_positions_places: "length data_positions = 96" "distinct data_positions"
  "a \<in> set data_positions \<Longrightarrow> \<exists>r c. a = r * 15 + c + 1 \<and> r < 9 \<and> c < 11"
proof -
  show "length data_positions = 96" by (simp add: data_positions_def length_concat o_def sum_list_triv)
  show "distinct data_positions" by (simp add: data_positions_def) (simp add: upt_rec)
  assume "a \<in> set data_positions"
  then consider "4 \<le> a" "a < 12" | row where "row < 9" "row * 15 + 1 \<le> a" "a < row * 15 + 12" by (auto simp: data_positions_def)
  then show "\<exists>r c. a = r * 15 + c + 1 \<and> r < 9 \<and> c < 11"
  proof cases
    case 1
    then show ?thesis by (intro exI [of _ 0] exI [of _ "a - 1"]) auto
  next
    case (2 row)
    then show ?thesis by (intro exI [of _ row] exI [of _ "a - row * 15 - 1"]) auto
  qed
qed

definition product196 :: "bool list \<Rightarrow> bool" where
  "product196 M \<longleftrightarrow> length M = 196 \<and> (\<forall>c < 15. codeword HAMMING_13_9 (gather M (column196 c))) \<and>
     (\<forall>r < 13. codeword HAMMING_15_11 (gather M (row196 r)))"

lemma product196_rows:
  assumes cols: "\<And>c. c < 15 \<Longrightarrow> codeword HAMMING_13_9 (gather M (column196 c))"
    and rows: "\<And>r. r < 9 \<Longrightarrow> codeword HAMMING_15_11 (gather M (row196 r))" and r: "r < 13"
  shows "codeword HAMMING_15_11 (gather M (row196 r))"
proof (cases "r < 9")
  case False
  let ?mask = "code_parity HAMMING_13_9 ! (r - 9)"
  have four: "length (code_parity HAMMING_13_9) = 4" by (simp add: HAMMING_13_9_def)
  show ?thesis
  proof (rule sum_of_codewords)
    show "codeword HAMMING_15_11 (gather M (row196 s)) \<and> length (gather M (row196 s)) = code_n HAMMING_15_11" if "s \<in> set [0..<9]" for s
      using rows that by (simp add: row196_places)
    show "length (gather M (row196 r)) = code_n HAMMING_15_11" by (simp add: row196_places)
    fix c assume "c < code_n HAMMING_15_11"
    then have c: "c < 15" by simp
    let ?col = "gather M (column196 c)"
    have "\<forall>j < 4. ?col ! (9 + j) = parity_sum HAMMING_13_9 ?col (code_parity HAMMING_13_9 ! j)"
      using cols [OF c] codeword_nth [of ?col HAMMING_13_9] by (simp add: column196_places four)
    then have "?col ! (9 + (r - 9)) = parity_sum HAMMING_13_9 ?col ?mask" using r by simp
    moreover have "?col ! (9 + (r - 9)) = gather M (row196 r) ! c" using False r c by (simp add: column196_places row196_places)
    ultimately have "gather M (row196 r) ! c = xor_all (map (\<lambda>i. bit ?mask i \<and> ?col ! i) [0..<9])" by (simp add: parity_sum_eq column196_places)
    also have "map (\<lambda>i. bit ?mask i \<and> ?col ! i) [0..<9] = map (\<lambda>i. bit ?mask i \<and> gather M (row196 i) ! c) [0..<9]"
      using c by (intro map_cong) (simp_all add: column196_places row196_places)
    finally show "gather M (row196 r) ! c = xor_all (map (\<lambda>i. bit ?mask i \<and> gather M (row196 i) ! c) [0..<9])" .
  qed
qed (rule rows)

lemma encode196_product:
  assumes "length data = 96"
  obtains M where "encode196 data = Inr (scatter (replicate 196 False) interleave196 M)" "product196 M" "gather M data_positions = data"
proof -
  let ?M0 = "scatter (replicate 196 False) data_positions data"
  have "\<exists>m'. encode_all HAMMING_15_11 (map row196 [0..<9]) ?M0 = Inr m' \<and> length m' = length ?M0 \<and>
      (\<forall>j. j \<notin> set (concat (map row196 [0..<9])) \<longrightarrow> m' ! j = ?M0 ! j) \<and>
      (\<forall>p \<in> set (map row196 [0..<9]). codeword HAMMING_15_11 (gather m' p) \<and> (\<forall>i < code_k HAMMING_15_11. m' ! (p ! i) = ?M0 ! (p ! i)))"
    by (rule encode_all_codewords [OF apart_distinct [OF apart196(2)]]) (auto simp: row196_places)
  then obtain M1 where M1: "encode_all HAMMING_15_11 (map row196 [0..<9]) ?M0 = Inr M1" "length M1 = 196"
    "\<And>r. r < 9 \<Longrightarrow> codeword HAMMING_15_11 (gather M1 (row196 r))" "\<And>r i. r < 9 \<Longrightarrow> i < 11 \<Longrightarrow> M1 ! (row196 r ! i) = ?M0 ! (row196 r ! i)"
    by auto
  have "\<exists>m'. encode_all HAMMING_13_9 (map column196 [0..<15]) M1 = Inr m' \<and> length m' = length M1 \<and>
      (\<forall>j. j \<notin> set (concat (map column196 [0..<15])) \<longrightarrow> m' ! j = M1 ! j) \<and>
      (\<forall>p \<in> set (map column196 [0..<15]). codeword HAMMING_13_9 (gather m' p) \<and> (\<forall>i < code_k HAMMING_13_9. m' ! (p ! i) = M1 ! (p ! i)))"
    by (rule encode_all_codewords [OF apart_distinct [OF apart196(1)]]) (auto simp: column196_places M1(2))
  then obtain M where M: "encode_all HAMMING_13_9 (map column196 [0..<15]) M1 = Inr M" "length M = 196"
    "\<And>c. c < 15 \<Longrightarrow> codeword HAMMING_13_9 (gather M (column196 c))" "\<And>c i. c < 15 \<Longrightarrow> i < 9 \<Longrightarrow> M ! (column196 c ! i) = M1 ! (column196 c ! i)"
    using M1(2) by auto
  have top: "M ! (r * 15 + c + 1) = M1 ! (r * 15 + c + 1)" if "r < 9" "c < 15" for r c
    using M(4) [OF that(2,1)] that by (simp add: column196_places)
  have row: "gather M (row196 r) = gather M1 (row196 r)" if "r < 9" for r
    by (rule nth_equalityI) (use top [OF that] in \<open>simp_all add: row196_places\<close>)
  have "product196 M"
    unfolding product196_def using M(2,3) product196_rows [of M] M1(3) row by simp
  moreover have "gather M data_positions = gather ?M0 data_positions"
  proof (rule gather_cong)
    fix a assume "a \<in> set data_positions"
    then obtain r c where a: "a = r * 15 + c + 1" "r < 9" "c < 11" using data_positions_places(3) by blast
    then show "M ! a = ?M0 ! a" using top [of r c] M1(4) [of r c] by (simp add: row196_places)
  qed
  moreover have "gather ?M0 data_positions = data"
    using assms data_positions_places by (intro gather_scatter) fastforce+
  moreover have "encode196 data = Inr (scatter (replicate 196 False) interleave196 M)"
    by (simp add: encode196_def M1(1) M(1))
  ultimately show ?thesis using that by simp
qed

lemma pass196_flipped:
  assumes M: "product196 M" and E: "E \<subseteq> {1..<196}" "inj_on (\<lambda>x. (x - 1) mod 15) E"
  shows "pass196 (flip_set E M) = Inr (Some (M, card E))"
proof -
  have len: "length M = 196" using M by (simp add: product196_def)
  have "\<exists>m'. repair_all HAMMING_13_9 (map column196 [0..<15]) (flip_set E M) 0 = Inr (Some (m', 0 + card E)) \<and> length m' = length M \<and>
      (\<forall>c < 15. gather m' (column196 c) = gather M (column196 c)) \<and>
      (\<forall>j. j \<notin> set (concat (map column196 [0..<15])) \<longrightarrow> m' ! j = flip_set E M ! j)"
  proof (rule repair_flipped [OF single_error_codes(1) apart196(1) _ _ E(2)])
    show "codeword HAMMING_13_9 (gather M (column196 c)) \<and> length (column196 c) = code_n HAMMING_13_9 \<and> (\<forall>i \<in> set (column196 c). i < length M)"
      if "c < 15" for c using M that column196_less [OF that] by (simp add: product196_def column196_places(1))
    show "(x - 1) mod 15 < 15 \<and> x \<in> set (column196 ((x - 1) mod 15))" if "x \<in> E" for x
    proof -
      have x: "1 \<le> x" "x < 196" using that E(1) by auto
      then have "x = (x - 1) div 15 * 15 + (x - 1) mod 15 + 1" "(x - 1) div 15 < 13" by (simp_all only: div_mult_mod_eq)
      then have "x \<in> set (column196 ((x - 1) mod 15))" unfolding column196_places(3) by blast
      then show ?thesis by simp
    qed
  qed simp
  then obtain m' where m': "repair_all HAMMING_13_9 (map column196 [0..<15]) (flip_set E M) 0 = Inr (Some (m', card E))" "length m' = 196"
    "\<And>c. c < 15 \<Longrightarrow> gather m' (column196 c) = gather M (column196 c)"
    "\<And>j. j \<notin> set (concat (map column196 [0..<15])) \<Longrightarrow> m' ! j = flip_set E M ! j" using len by auto
  have "m' = M"
  proof (rule nth_equalityI)
    fix j assume "j < length m'"
    then have j: "j < 196" using m'(2) by simp
    show "m' ! j = M ! j"
    proof (cases "j = 0")
      case True
      have "0 \<notin> E" using E(1) by auto
      moreover have "0 \<notin> set (concat (map column196 [0..<15]))" by (auto simp: column196_places)
      ultimately show ?thesis using m'(4) [of 0] len True by simp
    next
      case False
      define r c where "r = (j - 1) div 15" and "c = (j - 1) mod 15"
      have rc: "r < 13" "c < 15" "j = r * 15 + c + 1" using j False by (auto simp: r_def c_def)
      have "gather m' (column196 c) ! r = gather M (column196 c) ! r" using m'(3) [OF rc(2)] by simp
      then show ?thesis using rc by (simp add: column196_places)
    qed
  qed (simp add: m'(2) len)
  moreover have "repair_all HAMMING_15_11 (map row196 [0..<9]) M (card E) = Inr (Some (M, card E))"
    by (rule repair_all_clean [OF single_error_codes(2)]) (use M in \<open>auto simp: product196_def row196_places\<close>)
  ultimately show ?thesis using m'(1) by (simp add: pass196_def)
qed

lemma settle196_flipped:
  assumes M: "product196 M" and E: "E \<subseteq> {1..<196}" "inj_on (\<lambda>x. (x - 1) mod 15) E"
  shows "settle196 (flip_set E M) = Inr (Some (M, card E))"
proof -
  have "flip_set {} M = M" by (rule nth_equalityI) simp_all
  then have "pass196 M = Inr (Some (M, 0))" using pass196_flipped [OF M, of "{}"] by simp
  then show ?thesis using pass196_flipped [OF assms] by (simp add: settle196_def MAX_PASSES_def eval_nat_numeral)
qed

lemma flip_set_split: "length w = n \<Longrightarrow> flip_set F w = flip_set (F - Z) (flip_set (F \<inter> Z) w)"
  by (rule nth_equalityI) auto

lemma product196_spare:
  assumes "product196 M"
  shows "product196 (flip_set (F \<inter> {0}) M)" "gather (flip_set (F \<inter> {0}) M) data_positions = gather M data_positions"
proof -
  have len: "length M = 196" using assms by (simp add: product196_def)
  have same: "gather (flip_set (F \<inter> {0}) M) p = gather M p" if "\<And>i. i \<in> set p \<Longrightarrow> 0 < i \<and> i < 196" for p
    using that by (intro gather_flip_none) (auto simp: len)
  have "gather (flip_set (F \<inter> {0}) M) (column196 c) = gather M (column196 c)" if "c < 15" for c
    using column196_less [OF that] by (intro same) (auto simp: column196_places)
  moreover have "gather (flip_set (F \<inter> {0}) M) (row196 r) = gather M (row196 r)" if "r < 13" for r
    using row196_less [OF that] by (intro same) (auto simp: row196_places)
  ultimately show "product196 (flip_set (F \<inter> {0}) M)" using assms by (simp add: product196_def)
  show "gather (flip_set (F \<inter> {0}) M) data_positions = gather M data_positions"
    using data_positions_places(3) by (intro same) fastforce
qed

lemma image_without: "f ` S - {0 :: nat} = f ` {p \<in> S. f p \<noteq> 0}"
  by auto

lemma decode196_flipped:
  assumes data: "length data = 96" "encode196 data = Inr coded"
    and S: "S \<subseteq> {..<196}" "inj_on (\<lambda>p. (p * 13 mod 196 - 1) mod 15) (S - {0})"
  shows "decode196 (flip_set S coded) = Inr (Some (data, card (S - {0})))"
proof -
  obtain M where M: "coded = scatter (replicate 196 False) interleave196 M" "product196 M" "gather M data_positions = data"
    using encode196_product [OF data(1)] data(2) by auto
  have len: "length M = 196" "length coded = 196" using M by (simp_all add: product196_def)
  let ?at = "\<lambda>p. p * 13 mod 196"
  have inj: "inj_on ?at S" by (rule inj_on_inverseI [of _ "\<lambda>a. a * 181 mod 196"]) (use S(1) interleave196_inverse(2) in auto)
  have hit: "a * 181 mod 196 \<in> S \<longleftrightarrow> a \<in> ?at ` S" if "a < 196" for a
    using that S(1) interleave196_inverse by (auto simp: image_iff) (metis lessThan_iff subsetD)
  have "gather (flip_set S coded) interleave196 = flip_set (?at ` S) M"
  proof (rule nth_equalityI)
    fix a assume "a < length (gather (flip_set S coded) interleave196)"
    then have a: "a < 196" by (simp add: interleave196_places)
    have "coded ! (interleave196 ! a) = M ! a"
      unfolding M(1) using a interleave196_places len by (intro scatter_nth) auto
    then show "gather (flip_set S coded) interleave196 ! a = flip_set (?at ` S) M ! a"
      using a hit [OF a] by (simp add: interleave196_places len)
  qed (simp add: interleave196_places len)
  then have matrix: "deinterleave (flip_set S coded) = flip_set (?at ` S - {0}) (flip_set (?at ` S \<inter> {0}) M)"
    using flip_set_split [OF len(1)] by (simp add: deinterleave_def)
  have zero: "?at ` S - {0} = ?at ` (S - {0})"
  proof -
    have "?at p = 0 \<longleftrightarrow> p = 0" if "p \<in> S" for p using interleave196_inverse(2) [of p] S(1) that by auto
    then have "{p \<in> S. ?at p \<noteq> 0} = S - {0}" by (simp only: set_diff_eq singleton_iff cong: conj_cong)
    then show ?thesis using image_without [of ?at S] by simp
  qed
  have E: "?at ` S - {0} \<subseteq> {1..<196}" by auto
  have "inj_on (\<lambda>x. (x - 1) mod 15) (?at ` S - {0})" unfolding zero using S(2) by (auto simp: inj_on_def)
  from settle196_flipped [OF product196_spare(1) [OF M(2)] E this]
  have "settle196 (deinterleave (flip_set S coded)) = Inr (Some (flip_set (?at ` S \<inter> {0}) M, card (?at ` S - {0})))" unfolding matrix .
  moreover have "card (?at ` S - {0}) = card (S - {0})" unfolding zero by (rule card_image) (rule inj_on_subset [OF inj], blast)
  ultimately show ?thesis using product196_spare(2) [OF M(2)] M(3) by (simp add: decode196_def extract196_def)
qed

lemma soft_settle_clean:
  assumes "step m = Inr (m, False)" "settle (map (\<lambda>s. 0 < s) m) = Inr (Some (map (\<lambda>s. 0 < s) m, 0))"
  shows "soft_settle step settle extract m = Inr (Some (extract (map (\<lambda>s. 0 < s) m), 0))"
proof -
  have "filter (\<lambda>(a, b). a \<noteq> b) (zip xs xs) = []" for xs :: "bool list" by (induction xs) simp_all
  then show ?thesis using assms by (simp add: soft_settle_def MAX_PASSES_def eval_nat_numeral Let_def)
qed

lemma decode_soft196_clean:
  assumes data: "length data = 96" "encode196 data = Inr (map (\<lambda>s. 0 < s) softs)" and sure: "0 \<notin> set softs"
  shows "decode_soft196 softs = Inr (Some (data, 0))"
proof -
  obtain M where M: "map (\<lambda>s. 0 < s) softs = scatter (replicate 196 False) interleave196 M" "product196 M" "gather M data_positions = data"
    using encode196_product [OF data(1)] data(2) by auto
  let ?m = "gather softs interleave196"
  have "length (map (\<lambda>s. 0 < s) softs) = 196" unfolding M(1) by simp
  then have len: "length softs = 196" "length M = 196" "length ?m = 196" using M(2) by (simp_all add: product196_def interleave196_places)
  have "map (\<lambda>s. 0 < s) ?m = gather (map (\<lambda>s. 0 < s) softs) interleave196"
    using interleave196_places(4) len(1) by (simp add: gather_map)
  also have "\<dots> = M" unfolding M(1) using interleave196_places len(2) by (intro gather_scatter) auto
  finally have m: "M = map (\<lambda>s. 0 < s) ?m" by simp
  have m0: "0 \<notin> set ?m"
  proof
    assume "0 \<in> set ?m"
    then obtain i where "i \<in> set interleave196" "softs ! i = 0" by (auto simp: gather_def)
    then show False using interleave196_places(4) len(1) sure nth_mem [of i softs] by simp
  qed
  have col: "chase (gather ?m (column196 c)) CHASE_FLIPS (parity_decode HAMMING_13_9) = Inr (gather ?m (column196 c), False)" if "c < 15" for c
    using M(2) that column196_less [OF that] len(3)
    by (intro chase_codeword [OF single_error_codes(1) _ _ _ _ m _ m0]) (simp_all add: product196_def column196_places(1) CHASE_FLIPS_def)
  have row: "chase (gather ?m (row196 r)) CHASE_FLIPS (parity_decode HAMMING_15_11) = Inr (gather ?m (row196 r), False)" if "r < 13" for r
    using M(2) that row196_less [OF that] len(3)
    by (intro chase_codeword [OF single_error_codes(2) _ _ _ _ m _ m0]) (simp_all add: product196_def row196_places(1) CHASE_FLIPS_def)
  have "chase_all (parity_decode HAMMING_13_9) CHASE_FLIPS (map column196 [0..<15]) (?m, False) = Inr (?m, False)"
    by (rule chase_all_clean) (use col in auto)
  moreover have "chase_all (parity_decode HAMMING_15_11) CHASE_FLIPS (map row196 [0..<13]) (?m, False) = Inr (?m, False)"
    by (rule chase_all_clean) (use row in auto)
  ultimately have "soft_pass196 ?m = Inr (?m, False)" by (simp add: soft_pass196_def)
  moreover have "settle196 (map (\<lambda>s. 0 < s) ?m) = Inr (Some (map (\<lambda>s. 0 < s) ?m, 0))"
  proof -
    have "flip_set {} M = M" by (rule nth_equalityI) simp_all
    then show ?thesis using settle196_flipped [OF M(2), of "{}"] unfolding m by simp
  qed
  ultimately have "soft_settle soft_pass196 settle196 extract196 ?m = Inr (Some (extract196 M, 0))"
    using soft_settle_clean [of soft_pass196 ?m settle196 extract196] m by simp
  moreover have "\<not> list_all (\<lambda>s. s = 0) softs" using sure len(1) by (cases softs) auto
  ultimately show ?thesis using M(3) by (simp add: decode_soft196_def extract196_def)
qed

section \<open>Bptc128\<close>

lemma transpose128_inverse: "a < 127 \<Longrightarrow> (a * 16 mod 127) * 8 mod 127 = a" "a < 127 \<Longrightarrow> (a * 8 mod 127) * 16 mod 127 = a" for a :: nat
proof -
  have "a * 128 mod 127 = a" if "a < 127" for a :: nat
  proof -
    have "a * 128 = a + a * 127" by simp
    then show ?thesis using that by (simp only: mod_mult_self1 mod_less)
  qed
  then show "(a * 16 mod 127) * 8 mod 127 = a" "(a * 8 mod 127) * 16 mod 127 = a" if "a < 127"
    using that by (simp_all add: mod_mult_left_eq mult.assoc)
qed

lemma transpose128_less: "transpose128 a < 128"
proof -
  have "a * 16 mod 127 < 127" by simp
  then have "a * 16 mod 127 < 128" by (rule less_trans) simp
  then show ?thesis by (simp add: transpose128_def)
qed

lemma transpose128_last: "transpose128 a = 127 \<longleftrightarrow> a = 127"
proof -
  have "a * 16 mod 127 < 127" by simp
  then have "a * 16 mod 127 \<noteq> 127" by (rule less_imp_neq)
  then show ?thesis by (simp add: transpose128_def)
qed

lemma transpose128_inj: "inj_on transpose128 {..<128}"
proof (rule inj_onI)
  fix a b assume ab: "a \<in> {..<128}" "b \<in> {..<128}" "transpose128 a = transpose128 b"
  have "a = 127 \<longleftrightarrow> b = 127" using transpose128_last [of a] transpose128_last [of b] ab(3) by simp
  moreover have "a = b" if "a \<noteq> 127" "b \<noteq> 127"
  proof -
    have less: "a < 127" "b < 127" using that ab(1,2) by auto
    have "a * 16 mod 127 = b * 16 mod 127" using ab(3) that by (simp only: transpose128_def if_False)
    then have "(a * 16 mod 127) * 8 mod 127 = (b * 16 mod 127) * 8 mod 127" by (rule arg_cong)
    then show ?thesis unfolding transpose128_inverse(1) [OF less(1)] transpose128_inverse(1) [OF less(2)] .
  qed
  ultimately show "a = b" by blast
qed

lemma transposed128_places: "length transposed128 = 128" "a < 128 \<Longrightarrow> transposed128 ! a = transpose128 a" "distinct transposed128"
  "i \<in> set transposed128 \<Longrightarrow> i < 128"
proof -
  show "distinct transposed128" unfolding transposed128_def distinct_map
    by (intro conjI inj_on_subset [OF transpose128_inj]) auto
qed (auto simp: transposed128_def transpose128_less)

lemma set_transposed128: "set transposed128 = {..<128}"
proof -
  have "transpose128 ` {..<128} = {..<128}" by (rule endo_inj_surj [OF _ _ transpose128_inj]) (auto simp: transpose128_less)
  then show ?thesis by (simp add: transposed128_def atLeast0LessThan)
qed

lemma row128_places: "length (row128 r) = 16" "c < 16 \<Longrightarrow> row128 r ! c = r * 16 + c" "set (row128 r) = {r * 16..<r * 16 + 16}"
  by (auto simp: row128_def)

lemma column128_places: "length (column128 c) = 8" "r < 8 \<Longrightarrow> column128 c ! r = r * 16 + c" "set (column128 c) = {r * 16 + c | r. r < 8}"
  by (auto simp: column128_def)

lemma apart128: "apart row128 n"
proof -
  have "set (row128 c) \<inter> set (row128 d) = {}" if "c \<noteq> d" for c d
    using that by (cases "c < d") (auto simp: row128_places)
  then show ?thesis by (simp add: apart_def) (simp add: row128_def)
qed

lemma data128_places: "length data128 = 77" "distinct data128" "a \<in> set data128 \<Longrightarrow> \<exists>r c. a = r * 16 + c \<and> r < 7 \<and> c < 11"
proof -
  have "inj_on (\<lambda>i. i div 11 * 16 + i mod 11) {0..<77 :: nat}"
  proof (rule inj_onI)
    fix x y :: nat
    assume "x div 11 * 16 + x mod 11 = y div 11 * 16 + y mod 11"
    then have "(x div 11 * 16 + x mod 11) div 16 = (y div 11 * 16 + y mod 11) div 16" "(x div 11 * 16 + x mod 11) mod 16 = (y div 11 * 16 + y mod 11) mod 16" by simp_all
    moreover have "n mod 11 < 16" for n :: nat using mod_less_divisor [of 11 n] by simp
    ultimately have "x div 11 = y div 11" "x mod 11 = y mod 11" by simp_all
    then show "x = y" by (metis div_mult_mod_eq)
  qed
  then show "distinct data128" by (simp add: data128_def distinct_map)
  show "\<exists>r c. a = r * 16 + c \<and> r < 7 \<and> c < 11" if a: "a \<in> set data128"
  proof -
    obtain i where "i < 77" "a = i div 11 * 16 + i mod 11" using a by (auto simp: data128_def)
    then show ?thesis by (intro exI [of _ "i div 11"] exI [of _ "i mod 11"]) auto
  qed
qed (simp add: data128_def)

definition product128 :: "bool list \<Rightarrow> bool" where
  "product128 M \<longleftrightarrow> length M = 128 \<and> (\<forall>r < 8. codeword HAMMING_16_11 (gather M (row128 r))) \<and>
     (\<forall>c < 16. \<not> xor_all (gather M (column128 c)))"

lemma column_sum128: "foldl (\<lambda>acc r. acc \<noteq> M ! (r * 16 + c)) False [0..<n] = xor_all (map (\<lambda>r. M ! (r * 16 + c)) [0..<n])"
  using foldl_xor_all [of "\<lambda>r. M ! (r * 16 + c)" False "[0..<n]"] by simp

lemma gather_column128: "gather M (column128 c) = map (\<lambda>r. M ! (r * 16 + c)) [0..<8]"
  by (simp add: gather_def column128_def)

text \<open>The row of column parities.\<close>

lemma parity_row128:
  assumes "length M1 = 128"
  defines "M \<equiv> foldl (\<lambda>m c. m[7 * 16 + c := foldl (\<lambda>acc r. acc \<noteq> m ! (r * 16 + c)) False [0..<7]]) M1 [0..<16]"
  shows "length M = 128" "i < 112 \<Longrightarrow> M ! i = M1 ! i" "c < 16 \<Longrightarrow> M ! (112 + c) = xor_all (map (\<lambda>r. M1 ! (r * 16 + c)) [0..<7])"
proof -
  let ?f = "\<lambda>m c. m[7 * 16 + c := foldl (\<lambda>acc r. acc \<noteq> m ! (r * 16 + c)) False [0..<7]]"
  have "n \<le> 16 \<Longrightarrow> length (foldl ?f M1 [0..<n]) = 128 \<and> (\<forall>i < 112. foldl ?f M1 [0..<n] ! i = M1 ! i) \<and>
      (\<forall>c < n. foldl ?f M1 [0..<n] ! (112 + c) = xor_all (map (\<lambda>r. M1 ! (r * 16 + c)) [0..<7]))" for n
  proof (induction n)
    case 0
    show ?case using assms by simp
  next
    case (Suc n)
    define m where "m = foldl ?f M1 [0..<n]"
    have m: "length m = 128" "\<And>i. i < 112 \<Longrightarrow> m ! i = M1 ! i" "\<And>c. c < n \<Longrightarrow> m ! (112 + c) = xor_all (map (\<lambda>r. M1 ! (r * 16 + c)) [0..<7])"
      using Suc unfolding m_def by auto
    have same: "map (\<lambda>r. m ! (r * 16 + n)) [0..<7] = map (\<lambda>r. M1 ! (r * 16 + n)) [0..<7]"
      using Suc.prems by (intro map_cong refl m(2)) auto
    have "foldl ?f M1 [0..<Suc n] = ?f m n" by (simp add: m_def)
    also have "\<dots> = m[112 + n := xor_all (map (\<lambda>r. M1 ! (r * 16 + n)) [0..<7])]" unfolding column_sum128 same by simp
    finally have "foldl ?f M1 [0..<Suc n] = m[112 + n := xor_all (map (\<lambda>r. M1 ! (r * 16 + n)) [0..<7])]" .
    then show ?case using m Suc.prems by (simp only:) (auto simp: less_Suc_eq nth_list_update)
  qed
  from this [of 16] show "length M = 128" "i < 112 \<Longrightarrow> M ! i = M1 ! i" "c < 16 \<Longrightarrow> M ! (112 + c) = xor_all (map (\<lambda>r. M1 ! (r * 16 + c)) [0..<7])"
    by (auto simp: M_def)
qed

lemma encode128_product:
  assumes "length data = 77"
  obtains M where "encode128 data = Inr (gather M transposed128)" "product128 M" "gather M data128 = data"
proof -
  let ?M0 = "scatter (replicate 128 False) data128 data"
  have "\<exists>m'. encode_all HAMMING_16_11 (map row128 [0..<7]) ?M0 = Inr m' \<and> length m' = length ?M0 \<and>
      (\<forall>j. j \<notin> set (concat (map row128 [0..<7])) \<longrightarrow> m' ! j = ?M0 ! j) \<and>
      (\<forall>p \<in> set (map row128 [0..<7]). codeword HAMMING_16_11 (gather m' p) \<and> (\<forall>i < code_k HAMMING_16_11. m' ! (p ! i) = ?M0 ! (p ! i)))"
    by (rule encode_all_codewords [OF apart_distinct [OF apart128]]) (auto simp: row128_places)
  then obtain M1 where M1: "encode_all HAMMING_16_11 (map row128 [0..<7]) ?M0 = Inr M1" "length M1 = 128"
    "\<And>r. r < 7 \<Longrightarrow> codeword HAMMING_16_11 (gather M1 (row128 r))" "\<And>r i. r < 7 \<Longrightarrow> i < 11 \<Longrightarrow> M1 ! (row128 r ! i) = ?M0 ! (row128 r ! i)"
    by auto
  define M where "M = foldl (\<lambda>m c. m[7 * 16 + c := foldl (\<lambda>acc r. acc \<noteq> m ! (r * 16 + c)) False [0..<7]]) M1 [0..<16]"
  note M = parity_row128 [OF M1(2), folded M_def]
  have row: "gather M (row128 r) = gather M1 (row128 r)" if "r < 7" for r
    using that by (intro gather_cong M(2)) (auto simp: row128_places)
  have last: "M ! (112 + c) = xor_all (map (\<lambda>r. True \<and> gather M (row128 r) ! c) [0..<7])" if "c < 16" for c
  proof -
    have "map (\<lambda>r. M1 ! (r * 16 + c)) [0..<7] = map (\<lambda>r. True \<and> gather M (row128 r) ! c) [0..<7]"
      using that row by (intro map_cong) (auto simp: row128_places)
    then show ?thesis unfolding M(3) [OF that] by (rule arg_cong)
  qed
  have "codeword HAMMING_16_11 (gather M (row128 7))"
  proof (rule sum_of_codewords)
    show "codeword HAMMING_16_11 (gather M (row128 r)) \<and> length (gather M (row128 r)) = code_n HAMMING_16_11" if "r \<in> set [0..<7]" for r
      using that row M1(3) by (simp add: row128_places)
    show "length (gather M (row128 7)) = code_n HAMMING_16_11" by (simp add: row128_places)
    show "gather M (row128 7) ! c = xor_all (map (\<lambda>r. True \<and> gather M (row128 r) ! c) [0..<7])" if "c < code_n HAMMING_16_11" for c
      using last [of c] that by (simp add: row128_places)
  qed
  then have rows: "codeword HAMMING_16_11 (gather M (row128 r))" if "r < 8" for r
    using that row [of r] M1(3) [of r] by (cases "r = 7") simp_all
  have cols: "\<not> xor_all (gather M (column128 c))" if "c < 16" for c
  proof -
    have split: "[0..<8] = [0..<7] @ [7 :: nat]" by (simp add: upt_rec)
    have app: "xor_all (xs @ ys) = (xor_all xs \<noteq> xor_all ys)" for xs ys by (induction xs) auto
    have "map (\<lambda>r. M ! (r * 16 + c)) [0..<7] = map (\<lambda>r. True \<and> gather M (row128 r) ! c) [0..<7]"
      using that by (intro map_cong) (auto simp: row128_places)
    then have "xor_all (map (\<lambda>r. M ! (r * 16 + c)) [0..<7]) = M ! (112 + c)" unfolding last [OF that] by (rule arg_cong)
    then show ?thesis unfolding gather_column128 split map_append app by simp
  qed
  have "product128 M" unfolding product128_def using M(1) rows cols by simp
  moreover have "gather M data128 = gather ?M0 data128"
  proof (rule gather_cong)
    fix a assume "a \<in> set data128"
    then obtain r c where a: "a = r * 16 + c" "r < 7" "c < 11" using data128_places(3) by blast
    then show "M ! a = ?M0 ! a" using M(2) [of a] M1(4) [of r c] by (simp add: row128_places)
  qed
  moreover have "gather ?M0 data128 = data"
    using assms data128_places by (intro gather_scatter) fastforce+
  moreover have "encode128 data = Inr (gather M transposed128)" by (simp add: encode128_def M1(1) M_def Let_def)
  ultimately show ?thesis using that by simp
qed

lemma settle128_flipped:
  assumes M: "product128 M" and E: "E \<subseteq> {..<112}" "inj_on (\<lambda>x. x div 16) E"
  shows "settle128 (flip_set E M) = Inr (Some (M, card E))"
proof -
  have len: "length M = 128" using M by (simp add: product128_def)
  have "\<exists>m'. repair_all HAMMING_16_11 (map row128 [0..<7]) (flip_set E M) 0 = Inr (Some (m', 0 + card E)) \<and> length m' = length M \<and>
      (\<forall>r < 7. gather m' (row128 r) = gather M (row128 r)) \<and>
      (\<forall>j. j \<notin> set (concat (map row128 [0..<7])) \<longrightarrow> m' ! j = flip_set E M ! j)"
  proof (rule repair_flipped [OF single_error_codes(3) apart128 _ _ E(2)])
    show "codeword HAMMING_16_11 (gather M (row128 r)) \<and> length (row128 r) = code_n HAMMING_16_11 \<and> (\<forall>i \<in> set (row128 r). i < length M)"
      if "r < 7" for r using M that by (auto simp: product128_def row128_places)
    show "x div 16 < 7 \<and> x \<in> set (row128 (x div 16))" if "x \<in> E" for x
      using that E(1) by (auto simp: row128_places)
  qed simp
  then obtain m' where m': "repair_all HAMMING_16_11 (map row128 [0..<7]) (flip_set E M) 0 = Inr (Some (m', card E))" "length m' = 128"
    "\<And>r. r < 7 \<Longrightarrow> gather m' (row128 r) = gather M (row128 r)"
    "\<And>j. j \<notin> set (concat (map row128 [0..<7])) \<Longrightarrow> m' ! j = flip_set E M ! j" using len by auto
  have "m' = M"
  proof (rule nth_equalityI)
    fix j assume "j < length m'"
    then have j: "j < 128" using m'(2) by simp
    show "m' ! j = M ! j"
    proof (cases "j < 112")
      case True
      define r c where "r = j div 16" and "c = j mod 16"
      have rc: "r < 7" "c < 16" "j = r * 16 + c" using True by (auto simp: r_def c_def)
      have "gather m' (row128 r) ! c = gather M (row128 r) ! c" using m'(3) [OF rc(1)] by simp
      then show ?thesis using rc by (simp add: row128_places)
    next
      case False
      then have "j \<notin> E" "j \<notin> set (concat (map row128 [0..<7]))" using E(1) by (auto simp: row128_places)
      then show ?thesis using m'(4) [of j] len j by simp
    qed
  qed (simp add: m'(2) len)
  moreover have "\<not> list_ex (\<lambda>c. foldl (\<lambda>acc r. acc \<noteq> M ! (r * 16 + c)) False [0..<8]) [0..<16]"
    using M unfolding column_sum128 gather_column128 [symmetric] by (simp add: product128_def list_ex_iff)
  ultimately show ?thesis using m'(1) by (simp add: settle128_def)
qed

lemma scatter128_nth:
  assumes "length w = 128" "length m = 128" "a < 128"
  shows "scatter m transposed128 w ! transpose128 a = w ! a"
  using scatter_nth [OF transposed128_places(3), of a w m] assms transpose128_less by (simp add: transposed128_places)

lemma matrix128_eqI:
  assumes "length v = 128" "length w = 128" "\<And>a. a < 128 \<Longrightarrow> v ! transpose128 a = w ! transpose128 a"
  shows "v = w"
proof (rule nth_equalityI)
  fix j assume "j < length v"
  then have "j \<in> set transposed128" using assms(1) by (simp add: set_transposed128)
  then obtain a where "a < 128" "j = transpose128 a" by (auto simp: transposed128_def)
  then show "v ! j = w ! j" using assms(3) by simp
qed (simp add: assms)

lemma decode128_flipped:
  assumes data: "length data = 77" "encode128 data = Inr coded"
    and S: "S \<subseteq> {p. p < 128 \<and> transpose128 p < 112}" "inj_on (\<lambda>p. transpose128 p div 16) S"
  shows "decode128 (flip_set S coded) = Inr (Some (data, card S))"
proof -
  obtain M where M: "coded = gather M transposed128" "product128 M" "gather M data128 = data"
    using encode128_product [OF data(1)] data(2) by auto
  have len: "length M = 128" "length coded = 128" using M by (simp_all add: product128_def transposed128_places)
  have inj: "inj_on transpose128 S" by (rule inj_on_subset [OF transpose128_inj]) (use S(1) in auto)
  have hit: "transpose128 a \<in> transpose128 ` S \<longleftrightarrow> a \<in> S" if "a < 128" for a
    using inj_on_image_mem_iff [OF transpose128_inj, of a S] that S(1) by auto
  have "scatter (replicate 128 False) transposed128 (flip_set S coded) = flip_set (transpose128 ` S) M"
  proof (rule matrix128_eqI)
    fix a :: nat assume a: "a < 128"
    have "scatter (replicate 128 False) transposed128 (flip_set S coded) ! transpose128 a = flip_set S coded ! a"
      by (rule scatter128_nth) (simp_all add: a len)
    also have "\<dots> = (M ! transpose128 a \<noteq> (a \<in> S))" using a len by (simp add: M(1) transposed128_places)
    finally show "scatter (replicate 128 False) transposed128 (flip_set S coded) ! transpose128 a = flip_set (transpose128 ` S) M ! transpose128 a"
      using hit [OF a] transpose128_less [of a] len by simp
  qed (simp_all add: len)
  moreover have "inj_on (\<lambda>x. x div 16) (transpose128 ` S)" using S(2) by (auto simp: inj_on_def)
  then have "settle128 (flip_set (transpose128 ` S) M) = Inr (Some (M, card (transpose128 ` S)))"
    using S(1) by (intro settle128_flipped [OF M(2)]) auto
  ultimately show ?thesis using M(3) by (simp add: decode128_def extract128_def card_image [OF inj])
qed

lemma chase_even:
  assumes "M = map (\<lambda>s. 0 < s) m" "\<not> xor_all (gather M p)" "length p = 8" "\<And>i. i \<in> set p \<Longrightarrow> i < length m" "0 \<notin> set m"
  shows "chase (gather m p) 1 even_parity_decode = Inr (gather m p, False)"
proof (rule chase_clean)
  have "map (\<lambda>s. 0 < s) (gather m p) = gather M p" unfolding assms(1) using assms(4) by (simp add: gather_map)
  moreover have "foldl (\<lambda>acc b. acc \<noteq> b) False w = xor_all w" for w using foldl_xor_all [of "\<lambda>b. b" False w] by simp
  ultimately show "even_parity_decode (map (\<lambda>s. 0 < s) (gather m p)) = Inr (Some 0, map (\<lambda>s. 0 < s) (gather m p))"
    using assms(2) unfolding even_parity_decode_def by (simp only: if_False)
  show "0 \<notin> set (gather m p)"
  proof
    assume "0 \<in> set (gather m p)"
    then obtain i where "i \<in> set p" "m ! i = 0" by (auto simp: gather_def)
    then show False using assms(4,5) nth_mem [of i m] by simp
  qed
qed (use assms(3) in \<open>auto simp: even_parity_decode_def\<close>)

lemma decode_soft128_clean:
  assumes data: "length data = 77" "encode128 data = Inr (map (\<lambda>s. 0 < s) softs)" and sure: "0 \<notin> set softs"
  shows "decode_soft128 softs = Inr (Some (data, 0))"
proof -
  obtain M where M: "map (\<lambda>s. 0 < s) softs = gather M transposed128" "product128 M" "gather M data128 = data"
    using encode128_product [OF data(1)] data(2) by auto
  let ?m = "scatter (replicate 128 0) transposed128 softs"
  have "length (map (\<lambda>s. 0 < s) softs) = 128" unfolding M(1) by (simp add: transposed128_places)
  then have len: "length softs = 128" "length M = 128" "length ?m = 128" using M(2) by (simp_all add: product128_def)
  have at: "?m ! transpose128 a = softs ! a" if "a < 128" for a by (rule scatter128_nth) (simp_all add: that len)
  have m: "M = map (\<lambda>s. 0 < s) ?m"
  proof (rule matrix128_eqI)
    fix a :: nat assume a: "a < 128"
    have "M ! transpose128 a = map (\<lambda>s. 0 < s) softs ! a" unfolding M(1) using a by (simp add: transposed128_places)
    then show "M ! transpose128 a = map (\<lambda>s. 0 < s) ?m ! transpose128 a" using a at [OF a] len transpose128_less [of a] by simp
  qed (simp_all add: len)
  have m0: "0 \<notin> set ?m"
  proof
    assume "0 \<in> set ?m"
    then obtain j where j: "j < 128" "?m ! j = 0" using len(3) by (metis in_set_conv_nth)
    then have "j \<in> set transposed128" by (simp add: set_transposed128)
    then obtain a where "a < 128" "j = transpose128 a" by (auto simp: transposed128_def)
    then show False using j at [of a] sure len(1) nth_mem [of a softs] by simp
  qed
  have row: "chase (gather ?m (row128 r)) CHASE_FLIPS (parity_decode HAMMING_16_11) = Inr (gather ?m (row128 r), False)" if "r < 8" for r
  proof (rule chase_codeword [OF single_error_codes(3) _ _ _ _ m _ m0])
    show "codeword HAMMING_16_11 (gather M (row128 r))" using M(2) that by (simp add: product128_def)
    show "i < length ?m" if "i \<in> set (row128 r)" for i using that \<open>r < 8\<close> by (simp add: row128_places)
  qed (simp_all add: row128_places CHASE_FLIPS_def)
  have col: "chase (gather ?m (column128 c)) 1 even_parity_decode = Inr (gather ?m (column128 c), False)" if "c < 16" for c
  proof (rule chase_even [OF m _ _ _ m0])
    show "\<not> xor_all (gather M (column128 c))" using M(2) that by (simp add: product128_def)
    show "i < length ?m" if "i \<in> set (column128 c)" for i using that \<open>c < 16\<close> by (auto simp: column128_places)
  qed (simp add: column128_places)
  have "chase_all (parity_decode HAMMING_16_11) CHASE_FLIPS (map row128 [0..<8]) (?m, False) = Inr (?m, False)"
    by (rule chase_all_clean) (use row in auto)
  moreover have "chase_all even_parity_decode 1 (map column128 [0..<16]) (?m, False) = Inr (?m, False)"
    by (rule chase_all_clean) (use col in auto)
  ultimately have "soft_pass128 ?m = Inr (?m, False)" by (simp add: soft_pass128_def)
  moreover have "settle128 (map (\<lambda>s. 0 < s) ?m) = Inr (Some (map (\<lambda>s. 0 < s) ?m, 0))"
  proof -
    have "flip_set {} M = M" by (rule nth_equalityI) simp_all
    then show ?thesis using settle128_flipped [OF M(2), of "{}"] unfolding m by simp
  qed
  ultimately have "soft_settle soft_pass128 settle128 extract128 ?m = Inr (Some (extract128 M, 0))"
    using soft_settle_clean [of soft_pass128 ?m settle128 extract128] m by simp
  moreover have "\<not> list_all (\<lambda>s. s = 0) softs" using sure len(1) by (cases softs) auto
  ultimately show ?thesis using M(3) by (simp add: decode_soft128_def extract128_def)
qed

section \<open>Properties\<close>

text \<open>
  C10: What the product codes encode is decoded unchanged, with errors too.  In a block of 196 bits any
  received bits may be wrong of which no two stand in the same column of the matrix (and the spare first
  bit), in a block of 128 bits any of which no two stand in the same row and none in the row of parities;
  the decoder returns the data and the number of bits it repaired.  The soft decoders return the data of a
  block whose signs are right, whatever the reliability of its bits, and report no corrections.
\<close>

theorem bptc_restores_data:
  shows "(length data = 96 \<and> encode196 data = Inr coded \<and> S \<subseteq> {..<196} \<and> inj_on (\<lambda>p. (p * 13 mod 196 - 1) mod 15) (S - {0}) \<longrightarrow>
      decode196 (flip_set S coded) = Inr (Some (data, card (S - {0})))) \<and>
    (length data = 77 \<and> encode128 data = Inr coded \<and> S \<subseteq> {p. p < 128 \<and> transpose128 p < 112} \<and> inj_on (\<lambda>p. transpose128 p div 16) S \<longrightarrow>
      decode128 (flip_set S coded) = Inr (Some (data, card S))) \<and>
    (length data = 96 \<and> encode196 data = Inr (map (\<lambda>s. 0 < s) softs) \<and> 0 \<notin> set softs \<longrightarrow> decode_soft196 softs = Inr (Some (data, 0))) \<and>
    (length data = 77 \<and> encode128 data = Inr (map (\<lambda>s. 0 < s) softs) \<and> 0 \<notin> set softs \<longrightarrow> decode_soft128 softs = Inr (Some (data, 0))) \<and>
    (length data = 96 \<longrightarrow> (\<exists>c. encode196 data = Inr c \<and> length c = 196)) \<and> (length data = 77 \<longrightarrow> (\<exists>c. encode128 data = Inr c \<and> length c = 128))"
proof (intro conjI impI)
  show "\<exists>c. encode196 data = Inr c \<and> length c = 196" if "length data = 96"
    using encode196_product [OF that] by (metis length_scatter length_replicate)
  show "\<exists>c. encode128 data = Inr c \<and> length c = 128" if "length data = 77"
    using encode128_product [OF that] by (metis length_gather transposed128_places(1))
qed (use decode196_flipped decode128_flipped decode_soft196_clean decode_soft128_clean in blast)+

theorem bptc_restores_data_witness:
  "map_sum id (\<lambda>coded. decode196 (flip_set {0, 3, 44} coded)) (encode196 (replicate 96 True)) = Inr (Inr (Some (replicate 96 True, 2)))"
proof -
  have data: "length (replicate 96 True) = 96" by simp
  then obtain coded where coded: "encode196 (replicate 96 True) = Inr coded"
    using bptc_restores_data [of "replicate 96 True"] by blast
  have "{0, 3, 44 :: nat} \<subseteq> {..<196}" by simp
  moreover have "{0, 3, 44 :: nat} - {0} = {3, 44}" by auto
  moreover have "inj_on (\<lambda>p. (p * 13 mod 196 - 1) mod 15) {3, 44 :: nat}" by (simp add: inj_on_def)
  ultimately have "decode196 (flip_set {0, 3, 44} coded) = Inr (Some (replicate 96 True, 2))"
    using bptc_restores_data [of "replicate 96 True" coded "{0, 3, 44}" "[]"] coded data by simp
  then show ?thesis by (simp add: coded)
qed

end
