(* ===== verification/Prbs.thy ===== *)
theory Prbs
  imports Bit_Stream
begin

text \<open>
  The energy-dispersal generator of \<open>crates/dsp/src/fec/prbs.rs\<close>: a shift register whose feedback
  bits are added to bits or bytes.
\<close>

section \<open>Definitions\<close>

record PrbsSpec =
  stages :: nat
  taps :: u32
  seed :: u32

definition DAB_DISPERSAL :: PrbsSpec where
  "DAB_DISPERSAL = \<lparr>stages = 9, taps = 0x110, seed = 0x1FF\<rparr>"

definition DVB_DISPERSAL :: PrbsSpec where
  "DVB_DISPERSAL = \<lparr>stages = 15, taps = 0x6000, seed = 0x00A9\<rparr>"

record Prbs =
  spec :: PrbsSpec
  register :: u32
  prbs_mask :: u32

text \<open>A shift by 32 or more overflows.\<close>

definition Prbs_new :: "PrbsSpec \<Rightarrow> Prbs panics" where
  "Prbs_new s =
     (if stages s < 32 then Inr \<lparr>spec = s, register = seed s, prbs_mask = push_bit (stages s) 1 - 1\<rparr>
      else Inl Overflow)"

definition prbs_reset :: "Prbs \<Rightarrow> Prbs" where
  "prbs_reset p = p\<lparr>register := seed (spec p)\<rparr>"

definition next_bit :: "Prbs \<Rightarrow> bool \<times> Prbs" where
  "next_bit p =
     (let fb = count_ones (register p AND taps (spec p)) mod 2;
          p = p\<lparr>register := (push_bit 1 (register p) OR word_of_nat fb) AND prbs_mask p\<rparr>
      in (fb = 1, p))"

fun apply_bits :: "Prbs \<Rightarrow> bool list \<Rightarrow> bool list \<times> Prbs" where
  "apply_bits p [] = ([], p)"
| "apply_bits p (b # bs) =
     (let (k, p) = next_bit p; (bs, p) = apply_bits p bs in ((b \<noteq> k) # bs, p))"

definition prbs_byte :: "Prbs \<Rightarrow> u8 \<times> Prbs" where
  "prbs_byte p =
     foldl (\<lambda>(scrambled, p) index. let (k, p) = next_bit p in (scrambled OR push_bit index (of_bool k), p))
       (0, p) [7, 6, 5, 4, 3, 2, 1, 0]"

fun apply_bytes :: "Prbs \<Rightarrow> bytes \<Rightarrow> bytes \<times> Prbs" where
  "apply_bytes p [] = ([], p)"
| "apply_bytes p (b # bs) =
     (let (k, p) = prbs_byte p; (bs, p) = apply_bytes p bs in ((b XOR k) # bs, p))"

definition skip_bytes :: "Prbs \<Rightarrow> nat \<Rightarrow> Prbs" where
  "skip_bytes p count = ((\<lambda>p. snd (next_bit p)) ^^ (count * 8)) p"

section \<open>The keystream\<close>

fun keystream :: "Prbs \<Rightarrow> nat \<Rightarrow> bool list" where
  "keystream p 0 = []"
| "keystream p (Suc n) = fst (next_bit p) # keystream (snd (next_bit p)) n"

abbreviation after_bits :: "nat \<Rightarrow> Prbs \<Rightarrow> Prbs" where
  "after_bits n \<equiv> (\<lambda>p. snd (next_bit p)) ^^ n"

lemma length_keystream [simp]: "length (keystream p n) = n"
  by (induction n arbitrary: p) simp_all

lemma after_Suc: "after_bits (Suc n) p = after_bits n (snd (next_bit p))"
  by (simp only: funpow_Suc_right comp_apply)

lemma keystream_add: "keystream p (m + n) = keystream p m @ keystream (after_bits m p) n"
  by (induction m arbitrary: p) (simp_all add: after_Suc del: funpow.simps(2))

lemma apply_bits_keystream:
  "apply_bits p bs = (xor_bits bs (keystream p (length bs)), after_bits (length bs) p)"
  by (induction bs arbitrary: p) (simp_all add: split_beta after_Suc del: funpow.simps(2))

lemma prbs_byte_keystream:
  "msb_first (fst (prbs_byte p)) = keystream p 8 \<and> snd (prbs_byte p) = after_bits 8 p"
proof -
  define k where "k i = fst (next_bit (after_bits i p))" for i
  have ks: "keystream p 8 = map k [0, Suc 0, 2, 3, 4, 5, 6, 7]"
    by (simp add: k_def eval_nat_numeral funpow_swap1)
  define b :: u8 where "b = (((((((0 OR push_bit 7 (of_bool (k 0))) OR push_bit 6 (of_bool (k 1))) OR
    push_bit 5 (of_bool (k 2))) OR push_bit 4 (of_bool (k 3))) OR push_bit 3 (of_bool (k 4))) OR
    push_bit 2 (of_bool (k 5))) OR push_bit 1 (of_bool (k 6))) OR push_bit 0 (of_bool (k 7))"
  have "prbs_byte p = (b, after_bits 8 p)"
    by (simp add: prbs_byte_def split_beta b_def k_def eval_nat_numeral funpow_swap1)
  moreover have "msb_first b = map k [0, Suc 0, 2, 3, 4, 5, 6, 7]"
  proof -
    have one: "bit (push_bit i (of_bool c) :: u8) j \<longleftrightarrow> j = i \<and> c" if "j < 8" for i j c
      using that by (auto simp: bit_push_bit_iff)
    show ?thesis unfolding msb_first_def b_def bit_or_iff list.map by (simp only: one) simp
  qed
  ultimately show ?thesis using ks by simp
qed

lemma apply_bytes_keystream:
  "message_bits (fst (apply_bytes p data)) = xor_bits (message_bits data) (keystream p (8 * length data)) \<and>
   snd (apply_bytes p data) = after_bits (8 * length data) p \<and> length (fst (apply_bytes p data)) = length data"
proof (induction data arbitrary: p)
  case (Cons b data)
  let ?p = "after_bits 8 p"
  have "keystream p (8 * length (b # data)) = keystream p 8 @ keystream ?p (8 * length data)"
    using keystream_add [of p 8 "8 * length data"] by simp
  moreover have "after_bits (8 * length (b # data)) p = after_bits (8 * length data) ?p"
    using funpow_add [where f = "\<lambda>p. snd (next_bit p)" and m = "8 * length data" and n = 8]
    by (simp add: add.commute)
  ultimately show ?case
    using prbs_byte_keystream [of p] Cons.IH [of ?p]
    by (simp add: split_beta msb_first_xor xor_bits_append)
qed simp

lemma xor_bits_involution: "length ks = length bs \<Longrightarrow> xor_bits (xor_bits bs ks) ks = bs"
  by (rule nth_equalityI) (auto simp: xor_bits_nth)

section \<open>Properties\<close>

text \<open>
  dispersal undoes itself: applied twice from the same register it gives back the bits, or the
  bytes, and leaves the register in the same place both times.
\<close>

theorem prbs_involution:
  "apply_bits p (fst (apply_bits p bits)) = (bits, snd (apply_bits p bits)) \<and>
   apply_bytes p (fst (apply_bytes p data)) = (data, snd (apply_bytes p data))"
proof
  show "apply_bits p (fst (apply_bits p bits)) = (bits, snd (apply_bits p bits))"
    by (simp add: apply_bits_keystream xor_bits_involution)
  let ?once = "apply_bytes p data"
  let ?twice = "apply_bytes p (fst ?once)"
  have once: "message_bits (fst ?once) = xor_bits (message_bits data) (keystream p (8 * length data))"
    "length (fst ?once) = length data" "snd ?once = after_bits (8 * length data) p"
    by (simp_all only: apply_bytes_keystream)
  have twice: "message_bits (fst ?twice) = xor_bits (message_bits (fst ?once)) (keystream p (8 * length data))"
    "length (fst ?twice) = length data" "snd ?twice = after_bits (8 * length data) p"
    using apply_bytes_keystream [of p "fst ?once"] once(2) by simp_all
  have "message_bits (fst ?twice) = message_bits data"
    unfolding twice(1) once(1) by (rule xor_bits_involution) simp
  then have "fst ?twice = data"
    using twice(2) pack_roundtrip_msb by metis
  then show "?twice = (data, snd ?once)" using twice(3) once(3) by (metis prod.collapse)
qed

text \<open>
  the byte-wise dispersal is the bit-wise one on the bits of the bytes, most significant first,
  and skipping \<open>n\<close> bytes leaves the register where dispersing \<open>n\<close> bytes does.
\<close>

theorem prbs_bytes_are_bits:
  "apply_bits p (message_bits data) = (message_bits (fst (apply_bytes p data)), snd (apply_bytes p data)) \<and>
   skip_bytes p (length data) = snd (apply_bytes p data)"
  using apply_bytes_keystream [of p data]
  by (simp add: apply_bits_keystream skip_bytes_def mult.commute)

end
