(* ===== verification/Rust_Text.thy ===== *)
theory Rust_Text
  imports Prelude
begin

text \<open>
  What the sources use of Rust's text and byte-order library.

  A \<open>char\<close> is a Unicode scalar value, kept as a natural number (\<open>scalar\<close> says which numbers are
  scalar values); a \<open>String\<close> or \<open>&str\<close> is the list of its characters.  \<open>as_bytes\<close> is the UTF-8 encoding
  \<open>utf8_encode\<close>, \<open>from_utf8\<close> the strict decoder, which refuses overlong forms, surrogates and values
  past U+10FFFF.  ASCII literals of the sources are HOL strings, read as scalar lists by \<open>chars\<close>.

  The lemmas show that the strict decoder and the encoder are inverse to each other, and that the
  big-endian and little-endian readers of \<open>u16\<close> and \<open>u32\<close> invert the writers.
\<close>

type_synonym rtext = "nat list"

section \<open>Byte order\<close>

definition be16 :: "u16 \<Rightarrow> bytes" where
  "be16 w = [ucast (drop_bit 8 w), ucast w]"

definition be32 :: "u32 \<Rightarrow> bytes" where
  "be32 w = [ucast (drop_bit 24 w), ucast (drop_bit 16 w), ucast (drop_bit 8 w), ucast w]"

definition le32 :: "u32 \<Rightarrow> bytes" where
  "le32 w = rev (be32 w)"

definition le16 :: "u16 \<Rightarrow> bytes" where
  "le16 w = rev (be16 w)"

definition of_be16 :: "u8 \<Rightarrow> u8 \<Rightarrow> u16" where
  "of_be16 a b = push_bit 8 (ucast a) OR ucast b"

definition of_be32 :: "u8 \<Rightarrow> u8 \<Rightarrow> u8 \<Rightarrow> u8 \<Rightarrow> u32" where
  "of_be32 a b c d = push_bit 24 (ucast a) OR (push_bit 16 (ucast b) OR (push_bit 8 (ucast c) OR ucast d))"

lemma bit_u8_high [simp]: "8 \<le> n \<Longrightarrow> \<not> bit (b :: u8) n"
  by (auto dest: bit_imp_le_length)

lemma of_be16_be16 [simp]: "of_be16 (ucast (drop_bit 8 w)) (ucast w) = w"
  unfolding of_be16_def
  by (rule bit_word_eqI) (auto simp: bit_simps not_less)

lemma of_be32_be32 [simp]:
  "of_be32 (ucast (drop_bit 24 w)) (ucast (drop_bit 16 w)) (ucast (drop_bit 8 w)) (ucast w) = w"
proof (rule bit_word_eqI)
  fix n
  assume "n < LENGTH(32)"
  then consider "n < 8" | "8 \<le> n" "n < 16" | "16 \<le> n" "n < 24" | "24 \<le> n" "n < 32" by force
  then show "bit (of_be32 (ucast (drop_bit 24 w)) (ucast (drop_bit 16 w)) (ucast (drop_bit 8 w)) (ucast w)) n = bit w n"
    by cases (auto simp: of_be32_def bit_simps not_less)
qed

lemma be16_of_be16 [simp]: "be16 (of_be16 a b) = [a, b]"
  unfolding of_be16_def be16_def
  by (auto intro!: bit_word_eqI simp: bit_simps)

lemma be32_of_be32 [simp]: "be32 (of_be32 a b c d) = [a, b, c, d]"
  unfolding of_be32_def be32_def
  by (auto intro!: bit_word_eqI simp: bit_simps)

lemma length_be [simp]:
  "length (be16 v) = 2" "length (be32 w) = 4" "length (le16 v) = 2" "length (le32 w) = 4"
  by (simp_all add: be16_def be32_def le16_def le32_def)

section \<open>UTF-8\<close>

definition scalar :: "nat \<Rightarrow> bool" where
  "scalar c \<longleftrightarrow> c < 0xD800 \<or> 0xE000 \<le> c \<and> c < 0x110000"

abbreviation scalars :: "rtext \<Rightarrow> bool" where
  "scalars s \<equiv> list_all scalar s"

definition chars :: "string \<Rightarrow> rtext" where
  "chars s = map of_char s"

definition byte_of :: "nat \<Rightarrow> u8" where
  "byte_of n = of_nat n"

definition utf8_char :: "nat \<Rightarrow> bytes" where
  "utf8_char c =
     (if c < 0x80 then [byte_of c]
      else if c < 0x800 then [byte_of (0xC0 + c div 64), byte_of (0x80 + c mod 64)]
      else if c < 0x10000 then
        [byte_of (0xE0 + c div 4096), byte_of (0x80 + c div 64 mod 64), byte_of (0x80 + c mod 64)]
      else
        [byte_of (0xF0 + c div 262144), byte_of (0x80 + c div 4096 mod 64),
         byte_of (0x80 + c div 64 mod 64), byte_of (0x80 + c mod 64)])"

definition utf8_encode :: "rtext \<Rightarrow> bytes" where
  "utf8_encode s = concat (map utf8_char s)"

definition tail_byte :: "u8 \<Rightarrow> bool" where
  "tail_byte b \<longleftrightarrow> 0x80 \<le> unat b \<and> unat b < 0xC0"

text \<open>One character off the front: its value and the rest, or nothing when the bytes are malformed.\<close>

fun utf8_next :: "bytes \<Rightarrow> (nat \<times> bytes) option" where
  "utf8_next [] = None"
| "utf8_next (a # r) =
     (if unat a < 0x80 then Some (unat a, r)
      else if unat a < 0xC0 then None
      else if unat a < 0xE0 then
        (case r of
           b # r' \<Rightarrow>
             let v = (unat a - 0xC0) * 64 + (unat b - 0x80)
             in if tail_byte b \<and> 0x80 \<le> v then Some (v, r') else None
         | _ \<Rightarrow> None)
      else if unat a < 0xF0 then
        (case r of
           b # c # r' \<Rightarrow>
             let v = (unat a - 0xE0) * 4096 + (unat b - 0x80) * 64 + (unat c - 0x80)
             in if tail_byte b \<and> tail_byte c \<and> 0x800 \<le> v \<and> scalar v then Some (v, r') else None
         | _ \<Rightarrow> None)
      else
        (case r of
           b # c # d # r' \<Rightarrow>
             let v = (unat a - 0xF0) * 262144 + (unat b - 0x80) * 4096 + (unat c - 0x80) * 64 + (unat d - 0x80)
             in if tail_byte b \<and> tail_byte c \<and> tail_byte d \<and> 0x10000 \<le> v \<and> scalar v then Some (v, r') else None
         | _ \<Rightarrow> None))"

lemma utf8_next_shorter: "utf8_next bs = Some (c, r) \<Longrightarrow> length r < length bs"
  by (cases bs) (auto simp: Let_def split: if_splits list.splits)

function from_utf8 :: "bytes \<Rightarrow> rtext option" where
  "from_utf8 bs =
     (if bs = [] then Some []
      else case utf8_next bs of
             None \<Rightarrow> None
           | Some (c, r) \<Rightarrow> map_option ((#) c) (from_utf8 r))"
  by pat_completeness auto
termination
  by (relation "measure length") (auto dest: utf8_next_shorter)

declare from_utf8.simps [simp del]

lemma from_utf8_Nil [simp]: "from_utf8 [] = Some []"
  by (simp add: from_utf8.simps)

lemma unat_byte_of [simp]: "n < 256 \<Longrightarrow> unat (byte_of n) = n"
  by (simp add: byte_of_def unat_of_nat)

lemma byte_of_unat [simp]: "byte_of (unat b) = b"
  by (simp add: byte_of_def)

lemma utf8_next_char: "scalar c \<Longrightarrow> utf8_next (utf8_char c @ r) = Some (c, r)"
proof -
  assume c: "scalar c"
  have div2: "c div 4096 = c div 64 div 64" and div3: "c div 262144 = c div 4096 div 64"
    by (simp_all flip: div_mult2_eq)
  have split2: "c div 64 * 64 + c mod 64 = c" by simp
  have split3: "c div 4096 * 4096 + c div 64 mod 64 * 64 + c mod 64 = c"
    using div_mult_mod_eq [of "c div 64" 64] split2 unfolding div2 by linarith
  have split4: "c div 262144 * 262144 + c div 4096 mod 64 * 4096 + c div 64 mod 64 * 64 + c mod 64 = c"
    using div_mult_mod_eq [of "c div 4096" 64] split3 unfolding div3 by linarith
  have small: "c mod 64 < 64" "c div 64 mod 64 < 64" "c div 4096 mod 64 < 64" by simp_all
  consider "c < 0x80" | "0x80 \<le> c" "c < 0x800" | "0x800 \<le> c" "c < 0x10000" | "0x10000 \<le> c" "c < 0x110000"
    using c by (fastforce simp: scalar_def)
  then show ?thesis
  proof cases
    case 2
    then have "c div 64 < 32" by simp
    with 2 split2 small show ?thesis by (simp add: utf8_char_def tail_byte_def Let_def) linarith
  next
    case 3
    then have "c div 4096 < 16" by simp
    with 3 split3 small c show ?thesis by (simp add: utf8_char_def tail_byte_def Let_def)
  next
    case 4
    then have "c div 262144 < 5" by simp
    with 4 split4 small c show ?thesis by (simp add: utf8_char_def tail_byte_def Let_def)
  qed (simp add: utf8_char_def)
qed

lemma from_utf8_encode [simp]: "scalars s \<Longrightarrow> from_utf8 (utf8_encode s) = Some s"
proof (induction s)
  case (Cons c s)
  have "utf8_char c \<noteq> []" by (simp add: utf8_char_def)
  with Cons show ?case
    by (simp add: utf8_encode_def from_utf8.simps [of "utf8_char c @ _"] utf8_next_char)
qed (simp add: utf8_encode_def)

lemma tail_byteE:
  assumes "tail_byte b"
  obtains t where "t < 64" and "b = byte_of (0x80 + t)"
proof
  show "unat b - 0x80 < 64" and "b = byte_of (0x80 + (unat b - 0x80))"
    using assms by (simp_all add: tail_byte_def less_diff_conv2)
qed

lemma lead_byteE:
  assumes "k \<le> unat b"
  obtains t where "unat b = k + t" and "b = byte_of (k + t)"
proof
  show "unat b = k + (unat b - k)" and "b = byte_of (k + (unat b - k))"
    using assms by simp_all
qed

lemma sextets:
  fixes p q r s :: nat
  assumes "q < 64" "r < 64" "s < 64"
  shows "(p * 64 + q) div 64 = p" "(p * 64 + q) mod 64 = q"
    and "(p * 4096 + q * 64 + r) div 4096 = p" "(p * 4096 + q * 64 + r) div 64 mod 64 = q"
    and "(p * 4096 + q * 64 + r) mod 64 = r"
    and "(p * 262144 + q * 4096 + r * 64 + s) div 262144 = p"
    and "(p * 262144 + q * 4096 + r * 64 + s) div 4096 mod 64 = q"
    and "(p * 262144 + q * 4096 + r * 64 + s) div 64 mod 64 = r"
    and "(p * 262144 + q * 4096 + r * 64 + s) mod 64 = s"
proof -
  have three: "p * 4096 + q * 64 + r = (p * 64 + q) * 64 + r"
    and four: "p * 262144 + q * 4096 + r * 64 + s = ((p * 64 + q) * 64 + r) * 64 + s" by simp_all
  have divs: "n div 4096 = n div 64 div 64" "n div 262144 = n div 64 div 64 div 64" for n :: nat
    by (simp_all flip: div_mult2_eq)
  have step: "x < 64 \<Longrightarrow> (y * 64 + x) div 64 = y" "x < 64 \<Longrightarrow> (y * 64 + x) mod 64 = x" for x y :: nat
    by simp_all
  show "(p * 64 + q) div 64 = p" "(p * 64 + q) mod 64 = q"
    and "(p * 4096 + q * 64 + r) div 4096 = p" "(p * 4096 + q * 64 + r) div 64 mod 64 = q"
    and "(p * 4096 + q * 64 + r) mod 64 = r"
    and "(p * 262144 + q * 4096 + r * 64 + s) div 262144 = p"
    and "(p * 262144 + q * 4096 + r * 64 + s) div 4096 mod 64 = q"
    and "(p * 262144 + q * 4096 + r * 64 + s) div 64 mod 64 = r"
    and "(p * 262144 + q * 4096 + r * 64 + s) mod 64 = s"
    unfolding three four divs using assms by (simp_all only: step)
qed

lemma utf8_char_next: "utf8_next bs = Some (c, r) \<Longrightarrow> utf8_char c @ r = bs \<and> scalar c"
proof (cases bs)
  case (Cons a s)
  assume got: "utf8_next bs = Some (c, r)"
  consider (one) "unat a < 0x80" | (two) "0xC0 \<le> unat a" "unat a < 0xE0"
    | (three) "0xE0 \<le> unat a" "unat a < 0xF0" | (four) "0xF0 \<le> unat a"
    using got Cons by (fastforce split: if_splits)
  then show ?thesis
  proof cases
    case one
    with got Cons show ?thesis by (auto simp: utf8_char_def scalar_def)
  next
    case two
    obtain p where p: "unat a = 0xC0 + p" "a = byte_of (0xC0 + p)" using two(1) by (rule lead_byteE)
    from got Cons two obtain b where s: "s = b # r" and b: "tail_byte b"
      and c: "c = p * 64 + (unat b - 0x80)" and lo: "0x80 \<le> c"
      by (auto simp: p(1) Let_def split: list.splits if_splits)
    from b obtain q where q: "q < 64" "b = byte_of (0x80 + q)" by (rule tail_byteE)
    with c have c': "c = p * 64 + q" by simp
    with lo p(1) two q(1) s Cons p(2) q(2) show ?thesis
      by (simp add: utf8_char_def scalar_def sextets)
  next
    case three
    obtain p where p: "unat a = 0xE0 + p" "a = byte_of (0xE0 + p)" using three(1) by (rule lead_byteE)
    from got Cons three obtain b d where s: "s = b # d # r" and b: "tail_byte b" and d: "tail_byte d"
      and c: "c = p * 4096 + (unat b - 0x80) * 64 + (unat d - 0x80)" and lo: "0x800 \<le> c" and sc: "scalar c"
      by (auto simp: p(1) Let_def split: list.splits if_splits)
    from b obtain q where q: "q < 64" "b = byte_of (0x80 + q)" by (rule tail_byteE)
    from d obtain t where t: "t < 64" "d = byte_of (0x80 + t)" by (rule tail_byteE)
    from c q t have c': "c = p * 4096 + q * 64 + t" by simp
    with p(1) three(2) q(1) t(1) have "c < 0x10000" by simp
    with lo have "utf8_char c = [byte_of (0xE0 + p), byte_of (0x80 + q), byte_of (0x80 + t)]"
      using q(1) t(1) by (simp add: utf8_char_def c' sextets)
    with s Cons p(2) q(2) t(2) sc show ?thesis by simp
  next
    case four
    obtain p where p: "unat a = 0xF0 + p" "a = byte_of (0xF0 + p)" using four(1) by (rule lead_byteE)
    from got Cons four obtain b d e where s: "s = b # d # e # r"
      and b: "tail_byte b" and d: "tail_byte d" and e: "tail_byte e"
      and c: "c = p * 262144 + (unat b - 0x80) * 4096 + (unat d - 0x80) * 64 + (unat e - 0x80)"
      and lo: "0x10000 \<le> c" and sc: "scalar c"
      by (auto simp: p(1) Let_def split: list.splits if_splits)
    from b obtain q where q: "q < 64" "b = byte_of (0x80 + q)" by (rule tail_byteE)
    from d obtain t where t: "t < 64" "d = byte_of (0x80 + t)" by (rule tail_byteE)
    from e obtain u where u: "u < 64" "e = byte_of (0x80 + u)" by (rule tail_byteE)
    from c q t u have c': "c = p * 262144 + q * 4096 + t * 64 + u" by simp
    with lo have "utf8_char c = [byte_of (0xF0 + p), byte_of (0x80 + q), byte_of (0x80 + t), byte_of (0x80 + u)]"
      using q(1) t(1) u(1) by (simp add: utf8_char_def c' sextets)
    with s Cons p(2) q(2) t(2) u(2) sc show ?thesis by simp
  qed
qed simp

lemma utf8_encode_from: "from_utf8 bs = Some s \<Longrightarrow> utf8_encode s = bs \<and> scalars s"
proof (induction bs arbitrary: s rule: from_utf8.induct)
  case (1 bs)
  show ?case
  proof (cases "bs = []")
    case False
    with 1(2) obtain c r t where "utf8_next bs = Some (c, r)" "from_utf8 r = Some t" "s = c # t"
      by (auto simp: from_utf8.simps [of bs] split: option.splits prod.splits)
    with 1(1) False utf8_char_next [of bs c r] show ?thesis by (auto simp: utf8_encode_def)
  qed (use 1(2) in \<open>simp add: utf8_encode_def\<close>)
qed

lemma from_utf8_iff: "from_utf8 bs = Some s \<longleftrightarrow> scalars s \<and> utf8_encode s = bs"
  using utf8_encode_from from_utf8_encode by blast

section \<open>Lossy decoding and numbers\<close>

text \<open>
  \<open>String::from_utf8_lossy\<close>: each maximal malformed run becomes one replacement character.  The run is
  the lead byte with the bytes that could still have followed it.
\<close>

definition second_ok :: "u8 \<Rightarrow> u8 \<Rightarrow> bool" where
  "second_ok a b \<longleftrightarrow>
     (let x = unat a; y = unat b
      in if x = 0xE0 then 0xA0 \<le> y \<and> y < 0xC0
         else if x = 0xED then 0x80 \<le> y \<and> y < 0xA0
         else if x = 0xF0 then 0x90 \<le> y \<and> y < 0xC0
         else if x = 0xF4 then 0x80 \<le> y \<and> y < 0x90
         else 0xE1 \<le> x \<and> x < 0xF4 \<and> 0x80 \<le> y \<and> y < 0xC0)"

fun malformed_len :: "bytes \<Rightarrow> nat" where
  "malformed_len (a # b # r) =
     (if second_ok a b then (if 0xF0 \<le> unat a \<and> r \<noteq> [] \<and> tail_byte (hd r) then 3 else 2) else 1)"
| "malformed_len bs = 1"

lemma malformed_len_pos: "0 < malformed_len bs"
  by (induction bs rule: malformed_len.induct) auto

function from_utf8_lossy :: "bytes \<Rightarrow> rtext" where
  "from_utf8_lossy bs =
     (if bs = [] then []
      else case utf8_next bs of
             None \<Rightarrow> 0xFFFD # from_utf8_lossy (drop (malformed_len bs) bs)
           | Some (c, r) \<Rightarrow> c # from_utf8_lossy r)"
  by pat_completeness auto
termination
proof (relation "measure length")
  show "(drop (malformed_len bs) bs, bs) \<in> measure length" if "bs \<noteq> []" for bs
    using that malformed_len_pos [of bs] by (cases bs) auto
qed (auto dest: utf8_next_shorter)

declare from_utf8_lossy.simps [simp del]

lemma from_utf8_lossy_valid: "from_utf8 bs = Some s \<Longrightarrow> from_utf8_lossy bs = s"
proof (induction bs arbitrary: s rule: from_utf8.induct)
  case (1 bs)
  show ?case
  proof (cases "bs = []")
    case True
    with 1(2) show ?thesis by (simp add: from_utf8_lossy.simps)
  next
    case False
    with 1(2) obtain c r t where n: "utf8_next bs = Some (c, r)" and t: "from_utf8 r = Some t" "s = c # t"
      by (subst (asm) from_utf8.simps) (auto split: option.splits)
    from 1(1) [OF False n refl t(1)] have "from_utf8_lossy r = t" .
    with False n t(2) show ?thesis by (simp add: from_utf8_lossy.simps)
  qed
qed

text \<open>\<open>format!\<close> of numbers: decimal, and hexadecimal with its prefix to a width.\<close>

fun decimal :: "nat \<Rightarrow> string" where
  "decimal n = (if n < 10 then [char_of (48 + n)] else decimal (n div 10) @ [char_of (48 + n mod 10)])"

declare decimal.simps [simp del]

definition hex_digit :: "nat \<Rightarrow> char" where
  "hex_digit n = char_of (if n < 10 then 48 + n else 87 + n)"

fun hex_digits :: "nat \<Rightarrow> string" where
  "hex_digits n = (if n < 16 then [hex_digit n] else hex_digits (n div 16) @ [hex_digit (n mod 16)])"

declare hex_digits.simps [simp del]

definition hex_padded :: "nat \<Rightarrow> nat \<Rightarrow> string" where
  "hex_padded width n = (let ds = hex_digits n in ''0x'' @ replicate (width - 2 - length ds) (CHR ''0'') @ ds)"

section \<open>Trimming\<close>

text \<open>\<open>char::is_whitespace\<close> (the White_Space property), \<open>char::is_control\<close> (category Cc), \<open>str::trim\<close>.\<close>

definition whitespace :: "nat \<Rightarrow> bool" where
  "whitespace c \<longleftrightarrow> 9 \<le> c \<and> c \<le> 13 \<or> c = 0x20 \<or> c = 0x85 \<or> c = 0xA0 \<or> c = 0x1680 \<or>
     0x2000 \<le> c \<and> c \<le> 0x200A \<or> c = 0x2028 \<or> c = 0x2029 \<or> c = 0x202F \<or> c = 0x205F \<or> c = 0x3000"

definition is_control :: "nat \<Rightarrow> bool" where
  "is_control c \<longleftrightarrow> c < 0x20 \<or> 0x7F \<le> c \<and> c < 0xA0"

definition trim :: "rtext \<Rightarrow> rtext" where
  "trim s = rev (dropWhile whitespace (rev (dropWhile whitespace s)))"

lemma dropWhile_hd: "dropWhile P xs \<noteq> [] \<Longrightarrow> \<not> P (hd (dropWhile P xs))"
  by (rule hd_dropWhile)

lemma set_trim: "set (trim s) \<subseteq> set s"
  unfolding trim_def by (metis set_dropWhileD set_rev subsetI)

lemma length_trim: "length (trim s) \<le> length s"
  unfolding trim_def by (metis length_dropWhile_le length_rev order_trans)

lemma dropWhile_suffix_hd: "dropWhile P (rev xs) \<noteq> [] \<Longrightarrow> hd (rev (dropWhile P (rev xs))) = hd xs"
  by (metis append_is_Nil_conv hd_append2 rev_append rev_is_Nil_conv rev_rev_ident takeWhile_dropWhile_id)

lemma trim_ends: "trim s \<noteq> [] \<Longrightarrow> \<not> whitespace (hd (trim s)) \<and> \<not> whitespace (last (trim s))"
proof -
  assume ne: "trim s \<noteq> []"
  then have "dropWhile whitespace (rev (dropWhile whitespace s)) \<noteq> []" by (simp add: trim_def)
  moreover from this have "dropWhile whitespace s \<noteq> []" by (metis dropWhile.simps(1) rev.simps(1))
  ultimately show ?thesis
    using dropWhile_hd [of whitespace s] dropWhile_hd [of whitespace "rev (dropWhile whitespace s)"]
    by (simp add: trim_def dropWhile_suffix_hd last_rev)
qed

lemma trim_id: "s = [] \<or> \<not> whitespace (hd s) \<and> \<not> whitespace (last s) \<Longrightarrow> trim s = s"
proof (cases s)
  case (Cons x xs)
  assume "s = [] \<or> \<not> whitespace (hd s) \<and> \<not> whitespace (last s)"
  with Cons have "\<not> whitespace x" "\<not> whitespace (hd (rev s))" unfolding hd_rev by simp_all
  moreover from this Cons have "dropWhile whitespace s = s" by simp
  moreover have "dropWhile whitespace (rev s) = rev s"
    using \<open>\<not> whitespace (hd (rev s))\<close> by (cases "rev s") auto
  ultimately show ?thesis by (simp add: trim_def)
qed (simp add: trim_def)

end
