(* ===== verification/Tunnel_Frame.thy ===== *)
theory Tunnel_Frame
  imports Rust_Text
begin

text \<open>
  The frames of the relay tunnel (\<open>crates/tunnel/src/frame.rs\<close>): one byte of kind, four bytes of
  stream number in big-endian order, and a payload.

  The heads of requests and responses travel as JSON.  The encoder and the decoder of \<open>serde_json\<close>
  are parameters of the model, gathered in the record \<open>serde\<close>; what the round trip relies on is
  \<open>serde_ok\<close>: a head that was serialised is read back.

  The locale \<open>codec\<close> is the contract of an encoder and a decoder of messages on a carrier of
  well-formed messages; the frame codec is an interpretation of it.
\<close>

section \<open>Data\<close>

record RequestHead =
  req_method :: rtext
  req_uri :: rtext
  req_headers :: "(rtext \<times> rtext) list"
  req_websocket :: bool
  req_user :: rtext

record ResponseHead =
  resp_status :: u16
  resp_headers :: "(rtext \<times> rtext) list"

definition CONTROL_STREAM :: u32 where "CONTROL_STREAM = 0"
definition WINDOW :: u32 where "WINDOW = 256 * 1024"
definition NONCE_LEN :: nat where "NONCE_LEN = 32"
definition PROOF_LEN :: nat where "PROOF_LEN = 64"
definition MAX_HEALTH :: nat where "MAX_HEALTH = 8 * 1024"
definition HEADER_LEN :: nat where "HEADER_LEN = 5"

datatype Frame =
    Challenge bytes
  | Proof bytes
  | Ready
  | Request u32 RequestHead
  | Response u32 ResponseHead
  | Body u32 bytes
  | End u32
  | Text u32 bytes
  | Binary u32 bytes
  | Close u32 u16 rtext
  | Reset u32 rtext
  | Credit u32 u32
  | Health bytes

datatype FrameError =
    Truncated
  | UnknownKind u8
  | Length string nat nat
  | NotUtf8 string
  | Head string string

text \<open>The JSON library: an error is its message.\<close>

record serde =
  to_vec_request :: "RequestHead \<Rightarrow> string + bytes"
  to_vec_response :: "ResponseHead \<Rightarrow> string + bytes"
  from_slice_request :: "bytes \<Rightarrow> string + RequestHead"
  from_slice_response :: "bytes \<Rightarrow> string + ResponseHead"

definition serde_ok :: "serde \<Rightarrow> bool" where
  "serde_ok J \<longleftrightarrow>
     (\<forall>h b. to_vec_request J h = Inr b \<longrightarrow> from_slice_request J b = Inr h) \<and>
     (\<forall>h b. to_vec_response J h = Inr b \<longrightarrow> from_slice_response J b = Inr h)"

section \<open>Kinds\<close>

definition CHALLENGE :: u8 where "CHALLENGE = 1"
definition PROOF :: u8 where "PROOF = 2"
definition READY :: u8 where "READY = 3"
definition REQUEST :: u8 where "REQUEST = 4"
definition RESPONSE :: u8 where "RESPONSE = 5"
definition BODY :: u8 where "BODY = 6"
definition END :: u8 where "END = 7"
definition TEXT :: u8 where "TEXT = 8"
definition BINARY :: u8 where "BINARY = 9"
definition CLOSE :: u8 where "CLOSE = 10"
definition RESET :: u8 where "RESET = 11"
definition CREDIT :: u8 where "CREDIT = 12"
definition HEALTH :: u8 where "HEALTH = 13"

lemmas kind_defs = CHALLENGE_def PROOF_def READY_def REQUEST_def RESPONSE_def BODY_def END_def
  TEXT_def BINARY_def CLOSE_def RESET_def CREDIT_def HEALTH_def

section \<open>Operations\<close>

fun stream :: "Frame \<Rightarrow> u32" where
  "stream (Challenge _) = CONTROL_STREAM"
| "stream (Proof _) = CONTROL_STREAM"
| "stream Ready = CONTROL_STREAM"
| "stream (Health _) = CONTROL_STREAM"
| "stream (Request s _) = s"
| "stream (Response s _) = s"
| "stream (Body s _) = s"
| "stream (End s) = s"
| "stream (Text s _) = s"
| "stream (Binary s _) = s"
| "stream (Close s _ _) = s"
| "stream (Reset s _) = s"
| "stream (Credit s _) = s"

fun credited_len :: "Frame \<Rightarrow> nat" where
  "credited_len (Body _ data) = length data"
| "credited_len (Text _ data) = length data"
| "credited_len (Binary _ data) = length data"
| "credited_len _ = 0"

definition json :: "('a \<Rightarrow> string + bytes) \<Rightarrow> string \<Rightarrow> 'a \<Rightarrow> FrameError + bytes" where
  "json to_vec kind head = (case to_vec head of Inl e \<Rightarrow> Inl (Head kind e) | Inr b \<Rightarrow> Inr b)"

definition parse :: "(bytes \<Rightarrow> string + 'a) \<Rightarrow> string \<Rightarrow> bytes \<Rightarrow> FrameError + 'a" where
  "parse from_slice kind payload = (case from_slice payload of Inl e \<Rightarrow> Inl (Head kind e) | Inr h \<Rightarrow> Inr h)"

fun encode_payload :: "serde \<Rightarrow> Frame \<Rightarrow> FrameError + u8 \<times> bytes" where
  "encode_payload J (Challenge nonce) = Inr (CHALLENGE, nonce)"
| "encode_payload J (Proof signature) = Inr (PROOF, signature)"
| "encode_payload J Ready = Inr (READY, [])"
| "encode_payload J (Request _ head) = map_sum id (Pair REQUEST) (json (to_vec_request J) ''request'' head)"
| "encode_payload J (Response _ head) = map_sum id (Pair RESPONSE) (json (to_vec_response J) ''response'' head)"
| "encode_payload J (Body _ data) = Inr (BODY, data)"
| "encode_payload J (End _) = Inr (END, [])"
| "encode_payload J (Text _ data) = Inr (TEXT, data)"
| "encode_payload J (Binary _ data) = Inr (BINARY, data)"
| "encode_payload J (Close _ code reason) = Inr (CLOSE, be16 code @ utf8_encode reason)"
| "encode_payload J (Reset _ reason) = Inr (RESET, utf8_encode reason)"
| "encode_payload J (Credit _ n) = Inr (CREDIT, be32 n)"
| "encode_payload J (Health data) = Inr (HEALTH, data)"

definition encode :: "serde \<Rightarrow> Frame \<Rightarrow> FrameError + bytes" where
  "encode J f =
     (case encode_payload J f of
        Inl e \<Rightarrow> Inl e
      | Inr (kind, payload) \<Rightarrow> Inr (kind # be32 (stream f) @ payload))"

definition fixed :: "nat \<Rightarrow> string \<Rightarrow> bytes \<Rightarrow> FrameError + bytes" where
  "fixed n kind payload = (if length payload = n then Inr payload else Inl (Length kind n (length payload)))"

definition utf8_bytes :: "string \<Rightarrow> bytes \<Rightarrow> FrameError + bytes" where
  "utf8_bytes kind payload = (case from_utf8 payload of None \<Rightarrow> Inl (NotUtf8 kind) | Some _ \<Rightarrow> Inr payload)"

definition utf8 :: "string \<Rightarrow> bytes \<Rightarrow> FrameError + rtext" where
  "utf8 kind payload = (case from_utf8 payload of None \<Rightarrow> Inl (NotUtf8 kind) | Some s \<Rightarrow> Inr s)"

fun close :: "u32 \<Rightarrow> bytes \<Rightarrow> FrameError + Frame" where
  "close s (a # b # rest) = map_sum id (Close s (of_be16 a b)) (utf8 ''close'' rest)"
| "close s payload = Inl (Length ''close'' 2 (length payload))"

fun credit_payload :: "bytes \<Rightarrow> FrameError + u32" where
  "credit_payload [a, b, c, d] = Inr (of_be32 a b c d)"
| "credit_payload payload = Inl (Length ''credit'' 4 (length payload))"

definition decode_payload :: "serde \<Rightarrow> u8 \<Rightarrow> u32 \<Rightarrow> bytes \<Rightarrow> FrameError + Frame" where
  "decode_payload J kind s payload =
     (if kind = CHALLENGE then map_sum id Challenge (fixed NONCE_LEN ''challenge'' payload)
      else if kind = PROOF then map_sum id Proof (fixed PROOF_LEN ''proof'' payload)
      else if kind = READY then Inr Ready
      else if kind = REQUEST then map_sum id (Request s) (parse (from_slice_request J) ''request'' payload)
      else if kind = RESPONSE then map_sum id (Response s) (parse (from_slice_response J) ''response'' payload)
      else if kind = BODY then Inr (Body s payload)
      else if kind = END then Inr (End s)
      else if kind = TEXT then map_sum id (Text s) (utf8_bytes ''text'' payload)
      else if kind = BINARY then Inr (Binary s payload)
      else if kind = CLOSE then close s payload
      else if kind = RESET then map_sum id (Reset s) (utf8 ''reset'' payload)
      else if kind = CREDIT then map_sum id (Credit s) (credit_payload payload)
      else if kind = HEALTH then map_sum id Health (utf8_bytes ''health'' payload)
      else Inl (UnknownKind kind))"

fun decode :: "serde \<Rightarrow> bytes \<Rightarrow> FrameError + Frame" where
  "decode J (kind # a # b # c # d # payload) = decode_payload J kind (of_be32 a b c d) payload"
| "decode J _ = Inl Truncated"

section \<open>Well-formed frames\<close>

text \<open>
  The invariants the Rust types carry (arrays of a fixed size, strings of scalar values) and the one
  they do not: the data of a text or health frame is a byte string that has to be UTF-8.
\<close>

fun wf_frame :: "Frame \<Rightarrow> bool" where
  "wf_frame (Challenge nonce) \<longleftrightarrow> length nonce = NONCE_LEN"
| "wf_frame (Proof signature) \<longleftrightarrow> length signature = PROOF_LEN"
| "wf_frame (Text _ data) \<longleftrightarrow> from_utf8 data \<noteq> None"
| "wf_frame (Health data) \<longleftrightarrow> from_utf8 data \<noteq> None"
| "wf_frame (Close _ _ reason) \<longleftrightarrow> scalars reason"
| "wf_frame (Reset _ reason) \<longleftrightarrow> scalars reason"
| "wf_frame _ \<longleftrightarrow> True"

text \<open>The contract of a message codec.\<close>

locale codec =
  fixes enc :: "'m \<Rightarrow> 'e + 'w"
    and dec :: "'w \<Rightarrow> 'e + 'm"
    and wf :: "'m \<Rightarrow> bool"
  assumes dec_enc: "wf m \<Longrightarrow> enc m = Inr w \<Longrightarrow> dec w = Inr m"
begin

lemma enc_inj:
  assumes "wf m" "wf n" "enc m = Inr w" "enc n = Inr w"
  shows "m = n"
  using dec_enc [OF assms(1,3)] dec_enc [OF assms(2,4)] by simp

text \<open>A sequence of messages, each in its own carrier, is read back in order.\<close>

lemma dec_sequence:
  assumes "list_all wf ms" and "map enc ms = map Inr ws"
  shows "map dec ws = map Inr ms"
  using assms
proof (induction ms arbitrary: ws)
  case (Cons m ms)
  then show ?case by (cases ws) (auto intro: dec_enc)
qed simp

end

lemma fixed_Inr [simp]: "fixed n kind payload = Inr p \<longleftrightarrow> length payload = n \<and> p = payload"
  by (auto simp: fixed_def)

lemma utf8_bytes_Inr [simp]: "utf8_bytes kind payload = Inr p \<longleftrightarrow> from_utf8 payload \<noteq> None \<and> p = payload"
  by (auto simp: utf8_bytes_def split: option.splits)

lemma utf8_Inr [simp]: "utf8 kind payload = Inr s \<longleftrightarrow> scalars s \<and> utf8_encode s = payload"
  by (auto simp: utf8_def from_utf8_iff [symmetric] split: option.splits)

lemma credit_payload_be32 [simp]: "credit_payload (be32 n) = Inr n"
  by (simp add: be32_def)

lemma close_be16 [simp]: "close s (be16 code @ rest) = map_sum id (Close s code) (utf8 ''close'' rest)"
  by (simp add: be16_def)

lemma decode_be32 [simp]:
  "decode J (kind # be32 s @ payload) = decode_payload J kind s payload"
  "decode J (kind # be32 s) = decode_payload J kind s []"
  by (simp_all add: be32_def)

lemma map_sum_Inr_iff [simp]: "map_sum id f x = Inr y \<longleftrightarrow> (\<exists>z. x = Inr z \<and> y = f z)"
  by (cases x) auto

lemma json_Inr [simp]: "json to_vec kind head = Inr b \<longleftrightarrow> to_vec head = Inr b"
  by (auto simp: json_def split: sum.splits)

lemma parse_Inr [simp]: "parse from_slice kind b = Inr h \<longleftrightarrow> from_slice b = Inr h"
  by (auto simp: parse_def split: sum.splits)

lemma decode_encode:
  assumes "serde_ok J" "wf_frame f" "encode J f = Inr bs"
  shows "decode J bs = Inr f"
  using assms
  by (cases f) (auto simp: encode_def decode_payload_def kind_defs serde_ok_def split: sum.splits prod.splits)

interpretation frames: codec "encode J" "decode J" "\<lambda>f. serde_ok J \<and> wf_frame f" for J
  by unfold_locales (blast intro: decode_encode)

section \<open>Properties\<close>

text \<open>
  C14: A sequence of well-formed frames sent through the tunnel, each encoded into one message, is
  decoded into the same sequence of frames, for every JSON library that reads back the heads it
  wrote.
\<close>

theorem frame_roundtrip:
  assumes "serde_ok J" and "list_all wf_frame fs" and "map (encode J) fs = map Inr ws"
  shows "map (decode J) ws = map Inr fs"
proof -
  have "list_all (\<lambda>f. serde_ok J \<and> wf_frame f) fs"
    using assms(1,2) by (auto simp: list_all_iff)
  then show ?thesis using assms(3) by (rule frames.dec_sequence)
qed

text \<open>A JSON library that knows one head of each kind.\<close>

definition sample_request :: RequestHead where
  "sample_request = \<lparr>req_method = chars ''GET'', req_uri = chars ''/a'',
     req_headers = [(chars ''Cookie'', chars ''a=b''), (chars ''Accept'', chars ''b'')], req_websocket = False, req_user = []\<rparr>"

definition sample_serde :: serde where
  "sample_serde = \<lparr>
     to_vec_request = (\<lambda>h. if h = sample_request then Inr [123, 125] else Inl ''unsupported''),
     to_vec_response = (\<lambda>h. Inl ''unsupported''),
     from_slice_request = (\<lambda>b. if b = [123, 125] then Inr sample_request else Inl ''syntax''),
     from_slice_response = (\<lambda>b. Inl ''syntax'')\<rparr>"

lemma sample_serde_ok: "serde_ok sample_serde"
  by (auto simp: serde_ok_def sample_serde_def split: if_splits)

theorem frame_roundtrip_witness:
  "map (decode sample_serde) [[4, 0, 0, 0, 9, 123, 125], [10, 0, 0, 0, 9, 3, 232, 0xC3, 0xA9]] =
     map Inr [Request 9 sample_request, Close 9 1000 [0xE9]]"
proof (rule frame_roundtrip [OF sample_serde_ok])
  show "list_all wf_frame [Request 9 sample_request, Close 9 1000 [0xE9]]"
    by (simp add: scalar_def)
  show "map (encode sample_serde) [Request 9 sample_request, Close 9 1000 [0xE9]] =
      map Inr [[4, 0, 0, 0, 9, 123, 125], [10, 0, 0, 0, 9, 3, 232, 0xC3, 0xA9]]"
    by (simp add: encode_def json_def sample_serde_def kind_defs be32_def be16_def utf8_encode_def utf8_char_def
        byte_of_def unsigned_ucast_eq)
qed

lemma decode_short: "length bs < HEADER_LEN \<Longrightarrow> decode J bs = Inl Truncated"
  by (cases "(J, bs)" rule: decode.cases) (auto simp: HEADER_LEN_def)

lemma long_frameE:
  fixes bs :: bytes
  assumes "HEADER_LEN \<le> length bs"
  obtains k a b c d payload where "bs = k # a # b # c # d # payload"
  using assms by (cases "(undefined :: serde, bs)" rule: decode.cases) (auto simp: HEADER_LEN_def)

lemma map_sum_Inl_iff [simp]: "map_sum id f x = Inl e \<longleftrightarrow> x = Inl e"
  by (cases x) auto

lemma fixed_Inl [simp]: "fixed n kind payload = Inl e \<longleftrightarrow> length payload \<noteq> n \<and> e = Length kind n (length payload)"
  by (auto simp: fixed_def)

lemma parse_Inl [simp]: "parse from_slice kind b = Inl e \<longleftrightarrow> (\<exists>m. from_slice b = Inl m \<and> e = Head kind m)"
  by (auto simp: parse_def split: sum.splits)

lemma utf8_Inl [simp]:
  "utf8_bytes kind payload = Inl e \<longleftrightarrow> from_utf8 payload = None \<and> e = NotUtf8 kind"
  "utf8 kind payload = Inl e \<longleftrightarrow> from_utf8 payload = None \<and> e = NotUtf8 kind"
  by (auto simp: utf8_bytes_def utf8_def split: option.splits)

lemma credit_payload_Inl: "credit_payload p = Inl e \<Longrightarrow> e = Length ''credit'' 4 (length p)"
  by (cases p rule: credit_payload.cases) auto

lemma credit_payload_Inr: "credit_payload p = Inr n \<Longrightarrow> p = be32 n"
  by (cases p rule: credit_payload.cases) auto

lemma close_Inl: "close s p = Inl e \<Longrightarrow> e = NotUtf8 ''close'' \<or> e = Length ''close'' 2 (length p)"
  by (cases "(s, p)" rule: close.cases) auto

lemma close_Inr: "close s p = Inr f \<Longrightarrow> \<exists>code r. f = Close s code r \<and> scalars r \<and> p = be16 code @ utf8_encode r"
  by (cases "(s, p)" rule: close.cases) (auto simp del: be16_of_be16 simp: be16_of_be16 [symmetric])

lemma decode_payload_error:
  assumes "decode_payload J k s p = Inl e"
  shows "e \<noteq> Truncated" and "e = UnknownKind j \<Longrightarrow> k \<notin> {1,2,3,4,5,6,7,8,9,10,11,12,13} \<and> j = k"
  using assms
  by (auto simp: decode_payload_def kind_defs split: if_splits dest: credit_payload_Inl close_Inl)

lemma known_kind: "(k :: u8) \<notin> {1,2,3,4,5,6,7,8,9,10,11,12,13} \<longleftrightarrow> k = 0 \<or> 13 < k"
  by (simp add: word_unat_eq_iff word_less_nat_alt) presburger

lemma decode_payload_unknown: "k \<notin> {1,2,3,4,5,6,7,8,9,10,11,12,13} \<Longrightarrow> decode_payload J k s p = Inl (UnknownKind k)"
  by (auto simp: decode_payload_def kind_defs)

lemma decode_payload_wf: "decode_payload J k s p = Inr f \<Longrightarrow> wf_frame f"
  by (auto simp: decode_payload_def split: if_splits dest: close_Inr)

lemma decode_payload_encode:
  "decode_payload J k s p = Inr f \<Longrightarrow> k \<in> {BODY, TEXT, BINARY, CLOSE, RESET, CREDIT} \<Longrightarrow>
     encode J f = Inr (k # be32 s @ p)"
  by (auto simp: decode_payload_def encode_def kind_defs split: if_splits dest: close_Inr credit_payload_Inr)

lemma decode_wf: "decode J bs = Inr f \<Longrightarrow> wf_frame f"
  by (cases "(J, bs)" rule: decode.cases) (auto dest: decode_payload_wf)

text \<open>
  C15: The decoder is total and its refusals are exact: a frame is truncated when it is shorter than
  its header, unknown when its first byte is not one of the thirteen kinds, and otherwise any frame
  it returns is well formed; a data, close, reset or credit frame is the only one with its bytes.
\<close>

theorem decode_spec:
  "(decode J bs = Inl Truncated \<longleftrightarrow> length bs < HEADER_LEN) \<and>
   (decode J bs = Inl (UnknownKind k) \<longleftrightarrow> HEADER_LEN \<le> length bs \<and> k = hd bs \<and> (k = 0 \<or> 13 < k)) \<and>
   (\<forall>f. decode J bs = Inr f \<longrightarrow>
      wf_frame f \<and> (hd bs \<in> {BODY, TEXT, BINARY, CLOSE, RESET, CREDIT} \<longrightarrow> encode J f = Inr bs))"
proof (cases "length bs < HEADER_LEN")
  case True
  then show ?thesis by (simp add: decode_short)
next
  case False
  then obtain i a b c d p where bs: "bs = i # a # b # c # d # p" by (meson long_frameE not_less)
  have eq: "bs = i # be32 (of_be32 a b c d) @ p" using bs by simp
  show ?thesis
    using False decode_payload_error [of J i "of_be32 a b c d" p] decode_payload_unknown [of i J _ p] decode_payload_wf
      decode_payload_encode known_kind [of i]
    unfolding eq decode_be32 by (auto simp del: be32_of_be32 insert_iff)
qed

theorem decode_spec_witness:
  "decode sample_serde [10, 0, 0, 0, 7, 3] = Inl (Length ''close'' 2 1) \<and>
   wf_frame (Credit 7 256) \<and> encode sample_serde (Credit 7 256) = Inr [12, 0, 0, 0, 7, 0, 0, 1, 0] \<and>
   decode sample_serde [14, 0, 0, 0, 7] = Inl (UnknownKind 14)"
proof -
  have d: "decode sample_serde [12, 0, 0, 0, 7, 0, 0, 1, 0] = Inr (Credit 7 256)"
    by (simp add: decode_payload_def kind_defs of_be32_def)
  show ?thesis
    using decode_spec [of sample_serde "[12, 0, 0, 0, 7, 0, 0, 1, 0]" 0] decode_spec [of sample_serde "[14, 0, 0, 0, 7]" 14] d
    by (simp add: decode_payload_def kind_defs HEADER_LEN_def)
qed

end
