(* ===== verification/Tunnel_Stream.thy ===== *)
theory Tunnel_Stream
  imports Tunnel_Frame
begin

text \<open>
  One relayed stream: its flow-control window (\<open>crates/tunnel/src/window.rs\<close>) and the tasks that
  move data between the relay and the local server (\<open>crates/tunnel/src/stream.rs\<close>).

  The window is an \<open>i64\<close>, kept as an integer with the saturation written out.  A task that waits for
  credit suspends; the model makes the interleaving explicit: \<open>link_arrivals\<close> lists, for each time the
  task looks at the window, the grants that arrive before it looks.  A task that waits for credit
  that never comes has the value \<open>None\<close>.  \<open>link_left\<close> is the number of messages the writer still
  takes before it stops.  The inbound queue is the list of what arrives until it is closed, and the
  local peer (the request body, the local socket) accepts a given number of sends before it fails.
  The parsers of the \<open>http\<close> crate are parameters, gathered in \<open>http_lib\<close>.
\<close>

section \<open>Window\<close>

definition I64_MAX :: int where "I64_MAX = 2 ^ 63 - 1"
definition I64_MIN :: int where "I64_MIN = - (2 ^ 63)"

definition saturate :: "int \<Rightarrow> int" where
  "saturate a = max I64_MIN (min I64_MAX a)"

definition window_new :: "u32 \<Rightarrow> int" where
  "window_new initial = uint initial"

definition grant :: "int \<Rightarrow> u32 \<Rightarrow> int" where
  "grant available n = saturate (available + uint n)"

text \<open>Suspended until the window is open: the grants come in batches, one batch per look.\<close>

fun wait_for :: "u32 list list \<Rightarrow> int \<Rightarrow> (u32 list list \<times> int) option" where
  "wait_for [] available = (if available > 0 then Some ([], available) else None)"
| "wait_for (batch # arrivals) available =
     (let available' = foldl grant available batch
      in if available' > 0 then Some (arrivals, available') else wait_for arrivals available')"

definition spend :: "u32 list list \<Rightarrow> int \<Rightarrow> nat \<Rightarrow> (u32 list list \<times> int) option" where
  "spend arrivals available n =
     map_option (\<lambda>(arrivals', available'). (arrivals', saturate (available' - min (int n) I64_MAX)))
       (wait_for arrivals available)"

section \<open>Links\<close>

text \<open>Messages of the WebSocket library; a close frame carries its code and its reason.\<close>

datatype Message =
    MText bytes
  | MBinary bytes
  | MPing bytes
  | MPong bytes
  | MClose "(u16 \<times> rtext) option"
  | MFrame bytes

datatype Inbound =
    InBody bytes
  | InEnd
  | InText bytes
  | InBinary bytes
  | InClose u16 rtext

text \<open>The text of a head error: a message of the \<open>http\<close> crate, or the character a header cannot hold.\<close>

datatype head_detail = Refused string | BeyondLatin1 nat

datatype StreamError =
    Closed
  | BadHead head_detail
  | Local string
  | Unexpected string
  | FrameFailed FrameError

record Link =
  link_stream :: u32
  link_out :: "Message list"
  link_left :: nat
  link_window :: int
  link_arrivals :: "u32 list list"

definition CHUNK :: nat where "CHUNK = 64 * 1024"

definition send :: "serde \<Rightarrow> Link \<Rightarrow> Frame \<Rightarrow> Link \<times> (StreamError + unit)" where
  "send J l f =
     (case encode J f of
        Inl e \<Rightarrow> (l, Inl (FrameFailed e))
      | Inr b \<Rightarrow>
          if link_left l = 0 then (l, Inl Closed)
          else (l\<lparr>link_out := link_out l @ [MBinary b], link_left := link_left l - 1\<rparr>, Inr ()))"

definition send_counted :: "serde \<Rightarrow> Link \<Rightarrow> Frame \<Rightarrow> (Link \<times> (StreamError + unit)) option" where
  "send_counted J l f =
     map_option (\<lambda>(arrivals, available). send J (l\<lparr>link_window := available, link_arrivals := arrivals\<rparr>) f)
       (spend (link_arrivals l) (link_window l) (credited_len f))"

definition credit :: "serde \<Rightarrow> Link \<Rightarrow> nat \<Rightarrow> Link \<times> (StreamError + unit)" where
  "credit J l n = send J l (Credit (link_stream l) (of_nat (min n (2 ^ 32 - 1))))"

function send_chunks :: "serde \<Rightarrow> Link \<Rightarrow> bytes \<Rightarrow> (Link \<times> (StreamError + unit)) option" where
  "send_chunks J l data =
     (if data = [] then Some (l, Inr ())
      else case send_counted J l (Body (link_stream l) (take CHUNK data)) of
             Some (l', Inr _) \<Rightarrow> send_chunks J l' (drop CHUNK data)
           | other \<Rightarrow> other)"
  by pat_completeness auto
termination
  by (relation "measure (\<lambda>(J, l, data). length data)") (auto simp: CHUNK_def)

declare send_chunks.simps [simp del]

section \<open>HTTP\<close>

fun discard_until_end :: "Inbound list \<Rightarrow> StreamError + unit" where
  "discard_until_end [] = Inr ()"
| "discard_until_end (item # items) = (if item = InEnd then Inr () else discard_until_end items)"

text \<open>
  The upload: what the local request body was given, the link afterwards, and the outcome.  The body
  takes \<open>accepts\<close> more parts before the local server drops it.
\<close>

fun upload :: "serde \<Rightarrow> Inbound list \<Rightarrow> nat \<Rightarrow> Link \<Rightarrow> bytes list \<times> Link \<times> (StreamError + unit)" where
  "upload J [] accepts l = ([], l, Inr ())"
| "upload J (InBody data # items) accepts l =
     (case accepts of
        0 \<Rightarrow> ([], l, discard_until_end items)
      | Suc accepts' \<Rightarrow>
          (case credit J l (length data) of
             (l', Inl e) \<Rightarrow> ([data], l', Inl e)
           | (l', Inr _) \<Rightarrow> (case upload J items accepts' l' of (ds, r) \<Rightarrow> (data # ds, r))))"
| "upload J (InEnd # items) accepts l = ([], l, Inr ())"
| "upload J (InText data # items) accepts l = ([], l, Inl (Unexpected ''a WebSocket message''))"
| "upload J (InBinary data # items) accepts l = ([], l, Inl (Unexpected ''a WebSocket message''))"
| "upload J (InClose code reason # items) accepts l = ([], l, Inl (Unexpected ''a WebSocket message''))"

text \<open>A frame of the local response body: data, trailers, or a failure of the connection.\<close>

datatype body_item = Data bytes | Trailers | BodyFailed string

fun relay_body :: "serde \<Rightarrow> Link \<Rightarrow> body_item list \<Rightarrow> (Link \<times> (StreamError + unit)) option" where
  "relay_body J l [] = Some (send J l (End (link_stream l)))"
| "relay_body J l (Data data # items) =
     (case send_chunks J l data of
        Some (l', Inr _) \<Rightarrow> relay_body J l' items
      | other \<Rightarrow> other)"
| "relay_body J l (Trailers # items) = relay_body J l items"
| "relay_body J l (BodyFailed e # items) = Some (l, Inl (Local e))"

definition relay_response :: "serde \<Rightarrow> ResponseHead \<Rightarrow> body_item list \<Rightarrow> Link \<Rightarrow> (Link \<times> (StreamError + unit)) option" where
  "relay_response J head items l =
     (case send J l (Response (link_stream l) head) of
        (l', Inl e) \<Rightarrow> Some (l', Inl e)
      | (l', Inr _) \<Rightarrow> relay_body J l' items)"

section \<open>WebSockets\<close>

definition NO_STATUS :: u16 where "NO_STATUS = 1005"
definition ABNORMAL :: u16 where "ABNORMAL = 1006"
definition TLS_FAILURE :: u16 where "TLS_FAILURE = 1015"

definition close_frame :: "u16 \<Rightarrow> rtext \<Rightarrow> (u16 \<times> rtext) option" where
  "close_frame code reason =
     (if code = NO_STATUS \<or> code = ABNORMAL \<or> code = TLS_FAILURE then None else Some (code, reason))"

fun to_relay :: "serde \<Rightarrow> Link \<Rightarrow> (string + Message) list \<Rightarrow> (Link \<times> (StreamError + unit)) option" where
  "to_relay J l [] = Some (send J l (Close (link_stream l) ABNORMAL (chars ''local socket ended'')))"
| "to_relay J l (Inl e # source) = Some (l, Inl (Local e))"
| "to_relay J l (Inr (MText text) # source) =
     (case send_counted J l (Text (link_stream l) text) of
        Some (l', Inr _) \<Rightarrow> to_relay J l' source
      | other \<Rightarrow> other)"
| "to_relay J l (Inr (MBinary data) # source) =
     (case send_counted J l (Binary (link_stream l) data) of
        Some (l', Inr _) \<Rightarrow> to_relay J l' source
      | other \<Rightarrow> other)"
| "to_relay J l (Inr (MClose frame) # source) =
     (let (code, reason) = (case frame of None \<Rightarrow> (NO_STATUS, []) | Some f \<Rightarrow> f)
      in Some (send J l (Close (link_stream l) code reason)))"
| "to_relay J l (Inr (MPing _) # source) = to_relay J l source"
| "to_relay J l (Inr (MPong _) # source) = to_relay J l source"
| "to_relay J l (Inr (MFrame _) # source) = to_relay J l source"

text \<open>
  The other direction: the messages the local socket was given, the link, and the outcome.  The
  socket takes \<open>sinks\<close> more messages and then fails with \<open>broken\<close>.
\<close>

fun to_local :: "serde \<Rightarrow> string \<Rightarrow> Inbound list \<Rightarrow> nat \<Rightarrow> Link
    \<Rightarrow> Message list \<times> Link \<times> (StreamError + (u16 \<times> rtext) option)" where
  "to_local J broken [] sinks l = ([], l, Inr None)"
| "to_local J broken (InText data # items) sinks l =
     (if from_utf8 data = None then ([], l, Inl (Unexpected ''text that is not UTF-8''))
      else case sinks of
        0 \<Rightarrow> ([], l, Inl (Local broken))
      | Suc sinks' \<Rightarrow>
          (case credit J l (length data) of
             (l', Inl e) \<Rightarrow> ([MText data], l', Inl e)
           | (l', Inr _) \<Rightarrow> (case to_local J broken items sinks' l' of (ms, r) \<Rightarrow> (MText data # ms, r))))"
| "to_local J broken (InBinary data # items) sinks l =
     (case sinks of
        0 \<Rightarrow> ([], l, Inl (Local broken))
      | Suc sinks' \<Rightarrow>
          (case credit J l (length data) of
             (l', Inl e) \<Rightarrow> ([MBinary data], l', Inl e)
           | (l', Inr _) \<Rightarrow> (case to_local J broken items sinks' l' of (ms, r) \<Rightarrow> (MBinary data # ms, r))))"
| "to_local J broken (InClose code reason # items) sinks l =
     (case sinks of
        0 \<Rightarrow> ([], l, Inl (Local broken))
      | Suc _ \<Rightarrow> ([MClose (close_frame code reason)], l, Inr (Some (code, reason))))"
| "to_local J broken (InBody data # items) sinks l = ([], l, Inl (Unexpected ''an HTTP body''))"
| "to_local J broken (InEnd # items) sinks l = ([], l, Inl (Unexpected ''an HTTP body''))"

section \<open>Flow control\<close>

text \<open>All the credit that arrives, in every batch.\<close>

definition credit_sum :: "u32 list list \<Rightarrow> int" where
  "credit_sum arrivals = sum_list (map uint (concat arrivals))"

lemma credit_sum_simps [simp]:
  "credit_sum [] = 0" "credit_sum (b # bs) = sum_list (map uint b) + credit_sum bs"
  by (simp_all add: credit_sum_def)

lemma sum_uint_nonneg: "0 \<le> sum_list (map uint (b :: u32 list))"
  by (induction b) simp_all

lemma credit_sum_nonneg: "0 \<le> credit_sum bs"
  by (simp add: credit_sum_def sum_uint_nonneg)

lemma saturate_id: "I64_MIN \<le> a \<Longrightarrow> a \<le> I64_MAX \<Longrightarrow> saturate a = a"
  by (simp add: saturate_def)

text \<open>Grants add up exactly as long as the window does not reach the end of its range.\<close>

lemma grants_exact:
  "I64_MIN \<le> a \<Longrightarrow> a + sum_list (map uint b) \<le> I64_MAX \<Longrightarrow> foldl grant a b = a + sum_list (map uint b)"
proof (induction b arbitrary: a)
  case (Cons n b)
  have n: "0 \<le> uint n" by simp
  have hi: "a + uint n + sum_list (map uint b) \<le> I64_MAX" using Cons.prems(2) by simp
  have "saturate (a + uint n) = a + uint n"
    by (rule saturate_id) (use Cons.prems(1) n hi sum_uint_nonneg [of b] in linarith)+
  moreover have "foldl grant (a + uint n) b = a + uint n + sum_list (map uint b)"
    by (rule Cons.IH) (use Cons.prems(1) n hi in linarith)+
  ultimately show ?case by (simp add: grant_def [of a])
qed simp

text \<open>Credit is conserved, and a waiting task goes on once enough of it has arrived.\<close>

lemma wait_for_conserves:
  assumes "wait_for bs a = Some (bs', a')" "I64_MIN \<le> a" "a + credit_sum bs \<le> I64_MAX"
  shows "a' + credit_sum bs' = a + credit_sum bs \<and> 0 < a' \<and> a \<le> a'"
  using assms
proof (induction bs arbitrary: a)
  case (Cons b bs)
  have g: "foldl grant a b = a + sum_list (map uint b)"
    by (rule grants_exact) (use Cons.prems(2,3) credit_sum_nonneg [of bs] in simp_all)
  show ?case
  proof (cases "0 < foldl grant a b")
    case True
    with Cons.prems(1) g sum_uint_nonneg [of b] show ?thesis by (auto simp: Let_def)
  next
    case False
    with Cons.prems g sum_uint_nonneg [of b] Cons.IH [of "foldl grant a b"] show ?thesis by (simp add: Let_def)
  qed
qed (auto split: if_splits)

lemma wait_for_opens:
  assumes "0 < a + credit_sum bs" "I64_MIN \<le> a" "a + credit_sum bs \<le> I64_MAX"
  shows "wait_for bs a \<noteq> None"
  using assms
proof (induction bs arbitrary: a)
  case (Cons b bs)
  have g: "foldl grant a b = a + sum_list (map uint b)"
    by (rule grants_exact) (use Cons.prems(2,3) credit_sum_nonneg [of bs] in simp_all)
  with Cons sum_uint_nonneg [of b] show ?case by (simp add: Let_def)
qed simp

text \<open>The credit a link still has coming: its window and all arrivals.\<close>

definition funds :: "Link \<Rightarrow> int" where
  "funds l = link_window l + credit_sum (link_arrivals l)"

text \<open>The window neither overflows nor is it overdrawn past one chunk.\<close>

definition window_ok :: "nat \<Rightarrow> Link \<Rightarrow> bool" where
  "window_ok n l \<longleftrightarrow> - int n < link_window l \<and> funds l \<le> I64_MAX"

lemma send_frame:
  assumes "send J l f = (l', r)"
  shows "link_stream l' = link_stream l" "link_window l' = link_window l" "link_arrivals l' = link_arrivals l"
    and "r = Inr () \<Longrightarrow> \<exists>b. encode J f = Inr b \<and> link_out l' = link_out l @ [MBinary b] \<and> link_left l = Suc (link_left l')"
    and "r \<noteq> Inr () \<Longrightarrow> l' = l"
  using assms by (auto simp: send_def split: sum.splits if_splits)

lemma spend_exact:
  assumes "spend bs a n = Some (bs', a')" "I64_MIN \<le> a" "a + credit_sum bs \<le> I64_MAX" "int n \<le> I64_MAX"
  shows "a' + credit_sum bs' = a + credit_sum bs - int n \<and> - int n < a'"
proof -
  obtain w where wf: "wait_for bs a = Some (bs', w)" and a': "a' = saturate (w - min (int n) I64_MAX)"
    using assms(1) by (auto simp: spend_def)
  have o: "w + credit_sum bs' = a + credit_sum bs" "0 < w"
    using wait_for_conserves [OF wf assms(2,3)] by simp_all
  have "w \<le> I64_MAX" using o(1) assms(3) credit_sum_nonneg [of bs'] by linarith
  then have "a' = w - int n"
    using a' assms(4) o(2) by (simp add: saturate_id I64_MIN_def I64_MAX_def)
  with o show ?thesis by simp
qed

lemma send_counted_funds:
  assumes "send_counted J l f = Some (l', r)" "window_ok n l" "int n \<le> I64_MAX" "credited_len f \<le> n"
  shows "funds l' = funds l - int (credited_len f) \<and> window_ok n l' \<and> link_stream l' = link_stream l"
proof -
  obtain bs' a' where sp: "spend (link_arrivals l) (link_window l) (credited_len f) = Some (bs', a')"
    and s: "send J (l\<lparr>link_window := a', link_arrivals := bs'\<rparr>) f = (l', r)"
    using assms(1) by (auto simp: send_counted_def)
  have lo: "I64_MIN \<le> link_window l" using assms(2,3) by (simp add: window_ok_def I64_MIN_def I64_MAX_def)
  have "a' + credit_sum bs' = link_window l + credit_sum (link_arrivals l) - int (credited_len f) \<and> - int (credited_len f) < a'"
    using spend_exact [OF sp lo] assms(2-4) by (simp add: window_ok_def funds_def)
  then show ?thesis
    using send_frame(1-3) [OF s] assms(2,4) by (simp add: window_ok_def funds_def)
qed

lemma send_counted_out:
  assumes "send_counted J l f = Some (l', Inr ())"
  shows "\<exists>b. encode J f = Inr b \<and> link_out l' = link_out l @ [MBinary b] \<and> link_left l = Suc (link_left l')"
  using assms send_frame(4) by (fastforce simp: send_counted_def)

lemma send_counted_proceeds:
  assumes "window_ok n l" "int n \<le> I64_MAX" "0 < funds l" "0 < link_left l" "encode J f = Inr b"
  shows "\<exists>l'. send_counted J l f = Some (l', Inr ())"
proof -
  have "I64_MIN \<le> link_window l" using assms(1,2) by (simp add: window_ok_def I64_MIN_def I64_MAX_def)
  then have "wait_for (link_arrivals l) (link_window l) \<noteq> None"
    using assms by (intro wait_for_opens) (simp_all add: funds_def window_ok_def)
  then show ?thesis using assms(4,5) by (auto simp: send_counted_def spend_def send_def)
qed

text \<open>The chunks of a body: consecutive, none empty, none longer than \<open>CHUNK\<close>.\<close>

function chunks :: "bytes \<Rightarrow> bytes list" where
  "chunks data = (if data = [] then [] else take CHUNK data # chunks (drop CHUNK data))"
  by pat_completeness auto
termination
  by (relation "measure length") (auto simp: CHUNK_def)

declare chunks.simps [simp del]

lemma concat_chunks: "concat (chunks data) = data"
  by (induction data rule: chunks.induct) (subst chunks.simps, simp)

lemma chunk_sizes: "c \<in> set (chunks data) \<Longrightarrow> c \<noteq> [] \<and> length c \<le> CHUNK"
proof (induction data rule: chunks.induct)
  case (1 data)
  then show ?case by (subst (asm) (2) chunks.simps) (auto simp: CHUNK_def split: if_splits)
qed

definition body_message :: "u32 \<Rightarrow> bytes \<Rightarrow> Message" where
  "body_message s data = MBinary (BODY # be32 s @ data)"

lemma encode_Body [simp]: "encode J (Body s data) = Inr (BODY # be32 s @ data)"
  by (simp add: encode_def)

lemma send_chunks_Nil [simp]: "send_chunks J l [] = Some (l, Inr ())"
  by (simp add: send_chunks.simps)

lemma chunks_Nil [simp]: "chunks [] = []"
  by (simp add: chunks.simps)

lemma CHUNK_fits [simp]: "int CHUNK \<le> I64_MAX"
  by (simp add: CHUNK_def I64_MAX_def)

lemma chunk_step:
  assumes "window_ok CHUNK l" "send_counted J l (Body (link_stream l) (take CHUNK data)) = Some (l', r)"
  shows "funds l' = funds l - int (length (take CHUNK data)) \<and> window_ok CHUNK l' \<and> link_stream l' = link_stream l"
  using send_counted_funds [OF assms(2,1)] by simp

lemma send_chunks_spec:
  assumes "window_ok CHUNK l" "send_chunks J l data = Some (l', r)"
  shows "window_ok CHUNK l' \<and> link_stream l' = link_stream l \<and>
    (r = Inr () \<longrightarrow> funds l' = funds l - int (length data) \<and>
       link_out l' = link_out l @ map (body_message (link_stream l)) (chunks data))"
  using assms
proof (induction J l data rule: send_chunks.induct)
  case (1 J l data)
  show ?case
  proof (cases "data = []")
    case True
    with 1(2,3) show ?thesis by auto
  next
    case False
    with 1(3) obtain k q where k: "send_counted J l (Body (link_stream l) (take CHUNK data)) = Some (k, q)"
      by (auto simp: send_chunks.simps [of J l data] split: option.splits)
    note step = chunk_step [OF 1(2) k]
    show ?thesis
    proof (cases q)
      case (Inl e)
      with 1(3) k False step show ?thesis by (auto simp: send_chunks.simps [of J l data])
    next
      case (Inr u)
      with 1(3) k False have rest: "send_chunks J k (drop CHUNK data) = Some (l', r)"
        by (simp add: send_chunks.simps [of J l data])
      have "link_out k = link_out l @ [body_message (link_stream l) (take CHUNK data)]"
        using send_counted_out [of J l "Body (link_stream l) (take CHUNK data)" k] k Inr by (auto simp: body_message_def)
      with 1(1) [OF False k _ Inr] step rest False show ?thesis
        by (auto simp: chunks.simps [of data])
    qed
  qed
qed

text \<open>
  C16: A body is relayed in consecutive parts of at most 64 KiB that concatenate to it, in order and
  unchanged; the window falls by exactly the bytes sent; and at no time is it overdrawn by a whole
  chunk, whatever grants arrive while the sender waits.
\<close>

theorem send_chunks_flow_control:
  assumes "window_ok CHUNK l" "send_chunks J l data = Some (l', Inr ())"
  shows "window_ok CHUNK l' \<and> funds l' = funds l - int (length data) \<and>
    (\<exists>parts. link_out l' = link_out l @ map (body_message (link_stream l)) parts \<and> concat parts = data \<and>
       (\<forall>part \<in> set parts. part \<noteq> [] \<and> length part \<le> CHUNK))"
  using send_chunks_spec [OF assms] concat_chunks [of data] chunk_sizes [of _ data] by blast

text \<open>
  A sender with enough credit on the way finishes: when the window and the grants that arrive
  cover the body and the writer takes its parts, the whole body is sent.
\<close>

theorem send_chunks_finishes:
  assumes "window_ok CHUNK l" "int (length data) \<le> funds l" "length data \<le> link_left l"
  shows "\<exists>l'. send_chunks J l data = Some (l', Inr ())"
  using assms
proof (induction J l data rule: send_chunks.induct)
  case (1 J l data)
  show ?case
  proof (cases "data = []")
    case True
    then show ?thesis by simp
  next
    case False
    then have pos: "0 < length data" by simp
    have "0 < funds l" "0 < link_left l" using pos 1(3,4) by linarith+
    then obtain k where k: "send_counted J l (Body (link_stream l) (take CHUNK data)) = Some (k, Inr ())"
      using send_counted_proceeds [OF 1(2) CHUNK_fits _ _ encode_Body] by blast
    have left: "link_left l = Suc (link_left k)" using send_counted_out [OF k] by auto
    have "\<exists>l'. send_chunks J k (drop CHUNK data) = Some (l', Inr ())"
    proof (rule 1(1) [OF False k])
      show "window_ok CHUNK k" using chunk_step [OF 1(2) k] by simp
      show "int (length (drop CHUNK data)) \<le> funds k"
        using chunk_step [OF 1(2) k] 1(3) by (auto simp: CHUNK_def)
      show "length (drop CHUNK data) \<le> link_left k"
        using left 1(4) pos by (simp add: CHUNK_def)
    qed auto
    with False k show ?thesis by (simp add: send_chunks.simps [of J l data])
  qed
qed

text \<open>A link that has to wait for its second batch of grants.\<close>

definition sample_link :: Link where
  "sample_link = \<lparr>link_stream = 7, link_out = [], link_left = 5, link_window = 0, link_arrivals = [[], [2, 3]]\<rparr>"

theorem send_chunks_finishes_witness: "\<exists>l'. send_chunks sample_serde sample_link [1, 2, 3] = Some (l', Inr ())"
  by (rule send_chunks_finishes)
    (simp_all add: sample_link_def window_ok_def funds_def credit_sum_def CHUNK_def I64_MAX_def)

theorem send_chunks_flow_control_witness:
  "\<exists>l'. send_chunks sample_serde sample_link [1, 2, 3] = Some (l', Inr ()) \<and> window_ok CHUNK l' \<and> funds l' = 2"
proof -
  let ?l = "sample_link\<lparr>link_out := [MBinary (BODY # be32 7 @ [1, 2, 3])], link_left := 4, link_window := 2, link_arrivals := []\<rparr>"
  have ok: "window_ok CHUNK sample_link" and f: "funds sample_link = 5"
    by (simp_all add: sample_link_def window_ok_def funds_def credit_sum_def CHUNK_def I64_MAX_def)
  have run: "send_chunks sample_serde sample_link [1, 2, 3] = Some (?l, Inr ())"
    by (simp add: send_chunks.simps [of _ _ "[1, 2, 3]"] send_counted_def spend_def send_def sample_link_def grant_def
        saturate_def I64_MAX_def I64_MIN_def CHUNK_def)
  show ?thesis using send_chunks_flow_control [OF ok run] run f by auto
qed

section \<open>Credits returned\<close>

definition credit_message :: "u32 \<Rightarrow> bytes \<Rightarrow> Message" where
  "credit_message s data = MBinary (CREDIT # be32 s @ be32 (of_nat (min (length data) (2 ^ 32 - 1))))"

lemma credit_frame:
  assumes "credit J l (length data) = (l', r)"
  shows "link_stream l' = link_stream l"
    and "r = Inr () \<Longrightarrow> link_out l' = link_out l @ [credit_message (link_stream l) data]"
    and "r \<noteq> Inr () \<Longrightarrow> l' = l"
  using send_frame [OF assms [unfolded credit_def]] by (auto simp: credit_message_def encode_def)

text \<open>The bodies of an upload, up to its end or the first item that does not belong.\<close>

fun bodies :: "Inbound list \<Rightarrow> bytes list" where
  "bodies (InBody data # items) = data # bodies items"
| "bodies _ = []"

lemma discard_until_end_ok [simp]: "discard_until_end items = Inr ()"
  by (induction items) auto

lemma upload_spec:
  assumes "upload J items accepts l = (ds, l', r)"
  shows "ds = take (length ds) (bodies items) \<and> length ds \<le> accepts \<and>
    (\<exists>k \<le> length ds. link_out l' = link_out l @ map (credit_message (link_stream l)) (take k ds) \<and>
       (r = Inr () \<longrightarrow> k = length ds))"
  using assms
proof (induction J items accepts l arbitrary: ds l' r rule: upload.induct)
  case (2 J data items accepts l)
  show ?case
  proof (cases accepts)
    case 0
    with 2(2) show ?thesis by simp
  next
    case (Suc n)
    obtain k q where c: "credit J l (length data) = (k, q)" by (cases "credit J l (length data)")
    note cf = credit_frame [OF c]
    show ?thesis
    proof (cases q)
      case (Inl e)
      with 2(2) c Suc cf(3) show ?thesis by auto
    next
      case (Inr u)
      obtain es l1 r1 where rest: "upload J items n k = (es, l1, r1)" by (cases "upload J items n k")
      with 2(2) c Suc Inr have eq: "ds = data # es" "l' = l1" "r = r1" by simp_all
      obtain j where "es = take (length es) (bodies items)" "length es \<le> n" "j \<le> length es"
        "link_out l1 = link_out k @ map (credit_message (link_stream k)) (take j es)" "r1 = Inr () \<longrightarrow> j = length es"
        using 2(1) [OF Suc c [symmetric] Inr rest] by blast
      then show ?thesis
        using eq Inr cf(1,2) Suc by (auto intro!: exI [of _ "Suc j"])
    qed
  qed
qed auto

text \<open>
  An upload hands the local request the parts of the body in order, nothing beyond them, and
  returns to the relay exactly one credit per part it handed over, of that part's length; a part the
  local server did not take is never credited.
\<close>

theorem upload_credits_what_it_delivers:
  assumes "upload J items accepts l = (delivered, l', Inr ())"
  shows "link_out l' = link_out l @ map (credit_message (link_stream l)) delivered \<and>
    delivered = take (length delivered) (bodies items) \<and> length delivered \<le> accepts"
  using upload_spec [OF assms] by auto

theorem upload_credits_witness:
  "link_out (fst (snd (upload sample_serde [InBody [1, 2], InBody [3], InEnd] 1 sample_link))) =
     [credit_message 7 [1, 2]]"
proof -
  have "upload sample_serde [InBody [1, 2], InBody [3], InEnd] 1 sample_link =
      ([[1, 2]], sample_link\<lparr>link_out := [credit_message 7 [1, 2]], link_left := 4\<rparr>, Inr ())"
    by (simp add: credit_def send_def encode_def sample_link_def credit_message_def)
  from upload_credits_what_it_delivers [OF this] this show ?thesis by (simp add: sample_link_def)
qed

section \<open>Messages relayed\<close>

text \<open>The reference: the frames of a message stream up to its close, and the close that ends it.\<close>

fun message_frame :: "u32 \<Rightarrow> string + Message \<Rightarrow> Frame option" where
  "message_frame s (Inr (MText text)) = Some (Text s text)"
| "message_frame s (Inr (MBinary data)) = Some (Binary s data)"
| "message_frame s _ = None"

fun is_close :: "string + Message \<Rightarrow> bool" where
  "is_close (Inr (MClose _)) = True"
| "is_close _ = False"

definition data_frames :: "u32 \<Rightarrow> (string + Message) list \<Rightarrow> Frame list" where
  "data_frames s source = List.map_filter (message_frame s) (takeWhile (\<lambda>m. \<not> is_close m) source)"

fun closing :: "(string + Message) list \<Rightarrow> u16 \<times> rtext" where
  "closing (Inr (MClose frame) # source) = (case frame of None \<Rightarrow> (NO_STATUS, []) | Some f \<Rightarrow> f)"
| "closing (m # source) = closing source"
| "closing [] = (ABNORMAL, chars ''local socket ended'')"

definition sent_as :: "serde \<Rightarrow> Frame list \<Rightarrow> Link \<Rightarrow> Link \<Rightarrow> bool" where
  "sent_as J fs l l' \<longleftrightarrow> (\<exists>ws. map (encode J) fs = map Inr ws \<and> link_out l' = link_out l @ map MBinary ws)"

lemma sent_as_send:
  assumes "send J l f = (l', Inr ())"
  shows "sent_as J [f] l l'"
proof -
  obtain b where "map (encode J) [f] = map Inr [b] \<and> link_out l' = link_out l @ map MBinary [b]"
    using send_frame(4) [OF assms refl] by auto
  then show ?thesis unfolding sent_as_def by blast
qed

lemma sent_as_counted:
  assumes "send_counted J l f = Some (k, Inr ())" "sent_as J fs k l'"
  shows "sent_as J (f # fs) l l'"
proof -
  obtain b where "encode J f = Inr b" "link_out k = link_out l @ [MBinary b]"
    using send_counted_out [OF assms(1)] by blast
  moreover obtain ws where "map (encode J) fs = map Inr ws" "link_out l' = link_out k @ map MBinary ws"
    using assms(2) by (auto simp: sent_as_def)
  ultimately have "map (encode J) (f # fs) = map Inr (b # ws) \<and> link_out l' = link_out l @ map MBinary (b # ws)"
    by simp
  then show ?thesis unfolding sent_as_def by blast
qed

lemma data_frames_simps [simp]:
  "data_frames s [] = []"
  "data_frames s (m # ms) = (if is_close m then [] else (case message_frame s m of Some f \<Rightarrow> [f] | None \<Rightarrow> []) @ data_frames s ms)"
  by (auto simp: data_frames_def map_filter_simps split: option.splits)

lemma send_counted_stream: "send_counted J l f = Some (k, r) \<Longrightarrow> link_stream k = link_stream l"
  using send_frame(1) by (fastforce simp: send_counted_def)

lemmas sum_unit_splits = option.splits prod.splits sum.splits

lemma to_relay_spec:
  assumes "to_relay J l source = Some (l', Inr ())"
  shows "sent_as J (data_frames (link_stream l) source @ [case closing source of (code, reason) \<Rightarrow> Close (link_stream l) code reason]) l l'"
  using assms
proof (induction J l source rule: to_relay.induct)
  case (3 J l t source)
  then obtain k where k: "send_counted J l (Text (link_stream l) t) = Some (k, Inr ())" "to_relay J k source = Some (l', Inr ())"
    by (auto split: sum_unit_splits)
  from 3(1) [OF k(1) refl refl k(2)] send_counted_stream [OF k(1)] show ?case
    by (auto intro!: sent_as_counted [OF k(1)])
next
  case (4 J l data source)
  then obtain k where k: "send_counted J l (Binary (link_stream l) data) = Some (k, Inr ())" "to_relay J k source = Some (l', Inr ())"
    by (auto split: sum_unit_splits)
  from 4(1) [OF k(1) refl refl k(2)] send_counted_stream [OF k(1)] show ?case
    by (auto intro!: sent_as_counted [OF k(1)])
qed (auto simp: sent_as_send split: option.splits)

text \<open>
  C17: A WebSocket relayed to the end puts on the tunnel the text and binary messages of the local
  socket, in order, followed by exactly one close frame: that of the local peer, or 1006 when the
  socket ended without one.  The relay decodes exactly these frames.
\<close>

theorem to_relay_relays_messages:
  assumes "to_relay J l source = Some (l', Inr ())" and "serde_ok J"
    and "closing source = (code, reason)"
    and "list_all wf_frame (data_frames (link_stream l) source @ [Close (link_stream l) code reason])"
  shows "\<exists>ws. link_out l' = link_out l @ map MBinary ws \<and>
    map (decode J) ws = map Inr (data_frames (link_stream l) source @ [Close (link_stream l) code reason])"
proof -
  obtain ws where ws: "map (encode J) (data_frames (link_stream l) source @ [Close (link_stream l) code reason]) = map Inr ws"
    and out: "link_out l' = link_out l @ map MBinary ws"
    using to_relay_spec [OF assms(1)] assms(3) unfolding sent_as_def by auto
  have "list_all (\<lambda>f. serde_ok J \<and> wf_frame f) (data_frames (link_stream l) source @ [Close (link_stream l) code reason])"
    using assms(2,4) by (auto simp: list_all_iff)
  from frames.dec_sequence [OF this ws] out show ?thesis by blast
qed

theorem to_relay_witness:
  "\<exists>l' ws. to_relay sample_serde sample_link [Inr (MText [104]), Inr (MPing []), Inr (MClose None)] = Some (l', Inr ()) \<and>
     link_out l' = map MBinary ws \<and> map (decode sample_serde) ws = [Inr (Text 7 [104]), Inr (Close 7 1005 [])]"
proof -
  let ?source = "[Inr (MText [104]), Inr (MPing []), Inr (MClose None)]"
  obtain l' where run: "to_relay sample_serde sample_link ?source = Some (l', Inr ())"
    by (simp add: send_counted_def spend_def send_def sample_link_def grant_def encode_def
        saturate_def I64_MAX_def I64_MIN_def)
  have cl: "closing ?source = (1005, [])" by (simp add: NO_STATUS_def)
  have wf: "list_all wf_frame (data_frames (link_stream sample_link) ?source @ [Close (link_stream sample_link) 1005 []])"
    by (simp add: from_utf8.simps sample_link_def)
  obtain ws where "link_out l' = link_out sample_link @ map MBinary ws"
    "map (decode sample_serde) ws =
       map Inr (data_frames (link_stream sample_link) ?source @ [Close (link_stream sample_link) 1005 []])"
    using to_relay_relays_messages [OF run sample_serde_ok cl wf] by blast
  moreover have "link_out sample_link = []" "link_stream sample_link = 7" by (simp_all add: sample_link_def)
  ultimately show ?thesis using run by (intro exI [of _ l'] exI [of _ ws]) (simp del: to_relay.simps)
qed

text \<open>The messages of an inbound stream, up to its close.\<close>

fun inbound_message :: "Inbound \<Rightarrow> Message option" where
  "inbound_message (InText data) = Some (MText data)"
| "inbound_message (InBinary data) = Some (MBinary data)"
| "inbound_message (InClose code reason) = Some (MClose (close_frame code reason))"
| "inbound_message _ = None"

fun message_data :: "Message \<Rightarrow> bytes option" where
  "message_data (MText data) = Some data"
| "message_data (MBinary data) = Some data"
| "message_data _ = None"

text \<open>
  The local socket receives the messages of the relay one for one and in order; every text or
  binary message it took is credited to the relay with its own length, and nothing else is; when the
  relay closes, the close is the last message, without a body if its code is reserved.
\<close>

theorem to_local_credits_messages:
  assumes "to_local J broken items sinks l = (ms, l', Inr r)"
  shows "map Some ms = map inbound_message (take (length ms) items) \<and>
    link_out l' = link_out l @ map (credit_message (link_stream l)) (List.map_filter message_data ms) \<and>
    (case r of None \<Rightarrow> length ms = length items | Some (code, reason) \<Rightarrow> ms \<noteq> [] \<and> last ms = MClose (close_frame code reason))"
  using assms
proof (induction J broken items sinks l arbitrary: ms l' r rule: to_local.induct)
  case (2 J broken data items sinks l)
  then obtain n k ns where c: "sinks = Suc n" "credit J l (length data) = (k, Inr ())"
    "to_local J broken items n k = (ns, l', Inr r)" "ms = MText data # ns" "from_utf8 data \<noteq> None"
    by (auto split: if_splits nat.splits sum_unit_splits)
  with 2(1) [OF c(5,1) c(2) [symmetric] _ c(3)] credit_frame(1,2) [OF c(2)] show ?case
    by (auto simp: map_filter_simps split: option.splits)
next
  case (3 J broken data items sinks l)
  then obtain n k ns where c: "sinks = Suc n" "credit J l (length data) = (k, Inr ())"
    "to_local J broken items n k = (ns, l', Inr r)" "ms = MBinary data # ns"
    by (auto split: if_splits nat.splits sum_unit_splits)
  with 3(1) [OF c(1) c(2) [symmetric] _ c(3)] credit_frame(1,2) [OF c(2)] show ?case
    by (auto simp: map_filter_simps split: option.splits)
next
  case (4 J broken code reason items sinks l)
  then show ?case by (auto simp: map_filter_simps split: nat.splits)
qed (auto simp: map_filter_simps)

theorem to_local_credits_messages_witness:
  "\<exists>ms l'. to_local sample_serde ''broken'' [InBinary [1, 2], InClose 1006 []] 4 sample_link = (ms, l', Inr (Some (1006, []))) \<and>
     ms = [MBinary [1, 2], MClose None] \<and> link_out l' = [credit_message 7 [1, 2]]"
proof -
  let ?l = "sample_link\<lparr>link_out := [MBinary (CREDIT # be32 7 @ be32 2)], link_left := 4\<rparr>"
  have run: "to_local sample_serde ''broken'' [InBinary [1, 2], InClose 1006 []] 4 sample_link =
      ([MBinary [1, 2], MClose None], ?l, Inr (Some (1006, [])))"
    by (simp add: credit_def send_def encode_def sample_link_def close_frame_def ABNORMAL_def)
  have "link_out ?l = [credit_message 7 [1, 2]]"
    using to_local_credits_messages [OF run] by (simp add: sample_link_def map_filter_simps)
  with run show ?thesis by blast
qed

end
