(* ===== verification/Tunnel_Request.thy ===== *)
theory Tunnel_Request
  imports Tunnel_Stream
begin

text \<open>
  The requests a relayed stream makes of the local server and the heads of its answers
  (\<open>crates/tunnel/src/stream.rs\<close>): which headers are dropped, how header values travel as Latin-1,
  and how the relay's access token is cut from the address.

  The parsers of the \<open>http\<close> crate are a parameter; a header name is the text the crate keeps, which
  its documentation says is in lower case.
\<close>

section \<open>Text\<close>

definition ch :: "char \<Rightarrow> nat" where "ch c = of_char c"

text \<open>\<open>str::split\<close> on one character, \<open>str::split_once\<close>, and \<open>join\<close>.\<close>

fun split_on :: "nat \<Rightarrow> rtext \<Rightarrow> rtext list" where
  "split_on c [] = [[]]"
| "split_on c (x # xs) = (if x = c then [] # split_on c xs else (x # hd (split_on c xs)) # tl (split_on c xs))"

fun split_once :: "nat \<Rightarrow> rtext \<Rightarrow> (rtext \<times> rtext) option" where
  "split_once c [] = None"
| "split_once c (x # xs) = (if x = c then Some ([], xs) else map_option (apfst ((#) x)) (split_once c xs))"

fun join :: "nat \<Rightarrow> rtext list \<Rightarrow> rtext" where
  "join c [] = []"
| "join c [p] = p"
| "join c (p # q # ps) = p @ c # join c (q # ps)"

section \<open>Operations\<close>

definition LOCAL_HOST :: rtext where "LOCAL_HOST = chars ''tunnel''"
definition HOST :: rtext where "HOST = chars ''host''"

definition HOP_BY_HOP :: "rtext list" where
  "HOP_BY_HOP = map chars
     [''connection'', ''keep-alive'', ''proxy-connection'', ''transfer-encoding'', ''te'', ''trailer'', ''upgrade'']"

definition CREDENTIALS :: "rtext list" where
  "CREDENTIALS = map chars [''authorization'', ''cookie'']"

definition HANDSHAKE :: "rtext list" where
  "HANDSHAKE = map chars
     [''sec-websocket-key'', ''sec-websocket-version'', ''sec-websocket-extensions'', ''sec-websocket-accept'']"

record http_lib =
  method_from_bytes :: "bytes \<Rightarrow> string + rtext"
  header_name :: "bytes \<Rightarrow> string + rtext"
  header_value :: "bytes \<Rightarrow> string + bytes"

record Builder =
  b_method :: rtext
  b_uri :: rtext
  b_headers :: "(rtext \<times> bytes) list"

definition without_token :: "rtext \<Rightarrow> rtext" where
  "without_token uri =
     (case split_once (ch CHR ''?'') uri of
        None \<Rightarrow> uri
      | Some (path, query) \<Rightarrow>
          (let kept = filter (\<lambda>pair. pair \<noteq> [] \<and> hd (split_on (ch CHR ''='') pair) \<noteq> chars ''token'')
                        (split_on (ch CHR ''&'') query)
           in if kept = [] then path else path @ ch CHR ''?'' # join (ch CHR ''&'') kept))"

fun latin1 :: "rtext \<Rightarrow> StreamError + bytes" where
  "latin1 [] = Inr []"
| "latin1 (c # cs) =
     (if c < 256 then map_sum id ((#) (of_nat c)) (latin1 cs) else Inl (BadHead (BeyondLatin1 c)))"

definition from_latin1 :: "bytes \<Rightarrow> rtext" where
  "from_latin1 bs = map unat bs"

definition is_dropped :: "rtext \<Rightarrow> bool" where
  "is_dropped name \<longleftrightarrow> name \<in> set HOP_BY_HOP \<or> name \<in> set CREDENTIALS \<or> name \<in> set HANDSHAKE"

definition refuse :: "string + 'a \<Rightarrow> StreamError + 'a" where
  "refuse r = (case r of Inl e \<Rightarrow> Inl (BadHead (Refused e)) | Inr a \<Rightarrow> Inr a)"

text \<open>The loop over the headers of the request: the headers kept so far and whether one is the host.\<close>

fun local_headers :: "http_lib \<Rightarrow> (rtext \<times> rtext) list \<Rightarrow> StreamError + bool \<times> (rtext \<times> bytes) list" where
  "local_headers H [] = Inr (False, [])"
| "local_headers H ((n, v) # hs) =
     (case refuse (header_name H (utf8_encode n)) of
        Inl e \<Rightarrow> Inl e
      | Inr name \<Rightarrow>
          if is_dropped name then local_headers H hs
          else case latin1 v of
            Inl e \<Rightarrow> Inl e
          | Inr raw \<Rightarrow>
              (case refuse (header_value H raw) of
                 Inl e \<Rightarrow> Inl e
               | Inr val \<Rightarrow>
                   (case local_headers H hs of
                      Inl e \<Rightarrow> Inl e
                    | Inr (has_host, kept) \<Rightarrow> Inr (name = HOST \<or> has_host, (name, val) # kept))))"

definition local_request :: "http_lib \<Rightarrow> RequestHead \<Rightarrow> StreamError + Builder" where
  "local_request H head =
     (case refuse (method_from_bytes H (utf8_encode (req_method head))) of
        Inl e \<Rightarrow> Inl e
      | Inr m \<Rightarrow>
          (case local_headers H (req_headers head) of
             Inl e \<Rightarrow> Inl e
           | Inr (has_host, kept) \<Rightarrow>
               Inr \<lparr>b_method = m, b_uri = without_token (req_uri head),
                 b_headers = kept @ (if has_host then [] else [(HOST, utf8_encode LOCAL_HOST)])\<rparr>))"

definition upgrade_request :: "http_lib \<Rightarrow> bytes \<Rightarrow> RequestHead \<Rightarrow> StreamError + Builder" where
  "upgrade_request H key head =
     map_sum id (\<lambda>b. b\<lparr>b_method := chars ''GET'', b_headers := b_headers b @
       [(chars ''connection'', utf8_encode (chars ''upgrade'')),
        (chars ''upgrade'', utf8_encode (chars ''websocket'')),
        (chars ''sec-websocket-version'', utf8_encode (chars ''13'')),
        (chars ''sec-websocket-key'', key)]\<rparr>) (local_request H head)"

definition response_head :: "u16 \<Rightarrow> (rtext \<times> bytes) list \<Rightarrow> ResponseHead" where
  "response_head status headers =
     \<lparr>resp_status = status,
      resp_headers = map (\<lambda>(name, value). (name, from_latin1 value))
        (filter (\<lambda>(name, value). name \<notin> set HOP_BY_HOP \<and> name \<notin> set HANDSHAKE) headers)\<rparr>"

section \<open>Splitting and joining\<close>

lemma split_on_not_Nil [simp]: "split_on c s \<noteq> []"
  by (induction s) auto

lemma split_on_free: "p \<in> set (split_on c s) \<Longrightarrow> c \<notin> set p"
proof (induction s arbitrary: p)
  case (Cons x s)
  then show ?case by (cases "split_on c s") (auto split: if_splits)
qed simp

lemma split_on_append: "c \<notin> set p \<Longrightarrow> split_on c (p @ c # s) = p # split_on c s"
  by (induction p) auto

lemma split_on_plain: "c \<notin> set p \<Longrightarrow> split_on c p = [p]"
  by (induction p) auto

lemma split_on_join: "ps \<noteq> [] \<Longrightarrow> \<forall>p \<in> set ps. c \<notin> set p \<Longrightarrow> split_on c (join c ps) = ps"
  by (induction c ps rule: join.induct) (auto simp: split_on_append split_on_plain)

lemma join_split_on: "join c (split_on c s) = s"
proof (induction s)
  case (Cons x s)
  then show ?case by (cases "split_on c s" rule: list.exhaust; cases "tl (split_on c s)") auto
qed simp

lemma split_once_Some: "split_once c s = Some (p, q) \<longleftrightarrow> c \<notin> set p \<and> s = p @ c # q"
proof
  show "split_once c s = Some (p, q) \<Longrightarrow> c \<notin> set p \<and> s = p @ c # q"
    by (induction s arbitrary: p) (auto split: if_splits)
  have "c \<notin> set p \<Longrightarrow> split_once c (p @ c # q) = Some (p, q)" by (induction p) auto
  then show "c \<notin> set p \<and> s = p @ c # q \<Longrightarrow> split_once c s = Some (p, q)" by simp
qed

lemma split_once_None: "split_once c s = None \<longleftrightarrow> c \<notin> set s"
  by (induction s) auto

section \<open>Properties\<close>

text \<open>The path of an address, and the non-empty pairs of its query.\<close>

definition path_of :: "rtext \<Rightarrow> rtext" where
  "path_of uri = (case split_once (ch CHR ''?'') uri of None \<Rightarrow> uri | Some (path, _) \<Rightarrow> path)"

definition query_pairs :: "rtext \<Rightarrow> rtext list" where
  "query_pairs uri =
     (case split_once (ch CHR ''?'') uri of
        None \<Rightarrow> [] | Some (_, query) \<Rightarrow> filter (\<lambda>pair. pair \<noteq> []) (split_on (ch CHR ''&'') query))"

definition pair_key :: "rtext \<Rightarrow> rtext" where
  "pair_key pair = hd (split_on (ch CHR ''='') pair)"

text \<open>
  The address the local server sees has the path of the request and its query pairs, in order,
  less every pair whose key is \<open>token\<close>.
\<close>

lemma without_token_pairs:
  "path_of (without_token uri) = path_of uri \<and>
   query_pairs (without_token uri) = filter (\<lambda>pair. pair_key pair \<noteq> chars ''token'') (query_pairs uri)"
proof (cases "split_once (ch CHR ''?'') uri")
  case None
  then show ?thesis by (simp add: without_token_def path_of_def query_pairs_def)
next
  case (Some pq)
  obtain path query where pq: "pq = (path, query)" by (cases pq)
  define kept where
    "kept = filter (\<lambda>pair. pair \<noteq> [] \<and> pair_key pair \<noteq> chars ''token'') (split_on (ch CHR ''&'') query)"
  have uri: "ch CHR ''?'' \<notin> set path" using Some pq by (simp add: split_once_Some)
  have wt: "without_token uri = (if kept = [] then path else path @ ch CHR ''?'' # join (ch CHR ''&'') kept)"
    using Some pq by (simp add: without_token_def kept_def pair_key_def)
  have free: "\<forall>p \<in> set kept. ch CHR ''&'' \<notin> set p" using split_on_free by (auto simp: kept_def)
  have nonempty: "filter (\<lambda>pair. pair \<noteq> []) kept = kept" by (auto simp: kept_def intro: filter_cong)
  have old: "path_of uri = path" "filter (\<lambda>pair. pair_key pair \<noteq> chars ''token'') (query_pairs uri) = kept"
    using Some pq by (auto simp: path_of_def query_pairs_def kept_def intro: filter_cong)
  show ?thesis
  proof (cases "kept = []")
    case True
    then have "split_once (ch CHR ''?'') (without_token uri) = None" using wt uri by (simp add: split_once_None)
    then show ?thesis using True wt old by (simp add: path_of_def query_pairs_def)
  next
    case False
    then have "split_once (ch CHR ''?'') (without_token uri) = Some (path, join (ch CHR ''&'') kept)"
      using wt uri by (simp add: split_once_Some)
    then show ?thesis
      using False old split_on_join [OF False free] nonempty by (simp add: path_of_def query_pairs_def)
  qed
qed

text \<open>Header values: the bytes of a value and its text determine each other.\<close>

lemma latin1_from_latin1: "latin1 (from_latin1 bs) = Inr bs"
proof (induction bs)
  case (Cons b bs)
  have "unat b < 256" using unsigned_less [of b] by simp
  with Cons show ?case by (simp add: from_latin1_def)
qed (simp add: from_latin1_def)

lemma latin1_Inr: "latin1 s = Inr bs \<Longrightarrow> from_latin1 bs = s"
proof (induction s arbitrary: bs)
  case (Cons c s)
  then show ?case by (auto simp: from_latin1_def unat_of_nat split: if_splits)
qed (simp add: from_latin1_def)

lemma latin1_Inl: "latin1 s = Inl e \<longleftrightarrow> (\<exists>c. find (\<lambda>c. 256 \<le> c) s = Some c \<and> e = BadHead (BeyondLatin1 c))"
  by (induction s) auto

text \<open>
  Header values cross the tunnel byte for byte: every byte string comes back from its Latin-1
  text, a text that converts is the text of its bytes, and a text is refused exactly when it holds a
  character past U+00FF, the first of which the error names.
\<close>

theorem latin1_roundtrip:
  "latin1 (from_latin1 bs) = Inr bs \<and>
   (latin1 s = Inr bs \<longleftrightarrow> s = from_latin1 bs) \<and>
   (latin1 s = Inl e \<longleftrightarrow> (\<exists>c. find (\<lambda>c. 256 \<le> c) s = Some c \<and> e = BadHead (BeyondLatin1 c)))"
  using latin1_from_latin1 latin1_Inr latin1_Inl by metis

lemma HOST_kept [simp]: "\<not> is_dropped HOST"
  by (simp add: is_dropped_def HOST_def HOP_BY_HOP_def CREDENTIALS_def HANDSHAKE_def chars_def)

lemma refuse_Inr [simp]: "refuse r = Inr a \<longleftrightarrow> r = Inr a" "refuse (Inr a) = Inr a"
  by (auto simp: refuse_def split: sum.splits)

text \<open>What one header becomes: nothing when it is dropped, otherwise its name and its bytes.\<close>

definition carried :: "http_lib \<Rightarrow> rtext \<times> rtext \<Rightarrow> (rtext \<times> bytes) \<Rightarrow> bool" where
  "carried H raw kept \<longleftrightarrow>
     (case raw of (n, v) \<Rightarrow> case kept of (name, val) \<Rightarrow>
        header_name H (utf8_encode n) = Inr name \<and> (\<exists>b. v = from_latin1 b \<and> header_value H b = Inr val))"

definition droppable :: "http_lib \<Rightarrow> rtext \<times> rtext \<Rightarrow> bool" where
  "droppable H raw \<longleftrightarrow> (\<exists>name. header_name H (utf8_encode (fst raw)) = Inr name \<and> is_dropped name)"

lemma droppable_iff: "header_name H (utf8_encode n) = Inr name \<Longrightarrow> droppable H (n, v) \<longleftrightarrow> is_dropped name"
  by (simp add: droppable_def)

lemma local_headers_spec:
  assumes "local_headers H hs = Inr (has_host, kept)"
  shows "list_all2 (carried H) (filter (\<lambda>h. \<not> droppable H h) hs) kept \<and>
    list_all (\<lambda>(name, _). \<not> is_dropped name) kept \<and> (has_host \<longleftrightarrow> HOST \<in> fst ` set kept)"
  using assms
proof (induction hs arbitrary: has_host kept)
  case (Cons h hs)
  obtain n v where h: "h = (n, v)" by (cases h)
  with Cons.prems obtain name where name: "header_name H (utf8_encode n) = Inr name"
    by (auto split: sum.splits)
  show ?case
  proof (cases "is_dropped name")
    case True
    then show ?thesis using Cons name h by (simp add: droppable_iff [OF name])
  next
    case False
    with Cons.prems name h obtain raw val more r where
      rest: "latin1 v = Inr raw" "header_value H raw = Inr val" "local_headers H hs = Inr (r, more)"
        "has_host = (name = HOST \<or> r)" "kept = (name, val) # more"
      by (auto split: sum.splits)
    with Cons.IH [OF rest(3)] False name h latin1_Inr [OF rest(1)] show ?thesis
      by (auto simp: droppable_iff [OF name] carried_def)
  qed
qed simp

text \<open>
  C18: The request made of the local server carries no hop-by-hop, handshake or credential header:
  its headers are those of the relayed head that are not dropped, in order and with their values
  byte for byte, and it always names a host.  Its address has the path of the relayed one and its
  query pairs less those whose key is \<open>token\<close>: the relay's access token does not reach the server.
\<close>

theorem local_request_spec:
  assumes "local_request H head = Inr b"
  shows "\<exists>kept. list_all2 (carried H) (filter (\<lambda>h. \<not> droppable H h) (req_headers head)) kept \<and>
      b_headers b = kept @ (if HOST \<in> fst ` set kept then [] else [(HOST, utf8_encode LOCAL_HOST)]) \<and>
      (\<forall>(name, _) \<in> set (b_headers b). name \<notin> set HOP_BY_HOP \<and> name \<notin> set CREDENTIALS \<and> name \<notin> set HANDSHAKE) \<and>
      HOST \<in> fst ` set (b_headers b) \<and>
      method_from_bytes H (utf8_encode (req_method head)) = Inr (b_method b) \<and>
      path_of (b_uri b) = path_of (req_uri head) \<and>
      query_pairs (b_uri b) = filter (\<lambda>pair. pair_key pair \<noteq> chars ''token'') (query_pairs (req_uri head))"
proof -
  from assms obtain m has_host kept where m: "method_from_bytes H (utf8_encode (req_method head)) = Inr m"
    and k: "local_headers H (req_headers head) = Inr (has_host, kept)"
    and b: "b = \<lparr>b_method = m, b_uri = without_token (req_uri head),
        b_headers = kept @ (if has_host then [] else [(HOST, utf8_encode LOCAL_HOST)])\<rparr>"
    by (auto simp: local_request_def split: sum.splits)
  note spec = local_headers_spec [OF k]
  have "\<forall>(name, _) \<in> set (b_headers b). \<not> is_dropped name"
    using spec b by (auto simp: list_all_iff)
  then have "\<forall>(name, _) \<in> set (b_headers b). name \<notin> set HOP_BY_HOP \<and> name \<notin> set CREDENTIALS \<and> name \<notin> set HANDSHAKE"
    by (auto simp: is_dropped_def)
  then show ?thesis using spec m b without_token_pairs [of "req_uri head"] by (intro exI [of _ kept]) auto
qed

text \<open>A library that lowers the one name it is given here and takes every value.\<close>

definition sample_http :: http_lib where
  "sample_http = \<lparr>method_from_bytes = (\<lambda>b. Inr (from_latin1 b)),
     header_name = (\<lambda>b. Inr (map (\<lambda>x. let n = unat x in if 65 \<le> n \<and> n \<le> 90 then n + 32 else n) b)),
     header_value = Inr\<rparr>"

theorem local_request_witness:
  "\<exists>b. local_request sample_http sample_request = Inr b \<and>
     (\<forall>(name, _) \<in> set (b_headers b). name \<notin> set CREDENTIALS) \<and> HOST \<in> fst ` set (b_headers b)"
proof -
  obtain b where b: "local_request sample_http sample_request = Inr b"
    by (simp add: local_request_def sample_http_def sample_request_def refuse_def is_dropped_def HOP_BY_HOP_def
        CREDENTIALS_def HANDSHAKE_def chars_def utf8_encode_def utf8_char_def byte_of_def from_latin1_def)
  show ?thesis using local_request_spec [OF b] b by blast
qed

end
