(* ===== verification/Tunnel_Client.thy ===== *)
theory Tunnel_Client
  imports Tunnel_Request
begin

text \<open>
  The device side of the relay tunnel (\<open>crates/tunnel/src/client.rs\<close>): the handshake, the table of
  open streams that dispatches the relay's frames, the health reports, the event loop of a session
  and the loop that reconnects.

  The table is a map from stream numbers to open streams; each open stream has its inbound queue
  (\<open>None\<close> once its task dropped the receiver), its window and the number of its task.  Tasks run
  elsewhere: what the loop sees of them is how they were joined.  Times are milliseconds.  Texts of
  errors are constructors that carry what the message formats.
\<close>

section \<open>Errors\<close>

datatype protocol_detail = ExpectedChallenge | ExpectedReady | UnexpectedFrame u32 | OpenedTwice u32

datatype socket_detail =
    SocketText string | ClosedDuringHandshake | RelayClosed | RelayClosedWith u16 rtext | WriterStopped

datatype IdentityError = Generate | Invalid | Size nat

datatype TunnelError =
    Address string
  | Connect string
  | Tls string
  | Socket socket_detail
  | Rejected rtext
  | Protocol protocol_detail
  | Timeout string
  | TFrame FrameError
  | Identity IdentityError

section \<open>Identity\<close>

text \<open>The signature scheme is a parameter: signing with the device's key gives some bytes.\<close>

definition PROOF_CONTEXT :: bytes where
  "PROOF_CONTEXT = utf8_encode (chars ''sdrmm-tunnel.1 device proof'') @ [0]"

definition proof_message :: "bytes \<Rightarrow> bytes" where
  "proof_message nonce = PROOF_CONTEXT @ nonce"

definition prove :: "(bytes \<Rightarrow> bytes) \<Rightarrow> bytes \<Rightarrow> IdentityError + bytes" where
  "prove sign nonce =
     (let b = sign (proof_message nonce) in if length b = PROOF_LEN then Inr b else Inl (Size (length b)))"

definition verify_proof :: "(bytes \<Rightarrow> bytes \<Rightarrow> bytes \<Rightarrow> bool) \<Rightarrow> bytes \<Rightarrow> bytes \<Rightarrow> bytes \<Rightarrow> bool" where
  "verify_proof verify public_key nonce proof_bytes = verify public_key (proof_message nonce) proof_bytes"

section \<open>Handshake\<close>

definition rejected_code :: "u16 \<Rightarrow> bool" where
  "rejected_code c \<longleftrightarrow> 4000 \<le> c \<and> c < 4100"

fun closed :: "(u16 \<times> rtext) option \<Rightarrow> TunnelError" where
  "closed (Some (code, reason)) =
     (if rejected_code code then Rejected reason else Socket (RelayClosedWith code reason))"
| "closed None = Socket RelayClosed"

text \<open>The socket is the list of what it yields: messages or errors.  The rest is handed back.\<close>

fun next_frame :: "serde \<Rightarrow> (string + Message) list \<Rightarrow> (TunnelError + Frame) \<times> (string + Message) list" where
  "next_frame J [] = (Inl (Socket ClosedDuringHandshake), [])"
| "next_frame J (Inr (MBinary b) # items) =
     ((case decode J b of Inl e \<Rightarrow> Inl (TFrame e) | Inr f \<Rightarrow> Inr f), items)"
| "next_frame J (Inr (MClose frame) # items) = (Inl (closed frame), items)"
| "next_frame J (Inr _ # items) = next_frame J items"
| "next_frame J (Inl e # items) = (Inl (Socket (SocketText e)), items)"

text \<open>What the handshake sent, its outcome, and what is left of the socket; \<open>send_error\<close> is the error of sending a message, if any.\<close>

definition handshake :: "serde \<Rightarrow> (bytes \<Rightarrow> bytes) \<Rightarrow> (Message \<Rightarrow> string option) \<Rightarrow> (string + Message) list
    \<Rightarrow> Message list \<times> (TunnelError + unit) \<times> (string + Message) list" where
  "handshake J sign send_error items =
     (case next_frame J items of
        (Inl e, rest) \<Rightarrow> ([], Inl e, rest)
      | (Inr (Challenge nonce), rest) \<Rightarrow>
          (case prove sign nonce of
             Inl e \<Rightarrow> ([], Inl (Identity e), rest)
           | Inr signature \<Rightarrow>
               (case encode J (Proof signature) of
                  Inl e \<Rightarrow> ([], Inl (TFrame e), rest)
                | Inr b \<Rightarrow>
                    (case send_error (MBinary b) of
                       Some e \<Rightarrow> ([], Inl (Socket (SocketText e)), rest)
                     | None \<Rightarrow>
                         (case next_frame J rest of
                            (Inl e, rest') \<Rightarrow> ([MBinary b], Inl e, rest')
                          | (Inr Ready, rest') \<Rightarrow> ([MBinary b], Inr (), rest')
                          | (Inr _, rest') \<Rightarrow> ([MBinary b], Inl (Protocol ExpectedReady), rest')))))
      | (Inr _, rest) \<Rightarrow> ([], Inl (Protocol ExpectedChallenge), rest))"

section \<open>Streams\<close>

definition INBOUND :: nat where "INBOUND = 256"

record Open =
  op_queue :: "Inbound list option"
  op_window :: int
  op_task :: nat

record Streams =
  ss_out :: "Message list"
  ss_left :: nat
  ss_open :: "u32 \<rightharpoonup> Open"
  ss_tasks :: "nat \<rightharpoonup> u32"
  ss_aborted :: "nat set"
  ss_next :: nat

definition streams_new :: "nat \<Rightarrow> Streams" where
  "streams_new left =
     \<lparr>ss_out = [], ss_left = left, ss_open = Map.empty, ss_tasks = Map.empty, ss_aborted = {}, ss_next = 0\<rparr>"

definition push_out :: "Message \<Rightarrow> Streams \<Rightarrow> Streams" where
  "push_out m ss = (if ss_left ss = 0 then ss else ss\<lparr>ss_out := ss_out ss @ [m], ss_left := ss_left ss - 1\<rparr>)"

definition start :: "u32 \<Rightarrow> Streams \<Rightarrow> TunnelError + Streams" where
  "start s ss =
     (if s = CONTROL_STREAM \<or> ss_open ss s \<noteq> None then Inl (Protocol (OpenedTwice s))
      else Inr (ss\<lparr>ss_open := (ss_open ss)(s \<mapsto> \<lparr>op_queue = Some [], op_window = window_new WINDOW, op_task = ss_next ss\<rparr>),
                 ss_tasks := (ss_tasks ss)(ss_next ss \<mapsto> s), ss_next := Suc (ss_next ss)\<rparr>))"

definition drop_stream :: "u32 \<Rightarrow> Streams \<Rightarrow> Streams" where
  "drop_stream s ss =
     (case ss_open ss s of
        None \<Rightarrow> ss
      | Some op \<Rightarrow> ss\<lparr>ss_open := (ss_open ss)(s := None), ss_aborted := insert (op_task op) (ss_aborted ss)\<rparr>)"

definition overrun_reset :: "u32 \<Rightarrow> Message" where
  "overrun_reset s = MBinary (RESET # be32 s @ utf8_encode (chars ''window overrun''))"

definition deliver :: "u32 \<Rightarrow> Inbound \<Rightarrow> Streams \<Rightarrow> Streams" where
  "deliver s item ss =
     (case ss_open ss s of
        None \<Rightarrow> ss
      | Some op \<Rightarrow>
          (case op_queue op of
             None \<Rightarrow> ss
           | Some queue \<Rightarrow>
               if length queue < INBOUND
               then ss\<lparr>ss_open := (ss_open ss)(s \<mapsto> op\<lparr>op_queue := Some (queue @ [item])\<rparr>)\<rparr>
               else push_out (overrun_reset s) (drop_stream s ss)))"

fun handle :: "Frame \<Rightarrow> Streams \<Rightarrow> TunnelError + Streams" where
  "handle (Request s head) ss = start s ss"
| "handle (Body s data) ss = Inr (deliver s (InBody data) ss)"
| "handle (End s) ss = Inr (deliver s InEnd ss)"
| "handle (Text s data) ss = Inr (deliver s (InText data) ss)"
| "handle (Binary s data) ss = Inr (deliver s (InBinary data) ss)"
| "handle (Close s code reason) ss = Inr (deliver s (InClose code reason) ss)"
| "handle (Credit s n) ss =
     Inr (case ss_open ss s of
            None \<Rightarrow> ss
          | Some op \<Rightarrow> ss\<lparr>ss_open := (ss_open ss)(s \<mapsto> op\<lparr>op_window := grant (op_window op) n\<rparr>)\<rparr>)"
| "handle (Reset s reason) ss = Inr (drop_stream s ss)"
| "handle f ss = Inl (Protocol (UnexpectedFrame (stream f)))"

text \<open>How a task was joined: it returned its stream number, it panicked, or it was cancelled.\<close>

datatype joined = Returned u32 | Panicked | Cancelled

fun finish :: "joined \<Rightarrow> Streams \<Rightarrow> Streams" where
  "finish (Returned s) ss = ss\<lparr>ss_open := (ss_open ss)(s := None)\<rparr>"
| "finish Panicked ss = ss"
| "finish Cancelled ss = ss"

section \<open>Health reports\<close>

definition HEALTH_SPACING :: nat where "HEALTH_SPACING = 60 * 1000"
definition HEALTH_REFRESH :: nat where "HEALTH_REFRESH = 270 * 1000"
definition SILENCE :: nat where "SILENCE = 70 * 1000"

text \<open>
  The watched site report: its value, whether it changed since it was last read, and whether its
  sender still exists (\<open>has_changed\<close> is an error without one).
\<close>

record Heartbeat =
  hb_site :: "bytes option"
  hb_changed :: bool
  hb_watched :: bool
  hb_sent :: "nat option"
  hb_sent_rtt :: bool
  hb_ping :: "nat option"
  hb_rtt :: "nat option"
  hb_oversized :: bool

definition pinged :: "nat \<Rightarrow> Heartbeat \<Rightarrow> Heartbeat" where
  "pinged now h = h\<lparr>hb_ping := Some now\<rparr>"

definition ponged :: "nat \<Rightarrow> Heartbeat \<Rightarrow> Heartbeat" where
  "ponged now h =
     (case hb_ping h of None \<Rightarrow> h | Some ping \<Rightarrow> h\<lparr>hb_ping := None, hb_rtt := Some (now - ping)\<rparr>)"

definition due :: "nat \<Rightarrow> Heartbeat \<Rightarrow> bool" where
  "due now h =
     (case hb_sent h of
        None \<Rightarrow> True
      | Some sent \<Rightarrow>
          (let waited = now - sent;
               news = (hb_watched h \<and> hb_changed h) \<or> (hb_rtt h \<noteq> None) \<noteq> hb_sent_rtt h
           in HEALTH_REFRESH \<le> waited \<or> news \<and> HEALTH_SPACING \<le> waited))"

text \<open>The JSON of the report is a parameter: the round trip in milliseconds, capped, and the site.\<close>

definition envelope :: "(u32 option \<Rightarrow> bytes \<Rightarrow> string + bytes) \<Rightarrow> nat option \<Rightarrow> bytes \<Rightarrow> string + bytes" where
  "envelope wrap rtt site = wrap (map_option (\<lambda>ms. of_nat (min ms (2 ^ 32 - 1))) rtt) site"

definition payload :: "(u32 option \<Rightarrow> bytes \<Rightarrow> string + bytes) \<Rightarrow> nat \<Rightarrow> Heartbeat \<Rightarrow> Heartbeat \<times> bytes option" where
  "payload wrap now h =
     (if \<not> due now h then (h, None)
      else let h' = h\<lparr>hb_changed := False\<rparr>
        in case hb_site h' of
             None \<Rightarrow> (h', None)
           | Some site \<Rightarrow>
               (case envelope wrap (hb_rtt h') site of
                  Inl e \<Rightarrow> (h', None)
                | Inr p \<Rightarrow>
                    if length p \<le> MAX_HEALTH then (h'\<lparr>hb_oversized := False\<rparr>, Some p)
                    else (h'\<lparr>hb_oversized := True\<rparr>, None)))"

text \<open>The report of one beat, the heartbeat afterwards, and the outcome; \<open>alive\<close> says the writer runs.\<close>

definition beat :: "serde \<Rightarrow> (u32 option \<Rightarrow> bytes \<Rightarrow> string + bytes) \<Rightarrow> bool \<Rightarrow> nat \<Rightarrow> Heartbeat
    \<Rightarrow> Message list \<times> Heartbeat \<times> (TunnelError + unit)" where
  "beat J wrap alive now h =
     (case payload wrap now h of
        (h', None) \<Rightarrow> ([], h', Inr ())
      | (h', Some data) \<Rightarrow>
          (case encode J (Health data) of
             Inl e \<Rightarrow> ([], h', Inl (TFrame e))
           | Inr b \<Rightarrow>
               if \<not> alive then ([], h', Inl (Socket WriterStopped))
               else ([MBinary b], h'\<lparr>hb_sent := Some now, hb_sent_rtt := hb_rtt h' \<noteq> None\<rparr>, Inr ())))"

section \<open>The event loop of a session\<close>

text \<open>
  What the loop waits for: the socket yields, a task is joined, the keepalive timer ticks, the writer
  ends.  A session is the list of its events, each with its time.
\<close>

datatype event =
    Received "(string + Message) option"
  | Joined joined
  | Tick
  | Written "string + (TunnelError + unit)"

record Session =
  se_streams :: Streams
  se_heart :: Heartbeat
  se_heard :: nat

definition PING :: bytes where "PING = utf8_encode (chars ''ping'')"
definition PONG :: bytes where "PONG = utf8_encode (chars ''pong'')"

text \<open>One turn of the loop: the session goes on in a new state, or returns.\<close>

fun serve_step :: "serde \<Rightarrow> (u32 option \<Rightarrow> bytes \<Rightarrow> string + bytes) \<Rightarrow> nat \<Rightarrow> event \<Rightarrow> Session
    \<Rightarrow> (TunnelError + unit) + Session" where
  "serve_step J wrap now (Received m) se =
     (let se' = se\<lparr>se_heard := now\<rparr>
      in case m of
           None \<Rightarrow> Inl (Inr ())
         | Some (Inl e) \<Rightarrow> Inl (Inl (Socket (SocketText e)))
         | Some (Inr (MBinary b)) \<Rightarrow>
             (case decode J b of
                Inl e \<Rightarrow> Inl (Inl (TFrame e))
              | Inr f \<Rightarrow>
                  (case handle f (se_streams se') of
                     Inl e \<Rightarrow> Inl (Inl e)
                   | Inr ss \<Rightarrow> Inr (se'\<lparr>se_streams := ss\<rparr>)))
         | Some (Inr (MText t)) \<Rightarrow>
             Inr (if t = PONG then se'\<lparr>se_heart := ponged now (se_heart se')\<rparr> else se')
         | Some (Inr (MClose frame)) \<Rightarrow>
             Inl (case closed frame of Rejected reason \<Rightarrow> Inl (Rejected reason) | _ \<Rightarrow> Inr ())
         | Some (Inr _) \<Rightarrow> Inr se')"
| "serve_step J wrap now (Joined j) se = Inr (se\<lparr>se_streams := finish j (se_streams se)\<rparr>)"
| "serve_step J wrap now Tick se =
     (if SILENCE < now - se_heard se then Inl (Inl (Timeout ''relay went silent''))
      else if ss_left (se_streams se) = 0 then Inl (Inl (Socket WriterStopped))
      else
        let ss = push_out (MText PING) (se_streams se)
        in case beat J wrap (ss_left ss \<noteq> 0) now (pinged now (se_heart se)) of
             (ms, h, Inl e) \<Rightarrow> Inl (Inl e)
           | (ms, h, Inr _) \<Rightarrow> Inr (se\<lparr>se_streams := foldr push_out (rev ms) ss, se_heart := h\<rparr>))"
| "serve_step J wrap now (Written w) se =
     Inl (case w of Inl e \<Rightarrow> Inl (Socket (SocketText e)) | Inr r \<Rightarrow> r)"

fun serve_loop :: "serde \<Rightarrow> (u32 option \<Rightarrow> bytes \<Rightarrow> string + bytes) \<Rightarrow> (nat \<times> event) list \<Rightarrow> Session
    \<Rightarrow> (TunnelError + unit) + Session" where
  "serve_loop J wrap [] se = Inr se"
| "serve_loop J wrap ((now, e) # es) se =
     (case serve_step J wrap now e se of Inl r \<Rightarrow> Inl r | Inr se' \<Rightarrow> serve_loop J wrap es se')"

definition serve :: "serde \<Rightarrow> (u32 option \<Rightarrow> bytes \<Rightarrow> string + bytes) \<Rightarrow> nat \<Rightarrow> nat \<Rightarrow> Heartbeat \<Rightarrow> (nat \<times> event) list
    \<Rightarrow> (TunnelError + unit) + Session" where
  "serve J wrap left t0 h events =
     (case beat J wrap (left \<noteq> 0) t0 h of
        (ms, h', Inl e) \<Rightarrow> Inl (Inl e)
      | (ms, h', Inr _) \<Rightarrow>
          serve_loop J wrap events
            \<lparr>se_streams = foldr push_out (rev ms) (streams_new left), se_heart = h', se_heard = t0\<rparr>)"

section \<open>Reconnecting\<close>

definition STABLE :: nat where "STABLE = 60 * 1000"
definition FIRST_RETRY :: nat where "FIRST_RETRY = 1000"
definition LAST_RETRY :: nat where "LAST_RETRY = 60 * 1000"

text \<open>The delay before its random part, in milliseconds: one shift of a \<open>u32\<close>, checked.\<close>

definition retry_ceiling :: "u32 \<Rightarrow> nat" where
  "retry_ceiling attempt =
     min (FIRST_RETRY * (if attempt < 32 then 2 ^ unat attempt else 2 ^ 32 - 1)) LAST_RETRY"

datatype Status = Connecting | Online | Retrying nat | Stopped rtext

text \<open>
  The outer loop over the sessions it runs, each given by whether the handshake came through, its
  outcome and how long it lasted: the statuses it shows.  The jitter is a parameter.
\<close>

fun run_client :: "(nat \<Rightarrow> nat) \<Rightarrow> u32 \<Rightarrow> (bool \<times> (TunnelError + unit) \<times> nat) list \<Rightarrow> Status list" where
  "run_client jitter attempt [] = [Connecting]"
| "run_client jitter attempt ((online, outcome, elapsed) # sessions) =
     Connecting # (if online then [Online] else []) @
     (case outcome of
        Inl (Rejected reason) \<Rightarrow> [Stopped reason]
      | _ \<Rightarrow>
          (let attempt' = (if STABLE \<le> elapsed then 0 else attempt);
               delay = jitter (retry_ceiling attempt')
           in Retrying delay #
              run_client jitter (if attempt' = 2 ^ 32 - 1 then attempt' else attempt' + 1) sessions))"

section \<open>The table as a transition system\<close>

text \<open>
  The steps that touch the table: a frame is handled, a task takes an item off its queue, spends
  credit or drops its receiver, a task is joined.  A task that was aborted is joined as cancelled
  unless it had already returned.
\<close>

inductive table_step :: "Streams \<Rightarrow> Streams \<Rightarrow> bool" where
  framed: "handle f ss = Inr ss' \<Longrightarrow> table_step ss ss'"
| taken: "ss_open ss s = Some op \<Longrightarrow> op_queue op = Some (item # queue) \<Longrightarrow>
    table_step ss (ss\<lparr>ss_open := (ss_open ss)(s \<mapsto> op\<lparr>op_queue := Some queue\<rparr>)\<rparr>)"
| spent: "ss_open ss s = Some op \<Longrightarrow> 0 < op_window op \<Longrightarrow>
    table_step ss (ss\<lparr>ss_open := (ss_open ss)(s \<mapsto> op\<lparr>op_window := saturate (op_window op - min (int n) I64_MAX)\<rparr>)\<rparr>)"
| dropped: "ss_open ss s = Some op \<Longrightarrow>
    table_step ss (ss\<lparr>ss_open := (ss_open ss)(s \<mapsto> op\<lparr>op_queue := None\<rparr>)\<rparr>)"
| returned: "ss_tasks ss t = Some s \<Longrightarrow>
    table_step ss (finish (Returned s) (ss\<lparr>ss_tasks := (ss_tasks ss)(t := None)\<rparr>))"
| panicked: "ss_tasks ss t = Some s \<Longrightarrow>
    table_step ss (finish Panicked (ss\<lparr>ss_tasks := (ss_tasks ss)(t := None)\<rparr>))"
| cancelled: "ss_tasks ss t = Some s \<Longrightarrow> t \<in> ss_aborted ss \<Longrightarrow>
    table_step ss (finish Cancelled (ss\<lparr>ss_tasks := (ss_tasks ss)(t := None)\<rparr>))"

inductive_cases table_stepE: "table_step ss ss'"

definition table_reachable :: "nat \<Rightarrow> Streams \<Rightarrow> bool" where
  "table_reachable left ss \<longleftrightarrow> table_step\<^sup>*\<^sup>* (streams_new left) ss"

text \<open>
  The invariant: the control stream is never open, queues stay within their capacity, windows within
  the range of an \<open>i64\<close>, and every open stream has a task of its own.
\<close>

definition open_ok :: "Streams \<Rightarrow> u32 \<Rightarrow> Open \<Rightarrow> bool" where
  "open_ok ss s op \<longleftrightarrow>
     s \<noteq> CONTROL_STREAM \<and> (\<forall>queue. op_queue op = Some queue \<longrightarrow> length queue \<le> INBOUND) \<and>
     I64_MIN \<le> op_window op \<and> op_window op \<le> I64_MAX \<and> op_task op < ss_next ss \<and>
     (\<forall>s'. ss_tasks ss (op_task op) = Some s' \<longrightarrow> s' = s)"

definition table_ok :: "Streams \<Rightarrow> bool" where
  "table_ok ss \<longleftrightarrow>
     (\<forall>s op. ss_open ss s = Some op \<longrightarrow> open_ok ss s op) \<and>
     (\<forall>s s' op op'. ss_open ss s = Some op \<longrightarrow> ss_open ss s' = Some op' \<longrightarrow> op_task op = op_task op' \<longrightarrow> s = s') \<and>
     (\<forall>t s. ss_tasks ss t = Some s \<longrightarrow> t < ss_next ss)"

lemma saturate_range [simp]: "I64_MIN \<le> saturate a" "saturate a \<le> I64_MAX"
  by (simp_all add: saturate_def I64_MIN_def I64_MAX_def)

lemma window_new_range [simp]: "I64_MIN \<le> window_new w" "window_new w \<le> I64_MAX"
proof -
  have "0 \<le> uint w" "uint w < 2 ^ 32" using unsigned_less [of w] by simp_all
  moreover have "I64_MIN \<le> 0" "2 ^ 32 - 1 \<le> I64_MAX" by (simp_all add: I64_MIN_def I64_MAX_def)
  ultimately have "I64_MIN \<le> uint w \<and> uint w \<le> I64_MAX" by linarith
  then show "I64_MIN \<le> window_new w" "window_new w \<le> I64_MAX"
    by (simp_all add: window_new_def)
qed

lemma push_out_same [simp]:
  "ss_open (push_out m ss) = ss_open ss" "ss_tasks (push_out m ss) = ss_tasks ss" "ss_next (push_out m ss) = ss_next ss"
  "ss_aborted (push_out m ss) = ss_aborted ss"
  by (simp_all add: push_out_def)

lemma table_ok_cong:
  "ss_open ss' = ss_open ss \<Longrightarrow> ss_tasks ss' = ss_tasks ss \<Longrightarrow> ss_next ss' = ss_next ss \<Longrightarrow> table_ok ss' = table_ok ss"
  by (simp add: table_ok_def open_ok_def)

lemma table_ok_update:
  assumes "table_ok ss" "ss_open ss s = Some op" "op_task op' = op_task op" "open_ok ss s op'"
  shows "table_ok (ss\<lparr>ss_open := (ss_open ss)(s \<mapsto> op')\<rparr>)"
  using assms by (fastforce simp: table_ok_def open_ok_def)

lemma table_ok_remove:
  "table_ok ss \<Longrightarrow> table_ok (ss\<lparr>ss_open := (ss_open ss)(s := None)\<rparr>)"
  "table_ok ss \<Longrightarrow> table_ok (ss\<lparr>ss_tasks := (ss_tasks ss)(t := None)\<rparr>)"
  by (auto simp: table_ok_def open_ok_def)

lemma table_ok_drop_stream: "table_ok ss \<Longrightarrow> table_ok (drop_stream s ss)"
proof (cases "ss_open ss s")
  case (Some op)
  assume "table_ok ss"
  then have "table_ok (ss\<lparr>ss_open := (ss_open ss)(s := None)\<rparr>)" by (rule table_ok_remove)
  with Some show ?thesis
    by (subst table_ok_cong [of _ "ss\<lparr>ss_open := (ss_open ss)(s := None)\<rparr>"]) (simp_all add: drop_stream_def)
qed (simp add: drop_stream_def)

lemma open_okD: "table_ok ss \<Longrightarrow> ss_open ss s = Some op \<Longrightarrow> open_ok ss s op"
  by (simp add: table_ok_def)

lemma table_ok_start:
  assumes "table_ok ss" "start s ss = Inr ss'"
  shows "table_ok ss'"
proof -
  let ?op = "\<lparr>op_queue = Some [], op_window = window_new WINDOW, op_task = ss_next ss\<rparr>"
  have new: "s \<noteq> CONTROL_STREAM" and ss': "ss' = ss\<lparr>ss_open := (ss_open ss)(s \<mapsto> ?op),
      ss_tasks := (ss_tasks ss)(ss_next ss \<mapsto> s), ss_next := Suc (ss_next ss)\<rparr>"
    using assms(2) by (auto simp: start_def split: if_splits)
  have old: "op_task op < ss_next ss" if "ss_open ss x = Some op" for x op
    using open_okD [OF assms(1) that] by (simp add: open_ok_def)
  have "open_ok ss' x op" if "ss_open ss' x = Some op" for x op
    using that new open_okD [OF assms(1), of x op] unfolding ss' open_ok_def by (auto split: if_splits)
  moreover have "x = y" if "ss_open ss' x = Some op" "ss_open ss' y = Some op'" "op_task op = op_task op'" for x y op op'
    using that assms(1) old unfolding ss' table_ok_def by (fastforce split: if_splits)
  moreover have "t < ss_next ss'" if "ss_tasks ss' t = Some x" for t x
    using that assms(1) unfolding ss' table_ok_def by (force split: if_splits)
  ultimately show ?thesis by (auto simp: table_ok_def)
qed

lemma table_ok_deliver: "table_ok ss \<Longrightarrow> table_ok (deliver s item ss)"
  unfolding deliver_def
  by (auto split: option.splits intro!: table_ok_update dest: open_okD
      simp: open_ok_def table_ok_cong [of "push_out _ _"] table_ok_drop_stream)

lemma table_ok_handle: "table_ok ss \<Longrightarrow> handle f ss = Inr ss' \<Longrightarrow> table_ok ss'"
  by (cases f) (auto simp: table_ok_deliver table_ok_drop_stream grant_def open_ok_def table_ok_start split: option.splits
      intro!: table_ok_update dest: open_okD)

lemma table_ok_step: "table_step ss ss' \<Longrightarrow> table_ok ss \<Longrightarrow> table_ok ss'"
proof (induction rule: table_step.induct)
  case (framed f ss ss')
  then show ?case using table_ok_handle by blast
next
  case (taken ss s op item queue)
  then show ?case using open_okD [of ss s op] by (auto intro!: table_ok_update simp: open_ok_def)
next
  case (spent ss s op n)
  then show ?case using open_okD [of ss s op] by (auto intro!: table_ok_update simp: open_ok_def)
next
  case (dropped ss s op)
  then show ?case using open_okD [of ss s op] by (auto intro!: table_ok_update simp: open_ok_def)
next
  case (returned ss t s)
  then show ?case using table_ok_remove(1) [OF table_ok_remove(2)] by fastforce
qed (auto simp: table_ok_remove)

lemma table_ok_new: "table_ok (streams_new left)"
  by (simp add: table_ok_def streams_new_def)

text \<open>
  C19: In every state of the table that a run can reach, whatever frames arrive and however tasks
  progress, the control stream is not open, no inbound queue exceeds its capacity, every window is
  an \<open>i64\<close>, and no two open streams share a task.
\<close>

theorem stream_table_invariant: "table_reachable left ss \<Longrightarrow> table_ok ss"
  unfolding table_reachable_def
  by (induction rule: rtranclp_induct) (simp_all add: table_ok_new table_ok_step)

text \<open>A run in which the relay resets a stream whose task has just returned, and opens it again.\<close>

definition reopened :: Streams where
  "reopened = projr (handle (Request 1 sample_request)
     (projr (handle (Reset 1 []) (projr (handle (Request 1 sample_request) (streams_new 8))))))"

definition orphaned :: Streams where
  "orphaned = finish (Returned 1) (reopened\<lparr>ss_tasks := (ss_tasks reopened)(0 := None)\<rparr>)"

lemma reopened_reachable: "table_reachable 8 reopened"
proof -
  let ?a = "projr (handle (Request 1 sample_request) (streams_new 8))"
  let ?b = "projr (handle (Reset 1 []) ?a)"
  have "handle (Request 1 sample_request) (streams_new 8) = Inr ?a" "handle (Reset 1 []) ?a = Inr ?b"
    "handle (Request 1 sample_request) ?b = Inr reopened"
    by (simp_all add: start_def streams_new_def CONTROL_STREAM_def reopened_def drop_stream_def)
  then show ?thesis
    unfolding table_reachable_def by (meson framed rtranclp.rtrancl_into_rtrancl rtranclp.rtrancl_refl)
qed

theorem stream_table_invariant_witness: "table_ok reopened"
  by (rule stream_table_invariant [OF reopened_reachable])

text \<open>
  C21: The table can lose a stream that is still running: when the relay resets a stream whose task
  has already returned and reuses its number before that task is joined, joining the old task removes
  the new stream, which then never receives data or credit although its task was not aborted.
\<close>

theorem stale_join_orphans_stream:
  "table_reachable 8 orphaned \<and> ss_tasks orphaned 1 = Some 1 \<and> 1 \<notin> ss_aborted orphaned \<and> ss_open orphaned 1 = None"
proof -
  have r: "reopened = \<lparr>ss_out = [], ss_left = 8,
      ss_open = [1 \<mapsto> \<lparr>op_queue = Some [], op_window = window_new WINDOW, op_task = 1\<rparr>],
      ss_tasks = [0 \<mapsto> 1, 1 \<mapsto> 1], ss_aborted = {0}, ss_next = 2\<rparr>"
    by (auto simp: reopened_def start_def streams_new_def CONTROL_STREAM_def drop_stream_def)
  have "table_step reopened orphaned"
    unfolding orphaned_def by (rule returned) (simp add: r)
  then have "table_reachable 8 orphaned"
    using reopened_reachable unfolding table_reachable_def by (rule rtranclp.rtrancl_into_rtrancl [rotated])
  then show ?thesis by (simp add: orphaned_def r)
qed

text \<open>The item a frame puts into the queue of its stream, for the frames that do.\<close>

fun inbound_of :: "Frame \<Rightarrow> Inbound option" where
  "inbound_of (Body s data) = Some (InBody data)"
| "inbound_of (End s) = Some InEnd"
| "inbound_of (Text s data) = Some (InText data)"
| "inbound_of (Binary s data) = Some (InBinary data)"
| "inbound_of (Close s code reason) = Some (InClose code reason)"
| "inbound_of f = None"

text \<open>The frames that arrive between two steps of the tasks, up to the first that breaks the protocol.\<close>

fun handle_all :: "Frame list \<Rightarrow> Streams \<Rightarrow> TunnelError + Streams" where
  "handle_all [] ss = Inr ss"
| "handle_all (f # fs) ss = (case handle f ss of Inl e \<Rightarrow> Inl e | Inr ss' \<Rightarrow> handle_all fs ss')"

definition arrived :: "u32 \<Rightarrow> Frame list \<Rightarrow> Inbound list" where
  "arrived s fs = List.map_filter inbound_of (filter (\<lambda>f. stream f = s) fs)"

lemma arrived_simps [simp]:
  "arrived s [] = []"
  "arrived s (f # fs) = (if stream f = s then (case inbound_of f of None \<Rightarrow> [] | Some item \<Rightarrow> [item]) else []) @ arrived s fs"
  by (simp_all add: arrived_def List.map_filter_simps split: option.split)

lemma handle_inbound: "inbound_of f = Some item \<Longrightarrow> handle f ss = Inr (deliver (stream f) item ss)"
  by (cases f) auto

lemma handle_other_stream:
  assumes "handle f ss = Inr ss'" "s \<noteq> stream f"
  shows "ss_open ss' s = ss_open ss s"
  using assms by (cases f) (auto simp: start_def deliver_def drop_stream_def split: if_splits option.splits)

lemma handle_out_grows:
  assumes "handle f ss = Inr ss'"
  shows "ss_aborted ss \<subseteq> ss_aborted ss'" "\<exists>more. ss_out ss' = ss_out ss @ more" "ss_left ss' \<le> ss_left ss"
  using assms by (cases f;
      force simp: start_def deliver_def drop_stream_def push_out_def split: if_splits option.splits)+

lemma handle_all_out_grows:
  "handle_all fs ss = Inr ss' \<Longrightarrow>
     ss_aborted ss \<subseteq> ss_aborted ss' \<and> (\<exists>more. ss_out ss' = ss_out ss @ more) \<and> ss_left ss' \<le> ss_left ss"
proof (induction fs arbitrary: ss)
  case (Cons f fs)
  then obtain mid where mid: "handle f ss = Inr mid" "handle_all fs mid = Inr ss'" by (auto split: sum.splits)
  show ?case using handle_out_grows [OF mid(1)] Cons.IH [OF mid(2)] by (metis append.assoc order_trans)
qed simp

lemma handle_all_other_stream:
  "handle_all fs ss = Inr ss' \<Longrightarrow> \<forall>f \<in> set fs. stream f = s \<longrightarrow> inbound_of f \<noteq> None \<Longrightarrow>
     ss_open ss s = None \<Longrightarrow> ss_open ss' s = None"
proof (induction fs arbitrary: ss)
  case (Cons f fs)
  then obtain mid where mid: "handle f ss = Inr mid" "handle_all fs mid = Inr ss'" by (auto split: sum.splits)
  have "ss_open mid s = None"
  proof (cases "stream f = s")
    case True
    then obtain item where "inbound_of f = Some item" using Cons.prems(2) by auto
    then have "mid = deliver s item ss" using mid(1) True handle_inbound by force
    then show ?thesis using Cons.prems(3) by (simp add: deliver_def)
  qed (use handle_other_stream [OF mid(1)] Cons.prems(3) in auto)
  then show ?case using Cons.IH [OF mid(2)] Cons.prems(2) by simp
qed simp

lemma deliver_fits:
  assumes "ss_open ss s = Some op" "op_queue op = Some queue" "length queue < INBOUND"
  shows "ss_open (deliver s item ss) s = Some (op\<lparr>op_queue := Some (queue @ [item])\<rparr>)"
  using assms by (simp add: deliver_def)

lemma deliver_overruns:
  assumes "ss_open ss s = Some op" "op_queue op = Some queue" "INBOUND \<le> length queue"
  shows "ss_open (deliver s item ss) = (ss_open ss)(s := None)"
    "ss_aborted (deliver s item ss) = insert (op_task op) (ss_aborted ss)"
    "ss_out (deliver s item ss) = ss_out ss @ (if ss_left ss = 0 then [] else [overrun_reset s])"
    "ss_tasks (deliver s item ss) = ss_tasks ss"
  using assms by (simp_all add: deliver_def drop_stream_def push_out_def)

lemma overrun_reset_encode: "\<exists>b. encode J (Reset s (chars ''window overrun'')) = Inr b \<and> overrun_reset s = MBinary b"
  by (simp add: encode_def overrun_reset_def)

lemma handle_all_queue:
  "handle_all fs ss = Inr ss' \<Longrightarrow> \<forall>f \<in> set fs. stream f = s \<longrightarrow> inbound_of f \<noteq> None \<Longrightarrow>
     ss_open ss s = Some op \<Longrightarrow> op_queue op = Some queue \<Longrightarrow> length queue \<le> INBOUND \<Longrightarrow>
     (if length (queue @ arrived s fs) \<le> INBOUND then ss_open ss' s = Some (op\<lparr>op_queue := Some (queue @ arrived s fs)\<rparr>)
      else ss_open ss' s = None \<and> op_task op \<in> ss_aborted ss' \<and>
        (overrun_reset s \<in> set (ss_out ss') \<or> ss_left ss' = 0))"
proof (induction fs arbitrary: ss op queue)
  case Nil
  then show ?case by simp
next
  case (Cons f fs)
  then obtain mid where mid: "handle f ss = Inr mid" "handle_all fs mid = Inr ss'" by (auto split: sum.splits)
  have rest: "\<forall>f \<in> set fs. stream f = s \<longrightarrow> inbound_of f \<noteq> None" using Cons.prems(2) by simp
  show ?case
  proof (cases "stream f = s")
    case False
    then have "ss_open mid s = Some op" using handle_other_stream [OF mid(1)] Cons.prems(3) by simp
    from Cons.IH [OF mid(2) rest this Cons.prems(4,5)] False show ?thesis by simp
  next
    case True
    then obtain item where item: "inbound_of f = Some item" using Cons.prems(2) by auto
    then have m: "mid = deliver s item ss" using mid(1) True handle_inbound by force
    show ?thesis
    proof (cases "length queue < INBOUND")
      case fits: True
      have "ss_open mid s = Some (op\<lparr>op_queue := Some (queue @ [item])\<rparr>)"
        unfolding m by (rule deliver_fits [OF Cons.prems(3,4) fits])
      from Cons.IH [OF mid(2) rest this] fits item True show ?thesis by (simp split: if_splits)
    next
      case False
      note over = deliver_overruns [OF Cons.prems(3,4), of item, folded m]
      have gone: "ss_open mid s = None" "op_task op \<in> ss_aborted mid" using over(1,2) False by simp_all
      have out: "overrun_reset s \<in> set (ss_out mid) \<or> ss_left mid = 0" using over(3) False unfolding m
        by (auto simp: deliver_def drop_stream_def push_out_def split: option.splits)
      have "ss_open ss' s = None" by (rule handle_all_other_stream [OF mid(2) rest gone(1)])
      with gone out handle_all_out_grows [OF mid(2)] False item True show ?thesis by auto
    qed
  qed
qed

text \<open>
  C20: Frames of different streams do not interfere.  However the frames of several streams are
  interleaved, the queue of an open stream that receives only data frames holds in the end its
  former items followed by exactly its own frames in their order, as long as these fit the capacity
  of the queue; beyond the capacity the stream is gone for good, its task is aborted and its reset
  is sent unless the outgoing channel is closed.  A single data frame, of any of the five kinds,
  that meets a full queue removes its own stream only and sends one reset with the reason
  \<open>window overrun\<close>, or none when the outgoing channel is closed.
\<close>

theorem handle_isolates_streams:
  "(handle_all fs ss = Inr ss' \<longrightarrow> (\<forall>f \<in> set fs. stream f = s \<longrightarrow> inbound_of f \<noteq> None) \<longrightarrow>
      ss_open ss s = Some op \<longrightarrow> op_queue op = Some queue \<longrightarrow> length queue \<le> INBOUND \<longrightarrow>
      (if length queue + length (arrived s fs) \<le> INBOUND
       then ss_open ss' s = Some (op\<lparr>op_queue := Some (queue @ arrived s fs)\<rparr>)
       else ss_open ss' s = None \<and> op_task op \<in> ss_aborted ss' \<and>
         ((\<exists>b. encode J (Reset s (chars ''window overrun'')) = Inr b \<and> MBinary b \<in> set (ss_out ss')) \<or> ss_left ss' = 0))) \<and>
   (inbound_of f = Some item \<longrightarrow> ss_open ss (stream f) = Some op \<longrightarrow> op_queue op = Some queue \<longrightarrow> INBOUND \<le> length queue \<longrightarrow>
      (\<exists>after b. handle f ss = Inr after \<and> encode J (Reset (stream f) (chars ''window overrun'')) = Inr b \<and>
         ss_open after = (ss_open ss)(stream f := None) \<and> ss_tasks after = ss_tasks ss \<and>
         ss_aborted after = insert (op_task op) (ss_aborted ss) \<and>
         ss_out after = ss_out ss @ (if ss_left ss = 0 then [] else [MBinary b])))"
  (is "?run \<and> ?over")
proof
  obtain b where b: "encode J (Reset s (chars ''window overrun'')) = Inr b" "overrun_reset s = MBinary b"
    using overrun_reset_encode by blast
  show ?run using handle_all_queue [of fs ss ss' s op queue] b by (auto split: if_splits)
  show ?over
  proof (intro impI)
    assume f: "inbound_of f = Some item" and op: "ss_open ss (stream f) = Some op" "op_queue op = Some queue" "INBOUND \<le> length queue"
    obtain b where "encode J (Reset (stream f) (chars ''window overrun'')) = Inr b" "overrun_reset (stream f) = MBinary b"
      using overrun_reset_encode by blast
    with deliver_overruns [OF op, of item] handle_inbound [OF f, of ss]
    show "\<exists>after b. handle f ss = Inr after \<and> encode J (Reset (stream f) (chars ''window overrun'')) = Inr b \<and>
         ss_open after = (ss_open ss)(stream f := None) \<and> ss_tasks after = ss_tasks ss \<and>
         ss_aborted after = insert (op_task op) (ss_aborted ss) \<and>
         ss_out after = ss_out ss @ (if ss_left ss = 0 then [] else [MBinary b])"
      by auto
  qed
qed

text \<open>Stream 1 of the sample is open and empty; 257 text frames overrun it, 3 frames among frames of others do not.\<close>

lemma handle_all_inbound: "\<forall>f \<in> set fs. inbound_of f \<noteq> None \<Longrightarrow> \<exists>ss'. handle_all fs ss = Inr ss'"
  by (induction fs arbitrary: ss) (force simp: handle_inbound)+

theorem handle_isolates_streams_witness:
  "(\<exists>ss'. handle_all [Text 1 [7], Request 2 sample_request, End 2, End 1] reopened = Inr ss' \<and>
      ss_open ss' 1 = Some \<lparr>op_queue = Some [InText [7], InEnd], op_window = window_new WINDOW, op_task = 1\<rparr>) \<and>
   (\<exists>ss' b. handle_all (replicate 257 (Text 1 [7])) reopened = Inr ss' \<and> ss_open ss' 1 = None \<and> 1 \<in> ss_aborted ss' \<and>
      encode sample_serde (Reset 1 (chars ''window overrun'')) = Inr b \<and> (MBinary b \<in> set (ss_out ss') \<or> ss_left ss' = 0))"
proof -
  let ?op = "\<lparr>op_queue = Some [], op_window = window_new WINDOW, op_task = 1\<rparr>"
  have r: "ss_open reopened = [1 \<mapsto> ?op]"
    by (auto simp: reopened_def start_def streams_new_def CONTROL_STREAM_def drop_stream_def)
  then have op: "ss_open reopened 1 = Some ?op" by simp
  let ?fs = "[Text 1 [7], Request 2 sample_request, End 2, End 1] :: Frame list"
  obtain x where x: "handle_all ?fs reopened = Inr x"
    by (simp add: start_def CONTROL_STREAM_def r deliver_def INBOUND_def)
  have "arrived 1 ?fs = [InText [7], InEnd]" by simp
  with handle_isolates_streams [where fs = ?fs and ss = reopened and s = 1 and op = ?op and queue = "[]" and ss' = x] x op
  have one: "ss_open x 1 = Some (?op\<lparr>op_queue := Some [InText [7], InEnd]\<rparr>)" by (simp add: INBOUND_def)
  let ?gs = "replicate 257 (Text 1 [7]) :: Frame list"
  obtain y where y: "handle_all ?gs reopened = Inr y" using handle_all_inbound [of ?gs reopened] by auto
  have "length (arrived 1 (replicate n (Text 1 [7]))) = n" for n by (induction n) simp_all
  from this [of 257]
    handle_isolates_streams [where fs = ?gs and ss = reopened and s = 1 and op = ?op and queue = "[]" and ss' = y and J = sample_serde] y op
  have two: "ss_open y 1 = None \<and> 1 \<in> ss_aborted y \<and>
      ((\<exists>b. encode sample_serde (Reset 1 (chars ''window overrun'')) = Inr b \<and> MBinary b \<in> set (ss_out y)) \<or> ss_left y = 0)"
    by (simp add: INBOUND_def)
  obtain b where "encode sample_serde (Reset 1 (chars ''window overrun'')) = Inr b" using overrun_reset_encode by blast
  with x y one two show ?thesis by (intro conjI) force+
qed

section \<open>Sessions\<close>

text \<open>
  Health reports keep their pace and size: a report goes out only if none went out in the last
  sixty seconds, it fits the limit, and sending it restarts the clock; and a site that fits its
  envelope is reported whenever 270 seconds have passed without a report.
\<close>

theorem health_paced:
  "(beat J wrap alive now h = ([m], h', Inr ()) \<longrightarrow>
      (\<exists>data b. m = MBinary b \<and> encode J (Health data) = Inr b \<and> length data \<le> MAX_HEALTH) \<and>
      (\<forall>t. hb_sent h = Some t \<longrightarrow> HEALTH_SPACING \<le> now - t) \<and> hb_sent h' = Some now) \<and>
   (hb_sent h = Some t \<longrightarrow> HEALTH_REFRESH \<le> now - t \<longrightarrow> hb_site h = Some site \<longrightarrow>
      envelope wrap (hb_rtt h) site = Inr data \<longrightarrow> length data \<le> MAX_HEALTH \<longrightarrow>
      (\<exists>b h'. encode J (Health data) = Inr b \<and> beat J wrap True now h = ([MBinary b], h', Inr ())))"
proof -
  have enc: "encode J (Health data) = Inr (HEALTH # be32 CONTROL_STREAM @ data)" for data
    by (simp add: encode_def)
  have spaced: "HEALTH_SPACING \<le> now - t" if "due now h" "hb_sent h = Some t" for t
    using that by (auto simp: due_def Let_def HEALTH_SPACING_def HEALTH_REFRESH_def)
  have "(\<exists>data b. m = MBinary b \<and> encode J (Health data) = Inr b \<and> length data \<le> MAX_HEALTH) \<and>
      (\<forall>t. hb_sent h = Some t \<longrightarrow> HEALTH_SPACING \<le> now - t) \<and> hb_sent h' = Some now"
    if "beat J wrap alive now h = ([m], h', Inr ())"
    using that spaced enc unfolding beat_def payload_def
    by (auto simp: Let_def split: if_splits option.splits sum.splits prod.splits)
  moreover have "\<exists>b h'. encode J (Health data) = Inr b \<and> beat J wrap True now h = ([MBinary b], h', Inr ())"
    if "hb_sent h = Some t" "HEALTH_REFRESH \<le> now - t" "hb_site h = Some site"
      "envelope wrap (hb_rtt h) site = Inr data" "length data \<le> MAX_HEALTH"
    using that enc by (simp add: beat_def payload_def due_def Let_def)
  ultimately show ?thesis by blast
qed

theorem health_paced_witness:
  "\<exists>b h'. beat sample_serde (\<lambda>_ site. Inr site) True 270000
     \<lparr>hb_site = Some [123, 125], hb_changed = False, hb_watched = True, hb_sent = Some 0, hb_sent_rtt = False,
      hb_ping = None, hb_rtt = None, hb_oversized = False\<rparr> = ([MBinary b], h', Inr ())"
  using health_paced [where J = sample_serde and alive = True and m = "MPing []" and h' = undefined and wrap = "\<lambda>_ site. Inr site" and now = 270000 and t = 0
      and site = "[123, 125]" and data = "[123, 125]" and
      h = "\<lparr>hb_site = Some [123, 125], hb_changed = False, hb_watched = True, hb_sent = Some 0, hb_sent_rtt = False,
      hb_ping = None, hb_rtt = None, hb_oversized = False\<rparr>"]
  by (simp add: HEALTH_REFRESH_def envelope_def MAX_HEALTH_def) blast

lemma next_frame_wf: "next_frame J items = (Inr f, rest) \<Longrightarrow> wf_frame f"
  by (induction J items rule: next_frame.induct) (auto split: sum.splits dest: decode_wf)

text \<open>
  C22: A handshake succeeds only with the proof of possession: the device answered the first frame of
  the relay, a challenge, with its signature of that nonce under the protocol's context, and nothing
  else, and the relay's next frame said it is ready.
\<close>

theorem handshake_proves_possession:
  assumes "handshake J sign send_error items = (sent, Inr (), rest)"
  shows "\<exists>nonce b middle. next_frame J items = (Inr (Challenge nonce), middle) \<and> length nonce = NONCE_LEN \<and>
    next_frame J middle = (Inr Ready, rest) \<and> sent = [MBinary b] \<and> send_error (MBinary b) = None \<and>
    decode J b = Inr (Proof (sign (PROOF_CONTEXT @ nonce)))"
proof -
  from assms obtain nonce middle sig b where n: "next_frame J items = (Inr (Challenge nonce), middle)"
    and p: "prove sign nonce = Inr sig" and e: "encode J (Proof sig) = Inr b"
    and r: "next_frame J middle = (Inr Ready, rest)" and s: "sent = [MBinary b]" "send_error (MBinary b) = None"
    unfolding handshake_def by (auto split: prod.splits sum.splits option.splits Frame.splits)
  have sig: "sig = sign (PROOF_CONTEXT @ nonce)" "length sig = PROOF_LEN"
    using p by (auto simp: prove_def proof_message_def Let_def split: if_splits)
  have "decode J b = Inr (Proof sig)"
    using e sig(2) by (auto simp: encode_def decode_payload_def kind_defs)
  with n r s sig(1) next_frame_wf [OF n] show ?thesis by auto
qed

theorem handshake_witness:
  "\<exists>b. fst (handshake sample_serde (\<lambda>_. replicate 64 9) (\<lambda>_. None)
       [Inr (MBinary (CHALLENGE # be32 0 @ replicate 32 5)), Inr (MBinary (READY # be32 0))]) = [MBinary b] \<and>
     decode sample_serde b = Inr (Proof (replicate 64 9))"
proof -
  let ?items = "[Inr (MBinary (CHALLENGE # be32 0 @ replicate 32 5)), Inr (MBinary (READY # be32 0))]"
  let ?b = "PROOF # be32 CONTROL_STREAM @ replicate 64 9"
  have "handshake sample_serde (\<lambda>_. replicate 64 9) (\<lambda>_. None) ?items = ([MBinary ?b], Inr (), [])"
    by (simp add: handshake_def prove_def decode_payload_def kind_defs fixed_def NONCE_LEN_def PROOF_LEN_def encode_def)
  from handshake_proves_possession [OF this] this show ?thesis by auto
qed

lemma retry_ceiling_exp: "retry_ceiling a = min LAST_RETRY (FIRST_RETRY * 2 ^ unat a)"
proof (cases "a < 32")
  case False
  then have "32 \<le> unat a" by (simp add: not_less word_le_nat_alt)
  then have "(2 :: nat) ^ 32 \<le> 2 ^ unat a" by (rule power_increasing) simp
  then have "(4294967296 :: nat) \<le> 2 ^ unat a" by simp
  with False show ?thesis by (simp add: retry_ceiling_def FIRST_RETRY_def LAST_RETRY_def)
qed (simp add: retry_ceiling_def min.commute)

definition short_failure :: "bool \<times> (TunnelError + unit) \<times> nat \<Rightarrow> bool" where
  "short_failure session \<longleftrightarrow>
     (case session of (online, outcome, elapsed) \<Rightarrow> elapsed < STABLE \<and> (\<forall>reason. outcome \<noteq> Inl (Rejected reason)))"

fun delays :: "Status list \<Rightarrow> nat list" where
  "delays [] = []"
| "delays (Retrying d # ss) = d # delays ss"
| "delays (_ # ss) = delays ss"

lemma delays_append [simp]: "delays (xs @ ys) = delays xs @ delays ys"
  by (induction xs rule: delays.induct) auto

lemma run_client_short:
  assumes "short_failure session"
  shows "delays (run_client jitter a (session # sessions)) =
    jitter (retry_ceiling a) # delays (run_client jitter (if a = 2 ^ 32 - 1 then a else a + 1) sessions)"
  using assms
  by (cases session) (auto simp: short_failure_def Let_def split: sum.splits TunnelError.splits)

lemma run_client_delays:
  assumes "list_all short_failure sessions" "k + length sessions < 2 ^ 32"
  shows "delays (run_client jitter (of_nat k) sessions) =
    map (\<lambda>i. jitter (min LAST_RETRY (FIRST_RETRY * 2 ^ (k + i)))) [0..<length sessions]"
  using assms
proof (induction sessions arbitrary: k)
  case (Cons session sessions)
  have k: "unat (of_nat k :: u32) = k" using Cons.prems(2) by (simp add: unat_of_nat)
  have "(of_nat k :: u32) \<noteq> 2 ^ 32 - 1"
  proof
    assume "(of_nat k :: u32) = 2 ^ 32 - 1"
    then have "unat (of_nat k :: u32) = unat (2 ^ 32 - 1 :: u32)" by (rule arg_cong)
    with k Cons.prems(2) show False by simp
  qed
  then show ?case
    using Cons.IH [of "Suc k"] Cons.prems k
    by (simp add: run_client_short retry_ceiling_exp upt_conv_Cons map_Suc_upt [symmetric] add.commute del: upt_Suc map_Suc_upt)
qed simp

text \<open>
  Reconnecting backs off exponentially up to a minute: after the n-th consecutive failure of a
  short session the client waits (a jitter of) the smaller of one minute and two to the n seconds,
  for every n the counter can hold, and it never reconnects once the relay has rejected the device.
\<close>

theorem reconnect_backs_off:
  "(list_all short_failure sessions \<longrightarrow> length sessions < 2 ^ 32 \<longrightarrow>
      delays (run_client jitter 0 sessions) =
        map (\<lambda>i. jitter (min (60 * 1000) (1000 * 2 ^ i))) [0..<length sessions]) \<and>
   run_client jitter a ((online, Inl (Rejected reason), elapsed) # sessions) =
     Connecting # (if online then [Online] else []) @ [Stopped reason]"
  using run_client_delays [of sessions 0 jitter] by (simp add: FIRST_RETRY_def LAST_RETRY_def)

theorem reconnect_witness:
  "delays (run_client id 0 (replicate 8 (True, Inr (), 5))) = [1000, 2000, 4000, 8000, 16000, 32000, 60000, 60000]"
  using reconnect_backs_off [of "replicate 8 (True, Inr (), 5)" id]
  by (simp add: short_failure_def STABLE_def upt_rec list_all_iff)

end
