(* ===== verification/Pairing.thy ===== *)
theory Pairing
  imports Rust_Text "HOL-Library.Monad_Syntax"
begin

text \<open>
  Pairing a device with the account of its owner (\<open>crates/tunnel/src/pairing.rs\<close>): the name shown to
  the owner, the polling loop that waits for approval, the reading of one answer, and the check of
  the approval.

  The HTTP client, the JSON reader and the URL parser are parameters.  A loop that waits is a partial
  function into \<open>option\<close>, so that its termination is a theorem; times are milliseconds.
\<close>

section \<open>Names\<close>

definition MAX_NAME_CHARS :: nat where "MAX_NAME_CHARS = 64"
definition FALLBACK_NAME :: rtext where "FALLBACK_NAME = chars ''SDR--''"

definition device_name :: "rtext \<Rightarrow> rtext" where
  "device_name raw =
     (let name = trim (take MAX_NAME_CHARS (filter (\<lambda>c. \<not> is_control c) (trim raw)))
      in if name = [] then FALLBACK_NAME else name)"

section \<open>Answers\<close>

datatype PollResponse = Pending | Approved rtext rtext | PollExpired

record Paired =
  device_id :: rtext
  relay_url :: rtext

text \<open>The texts of unusable answers: a bad device number, a bad address, an address of another kind.\<close>

datatype answer_detail = BadJson string | BadDevice rtext | BadRelay rtext string | NotWebSocket rtext

datatype PairingError =
    PairAddress string
  | Unreachable string
  | PairRefused rtext
  | Expired
  | Answer answer_detail

datatype PollFailure = SlowDown | Transient string | Fatal PairingError

text \<open>One attempt at polling: the connection failed, or the answer has a status and a body.\<close>

datatype reply = NoReply string | Reply nat bytes

record pair_lib =
  parse_poll :: "bytes \<Rightarrow> string + PollResponse"
  parse_refusal :: "bytes \<Rightarrow> rtext option"
  status_text :: "nat \<Rightarrow> rtext"
  parse_url :: "rtext \<Rightarrow> string + rtext"
  url_scheme :: "rtext \<Rightarrow> rtext"

definition refused :: "pair_lib \<Rightarrow> nat \<Rightarrow> bytes \<Rightarrow> PairingError" where
  "refused P status body =
     PairRefused (case parse_refusal P body of Some message \<Rightarrow> message | None \<Rightarrow> chars ''HTTP '' @ status_text P status)"

fun poll_once :: "pair_lib \<Rightarrow> reply \<Rightarrow> PollFailure + PollResponse" where
  "poll_once P (NoReply e) = Inl (Transient e)"
| "poll_once P (Reply status body) =
     (if status = 429 then Inl SlowDown
      else if status = 410 then Inr PollExpired
      else if 200 \<le> status \<and> status < 300 then
        (case parse_poll P body of Inl e \<Rightarrow> Inl (Fatal (Answer (BadJson e))) | Inr r \<Rightarrow> Inr r)
      else if 500 \<le> status \<and> status < 600 then Inl (Transient ''HTTP status'')
      else Inl (Fatal (refused P status body)))"

definition DEVICE_ID_LEN :: nat where "DEVICE_ID_LEN = 26"

definition id_byte :: "u8 \<Rightarrow> bool" where
  "id_byte b \<longleftrightarrow> 0x30 \<le> b \<and> b \<le> 0x39 \<or> 0x61 \<le> b \<and> b \<le> 0x7A"

definition paired :: "pair_lib \<Rightarrow> rtext \<Rightarrow> rtext \<Rightarrow> PairingError + Paired" where
  "paired P device url =
     (if \<not> (length (utf8_encode device) = DEVICE_ID_LEN \<and> list_all id_byte (utf8_encode device))
      then Inl (Answer (BadDevice device))
      else case parse_url P url of
        Inl e \<Rightarrow> Inl (Answer (BadRelay url e))
      | Inr u \<Rightarrow>
          if url_scheme P u \<notin> {chars ''ws'', chars ''wss''} then Inl (Answer (NotWebSocket u))
          else Inr \<lparr>device_id = device, relay_url = u\<rparr>)"

section \<open>Waiting\<close>

definition MIN_INTERVAL :: nat where "MIN_INTERVAL = 1000"
definition SLOW_DOWN :: nat where "SLOW_DOWN = 5000"

text \<open>
  The loop: it sleeps, gives up at the deadline, polls and decides.  \<open>polls k\<close> is the answer to the
  k-th poll and the time it took.  The result comes with the number of polls made.
\<close>

partial_function (option) wait_loop ::
  "pair_lib \<Rightarrow> (nat \<Rightarrow> reply \<times> nat) \<Rightarrow> nat \<Rightarrow> nat \<Rightarrow> nat \<Rightarrow> nat \<Rightarrow> (nat \<times> (PairingError + Paired)) option" where
  "wait_loop P polls deadline k interval now =
     (if deadline \<le> now + interval then Some (k, Inl Expired)
      else case poll_once P (fst (polls k)) of
        Inr Pending \<Rightarrow> wait_loop P polls deadline (Suc k) interval (now + interval + snd (polls k))
      | Inr (Approved device url) \<Rightarrow> Some (Suc k, paired P device url)
      | Inr PollExpired \<Rightarrow> Some (Suc k, Inl Expired)
      | Inl SlowDown \<Rightarrow> wait_loop P polls deadline (Suc k) (interval + SLOW_DOWN) (now + interval + snd (polls k))
      | Inl (Transient e) \<Rightarrow> wait_loop P polls deadline (Suc k) interval (now + interval + snd (polls k))
      | Inl (Fatal e) \<Rightarrow> Some (Suc k, Inl e))"

definition wait :: "pair_lib \<Rightarrow> (nat \<Rightarrow> reply \<times> nat) \<Rightarrow> nat \<Rightarrow> nat \<Rightarrow> nat \<Rightarrow> (nat \<times> (PairingError + Paired)) option" where
  "wait P polls interval_secs deadline now =
     wait_loop P polls deadline 0 (max (interval_secs * 1000) MIN_INTERVAL) now"

section \<open>Properties\<close>

text \<open>
  C23: The name shown to the owner is never empty, has at most 64 characters, no control characters,
  and no white space at its ends.
\<close>

theorem device_name_presentable:
  "device_name raw \<noteq> [] \<and> length (device_name raw) \<le> MAX_NAME_CHARS \<and>
   list_all (\<lambda>c. \<not> is_control c) (device_name raw) \<and>
   \<not> whitespace (hd (device_name raw)) \<and> \<not> whitespace (last (device_name raw))"
proof (cases "trim (take MAX_NAME_CHARS (filter (\<lambda>c. \<not> is_control c) (trim raw))) = []")
  case True
  then show ?thesis
    by (simp add: device_name_def FALLBACK_NAME_def chars_def MAX_NAME_CHARS_def is_control_def whitespace_def)
next
  case False
  let ?cut = "take MAX_NAME_CHARS (filter (\<lambda>c. \<not> is_control c) (trim raw))"
  have "length (trim ?cut) \<le> MAX_NAME_CHARS" using length_trim [of ?cut] by simp
  moreover have "list_all (\<lambda>c. \<not> is_control c) (trim ?cut)"
    using set_trim [of ?cut] by (auto simp: list_all_iff dest!: in_set_takeD)
  ultimately show ?thesis using False trim_ends [OF False] by (simp add: device_name_def Let_def)
qed

definition approved :: "pair_lib \<Rightarrow> Paired \<Rightarrow> bool" where
  "approved P p \<longleftrightarrow> length (utf8_encode (device_id p)) = 26 \<and> list_all id_byte (utf8_encode (device_id p)) \<and>
     (\<exists>url. parse_url P url = Inr (relay_url p)) \<and> url_scheme P (relay_url p) \<in> {chars ''ws'', chars ''wss''}"

lemma paired_approved: "paired P device url = Inr p \<Longrightarrow> approved P p"
  by (auto simp: paired_def approved_def DEVICE_ID_LEN_def split: if_splits sum.splits)

lemma wait_loop_terminates:
  assumes "MIN_INTERVAL \<le> interval"
  shows "\<exists>n r. wait_loop P polls deadline k interval now = Some (k + n, r) \<and> n * MIN_INTERVAL \<le> deadline - now \<and> (\<forall>p. r = Inr p \<longrightarrow> approved P p)"
  using assms
proof (induction "deadline - now" arbitrary: k interval now rule: less_induct)
  case less
  have pos: "0 < interval" using less.prems by (simp add: MIN_INTERVAL_def)
  show ?case
  proof (cases "deadline \<le> now + interval")
    case True
    then show ?thesis by (subst wait_loop.simps) (auto intro: exI [of _ 0])
  next
    case False
    let ?now = "now + interval + snd (polls k)"
    have lt: "deadline - ?now < deadline - now" using False pos by simp
    have room: "MIN_INTERVAL \<le> deadline - now" using False less.prems by simp
    have more: "\<exists>n r. wait_loop P polls deadline (Suc k) i ?now = Some (k + n, r) \<and> n * MIN_INTERVAL \<le> deadline - now \<and> (\<forall>p. r = Inr p \<longrightarrow> approved P p)"
      if "MIN_INTERVAL \<le> i" for i
    proof -
      note ih = less.hyps [OF lt that]
      obtain n r where "wait_loop P polls deadline (Suc k) i ?now = Some (Suc k + n, r)" "n * MIN_INTERVAL \<le> deadline - ?now" "\<forall>p. r = Inr p \<longrightarrow> approved P p"
        using ih by blast
      moreover have "deadline - ?now + MIN_INTERVAL \<le> deadline - now \<or> deadline - ?now = 0"
        using less.prems by linarith
      ultimately have "wait_loop P polls deadline (Suc k) i ?now = Some (k + Suc n, r) \<and> Suc n * MIN_INTERVAL \<le> deadline - now \<and> (\<forall>p. r = Inr p \<longrightarrow> approved P p)"
        using room by auto
      then show ?thesis by blast
    qed
    have stop: "\<exists>n r'. Some (Suc k, r) = Some (k + n, r') \<and> n * MIN_INTERVAL \<le> deadline - now \<and> (\<forall>p. r' = Inr p \<longrightarrow> approved P p)"
      if "\<forall>p. r = Inr p \<longrightarrow> approved P p" for r
      using room that by (auto intro: exI [of _ 1])
    show ?thesis
      using False more less.prems stop
      by (subst wait_loop.simps) (auto split: sum.splits PollResponse.splits PollFailure.splits dest: paired_approved)
  qed
qed

text \<open>
  C24: Waiting for approval ends: whatever the app answers and however often it asks to slow down,
  the loop returns, after at most one poll per second until the deadline; and a device it reports as
  paired has a number of 26 lower-case letters and digits and a WebSocket address.
\<close>

theorem wait_terminates:
  "\<exists>polls_made r. wait P polls interval_secs deadline now = Some (polls_made, r) \<and>
     polls_made * 1000 \<le> deadline - now \<and>
     (case r of Inl e \<Rightarrow> True
      | Inr p \<Rightarrow> length (utf8_encode (device_id p)) = 26 \<and> list_all id_byte (utf8_encode (device_id p)) \<and>
          url_scheme P (relay_url p) \<in> {chars ''ws'', chars ''wss''})"
proof -
  obtain n r where "wait P polls interval_secs deadline now = Some (n, r)" "n * MIN_INTERVAL \<le> deadline - now"
    "\<forall>p. r = Inr p \<longrightarrow> approved P p"
    using wait_loop_terminates [of "max (interval_secs * 1000) MIN_INTERVAL" P polls deadline 0 now]
    by (auto simp: wait_def)
  then show ?thesis by (auto simp: approved_def MIN_INTERVAL_def split: sum.splits)
qed

end
