(* ===== verification/Capture_Ring.thy ===== *)
theory Capture_Ring
  imports Prelude
begin

text \<open>
  The ring between a receiver and the signal chain (\<open>crates/engine/src/capture_ring.rs\<close>), with its
  counters (\<open>QueueMetrics\<close>, \<open>crates/engine/src/metrics.rs\<close>) and the room it advertises to the source
  (\<open>SinkRoom\<close>, \<open>crates/device/src/lib.rs\<close>).

  The two single-producer rings are first-in first-out lists of a fixed capacity.  Reading a chunk of
  the sample ring yields two slices, split where the storage wraps; where that is depends on the
  history of the ring, so the split is an argument of the consumer and the properties hold for all of
  them.  A push and a consume are each one step.  Samples are of any type.

  The specification is a queue of samples with their capture indices; both operations refine it.
\<close>

section \<open>State\<close>

record Span =
  start :: nat
  len :: nat
  queued_at :: nat

record 'a Ring =
  capacity :: nat
  span_capacity :: nat
  samples :: "'a list"
  spans :: "Span list"
  pending :: "Span option"
  next_index :: "nat option"
  recovering :: bool
  last_stale :: "nat option"
  fresh_since_stale :: bool
  queued :: int
  oldest :: nat
  dropped :: nat
  room :: int

definition SPAN_CAPACITY :: nat where "SPAN_CAPACITY = 4096"

definition capture_ring :: "nat \<Rightarrow> 'a Ring" where
  "capture_ring cap =
     \<lparr>capacity = cap, span_capacity = min cap SPAN_CAPACITY, samples = [], spans = [], pending = None,
      next_index = None, recovering = False, last_stale = None, fresh_since_stale = False,
      queued = 0, oldest = 0, dropped = 0, room = int cap\<rparr>"

section \<open>Counters\<close>

definition metrics_push :: "nat \<Rightarrow> nat \<Rightarrow> 'a Ring \<Rightarrow> 'a Ring" where
  "metrics_push now n r = r\<lparr>queued := queued r + int n, oldest := (if queued r = 0 then now else oldest r)\<rparr>"

definition metrics_pop :: "nat \<Rightarrow> 'a Ring \<Rightarrow> 'a Ring" where
  "metrics_pop n r = r\<lparr>queued := queued r - int n\<rparr>"

definition metrics_dropped :: "nat \<Rightarrow> 'a Ring \<Rightarrow> 'a Ring" where
  "metrics_dropped n r = r\<lparr>dropped := dropped r + n\<rparr>"

definition room_free :: "'a Ring \<Rightarrow> nat" where
  "room_free r = nat (max (room r) 0)"

definition room_took :: "nat \<Rightarrow> 'a Ring \<Rightarrow> 'a Ring" where
  "room_took n r = r\<lparr>room := room r - int n\<rparr>"

definition room_freed :: "nat \<Rightarrow> 'a Ring \<Rightarrow> 'a Ring" where
  "room_freed n r = r\<lparr>room := room r + int n\<rparr>"

section \<open>Operations\<close>

definition push :: "nat \<Rightarrow> 'a list \<Rightarrow> nat \<Rightarrow> 'a Ring \<Rightarrow> 'a Ring \<times> nat" where
  "push now xs at r0 =
     (let r1 = (case next_index r0 of None \<Rightarrow> r0 | Some next \<Rightarrow> metrics_dropped (at - next) r0);
          r = r1\<lparr>next_index := Some (at + length xs)\<rparr>;
          n = min (length xs) (capacity r - length (samples r))
      in if n = 0 then (metrics_dropped (length xs) r, 0)
         else if span_capacity r \<le> length (spans r) then (metrics_dropped (length xs) r, 0)
         else
           let r' = metrics_dropped (length xs - n) (room_took n (metrics_push now n r))
           in (r'\<lparr>samples := samples r' @ take n xs,
                spans := spans r' @ [\<lparr>start = at, len = n, queued_at = now\<rparr>]\<rparr>, n))"

text \<open>The span to read next: the one left over from the last read, or the head of the span ring.\<close>

definition take_span :: "'a Ring \<Rightarrow> (Span \<times> 'a Ring) option" where
  "take_span r =
     (case pending r of
        Some s \<Rightarrow> Some (s, r\<lparr>pending := None\<rparr>)
      | None \<Rightarrow> (case spans r of [] \<Rightarrow> None | s # rest \<Rightarrow> Some (s, r\<lparr>spans := rest\<rparr>)))"

definition note_stale :: "nat \<Rightarrow> nat \<Rightarrow> nat \<Rightarrow> 'a Ring \<Rightarrow> 'a Ring" where
  "note_stale now age max_age r =
     (if max_age < age
      then r\<lparr>recovering := recovering r \<or>
               (fresh_since_stale r \<and> (case last_stale r of None \<Rightarrow> False | Some stale \<Rightarrow> now - stale \<le> max_age)),
             last_stale := Some now, fresh_since_stale := False\<rparr>
      else r)"

definition judge :: "nat \<Rightarrow> nat \<Rightarrow> Span \<Rightarrow> 'a Ring \<Rightarrow> 'a Ring \<times> bool" where
  "judge now max_age span r =
     (let age = now - queued_at span;
          r' = note_stale now age max_age (r\<lparr>oldest := queued_at span\<rparr>);
          fresh = (age \<le> (if recovering r' then max_age div 2 else max_age))
      in (if fresh then r'\<lparr>recovering := False, fresh_since_stale := True\<rparr> else r', fresh))"

definition consume_fresh_at :: "nat \<Rightarrow> nat \<Rightarrow> nat \<Rightarrow> nat \<Rightarrow> 'a Ring \<Rightarrow> 'a Ring \<times> ('a list \<times> nat) list \<times> nat" where
  "consume_fresh_at wrap limit max_age now r0 =
     (case take_span r0 of
        None \<Rightarrow> (r0, [], 0)
      | Some (span, r1) \<Rightarrow>
          (let n = min (len span) limit
           in if length (samples r1) < n then (r1\<lparr>pending := Some span\<rparr>, [], 0)
              else
                let (r2, fresh) = judge now max_age span r1;
                    r3 = (if fresh then r2 else metrics_dropped n r2);
                    chunk = take n (samples r3);
                    a = take wrap chunk;
                    b = drop wrap chunk;
                    received = (if fresh \<and> a \<noteq> [] then [(a, start span)] else []) @
                               (if fresh \<and> b \<noteq> [] then [(b, start span + length a)] else []);
                    r4 = room_freed n (metrics_pop n r3);
                    span' = span\<lparr>start := start span + n, len := len span - n\<rparr>
                in (r4\<lparr>samples := drop n (samples r4), pending := (if 0 < len span' then Some span' else None)\<rparr>,
                    received, n)))"

section \<open>The specification\<close>

text \<open>The capture indices of the queued samples, and the queue of indexed samples they stand for.\<close>

definition span_indices :: "Span \<Rightarrow> nat list" where
  "span_indices s = [start s..<start s + len s]"

definition all_spans :: "'a Ring \<Rightarrow> Span list" where
  "all_spans r = (case pending r of None \<Rightarrow> [] | Some s \<Rightarrow> [s]) @ spans r"

definition indices :: "'a Ring \<Rightarrow> nat list" where
  "indices r = concat (map span_indices (all_spans r))"

definition abs_queue :: "'a Ring \<Rightarrow> (nat \<times> 'a) list" where
  "abs_queue r = zip (indices r) (samples r)"

definition ring_ok :: "'a Ring \<Rightarrow> bool" where
  "ring_ok r \<longleftrightarrow>
     length (indices r) = length (samples r) \<and> list_all (\<lambda>s. 0 < len s) (all_spans r) \<and>
     length (samples r) \<le> capacity r \<and> length (spans r) \<le> span_capacity r \<and>
     room r = int (capacity r) - int (length (samples r)) \<and> queued r = int (length (samples r))"

text \<open>The indexed samples a consumer was handed.\<close>

definition received_samples :: "('a list \<times> nat) list \<Rightarrow> (nat \<times> 'a) list" where
  "received_samples = concat \<circ> map (\<lambda>(xs, at). zip [at..<at + length xs] xs)"

lemmas ring_defs = metrics_push_def metrics_pop_def metrics_dropped_def room_took_def room_freed_def

lemma length_span_indices [simp]: "length (span_indices s) = len s"
  by (simp add: span_indices_def)

lemma all_spans_simps [simp]:
  "all_spans (r\<lparr>samples := xs\<rparr>) = all_spans r"
  "all_spans (r\<lparr>pending := p\<rparr>) = (case p of None \<Rightarrow> [] | Some s \<Rightarrow> [s]) @ spans r"
  "all_spans (r\<lparr>spans := ss\<rparr>) = (case pending r of None \<Rightarrow> [] | Some s \<Rightarrow> [s]) @ ss"
  "all_spans (r\<lparr>next_index := i\<rparr>) = all_spans r" "all_spans (r\<lparr>dropped := d\<rparr>) = all_spans r"
  "all_spans (r\<lparr>queued := q\<rparr>) = all_spans r" "all_spans (r\<lparr>oldest := t\<rparr>) = all_spans r"
  "all_spans (r\<lparr>room := m\<rparr>) = all_spans r" "all_spans (r\<lparr>recovering := b\<rparr>) = all_spans r"
  "all_spans (r\<lparr>last_stale := s\<rparr>) = all_spans r" "all_spans (r\<lparr>fresh_since_stale := b\<rparr>) = all_spans r"
  by (simp_all add: all_spans_def)

lemma take_span_all:
  "take_span r = Some (s, r') \<Longrightarrow> all_spans r = s # spans r' \<and> pending r' = None"
  "take_span r = None \<longleftrightarrow> all_spans r = []"
  by (auto simp: take_span_def all_spans_def split: option.splits list.splits)

text \<open>The samples the producer finds missing before a block that starts at \<open>at\<close>.\<close>

definition gap :: "'a Ring \<Rightarrow> nat \<Rightarrow> nat" where
  "gap r at = (case next_index r of None \<Rightarrow> 0 | Some next \<Rightarrow> at - next)"

lemma min_nat_0 [simp]: "min a b = 0 \<longleftrightarrow> a = 0 \<or> b = (0::nat)"
  by (auto simp: min_def)

lemma push_unfold:
  "push now xs at r =
     (let n = (if span_capacity r \<le> length (spans r) then 0 else min (length xs) (capacity r - length (samples r)));
          r' = r\<lparr>next_index := Some (at + length xs), dropped := dropped r + gap r at + (length xs - n)\<rparr>
      in if n = 0 then (r', 0)
         else (r'\<lparr>queued := queued r + int n, oldest := (if queued r = 0 then now else oldest r), room := room r - int n,
                  samples := samples r @ take n xs, spans := spans r @ [\<lparr>start = at, len = n, queued_at = now\<rparr>]\<rparr>, n))"
  by (cases "next_index r") (auto simp: push_def gap_def Let_def ring_defs)

lemma indices_push:
  "indices (r\<lparr>next_index := i, dropped := d, queued := q, oldest := t, room := m, samples := ys, spans := spans r @ [s]\<rparr>) =
     indices r @ span_indices s"
  by (simp add: indices_def all_spans_def)

lemma push_spec:
  assumes "ring_ok r" "push now xs at r = (r', n)"
  shows "ring_ok r' \<and> abs_queue r' = abs_queue r @ zip [at..<at + n] (take n xs) \<and>
    dropped r' = dropped r + gap r at + (length xs - n) \<and> capacity r' = capacity r \<and>
    n = (if span_capacity r \<le> length (spans r) then 0 else min (length xs) (room_free r))"
proof -
  define k where "k = (if span_capacity r \<le> length (spans r) then 0 else min (length xs) (capacity r - length (samples r)))"
  define r1 where "r1 = r\<lparr>next_index := Some (at + length xs), dropped := dropped r + gap r at + (length xs - k)\<rparr>"
  have free: "room_free r = capacity r - length (samples r)"
    using assms(1) by (auto simp: ring_ok_def room_free_def)
  have run: "(r', n) = (if k = 0 then (r1, 0)
      else (r1\<lparr>queued := queued r + int k, oldest := (if queued r = 0 then now else oldest r), room := room r - int k,
               samples := samples r @ take k xs, spans := spans r @ [\<lparr>start = at, len = k, queued_at = now\<rparr>]\<rparr>, k))"
    using assms(2) unfolding push_unfold Let_def k_def [symmetric] r1_def [symmetric] by simp
  show ?thesis
  proof (cases "k = 0")
    case True
    with run have "r' = r1" "n = 0" by simp_all
    moreover have "n = (if span_capacity r \<le> length (spans r) then 0 else min (length xs) (room_free r))"
      using True \<open>n = 0\<close> free by (simp add: k_def split: if_splits)
    ultimately show ?thesis
      using assms(1) True by (simp add: r1_def ring_ok_def abs_queue_def indices_def)
  next
    case False
    then have k: "0 < k" "k \<le> length xs" "length (samples r) + k \<le> capacity r" "length (spans r) < span_capacity r"
      by (auto simp: k_def split: if_splits)
    have n: "n = k" and r': "r' = r\<lparr>next_index := Some (at + length xs), dropped := dropped r + gap r at + (length xs - k),
        queued := queued r + int k, oldest := (if queued r = 0 then now else oldest r), room := room r - int k,
        samples := samples r @ take k xs, spans := spans r @ [\<lparr>start = at, len = k, queued_at = now\<rparr>]\<rparr>"
      using run False by (simp_all add: r1_def)
    have ind: "indices r' = indices r @ [at..<at + k]"
      unfolding r' indices_push by (simp add: span_indices_def)
    have len: "length (indices r) = length (samples r)" using assms(1) by (simp add: ring_ok_def)
    have "abs_queue r' = abs_queue r @ zip [at..<at + n] (take n xs)"
      unfolding abs_queue_def ind n using len by (simp add: r')
    moreover have "ring_ok r'"
      using assms(1) k ind unfolding ring_ok_def by (simp add: r' all_spans_def)
    ultimately show ?thesis using k free by (simp add: n r' k_def)
  qed
qed

text \<open>One read: the pieces of the span it hands over carry the indices of the queue's head.\<close>

lemma received_chunk:
  "received_samples ((if fresh \<and> take w xs \<noteq> [] then [(take w xs, at)] else []) @
     (if fresh \<and> drop w xs \<noteq> [] then [(drop w xs, at + length (take w xs))] else [])) =
   (if fresh then zip [at..<at + length xs] xs else [])"
proof -
  let ?k = "length (take w xs)"
  let ?as = "[at..<at + ?k]" and ?bs = "[at + ?k..<at + ?k + length (drop w xs)]"
  have "at + length xs = at + ?k + length (drop w xs)" by (simp add: min_def)
  then have "[at..<at + length xs] = ?as @ ?bs"
    using upt_add_eq_append [of at "at + ?k" "length (drop w xs)"] by (metis le_add1)
  then have "zip [at..<at + length xs] xs = zip (?as @ ?bs) (take w xs @ drop w xs)"
    by (metis append_take_drop_id)
  also have "\<dots> = zip ?as (take w xs) @ zip ?bs (drop w xs)"
    by (rule zip_append) simp
  finally show ?thesis
    by (cases "take w xs = []"; cases "drop w xs = []") (auto simp: received_samples_def simp del: take_eq_Nil drop_eq_Nil)
qed

lemma judge_same:
  assumes "judge now max_age s r = (r', fresh)"
  shows "samples r' = samples r" "spans r' = spans r" "pending r' = pending r" "dropped r' = dropped r" "queued r' = queued r"
    "room r' = room r" "capacity r' = capacity r" "span_capacity r' = span_capacity r"
  using assms by (auto simp: judge_def note_stale_def Let_def split: if_splits)

text \<open>A span younger than half the limit is always handed over, one older than the limit never.\<close>

lemma judge_fresh:
  assumes "judge now max_age s r = (r', fresh)"
  shows "now - queued_at s \<le> max_age div 2 \<Longrightarrow> fresh" "fresh \<Longrightarrow> now - queued_at s \<le> max_age"
    "now - queued_at s \<le> max_age \<Longrightarrow> \<not> recovering r \<Longrightarrow> fresh"
  using assms by (auto simp: judge_def note_stale_def Let_def split: if_splits)

lemma take_span_same:
  assumes "take_span r = Some (s, r1)"
  shows "samples r1 = samples r" "dropped r1 = dropped r" "queued r1 = queued r" "room r1 = room r"
    "capacity r1 = capacity r" "span_capacity r1 = span_capacity r" "recovering r1 = recovering r" "length (spans r1) \<le> length (spans r)"
  using assms by (auto simp: take_span_def split: option.splits list.splits)

lemma consume_fields:
  assumes "take_span r = Some (s, r1)" "n = min (len s) limit" "n \<le> length (samples r)"
    and "judge now max_age s r1 = (r2, fresh)" and "consume_fresh_at wrap limit max_age now r = (r', received, k)"
  shows "k = n" "samples r' = drop n (samples r)" "spans r' = spans r1"
    "pending r' = (if n < len s then Some (s\<lparr>start := start s + n, len := len s - n\<rparr>) else None)"
    "dropped r' = dropped r + (if fresh then 0 else n)" "queued r' = queued r - int n" "room r' = room r + int n"
    "capacity r' = capacity r" "span_capacity r' = span_capacity r"
    "received_samples received = (if fresh then zip [start s..<start s + n] (take n (samples r)) else [])"
proof -
  have run: "consume_fresh_at wrap limit max_age now r =
     (let r3 = (if fresh then r2 else metrics_dropped n r2); chunk = take n (samples r3); a = take wrap chunk; b = drop wrap chunk;
          received = (if fresh \<and> a \<noteq> [] then [(a, start s)] else []) @ (if fresh \<and> b \<noteq> [] then [(b, start s + length a)] else []);
          r4 = room_freed n (metrics_pop n r3); span' = s\<lparr>start := start s + n, len := len s - n\<rparr>
      in (r4\<lparr>samples := drop n (samples r4), pending := (if 0 < len span' then Some span' else None)\<rparr>, received, n))"
  proof -
    have "(length (samples r1) < n) = False" using assms(3) take_span_same(1) [OF assms(1)] by simp
    then show ?thesis
      by (simp only: consume_fresh_at_def assms(1) option.case prod.case assms(2) [symmetric] Let_def assms(4) if_False)
  qed
  note same = judge_same [OF assms(4)] take_span_same [OF assms(1)]
  show "k = n" "samples r' = drop n (samples r)" "spans r' = spans r1"
    "pending r' = (if n < len s then Some (s\<lparr>start := start s + n, len := len s - n\<rparr>) else None)"
    "dropped r' = dropped r + (if fresh then 0 else n)" "queued r' = queued r - int n" "room r' = room r + int n"
    "capacity r' = capacity r" "span_capacity r' = span_capacity r"
    using run assms(5) same by (auto simp: Let_def ring_defs)
  have "received = (if fresh \<and> take wrap (take n (samples r)) \<noteq> [] then [(take wrap (take n (samples r)), start s)] else []) @
      (if fresh \<and> drop wrap (take n (samples r)) \<noteq> []
       then [(drop wrap (take n (samples r)), start s + length (take wrap (take n (samples r))))] else [])"
    using run assms(5) same by (auto simp: Let_def ring_defs)
  then show "received_samples received = (if fresh then zip [start s..<start s + n] (take n (samples r)) else [])"
    using received_chunk [of fresh wrap "take n (samples r)" "start s"] assms(3) by (simp add: min_absorb2)
qed

lemma span_indices_split:
  assumes "n \<le> len s"
  shows "span_indices s = [start s..<start s + n] @ (if n < len s then span_indices (s\<lparr>start := start s + n, len := len s - n\<rparr>) else [])"
proof (cases "n < len s")
  case True
  have "start s + n + (len s - n) = start s + len s" using assms by simp
  with True upt_add_eq_append [of "start s" "start s + n" "len s - n"] show ?thesis by (simp add: span_indices_def)
next
  case False
  with assms show ?thesis by (simp add: span_indices_def)
qed

lemma consume_spec:
  assumes "ring_ok r" "consume_fresh_at wrap limit max_age now r = (r', received, k)"
  shows "ring_ok r' \<and> abs_queue r' = drop k (abs_queue r) \<and> capacity r' = capacity r \<and>
    (\<exists>fresh. received_samples received = (if fresh then take k (abs_queue r) else []) \<and>
       dropped r' = dropped r + (if fresh then 0 else k)) \<and>
    (all_spans r \<noteq> [] \<longrightarrow> k = min (len (hd (all_spans r))) limit)"
proof (cases "take_span r")
  case None
  then have "r' = r" "received = []" "k = 0" using assms(2) by (auto simp: consume_fresh_at_def)
  then show ?thesis using assms(1) take_span_all(2) [of r] None by (auto simp: received_samples_def)
next
  case (Some sr)
  obtain s r1 where sr: "sr = (s, r1)" by (cases sr)
  define n where "n = min (len s) limit"
  obtain r2 fresh where j: "judge now max_age s r1 = (r2, fresh)" by (cases "judge now max_age s r1")
  have all: "all_spans r = s # spans r1" using take_span_all(1) [of r s r1] Some sr by simp
  have ind: "indices r = span_indices s @ concat (map span_indices (spans r1))" by (simp add: indices_def all)
  have len: "length (indices r) = length (samples r)" using assms(1) by (simp add: ring_ok_def)
  then have "len s \<le> length (samples r)" using ind by simp
  then have le: "n \<le> length (samples r)" "n \<le> len s" by (simp_all add: n_def)
  note f = consume_fields [OF Some [unfolded sr] n_def le(1) j assms(2)]
  note same = take_span_same [OF Some [unfolded sr]]
  have all': "all_spans r' = (if n < len s then [s\<lparr>start := start s + n, len := len s - n\<rparr>] else []) @ spans r1"
    by (simp add: all_spans_def f(3,4))
  have ind': "indices r = [start s..<start s + n] @ indices r'"
  proof -
    from all' have "indices r' = (if n < len s then span_indices (s\<lparr>start := start s + n, len := len s - n\<rparr>) else []) @
        concat (map span_indices (spans r1))"
      by (simp add: indices_def)
    then show ?thesis by (simp only: ind span_indices_split [OF le(2)] append_assoc)
  qed
  have q: "abs_queue r = zip [start s..<start s + n] (take n (samples r)) @ abs_queue r'"
  proof -
    have "zip ([start s..<start s + n] @ indices r') (take n (samples r) @ drop n (samples r)) =
        zip [start s..<start s + n] (take n (samples r)) @ zip (indices r') (drop n (samples r))"
      by (rule zip_append) (use le(1) in simp)
    then show ?thesis by (simp only: abs_queue_def ind' f(2) append_take_drop_id)
  qed
  have zl: "length (zip [start s..<start s + n] (take n (samples r))) = n" using le(1) by simp
  have "ring_ok r'"
    using assms(1) le len ind' same(8) unfolding ring_ok_def all all'
    by (auto simp: f)
  moreover have "abs_queue r' = drop k (abs_queue r)" "take k (abs_queue r) = zip [start s..<start s + n] (take n (samples r))"
    using q zl f(1) by simp_all
  ultimately show ?thesis using f all by (auto simp: n_def intro!: exI [of _ fresh])
qed

lemma capture_ring_ok: "ring_ok (capture_ring cap)"
  by (simp add: ring_ok_def capture_ring_def indices_def all_spans_def)

section \<open>Properties\<close>

text \<open>
  C25: The ring is a bounded queue of indexed samples.  A push appends as long a prefix of its block
  as the advertised room takes (nothing when the span ring is full), each sample under its own
  capture index; a read removes the head of the queue, at most \<open>limit\<close> samples of one span, and
  hands over exactly these with their indices, or discards and counts them when they are stale.
\<close>

theorem capture_ring_refines_queue:
  assumes "ring_ok r"
  shows "(case push now xs at r of (r', n) \<Rightarrow>
       ring_ok r' \<and> abs_queue r' = abs_queue r @ zip [at..<at + n] (take n xs) \<and>
       n = (if span_capacity r \<le> length (spans r) then 0 else min (length xs) (room_free r))) \<and>
    (case consume_fresh_at wrap limit max_age now r of (r', received, k) \<Rightarrow>
       ring_ok r' \<and> abs_queue r' = drop k (abs_queue r) \<and> k \<le> limit \<and>
       (received_samples received = take k (abs_queue r) \<and> dropped r' = dropped r \<or>
        received_samples received = [] \<and> dropped r' = dropped r + k))"
proof -
  obtain r1 n where p: "push now xs at r = (r1, n)" by (cases "push now xs at r")
  obtain r2 received k where c: "consume_fresh_at wrap limit max_age now r = (r2, received, k)"
    by (cases "consume_fresh_at wrap limit max_age now r")
  have "k \<le> limit"
    using c by (auto simp: consume_fresh_at_def Let_def split: option.splits if_splits prod.splits)
  then show ?thesis using push_spec [OF assms p] consume_spec [OF assms c] p c by auto
qed

theorem capture_ring_refines_queue_witness:
  "case push 5 [10, 11, 12] 7 (capture_ring 2 :: nat Ring) of (r, n) \<Rightarrow> abs_queue r = [(7, 10), (8, 11)]"
proof -
  have "push 5 [10, 11, 12] 7 (capture_ring 2 :: nat Ring) =
      (fst (push 5 [10, 11, 12] 7 (capture_ring 2)), 2)"
    by (simp add: push_unfold Let_def capture_ring_def SPAN_CAPACITY_def)
  moreover have "abs_queue (capture_ring 2 :: nat Ring) = []"
    by (simp add: abs_queue_def capture_ring_def)
  ultimately show ?thesis
    using capture_ring_refines_queue [where r = "capture_ring 2 :: nat Ring" and now = 5 and xs = "[10, 11, 12]" and at = 7
        and wrap = 0 and limit = 0 and max_age = 0] capture_ring_ok [of 2, where 'a = nat]
    by (auto simp: upt_rec split: prod.splits)
qed

text \<open>A run of the ring: what it was given, what it handed over.\<close>

datatype 'a ring_op = Push nat "'a list" nat | Consume nat nat nat nat

record 'a Run =
  ring :: "'a Ring"
  given :: nat
  missed :: nat
  handed :: "(nat \<times> 'a) list"

fun run_op :: "'a Run \<Rightarrow> 'a ring_op \<Rightarrow> 'a Run" where
  "run_op u (Push now xs at) =
     u\<lparr>ring := fst (push now xs at (ring u)), given := given u + length xs, missed := missed u + gap (ring u) at\<rparr>"
| "run_op u (Consume wrap limit max_age now) =
     (case consume_fresh_at wrap limit max_age now (ring u) of
        (r, received, k) \<Rightarrow> u\<lparr>ring := r, handed := handed u @ received_samples received\<rparr>)"

definition run_ring :: "nat \<Rightarrow> 'a ring_op list \<Rightarrow> 'a Run" where
  "run_ring cap ops = foldl run_op \<lparr>ring = capture_ring cap, given = 0, missed = 0, handed = []\<rparr> ops"

text \<open>Blocks of one capture: consecutive or with gaps, never going back, each sample its own.\<close>

fun blocks_of :: "(nat \<Rightarrow> 'a) \<Rightarrow> nat \<Rightarrow> 'a ring_op list \<Rightarrow> bool" where
  "blocks_of capture next [] \<longleftrightarrow> True"
| "blocks_of capture next (Push now xs at # ops) \<longleftrightarrow>
     next \<le> at \<and> xs = map capture [at..<at + length xs] \<and> blocks_of capture (at + length xs) ops"
| "blocks_of capture next (Consume _ _ _ _ # ops) \<longleftrightarrow> blocks_of capture next ops"

definition run_ok :: "(nat \<Rightarrow> 'a) \<Rightarrow> nat \<Rightarrow> 'a Run \<Rightarrow> bool" where
  "run_ok capture next u \<longleftrightarrow>
     ring_ok (ring u) \<and> given u + missed u = length (handed u) + dropped (ring u) + length (samples (ring u)) \<and>
     sorted_wrt (<) (map fst (handed u @ abs_queue (ring u))) \<and>
     (\<forall>(i, x) \<in> set (handed u @ abs_queue (ring u)). i < next \<and> x = capture i)"

lemma abs_queue_length: "ring_ok r \<Longrightarrow> length (abs_queue r) = length (samples r)"
  by (simp add: abs_queue_def ring_ok_def)

lemma zip_map_capture: "n \<le> length xs \<Longrightarrow> xs = map capture [at..<at + length xs] \<Longrightarrow>
    zip [at..<at + n] (take n xs) = map (\<lambda>i. (i, capture i)) [at..<at + n]"
  by (rule nth_equalityI) (auto, metis add_lessD1 add_less_cancel_left nth_map_upt order_less_le_trans add_diff_cancel_left')

lemma sorted_wrt_upt_snoc:
  "sorted_wrt (<) is \<Longrightarrow> \<forall>i \<in> set is. i < next \<Longrightarrow> next \<le> at \<Longrightarrow> sorted_wrt (<) (is @ [at..<at + n])"
  for "is" :: "nat list"
  by (fastforce simp: sorted_wrt_append)

lemma run_ok_push:
  assumes "run_ok capture next u" "next \<le> at" "xs = map capture [at..<at + length xs]"
  shows "run_ok capture (at + length xs) (run_op u (Push now xs at))"
proof -
  obtain r' n where p: "push now xs at (ring u) = (r', n)" by (cases "push now xs at (ring u)")
  have ok: "ring_ok (ring u)" using assms(1) by (simp add: run_ok_def)
  note spec = push_spec [OF ok p]
  then have n: "n \<le> length xs" by (auto split: if_splits)
  have q: "abs_queue r' = abs_queue (ring u) @ map (\<lambda>i. (i, capture i)) [at..<at + n]"
    using spec zip_map_capture [OF n assms(3)] by simp
  have l: "length (samples r') = length (samples (ring u)) + n"
    using abs_queue_length [of r'] abs_queue_length [OF ok] spec q by simp
  have "sorted_wrt (<) (map fst (handed u @ abs_queue (ring u)) @ [at..<at + n])"
    by (rule sorted_wrt_upt_snoc [of _ "next"]) (use assms(1,2) in \<open>auto simp: run_ok_def\<close>)
  then have "sorted_wrt (<) (map fst (handed u @ abs_queue r'))" by (simp add: q comp_def)
  moreover have "\<forall>(i, x) \<in> set (handed u @ abs_queue r'). i < at + length xs \<and> x = capture i"
  proof -
    have "i < at + length xs" if "i < next" for i using that assms(2) by linarith
    then show ?thesis using assms(1) n unfolding q run_ok_def by auto
  qed
  moreover have "given u + length xs + (missed u + gap (ring u) at) = length (handed u) + dropped r' + length (samples r')"
    using assms(1) spec n l by (simp add: run_ok_def)
  ultimately show ?thesis using spec by (simp add: run_ok_def p)
qed

lemma run_ok_consume:
  assumes "run_ok capture next u"
  shows "run_ok capture next (run_op u (Consume wrap limit max_age now))"
proof -
  obtain r' received k where c: "consume_fresh_at wrap limit max_age now (ring u) = (r', received, k)"
    by (cases "consume_fresh_at wrap limit max_age now (ring u)")
  have ok: "ring_ok (ring u)" using assms by (simp add: run_ok_def)
  note spec = consume_spec [OF ok c]
  obtain fresh where got: "received_samples received = (if fresh then take k (abs_queue (ring u)) else [])"
    and d: "dropped r' = dropped (ring u) + (if fresh then 0 else k)" using spec by blast
  have kl: "k \<le> length (samples (ring u))"
    using c take_span_same(1) [of "ring u"]
    by (auto simp: consume_fresh_at_def Let_def split: option.splits if_splits prod.splits)
  then have l: "length (samples r') + k = length (samples (ring u))"
    using abs_queue_length [of r'] abs_queue_length [OF ok] spec by simp
  define kept where "kept = received_samples received @ abs_queue r'"
  have kept: "kept = abs_queue (ring u) \<or> kept = drop k (abs_queue (ring u))"
    using spec got by (auto simp: kept_def)
  have "sorted_wrt (<) (map fst (handed u @ kept))"
    using assms kept unfolding run_ok_def
    by (auto simp: sorted_wrt_append drop_map [symmetric] dest: in_set_dropD intro: sorted_wrt_drop)
  moreover have "\<forall>(i, x) \<in> set (handed u @ kept). i < next \<and> x = capture i"
    using assms kept unfolding run_ok_def by (auto dest: in_set_dropD)
  moreover have "given u + missed u = length (handed u @ received_samples received) + dropped r' + length (samples r')"
    using assms got d l kl abs_queue_length [OF ok] by (simp add: run_ok_def)
  ultimately show ?thesis using spec by (simp add: run_ok_def c kept_def)
qed

lemma run_ok_ops: "run_ok capture next u \<Longrightarrow> blocks_of capture next ops \<Longrightarrow> \<exists>next'. run_ok capture next' (foldl run_op u ops)"
  by (induction capture "next" ops arbitrary: u rule: blocks_of.induct) (auto intro: run_ok_push run_ok_consume simp del: run_op.simps)

text \<open>
  C26: Over any run that feeds the ring one capture, every sample handed over is the one captured at
  the index it comes with, indices only ever increase, and no sample is lost track of: those given
  and those the source skipped are exactly those handed over, counted as dropped, or still queued;
  the advertised room never promises more than the ring holds.
\<close>

theorem capture_ring_accounts:
  assumes "blocks_of capture 0 ops" and "u = run_ring cap ops"
  shows "(\<forall>(i, x) \<in> set (handed u). x = capture i) \<and> sorted_wrt (<) (map fst (handed u)) \<and>
    given u + missed u = length (handed u) + dropped (ring u) + length (samples (ring u)) \<and>
    room (ring u) = int (capacity (ring u)) - int (length (samples (ring u))) \<and>
    length (samples (ring u)) \<le> capacity (ring u)"
proof -
  have "run_ok capture 0 \<lparr>ring = capture_ring cap, given = 0, missed = 0, handed = []\<rparr>"
    by (simp add: run_ok_def capture_ring_ok abs_queue_def) (simp add: capture_ring_def)
  from run_ok_ops [OF this assms(1)] show ?thesis
    unfolding assms(2) run_ring_def by (auto simp: run_ok_def ring_ok_def sorted_wrt_append)
qed

theorem capture_ring_accounts_witness:
  "\<exists>u. u = run_ring 2 [Push 0 [0, 10, 20] 0, Consume 1 8 100 50, Push 60 [50] 5, Consume 0 8 100 (70 :: nat)] \<and>
     handed u = [(0, 0), (1, 10), (5, 50 :: nat)] \<and> dropped (ring u) = 3"
proof -
  let ?ops = "[Push 0 [0, 10, 20] 0, Consume 1 8 100 50, Push 60 [50] 5, Consume 0 8 100 70] :: nat ring_op list"
  have feed: "blocks_of (\<lambda>i. 10 * i) 0 ?ops" by (simp add: upt_rec)
  have "handed (run_ring 2 ?ops) = [(0, 0), (1, 10), (5, 50)]" "given (run_ring 2 ?ops) = 4" "missed (run_ring 2 ?ops) = 2"
    "samples (ring (run_ring 2 ?ops)) = []"
    by (simp_all add: run_ring_def push_unfold gap_def consume_fresh_at_def take_span_def judge_def note_stale_def
        capture_ring_def SPAN_CAPACITY_def ring_defs received_samples_def Let_def upt_rec)
  with capture_ring_accounts [OF feed refl, of 2] show ?thesis by simp
qed

end
