(* ===== verification/Ws_Outbox.thy ===== *)
theory Ws_Outbox
  imports Rust_Text
begin

text \<open>
  The outbound queue of a client's WebSocket (\<open>crates/server/src/ws/outbox.rs\<close>): control messages
  that must arrive, decoded events that may be lost but are counted, audio and media frames that go
  stale, under one byte limit.

  Times are milliseconds.  Reading the stream number out of a stop event is the JSON library's, a
  parameter.  A packet that leaves the queue is either sent or counted as dropped; the byte counter
  is a \<open>usize\<close> that would panic on an underflow, which the invariant excludes.

  The lemmas show the limits as an invariant of every operation, the conservation of packets, and the
  order the barriers enforce.
\<close>

section \<open>Packets\<close>

datatype ws_message = WsText bytes | WsBinary bytes | WsPing bytes | WsPong bytes | WsClose

record Packet =
  message :: ws_message
  queued :: nat
  key :: "(u8 \<times> u16) option"
  barrier :: "u16 option"
  lossy :: bool

definition CONTROL_LIMIT :: nat where "CONTROL_LIMIT = 64"
definition DECODED_LIMIT :: nat where "DECODED_LIMIT = 1024"
definition BYTE_LIMIT :: nat where "BYTE_LIMIT = 16 * 1024 * 1024"
definition FRAME_LIMIT :: nat where "FRAME_LIMIT = 8 * 1024 * 1024"
definition AUDIO_AGE :: nat where "AUDIO_AGE = 100"
definition MEDIA_AGE :: nat where "MEDIA_AGE = 250"
definition AUDIO_LIMIT :: nat where "AUDIO_LIMIT = 256"
definition MEDIA_LIMIT :: nat where "MEDIA_LIMIT = 128"
definition AudioOpus :: u8 where "AudioOpus = 1"

definition STREAM_STOPPED_PREFIX :: bytes where
  "STREAM_STOPPED_PREFIX = utf8_encode ([123, 34] @ chars ''type'' @ [34, 58, 34] @ chars ''StreamStopped'' @ [34])"

definition frame_key :: "ws_message \<Rightarrow> (u8 \<times> u16) option" where
  "frame_key m =
     (case m of
        WsBinary (v # kind # lo # hi # rest) \<Rightarrow> Some (kind, of_be16 hi lo)
      | _ \<Rightarrow> None)"

definition packet :: "(bytes \<Rightarrow> u16 option) \<Rightarrow> nat \<Rightarrow> ws_message \<Rightarrow> Packet" where
  "packet stopped now m =
     \<lparr>message = m, queued = now, key = frame_key m,
      barrier = (case m of
                   WsText t \<Rightarrow> if take (length STREAM_STOPPED_PREFIX) t = STREAM_STOPPED_PREFIX then stopped t else None
                 | _ \<Rightarrow> None),
      lossy = False\<rparr>"

definition decoded_packet :: "(bytes \<Rightarrow> u16 option) \<Rightarrow> nat \<Rightarrow> ws_message \<Rightarrow> Packet" where
  "decoded_packet stopped now m = (packet stopped now m)\<lparr>lossy := True\<rparr>"

fun message_len :: "ws_message \<Rightarrow> nat" where
  "message_len (WsText t) = length t"
| "message_len (WsBinary b) = length b"
| "message_len (WsPing b) = length b"
| "message_len (WsPong b) = length b"
| "message_len WsClose = 128"

definition packet_len :: "Packet \<Rightarrow> nat" where
  "packet_len p = message_len (message p)"

section \<open>The queue\<close>

record Queue =
  control :: "Packet list"
  decoded :: "Packet list"
  audio :: "Packet list"
  media :: "Packet list"
  bytes_queued :: nat
  dropped :: nat
  lost :: nat
  closed :: bool
  senders :: nat

definition channel :: Queue where
  "channel = \<lparr>control = [], decoded = [], audio = [], media = [], bytes_queued = 0, dropped = 0, lost = 0,
     closed = False, senders = 1\<rparr>"

definition forget :: "Packet \<Rightarrow> Queue \<Rightarrow> Queue" where
  "forget p q = q\<lparr>bytes_queued := bytes_queued q - packet_len p, dropped := dropped q + 1\<rparr>"

text \<open>The front of a queue while it is older than its age.\<close>

fun expire_front :: "nat \<Rightarrow> nat \<Rightarrow> Packet list \<Rightarrow> Queue \<Rightarrow> Packet list \<times> Queue" where
  "expire_front now age [] q = ([], q)"
| "expire_front now age (p # ps) q =
     (if age < now - queued p then expire_front now age ps (forget p q) else (p # ps, q))"

definition expire :: "nat \<Rightarrow> Queue \<Rightarrow> Queue" where
  "expire now q =
     (let (a, q1) = expire_front now AUDIO_AGE (audio q) q;
          q2 = q1\<lparr>audio := a\<rparr>;
          (m, q3) = expire_front now MEDIA_AGE (media q2) q2
      in q3\<lparr>media := m\<rparr>)"

definition forget_lossy :: "Queue \<Rightarrow> Queue" where
  "forget_lossy q = q\<lparr>dropped := dropped q + 1, lost := lost q + 1\<rparr>"

text \<open>Room for a decoded event: the oldest ones go, and the event itself when none is left to go.\<close>

fun push_lossy_from :: "Packet \<Rightarrow> Packet list \<Rightarrow> Queue \<Rightarrow> Queue" where
  "push_lossy_from p ds q =
     (if DECODED_LIMIT \<le> length ds \<or> BYTE_LIMIT < bytes_queued q + packet_len p
      then case ds of
             [] \<Rightarrow> forget_lossy (q\<lparr>decoded := []\<rparr>)
           | old # ds' \<Rightarrow> push_lossy_from p ds' (forget_lossy (q\<lparr>bytes_queued := bytes_queued q - packet_len old\<rparr>))
      else q\<lparr>bytes_queued := bytes_queued q + packet_len p, decoded := ds @ [p]\<rparr>)"

definition push_lossy :: "Packet \<Rightarrow> Queue \<Rightarrow> Queue" where
  "push_lossy p q = push_lossy_from p (decoded q) q"

declare push_lossy_from.simps [simp del]

text \<open>Room for a control message: media frames go first, then audio, and then the connection.\<close>

function make_room :: "nat \<Rightarrow> Queue \<Rightarrow> Queue \<times> bool" where
  "make_room n q =
     (if BYTE_LIMIT < bytes_queued q + n
      then case media q of
             p # ps \<Rightarrow> make_room n (forget p (q\<lparr>media := ps\<rparr>))
           | [] \<Rightarrow> (case audio q of
                     p # ps \<Rightarrow> make_room n (forget p (q\<lparr>audio := ps\<rparr>))
                   | [] \<Rightarrow> (q, False))
      else (q, True))"
  by pat_completeness auto
termination
  by (relation "measure (\<lambda>(n, q). length (media q) + length (audio q))") (auto simp: forget_def)

declare make_room.simps [simp del]

definition push :: "Packet \<Rightarrow> Queue \<Rightarrow> Queue \<times> bool" where
  "push p q0 =
     (if closed q0 then (q0, False)
      else
        let q = expire (queued p) q0;
            n = packet_len p
        in if lossy p then (push_lossy p q, True)
           else case key p of
             None \<Rightarrow>
               if CONTROL_LIMIT \<le> length (control q) \<or> BYTE_LIMIT < n then (q\<lparr>closed := True\<rparr>, False)
               else (case make_room n q of
                       (q', ok) \<Rightarrow>
                         if ok then (q'\<lparr>bytes_queued := bytes_queued q' + n, control := control q' @ [p]\<rparr>, True)
                         else (q'\<lparr>closed := True\<rparr>, False))
           | Some (kind, stream) \<Rightarrow>
               let is_audio = (kind = AudioOpus);
                   q1 = (if is_audio then q
                         else case List.extract (\<lambda>old. key old = key p) (media q) of
                           None \<Rightarrow> q
                         | Some (before, old, after) \<Rightarrow> forget old (q\<lparr>media := before @ after\<rparr>));
                   queue = (if is_audio then audio q1 else media q1);
                   limit = (if is_audio then AUDIO_LIMIT else MEDIA_LIMIT)
               in if FRAME_LIMIT < n \<or> BYTE_LIMIT < bytes_queued q1 + n \<or> limit \<le> length queue
                  then (q1\<lparr>dropped := dropped q1 + 1\<rparr>, True)
                  else
                    let q2 = q1\<lparr>bytes_queued := bytes_queued q1 + n\<rparr>
                    in (if is_audio then q2\<lparr>audio := audio q2 @ [p]\<rparr> else q2\<lparr>media := media q2 @ [p]\<rparr>, True))"

text \<open>What the writer takes off: a message, or the report of how many decoded events were lost.\<close>

datatype outgoing = Sent ws_message | DecodedLost nat

definition passable :: "Queue \<Rightarrow> Packet \<Rightarrow> bool" where
  "passable q p =
     (case barrier p of
        None \<Rightarrow> True
      | Some sid \<Rightarrow> \<not> list_ex (\<lambda>m. case key m of None \<Rightarrow> False | Some (_, stream) \<Rightarrow> stream = sid) (audio q @ media q))"

definition take_packet :: "Queue \<Rightarrow> (Packet \<times> Queue) option" where
  "take_packet q =
     (case List.extract (passable q) (control q) of
        Some (before, p, after) \<Rightarrow> Some (p, q\<lparr>control := before @ after\<rparr>)
      | None \<Rightarrow>
          (case audio q of
             p # ps \<Rightarrow> Some (p, q\<lparr>audio := ps\<rparr>)
           | [] \<Rightarrow>
               (case decoded q of
                  p # ps \<Rightarrow> Some (p, q\<lparr>decoded := ps\<rparr>)
                | [] \<Rightarrow> (case media q of p # ps \<Rightarrow> Some (p, q\<lparr>media := ps\<rparr>) | [] \<Rightarrow> None))))"

definition pop :: "nat \<Rightarrow> Queue \<Rightarrow> Queue \<times> outgoing option" where
  "pop now q0 =
     (let q = expire now q0
      in if 0 < lost q then (q\<lparr>lost := 0\<rparr>, Some (DecodedLost (lost q)))
         else case take_packet q of
           None \<Rightarrow> (q, None)
         | Some (p, q') \<Rightarrow> (q'\<lparr>bytes_queued := bytes_queued q' - packet_len p\<rparr>, Some (Sent (message p))))"

text \<open>One look of the receiver: a message, the end, or nothing yet.\<close>

datatype look = Got outgoing | Ended | NotYet

definition recv_look :: "nat \<Rightarrow> Queue \<Rightarrow> Queue \<times> look" where
  "recv_look now q =
     (if closed q then (q, Ended)
      else case pop now q of
             (q', Some m) \<Rightarrow> (q', Got m)
           | (q', None) \<Rightarrow> if senders q' = 0 then (q', Ended) else (q', NotYet))"

definition note_dropped :: "nat \<Rightarrow> Queue \<Rightarrow> Queue" where
  "note_dropped n q = q\<lparr>dropped := dropped q + n\<rparr>"

definition clone_outbox :: "Queue \<Rightarrow> Queue" where
  "clone_outbox q = q\<lparr>senders := senders q + 1\<rparr>"

definition drop_outbox :: "Queue \<Rightarrow> Queue" where
  "drop_outbox q = q\<lparr>senders := senders q - 1\<rparr>"

definition drop_output :: "Queue \<Rightarrow> Queue" where
  "drop_output q = q\<lparr>closed := True\<rparr>"

section \<open>The invariant\<close>

definition total_len :: "Packet list \<Rightarrow> nat" where
  "total_len ps = sum_list (map packet_len ps)"

lemma total_len_simps [simp]:
  "total_len [] = 0" "total_len (p # ps) = packet_len p + total_len ps" "total_len (ps @ qs) = total_len ps + total_len qs"
  by (simp_all add: total_len_def)

abbreviation all_packets :: "Queue \<Rightarrow> Packet list" where
  "all_packets q \<equiv> control q @ decoded q @ audio q @ media q"

text \<open>
  The bytes are those of the packets held and within the limit; no queue is longer than its limit;
  there is at most one media frame of a kind and stream; and every packet is in the queue its key
  and its lossiness assign it to.
\<close>

definition queue_ok :: "Queue \<Rightarrow> bool" where
  "queue_ok q \<longleftrightarrow>
     bytes_queued q = total_len (all_packets q) \<and> bytes_queued q \<le> BYTE_LIMIT \<and>
     length (control q) \<le> CONTROL_LIMIT \<and> length (decoded q) \<le> DECODED_LIMIT \<and>
     length (audio q) \<le> AUDIO_LIMIT \<and> length (media q) \<le> MEDIA_LIMIT \<and>
     distinct (map key (media q)) \<and>
     list_all (\<lambda>p. key p = None \<and> \<not> lossy p) (control q) \<and> list_all lossy (decoded q) \<and>
     list_all (\<lambda>p. \<exists>s. key p = Some (AudioOpus, s)) (audio q) \<and>
     list_all (\<lambda>p. \<exists>k s. key p = Some (k, s) \<and> k \<noteq> AudioOpus) (media q)"

text \<open>Packets held and packets dropped: what conservation counts.\<close>

definition accounted :: "Queue \<Rightarrow> nat" where
  "accounted q = length (all_packets q) + dropped q"

lemma channel_ok: "queue_ok channel"
  by (simp add: queue_ok_def channel_def)

lemma forget_fields [simp]:
  "control (forget p q) = control q" "decoded (forget p q) = decoded q" "audio (forget p q) = audio q" "media (forget p q) = media q"
  "dropped (forget p q) = dropped q + 1" "bytes_queued (forget p q) = bytes_queued q - packet_len p"
  "lost (forget p q) = lost q" "closed (forget p q) = closed q" "senders (forget p q) = senders q"
  by (simp_all add: forget_def)

lemma expire_front_spec:
  assumes "expire_front now age ps q = (ps', q')"
  shows "\<exists>gone. ps = gone @ ps' \<and> bytes_queued q' = bytes_queued q - total_len gone \<and> dropped q' = dropped q + length gone \<and>
    control q' = control q \<and> decoded q' = decoded q \<and> audio q' = audio q \<and> media q' = media q \<and>
    lost q' = lost q \<and> closed q' = closed q \<and> senders q' = senders q"
  using assms
proof (induction now age ps q rule: expire_front.induct)
  case (2 now age p ps q)
  show ?case
  proof (cases "age < now - queued p")
    case True
    then obtain gone where "ps = gone @ ps' \<and> bytes_queued q' = bytes_queued (forget p q) - total_len gone \<and>
        dropped q' = dropped (forget p q) + length gone \<and> control q' = control q \<and> decoded q' = decoded q \<and> audio q' = audio q \<and>
        media q' = media q \<and> lost q' = lost q \<and> closed q' = closed q \<and> senders q' = senders q"
      using 2 by auto
    then show ?thesis by (intro exI [of _ "p # gone"]) simp
  next
    case False
    with 2(2) show ?thesis by (intro exI [of _ "[]"]) simp
  qed
qed simp

lemma expire_ok:
  assumes "queue_ok q"
  shows "queue_ok (expire now q)" "accounted (expire now q) = accounted q" "closed (expire now q) = closed q"
    "control (expire now q) = control q" "decoded (expire now q) = decoded q" "lost (expire now q) = lost q"
    "\<exists>gone. audio q = gone @ audio (expire now q)" "\<exists>gone. media q = gone @ media (expire now q)"
proof -
  obtain a q1 where a: "expire_front now AUDIO_AGE (audio q) q = (a, q1)" by fastforce
  obtain m q3 where m: "expire_front now MEDIA_AGE (media q1) (q1\<lparr>audio := a\<rparr>) = (m, q3)" by fastforce
  have e: "expire now q = q3\<lparr>media := m\<rparr>" by (simp add: expire_def a m)
  obtain ga where ga: "audio q = ga @ a" "bytes_queued q1 = bytes_queued q - total_len ga" "dropped q1 = dropped q + length ga"
    "control q1 = control q" "decoded q1 = decoded q" "media q1 = media q" "lost q1 = lost q" "closed q1 = closed q"
    using expire_front_spec [OF a] by auto
  obtain gm where gm: "media q = gm @ m" "bytes_queued q3 = bytes_queued q1 - total_len gm" "dropped q3 = dropped q1 + length gm"
    "control q3 = control q" "decoded q3 = decoded q" "audio q3 = a" "lost q3 = lost q" "closed q3 = closed q"
    using expire_front_spec [OF m] ga by auto
  show "queue_ok (expire now q)" using assms ga gm unfolding queue_ok_def e by auto
  show "accounted (expire now q) = accounted q" using ga gm by (simp add: accounted_def e)
  show "closed (expire now q) = closed q" "control (expire now q) = control q" "decoded (expire now q) = decoded q"
    "lost (expire now q) = lost q" "\<exists>gone. audio q = gone @ audio (expire now q)" "\<exists>gone. media q = gone @ media (expire now q)"
    using ga gm by (simp_all add: e)
qed

lemma push_lossy_from_ok:
  assumes "queue_ok (q\<lparr>decoded := ds\<rparr>)" "lossy p"
  shows "queue_ok (push_lossy_from p ds q) \<and> accounted (push_lossy_from p ds q) = accounted (q\<lparr>decoded := ds\<rparr>) + 1 \<and>
    closed (push_lossy_from p ds q) = closed q \<and>
    lost (push_lossy_from p ds q) + dropped q = dropped (push_lossy_from p ds q) + lost q"
  using assms
proof (induction p ds q rule: push_lossy_from.induct)
  case (1 p ds q)
  show ?case
  proof (cases "DECODED_LIMIT \<le> length ds \<or> BYTE_LIMIT < bytes_queued q + packet_len p")
    case full: True
    show ?thesis
    proof (cases ds)
      case Nil
      with full have "push_lossy_from p ds q = forget_lossy (q\<lparr>decoded := []\<rparr>)" by (simp add: push_lossy_from.simps)
      with 1(2,3) Nil show ?thesis by (simp add: forget_lossy_def queue_ok_def accounted_def)
    next
      case (Cons old ds')
      let ?q = "forget_lossy (q\<lparr>bytes_queued := bytes_queued q - packet_len old\<rparr>)"
      from full Cons have eq: "push_lossy_from p ds q = push_lossy_from p ds' ?q" by (simp add: push_lossy_from.simps)
      have "queue_ok (?q\<lparr>decoded := ds'\<rparr>)" using 1(2) Cons by (auto simp: queue_ok_def forget_lossy_def)
      from 1(1) [OF full Cons this 1(3)] Cons show ?thesis unfolding eq by (simp add: accounted_def forget_lossy_def)
    qed
  next
    case False
    then have "push_lossy_from p ds q = q\<lparr>bytes_queued := bytes_queued q + packet_len p, decoded := ds @ [p]\<rparr>"
      by (simp add: push_lossy_from.simps)
    with 1(2,3) False show ?thesis by (auto simp: queue_ok_def accounted_def)
  qed
qed

lemma make_room_ok:
  assumes "queue_ok q" "make_room n q = (q', ok)"
  shows "queue_ok q' \<and> accounted q' = accounted q \<and> control q' = control q \<and> decoded q' = decoded q \<and> closed q' = closed q \<and>
    lost q' = lost q \<and> (if ok then bytes_queued q' + n \<le> BYTE_LIMIT else audio q' = [] \<and> media q' = [] \<and> BYTE_LIMIT < bytes_queued q' + n)"
  using assms
proof (induction n q rule: make_room.induct)
  case (1 n q)
  show ?case
  proof (cases "BYTE_LIMIT < bytes_queued q + n")
    case full: True
    show ?thesis
    proof (cases "media q")
      case (Cons p ps)
      have ok: "queue_ok (forget p (q\<lparr>media := ps\<rparr>))" using 1(3) Cons by (auto simp: queue_ok_def)
      have run: "make_room n (forget p (q\<lparr>media := ps\<rparr>)) = (q', ok)" using 1(4) full Cons by (simp add: make_room.simps [of n q])
      from 1(2) [OF full Cons ok run] Cons show ?thesis by (auto simp: accounted_def)
    next
      case none: Nil
      show ?thesis
      proof (cases "audio q")
        case (Cons p ps)
        have ok: "queue_ok (forget p (q\<lparr>audio := ps\<rparr>))" using 1(3) Cons by (auto simp: queue_ok_def)
        have run: "make_room n (forget p (q\<lparr>audio := ps\<rparr>)) = (q', ok)" using 1(4) full none Cons by (simp add: make_room.simps [of n q])
        from 1(1) [OF full none Cons ok run] Cons show ?thesis by (auto simp: accounted_def)
      next
        case Nil
        with 1(3,4) full none show ?thesis by (auto simp: make_room.simps [of n q])
      qed
    qed
  next
    case False
    with 1(3,4) show ?thesis by (auto simp: make_room.simps [of n q])
  qed
qed

lemma extract_media:
  assumes "queue_ok q" "List.extract (\<lambda>old. key old = k) (media q) = Some (before, old, after)"
  shows "queue_ok (forget old (q\<lparr>media := before @ after\<rparr>))"
    "accounted (forget old (q\<lparr>media := before @ after\<rparr>)) = accounted q" "k \<notin> set (map key (before @ after))"
proof -
  have m: "media q = before @ old # after" "key old = k" using assms(2) by (auto dest: extract_SomeE)
  then show "queue_ok (forget old (q\<lparr>media := before @ after\<rparr>))" "k \<notin> set (map key (before @ after))"
    using assms(1) by (auto simp: queue_ok_def)
  show "accounted (forget old (q\<lparr>media := before @ after\<rparr>)) = accounted q" using m by (simp add: accounted_def)
qed

text \<open>Replacing the frame of the same kind and stream, which only media frames do.\<close>

definition replace_frame :: "Packet \<Rightarrow> Queue \<Rightarrow> Queue" where
  "replace_frame p q =
     (case List.extract (\<lambda>old. key old = key p) (media q) of
        None \<Rightarrow> q
      | Some (before, old, after) \<Rightarrow> forget old (q\<lparr>media := before @ after\<rparr>))"

lemma replace_frame_ok:
  assumes "queue_ok q"
  shows "queue_ok (replace_frame p q)" "accounted (replace_frame p q) = accounted q" "key p \<notin> set (map key (media (replace_frame p q)))"
    "closed (replace_frame p q) = closed q"
proof -
  show "queue_ok (replace_frame p q)" "accounted (replace_frame p q) = accounted q"
    using extract_media(1,2) [OF assms] assms by (auto simp: replace_frame_def split: option.splits)
  show "closed (replace_frame p q) = closed q" by (auto simp: replace_frame_def split: option.splits)
  show "key p \<notin> set (map key (media (replace_frame p q)))"
  proof (cases "List.extract (\<lambda>old. key old = key p) (media q)")
    case None
    then have "media (replace_frame p q) = media q" by (simp add: replace_frame_def)
    with None show ?thesis by (auto simp: extract_None_iff)
  next
    case (Some t)
    then show ?thesis using extract_media(3) [OF assms] by (cases t) (auto simp: replace_frame_def)
  qed
qed

lemma push_frame_unfold:
  assumes "\<not> closed q0" "\<not> lossy p" "key p = Some (kind, stream)"
  shows "push p q0 =
    (let q1 = (if kind = AudioOpus then expire (queued p) q0 else replace_frame p (expire (queued p) q0)); n = packet_len p
     in if FRAME_LIMIT < n \<or> BYTE_LIMIT < bytes_queued q1 + n \<or>
           (if kind = AudioOpus then AUDIO_LIMIT \<le> length (audio q1) else MEDIA_LIMIT \<le> length (media q1))
        then (q1\<lparr>dropped := dropped q1 + 1\<rparr>, True)
        else (if kind = AudioOpus then q1\<lparr>bytes_queued := bytes_queued q1 + n, audio := audio q1 @ [p]\<rparr>
              else q1\<lparr>bytes_queued := bytes_queued q1 + n, media := media q1 @ [p]\<rparr>, True))"
  using assms by (simp add: push_def Let_def replace_frame_def)

lemma push_ok:
  assumes "queue_ok q" "push p q = (q', ok)"
  shows "queue_ok q' \<and> (ok \<longrightarrow> accounted q' = accounted q + 1 \<and> closed q' = closed q \<and> \<not> closed q) \<and> (\<not> ok \<longrightarrow> closed q' \<and> accounted q' = accounted q)"
proof (cases "closed q")
  case True
  with assms show ?thesis by (auto simp: push_def)
next
  case False
  note e = expire_ok [OF assms(1), of "queued p"]
  show ?thesis
  proof (cases "lossy p")
    case True
    then have "q' = push_lossy p (expire (queued p) q)" "ok" using assms(2) False by (auto simp: push_def Let_def)
    moreover have "(expire (queued p) q)\<lparr>decoded := decoded (expire (queued p) q)\<rparr> = expire (queued p) q" by simp
    ultimately show ?thesis
      using push_lossy_from_ok [where q = "expire (queued p) q" and ds = "decoded (expire (queued p) q)" and p = p] e(1-3) False True
      unfolding push_lossy_def by metis
  next
    case hard: False
    show ?thesis
    proof (cases "key p")
      case None
      obtain r good where r: "make_room (packet_len p) (expire (queued p) q) = (r, good)" by fastforce
      note room = make_room_ok [OF e(1) r]
      show ?thesis
        using assms(2) False hard None r room e
        by (auto simp: push_def Let_def accounted_def queue_ok_def split: if_splits)
    next
      case (Some ks)
      obtain kind stream where ks: "ks = (kind, stream)" by (cases ks)
      show ?thesis
      proof (cases "kind = AudioOpus")
        case True
        with assms(2) False hard Some ks e show ?thesis
          by (auto simp: push_frame_unfold Let_def accounted_def queue_ok_def split: if_splits)
      next
        case other: False
        define q1 where "q1 = replace_frame p (expire (queued p) q)"
        note r = replace_frame_ok [OF e(1), of p, folded q1_def]
        have "(q', ok) = (if FRAME_LIMIT < packet_len p \<or> BYTE_LIMIT < bytes_queued q1 + packet_len p \<or> MEDIA_LIMIT \<le> length (media q1)
            then (q1\<lparr>dropped := dropped q1 + 1\<rparr>, True)
            else (q1\<lparr>bytes_queued := bytes_queued q1 + packet_len p, media := media q1 @ [p]\<rparr>, True))"
          using assms(2) other unfolding push_frame_unfold [OF False hard Some [unfolded ks]] Let_def q1_def by (auto split: if_splits)
        with r e False Some ks other show ?thesis
          by (auto simp: accounted_def queue_ok_def split: if_splits)
      qed
    qed
  qed
qed

text \<open>Taking a packet: which one, and that it was there.\<close>

lemma take_packet_spec:
  assumes "queue_ok q" "take_packet q = Some (p, q')"
  shows "queue_ok (q'\<lparr>bytes_queued := bytes_queued q' - packet_len p\<rparr>)" "accounted q' + 1 = accounted q" "p \<in> set (all_packets q)"
    "closed q' = closed q" "lost q' = lost q" "p \<in> set (control q) \<Longrightarrow> passable q p"
    "dropped q' = dropped q"
proof -
  consider (control) before after where "control q = before @ p # after" "q' = q\<lparr>control := before @ after\<rparr>" "passable q p"
    | (audio) ps where "audio q = p # ps" "q' = q\<lparr>audio := ps\<rparr>"
    | (decoded) ps where "decoded q = p # ps" "q' = q\<lparr>decoded := ps\<rparr>" "audio q = []" "\<forall>c \<in> set (control q). \<not> passable q c"
    | (media) ps where "media q = p # ps" "q' = q\<lparr>media := ps\<rparr>"
    using assms(2) unfolding take_packet_def
    by (fastforce split: option.splits list.splits dest: extract_SomeE simp: extract_None_iff)
  note cases = this
  from cases have "queue_ok (q'\<lparr>bytes_queued := bytes_queued q' - packet_len p\<rparr>) \<and> accounted q' + 1 = accounted q \<and>
      p \<in> set (all_packets q) \<and> closed q' = closed q \<and> lost q' = lost q \<and> dropped q' = dropped q"
    using assms(1) by cases (auto simp: queue_ok_def accounted_def)
  then show "queue_ok (q'\<lparr>bytes_queued := bytes_queued q' - packet_len p\<rparr>)" "accounted q' + 1 = accounted q" "p \<in> set (all_packets q)"
    "closed q' = closed q" "lost q' = lost q" "dropped q' = dropped q" by blast+
  show "passable q p" if "p \<in> set (control q)"
    using cases assms(1) that by cases (auto simp: queue_ok_def list_all_iff)
qed

lemma take_packet_None: "take_packet q = None \<longleftrightarrow> all_packets q = []"
proof -
  have "passable q p" if "audio q = []" "media q = []" for p
    using that by (simp add: passable_def split: option.splits)
  then show ?thesis
    by (auto simp: take_packet_def extract_None_iff split: option.splits list.splits dest: extract_SomeE)
qed

lemma passableD:
  assumes "passable q p" "barrier p = Some sid" "f \<in> set (audio q @ media q)"
  shows "key f \<noteq> Some (kind, sid)"
proof
  assume "key f = Some (kind, sid)"
  then have "list_ex (\<lambda>m. case key m of None \<Rightarrow> False | Some (_, stream) \<Rightarrow> stream = sid) (audio q @ media q)"
    using assms(3) by (auto simp: list_ex_iff intro!: bexI [of _ f])
  with assms(1,2) show False by (simp add: passable_def)
qed

lemma pop_ok:
  assumes "queue_ok q" "pop now q = (q', r)"
  shows "queue_ok q' \<and> closed q' = closed q \<and>
    (case r of
       None \<Rightarrow> accounted q' = accounted q \<and> all_packets q' = [] \<and> lost q' = 0
     | Some (DecodedLost n) \<Rightarrow> accounted q' = accounted q \<and> n = lost q \<and> 0 < n \<and> lost q' = 0
     | Some (Sent m) \<Rightarrow> accounted q' + 1 = accounted q)"
proof -
  note e = expire_ok [OF assms(1), of now]
  show ?thesis
  proof (cases "0 < lost (expire now q)")
    case True
    then show ?thesis using assms(2) e(1-3,6) by (auto simp: pop_def Let_def queue_ok_def accounted_def)
  next
    case False
    show ?thesis
    proof (cases "take_packet (expire now q)")
      case None
      then have "q' = expire now q" "r = None" using False assms(2) by (simp_all add: pop_def Let_def)
      moreover have "all_packets (expire now q) = []" using None by (simp only: take_packet_None)
      ultimately show ?thesis using False e(1-3,6) by simp
    next
      case (Some t)
      obtain p r1 where t: "t = (p, r1)" by (cases t)
      note spec = take_packet_spec [OF e(1) Some [unfolded t]]
      show ?thesis using False assms(2) Some t spec(1,2,4) e(2,3) by (auto simp: pop_def Let_def accounted_def)
    qed
  qed
qed

section \<open>Properties\<close>

text \<open>
  A run of the outbox: packets pushed, takes and looks of the receiver, drops the callers report for
  packets they never pushed, handles cloned and dropped, the receiver dropped, with the counts of both ends.
\<close>

datatype op = Push Packet | Pop nat | Recv nat | Report nat | Clone | Drop | Hangup

record Run =
  run_queue :: Queue
  accepted :: nat
  sent :: nat
  reported :: nat

fun run_op :: "Run \<Rightarrow> op \<Rightarrow> Run" where
  "run_op u (Push p) =
     (case push p (run_queue u) of (q, ok) \<Rightarrow> u\<lparr>run_queue := q, accepted := accepted u + (if ok then 1 else 0)\<rparr>)"
| "run_op u (Pop now) =
     (case pop now (run_queue u) of
        (q, Some (Sent m)) \<Rightarrow> u\<lparr>run_queue := q, sent := sent u + 1\<rparr>
      | (q, _) \<Rightarrow> u\<lparr>run_queue := q\<rparr>)"
| "run_op u (Recv now) =
     (case recv_look now (run_queue u) of
        (q, Got (Sent m)) \<Rightarrow> u\<lparr>run_queue := q, sent := sent u + 1\<rparr>
      | (q, _) \<Rightarrow> u\<lparr>run_queue := q\<rparr>)"
| "run_op u (Report n) = u\<lparr>run_queue := note_dropped n (run_queue u), reported := reported u + n\<rparr>"
| "run_op u Clone = u\<lparr>run_queue := clone_outbox (run_queue u)\<rparr>"
| "run_op u Drop = u\<lparr>run_queue := drop_outbox (run_queue u)\<rparr>"
| "run_op u Hangup = u\<lparr>run_queue := drop_output (run_queue u)\<rparr>"

definition run_outbox :: "op list \<Rightarrow> Run" where
  "run_outbox ops = foldl run_op \<lparr>run_queue = channel, accepted = 0, sent = 0, reported = 0\<rparr> ops"

definition run_ok :: "Run \<Rightarrow> bool" where
  "run_ok u \<longleftrightarrow> queue_ok (run_queue u) \<and> accepted u + reported u = sent u + accounted (run_queue u)"

lemma run_ok_op: "run_ok u \<Longrightarrow> run_ok (run_op u x)"
proof (cases x)
  case (Push p)
  assume "run_ok u"
  moreover obtain q ok where "push p (run_queue u) = (q, ok)" by fastforce
  ultimately show ?thesis using Push push_ok [of "run_queue u" p q ok] by (auto simp: run_ok_def)
next
  case (Pop now)
  assume "run_ok u"
  moreover obtain q r where "pop now (run_queue u) = (q, r)" by fastforce
  ultimately show ?thesis using Pop pop_ok [of "run_queue u" now q r]
    by (auto simp: run_ok_def split: option.splits outgoing.splits)
next
  case (Recv now)
  assume "run_ok u"
  moreover obtain q r where "pop now (run_queue u) = (q, r)" by fastforce
  ultimately show ?thesis using Recv pop_ok [of "run_queue u" now q r]
    by (auto simp: run_ok_def recv_look_def split: option.splits outgoing.splits)
qed (simp_all add: run_ok_def queue_ok_def accounted_def clone_outbox_def drop_outbox_def drop_output_def note_dropped_def)

lemma outbox_run_ok_ops: "run_ok u \<Longrightarrow> run_ok (foldl run_op u ops)"
  by (induction ops arbitrary: u) (simp_all add: run_ok_op del: run_op.simps)

text \<open>
  C27: However packets are pushed and taken and whatever drops the callers report, the queue holds at
  most 16 MiB, its byte counter is the sum of what it holds and never underflows, every part stays
  within its limit with at most one media frame per kind and stream, and the accepted packets together
  with the reported drops are exactly those sent, those still queued and the drop counter; without
  reports each accepted packet is sent, queued or counted as dropped.
\<close>

theorem outbox_accounts:
  "queue_ok (run_queue (run_outbox ops)) \<and>
   accepted (run_outbox ops) + reported (run_outbox ops) =
     sent (run_outbox ops) + length (all_packets (run_queue (run_outbox ops))) + dropped (run_queue (run_outbox ops))"
  using outbox_run_ok_ops [of "\<lparr>run_queue = channel, accepted = 0, sent = 0, reported = 0\<rparr>" ops]
  by (simp add: run_outbox_def run_ok_def channel_ok accounted_def) (simp add: channel_def)

text \<open>
  C28: The order of delivery: taking from the queue fails only when nothing is queued, so nothing is
  stuck behind a barrier; and the event that a stream stopped is never taken while a frame of that
  stream is still queued.
\<close>

theorem outbox_order:
  assumes "queue_ok q" and "pop now q = (q', r)"
  shows "(r = None \<longrightarrow> all_packets q' = [] \<and> lost q' = 0) \<and>
    (\<forall>m. r = Some (Sent m) \<longrightarrow>
       (\<exists>p \<in> set (all_packets q). m = message p \<and>
          (p \<in> set (control q) \<longrightarrow> barrier p = Some sid \<longrightarrow>
             (\<forall>f \<in> set (audio q' @ media q'). \<forall>kind. key f \<noteq> Some (kind, sid)))))"
proof -
  note e = expire_ok [OF assms(1), of now]
  have "\<exists>p \<in> set (all_packets q). m = message p \<and> (p \<in> set (control q) \<longrightarrow> barrier p = Some sid \<longrightarrow>
      (\<forall>f \<in> set (audio q' @ media q'). \<forall>kind. key f \<noteq> Some (kind, sid)))" if r: "r = Some (Sent m)" for m
  proof -
    obtain p r1 where t: "take_packet (expire now q) = Some (p, r1)" and m: "m = message p" and nl: "lost (expire now q) = 0"
      and q': "q' = r1\<lparr>bytes_queued := bytes_queued r1 - packet_len p\<rparr>"
      using assms(2) r by (auto simp: pop_def Let_def split: if_splits option.splits)
    note spec = take_packet_spec [OF e(1) t]
    have p: "p \<in> set (all_packets q)" using spec(3) e(4,5,7,8) by auto
    have "\<forall>f \<in> set (audio q' @ media q'). \<forall>kind. key f \<noteq> Some (kind, sid)"
      if "p \<in> set (control q)" "barrier p = Some sid"
    proof -
      have "passable (expire now q) p" using spec(6) that(1) e(4) by simp
      then have no: "\<forall>f \<in> set (audio (expire now q) @ media (expire now q)). \<forall>kind. key f \<noteq> Some (kind, sid)"
        using passableD that(2) by blast
      have "set (audio q') \<subseteq> set (audio (expire now q))" "set (media q') \<subseteq> set (media (expire now q))"
        using t unfolding q' take_packet_def by (auto split: option.splits list.splits prod.splits)
      with no show ?thesis by auto
    qed
    with p m show ?thesis by blast
  qed
  then show ?thesis using pop_ok [OF assms] by (auto split: option.splits)
qed

text \<open>A queue with a stop event for stream 5 behind nothing but a frame of stream 6.\<close>

definition stopping :: Queue where
  "stopping = channel\<lparr>
     control := [\<lparr>message = WsText [65], queued = 0, key = None, barrier = Some 5, lossy = False\<rparr>],
     audio := [\<lparr>message = WsBinary [1, 1, 6, 0], queued = 0, key = Some (1, 6), barrier = None, lossy = False\<rparr>],
     bytes_queued := 5\<rparr>"

theorem outbox_order_witness:
  "\<exists>q'. pop 10 stopping = (q', Some (Sent (WsText [65]))) \<and>
     (\<forall>f \<in> set (audio q' @ media q'). \<forall>kind. key f \<noteq> Some (kind, 5))"
proof -
  have ok: "queue_ok stopping"
    by (simp add: stopping_def queue_ok_def channel_def packet_len_def BYTE_LIMIT_def CONTROL_LIMIT_def AUDIO_LIMIT_def AudioOpus_def)
  let ?q = "stopping\<lparr>control := [], bytes_queued := 4\<rparr>"
  have run: "pop 10 stopping = (?q, Some (Sent (WsText [65])))"
    by (simp add: pop_def expire_def AUDIO_AGE_def take_packet_def stopping_def channel_def extract_def passable_def packet_len_def)
  let ?stop = "\<lparr>message = WsText [65], queued = 0, key = None, barrier = Some 5, lossy = False\<rparr>"
  obtain p where p: "p \<in> set (all_packets stopping)" "WsText [65] = message p"
    "p \<in> set (control stopping) \<longrightarrow> barrier p = Some 5 \<longrightarrow> (\<forall>f \<in> set (audio ?q @ media ?q). \<forall>kind. key f \<noteq> Some (kind, 5))"
    using outbox_order [OF ok run, of 5] by blast
  then have "p = ?stop" by (auto simp: stopping_def channel_def)
  moreover have "control stopping = [?stop]" by (simp add: stopping_def)
  ultimately have "\<forall>f \<in> set (audio ?q @ media ?q). \<forall>kind. key f \<noteq> Some (kind, 5)" using p(3) by simp
  with run show ?thesis by blast
qed

end
