(* ===== verification/Ws_Client.thy ===== *)
theory Ws_Client
  imports Rust_Text
begin

text \<open>
  The WebSocket client of the network devices (\<open>crates/device/src/net/websocket.rs\<close> and its
  \<open>frame.rs\<close>): the frame codec and the framer, which advances by one read of the socket at a time.

  The connection is part of the state: the bytes the server has sent that were not read yet, the
  frames handed to it and the first failure.  Each poll comes with what the socket does: deliver up
  to a number of bytes, nothing, or hang up, so a sequence of polls is any way TCP may cut the
  stream.  A reply counts as sent once it is handed to the connection, whose error the code ignores.
  Buffers are the lists of the bytes filled so far.  The masking keys are a parameter, the
  n-th key for the n-th frame sent.
\<close>

section \<open>Frames\<close>

definition MAX_PAYLOAD :: nat where "MAX_PAYLOAD = push_bit 20 32"
definition MAX_CONTROL_PAYLOAD :: nat where "MAX_CONTROL_PAYLOAD = 125"

datatype Opcode = Continuation | Text | Binary | Close | Ping | Pong

definition from_bits :: "u8 \<Rightarrow> Opcode option" where
  "from_bits bits =
     (if bits = 0x0 then Some Continuation
      else if bits = 0x1 then Some Text
      else if bits = 0x2 then Some Binary
      else if bits = 0x8 then Some Close
      else if bits = 0x9 then Some Ping
      else if bits = 0xA then Some Pong
      else None)"

fun opcode_bits :: "Opcode \<Rightarrow> u8" where
  "opcode_bits Continuation = 0x0"
| "opcode_bits Text = 0x1"
| "opcode_bits Binary = 0x2"
| "opcode_bits Close = 0x8"
| "opcode_bits Ping = 0x9"
| "opcode_bits Pong = 0xA"

definition opcode_is_control :: "Opcode \<Rightarrow> bool" where
  "opcode_is_control op \<longleftrightarrow> op = Close \<or> op = Ping \<or> op = Pong"

record Head =
  head_fin :: bool
  head_opcode :: Opcode
  head_masked :: bool
  head_marker :: u8

definition head_parse :: "u8 \<Rightarrow> u8 \<Rightarrow> rtext + Head" where
  "head_parse b0 b1 =
     (if b0 AND 0x70 \<noteq> 0 then Inl (chars ''a reserved frame bit is set, but no extension was negotiated'')
      else let bits = b0 AND 0x0F
           in case from_bits bits of
                None \<Rightarrow> Inl (chars (''frame opcode '' @ hex_padded 0 (unat bits) @ '' is not one RFC 6455 defines''))
              | Some op \<Rightarrow>
                  (let fin = b0 AND 0x80 \<noteq> 0
                   in if opcode_is_control op \<and> \<not> fin then Inl (chars ''a control frame may not be fragmented'')
                      else Inr \<lparr>head_fin = fin, head_opcode = op, head_masked = (b1 AND 0x80 \<noteq> 0), head_marker = b1 AND 0x7F\<rparr>))"

definition head_extra :: "Head \<Rightarrow> nat" where
  "head_extra h =
     (if head_marker h = 126 then 2 else if head_marker h = 127 then 8 else 0) + (if head_masked h then 4 else 0)"

definition of_be64 :: "bytes \<Rightarrow> u64" where
  "of_be64 bs = fold (\<lambda>b w. push_bit 8 w OR ucast b) bs 0"

definition head_payload :: "Head \<Rightarrow> bytes \<Rightarrow> rtext + nat \<times> bytes option" where
  "head_payload h ext =
     (let (len, rest) =
        (if head_marker h = 126 then (unat (of_be16 (ext ! 0) (ext ! 1)), drop 2 ext)
         else if head_marker h = 127 then (unat (of_be64 (take 8 ext)), drop 8 ext)
         else (unat (head_marker h), ext))
      in if opcode_is_control (head_opcode h) \<and> MAX_CONTROL_PAYLOAD < len
         then Inl (chars (''control frame payload of '' @ decimal len @ '' bytes exceeds the '' @ decimal MAX_CONTROL_PAYLOAD @ '' RFC 6455 allows''))
         else if MAX_PAYLOAD < len
         then Inl (chars (''frame payload of '' @ decimal len @ '' bytes exceeds the '' @ decimal MAX_PAYLOAD @ '' SDR-- will buffer''))
         else Inr (len, if head_masked h then Some [rest ! 0, rest ! 1, rest ! 2, rest ! 3] else None))"

definition unmask :: "bytes \<Rightarrow> bytes \<Rightarrow> bytes" where
  "unmask payload key = map (\<lambda>(at, b). b XOR key ! (at mod 4)) (enumerate 0 payload)"

definition be64 :: "u64 \<Rightarrow> bytes" where
  "be64 w = [ucast (drop_bit 56 w), ucast (drop_bit 48 w), ucast (drop_bit 40 w), ucast (drop_bit 32 w),
             ucast (drop_bit 24 w), ucast (drop_bit 16 w), ucast (drop_bit 8 w), ucast w]"

definition ws_encode :: "bytes \<Rightarrow> Opcode \<Rightarrow> bytes \<Rightarrow> bytes" where
  "ws_encode key op payload =
     [0x80 OR opcode_bits op] @
     (let len = length payload
      in if len < 126 then [0x80 OR of_nat len]
         else if len \<le> 0xFFFF then (0x80 OR 126) # be16 (of_nat len)
         else (0x80 OR 127) # be64 (of_nat len)) @
     key @ map (\<lambda>(at, b). b XOR key ! (at mod 4)) (enumerate 0 payload)"

definition close_reason :: "bytes \<Rightarrow> rtext" where
  "close_reason payload =
     (if length payload < 2 then chars ''the server closed the WebSocket''
      else let code = of_be16 (payload ! 0) (payload ! 1); words = from_utf8_lossy (drop 2 payload)
           in if words = [] then chars (''the server closed the WebSocket with status '' @ decimal (unat code))
              else chars (''the server closed the WebSocket with status '' @ decimal (unat code) @ '': '') @ words)"

section \<open>The framer\<close>

datatype Incoming = Message_Text rtext | Message_Binary bytes | Incoming_Idle | Incoming_Ended

datatype FramerPhase =
    Phase_Head bytes
  | Phase_Extra Head bytes nat
  | Phase_Payload Head "bytes option" nat bytes

record WebSocket =
  ws_phase :: FramerPhase
  ws_pending :: bytes
  ws_partial :: "(Opcode \<times> bytes) option"
  ws_stream :: bytes
  ws_sent :: "bytes list"
  ws_failure :: "rtext option"

text \<open>What the socket does at a poll, and what a read makes of it.\<close>

datatype arrival = Arrive nat | Quiet | Hangup rtext

datatype Read = Got bytes | Read_Idle | Read_Ended

definition ws_open :: "bytes \<Rightarrow> bytes \<Rightarrow> WebSocket" where
  "ws_open pending stream =
     \<lparr>ws_phase = Phase_Head [], ws_pending = pending, ws_partial = None, ws_stream = stream, ws_sent = [], ws_failure = None\<rparr>"

definition connection_fail :: "rtext \<Rightarrow> WebSocket \<Rightarrow> WebSocket" where
  "connection_fail reason ws = (case ws_failure ws of None \<Rightarrow> ws\<lparr>ws_failure := Some reason\<rparr> | Some _ \<Rightarrow> ws)"

definition ws_send :: "(nat \<Rightarrow> bytes) \<Rightarrow> Opcode \<Rightarrow> bytes \<Rightarrow> WebSocket \<Rightarrow> WebSocket" where
  "ws_send keys op payload ws = ws\<lparr>ws_sent := ws_sent ws @ [ws_encode (keys (length (ws_sent ws))) op payload]\<rparr>"

definition connection_read :: "arrival \<Rightarrow> nat \<Rightarrow> WebSocket \<Rightarrow> WebSocket \<times> Read" where
  "connection_read ev want ws =
     (case ev of
        Arrive k \<Rightarrow>
          (let n = min k (min want (length (ws_stream ws)))
           in if n = 0 then (ws, Read_Idle) else (ws\<lparr>ws_stream := drop n (ws_stream ws)\<rparr>, Got (take n (ws_stream ws))))
      | Quiet \<Rightarrow> (ws, Read_Idle)
      | Hangup reason \<Rightarrow> (connection_fail reason ws, Read_Ended))"

definition ws_read :: "arrival \<Rightarrow> nat \<Rightarrow> WebSocket \<Rightarrow> WebSocket \<times> Read" where
  "ws_read ev want ws =
     (if ws_pending ws = [] then connection_read ev want ws
      else let taken = min want (length (ws_pending ws))
           in (ws\<lparr>ws_pending := drop taken (ws_pending ws)\<rparr>, Got (take taken (ws_pending ws))))"

definition ws_message :: "Opcode \<Rightarrow> bytes \<Rightarrow> Incoming" where
  "ws_message op block = (if op = Text then Message_Text (from_utf8_lossy block) else Message_Binary block)"

definition broken :: "rtext \<Rightarrow> WebSocket \<Rightarrow> WebSocket \<times> Incoming" where
  "broken reason ws = (connection_fail reason ws, Incoming_Ended)"

text \<open>Three of the reasons to give up.\<close>

definition message_too_soon :: rtext where
  "message_too_soon = chars ''a new WebSocket message started before the last one ended''"

definition stray_continuation :: rtext where
  "stray_continuation = chars ''a WebSocket continuation without a message to continue''"

definition message_too_long :: rtext where
  "message_too_long = chars (''a fragmented WebSocket message exceeds the '' @ decimal MAX_PAYLOAD @ '' SDR-- will buffer'')"

definition whole :: "(nat \<Rightarrow> bytes) \<Rightarrow> Head \<Rightarrow> bytes option \<Rightarrow> bytes \<Rightarrow> WebSocket \<Rightarrow> WebSocket \<times> Incoming" where
  "whole keys h key block ws =
     (let block = (case key of Some m \<Rightarrow> unmask block m | None \<Rightarrow> block)
      in case head_opcode h of
           Ping \<Rightarrow> (ws_send keys Pong block ws, Incoming_Idle)
         | Pong \<Rightarrow> (ws, Incoming_Idle)
         | Close \<Rightarrow> broken (close_reason block) (ws_send keys Close block ws)
         | Continuation \<Rightarrow>
             (case ws_partial ws of
                None \<Rightarrow> broken stray_continuation ws
              | Some (op, bytes) \<Rightarrow>
                  (let ws = ws\<lparr>ws_partial := None\<rparr>
                   in if MAX_PAYLOAD < length bytes + length block
                      then broken message_too_long ws
                      else if \<not> head_fin h then (ws\<lparr>ws_partial := Some (op, bytes @ block)\<rparr>, Incoming_Idle)
                      else (ws, ws_message op (bytes @ block))))
         | op \<Rightarrow>
             (if ws_partial ws \<noteq> None then broken message_too_soon ws
              else if head_fin h then (ws, ws_message op block)
              else (ws\<lparr>ws_partial := Some (op, block)\<rparr>, Incoming_Idle)))"

text \<open>
  One step: the phase is taken out and replaced by a fresh head, and put back when the step did not
  complete it.
\<close>

definition advance_head :: "arrival \<Rightarrow> bytes \<Rightarrow> WebSocket \<Rightarrow> WebSocket \<times> Incoming" where
  "advance_head ev bytes ws =
     (case ws_read ev (2 - length bytes) ws of
        (ws, Read_Idle) \<Rightarrow> (ws\<lparr>ws_phase := Phase_Head bytes\<rparr>, Incoming_Idle)
      | (ws, Read_Ended) \<Rightarrow> (ws, Incoming_Ended)
      | (ws, Got new) \<Rightarrow>
          (let bytes = bytes @ new
           in if length bytes < 2 then (ws\<lparr>ws_phase := Phase_Head bytes\<rparr>, Incoming_Idle)
              else case head_parse (bytes ! 0) (bytes ! 1) of
                Inl e \<Rightarrow> broken e ws
              | Inr h \<Rightarrow> (ws\<lparr>ws_phase := Phase_Extra h [] (head_extra h)\<rparr>, Incoming_Idle)))"

definition extra_done :: "(nat \<Rightarrow> bytes) \<Rightarrow> Head \<Rightarrow> bytes \<Rightarrow> WebSocket \<Rightarrow> WebSocket \<times> Incoming" where
  "extra_done keys h bytes ws =
     (case head_payload h bytes of
        Inl e \<Rightarrow> broken e ws
      | Inr (len, key) \<Rightarrow>
          if len = 0 then whole keys h key [] ws
          else (ws\<lparr>ws_phase := Phase_Payload h key len []\<rparr>, Incoming_Idle))"

definition advance_extra :: "(nat \<Rightarrow> bytes) \<Rightarrow> arrival \<Rightarrow> Head \<Rightarrow> bytes \<Rightarrow> nat \<Rightarrow> WebSocket \<Rightarrow> WebSocket \<times> Incoming" where
  "advance_extra keys ev h bytes need ws =
     (if length bytes < need then
        (case ws_read ev (need - length bytes) ws of
           (ws, Read_Idle) \<Rightarrow> (ws\<lparr>ws_phase := Phase_Extra h bytes need\<rparr>, Incoming_Idle)
         | (ws, Read_Ended) \<Rightarrow> (ws, Incoming_Ended)
         | (ws, Got new) \<Rightarrow>
             (let bytes = bytes @ new
              in if length bytes < need then (ws\<lparr>ws_phase := Phase_Extra h bytes need\<rparr>, Incoming_Idle)
                 else extra_done keys h bytes ws))
      else extra_done keys h bytes ws)"

definition advance_payload :: "(nat \<Rightarrow> bytes) \<Rightarrow> arrival \<Rightarrow> Head \<Rightarrow> bytes option \<Rightarrow> nat \<Rightarrow> bytes \<Rightarrow> WebSocket \<Rightarrow> WebSocket \<times> Incoming" where
  "advance_payload keys ev h key len bytes ws =
     (case ws_read ev (len - length bytes) ws of
        (ws, Read_Idle) \<Rightarrow> (ws\<lparr>ws_phase := Phase_Payload h key len bytes\<rparr>, Incoming_Idle)
      | (ws, Read_Ended) \<Rightarrow> (ws, Incoming_Ended)
      | (ws, Got new) \<Rightarrow>
          (let bytes = bytes @ new
           in if length bytes < len then (ws\<lparr>ws_phase := Phase_Payload h key len bytes\<rparr>, Incoming_Idle)
              else whole keys h key bytes ws))"

definition advance :: "(nat \<Rightarrow> bytes) \<Rightarrow> arrival \<Rightarrow> WebSocket \<Rightarrow> WebSocket \<times> Incoming" where
  "advance keys ev ws =
     (let fresh = ws\<lparr>ws_phase := Phase_Head []\<rparr>
      in case ws_phase ws of
           Phase_Head bytes \<Rightarrow> advance_head ev bytes fresh
         | Phase_Extra h bytes need \<Rightarrow> advance_extra keys ev h bytes need fresh
         | Phase_Payload h key len bytes \<Rightarrow> advance_payload keys ev h key len bytes fresh)"

definition ws_close :: "(nat \<Rightarrow> bytes) \<Rightarrow> WebSocket \<Rightarrow> WebSocket" where
  "ws_close keys ws = ws_send keys Close (be16 1000) ws"

section \<open>The stream, read in one go\<close>

text \<open>
  The specification: what a whole stream of frames amounts to, frame by frame, with no trace of how
  it arrives.  An incomplete frame at its end amounts to nothing.
\<close>

datatype item = Sent bytes | Delivered Incoming | Stopped rtext

definition sends :: "item list \<Rightarrow> nat" where
  "sends items = length (filter (\<lambda>i. case i of Sent _ \<Rightarrow> True | _ \<Rightarrow> False) items)"

definition frame_effect :: "(nat \<Rightarrow> bytes) \<Rightarrow> nat \<Rightarrow> (Opcode \<times> bytes) option \<Rightarrow> Head \<Rightarrow> bytes \<Rightarrow> item list \<times> (Opcode \<times> bytes) option option" where
  "frame_effect keys n partial h block =
     (case head_opcode h of
        Ping \<Rightarrow> ([Sent (ws_encode (keys n) Pong block)], Some partial)
      | Pong \<Rightarrow> ([], Some partial)
      | Close \<Rightarrow> ([Sent (ws_encode (keys n) Close block), Stopped (close_reason block)], None)
      | Continuation \<Rightarrow>
          (case partial of
             None \<Rightarrow> ([Stopped stray_continuation], None)
           | Some (op, bs) \<Rightarrow>
               if MAX_PAYLOAD < length bs + length block then ([Stopped message_too_long], None)
               else if head_fin h then ([Delivered (ws_message op (bs @ block))], Some None)
               else ([], Some (Some (op, bs @ block))))
      | op \<Rightarrow>
          (if partial \<noteq> None then ([Stopped message_too_soon], None)
           else if head_fin h then ([Delivered (ws_message op block)], Some None)
           else ([], Some (Some (op, block)))))"

definition clear_text :: "bytes option \<Rightarrow> bytes \<Rightarrow> bytes" where
  "clear_text key block = (case key of Some m \<Rightarrow> unmask block m | None \<Rightarrow> block)"

function expect :: "(nat \<Rightarrow> bytes) \<Rightarrow> nat \<Rightarrow> (Opcode \<times> bytes) option \<Rightarrow> bytes \<Rightarrow> item list" where
  "expect keys n partial bs =
     (case bs of
        b0 # b1 # r \<Rightarrow>
          (case head_parse b0 b1 of
             Inl e \<Rightarrow> [Stopped e]
           | Inr h \<Rightarrow>
               if length r < head_extra h then []
               else case head_payload h (take (head_extra h) r) of
                 Inl e \<Rightarrow> [Stopped e]
               | Inr (len, key) \<Rightarrow>
                   (let body = drop (head_extra h) r
                    in if length body < len then []
                       else case frame_effect keys n partial h (clear_text key (take len body)) of
                         (items, None) \<Rightarrow> items
                       | (items, Some partial') \<Rightarrow> items @ expect keys (n + sends items) partial' (drop len body)))
      | _ \<Rightarrow> [])"
  by pat_completeness auto
termination
  by (relation "measure (\<lambda>(keys, n, partial, bs). length bs)") auto

declare expect.simps [simp del]

text \<open>The specification from inside a frame: after its head, and after its length and key.\<close>

definition expect_payload :: "(nat \<Rightarrow> bytes) \<Rightarrow> nat \<Rightarrow> (Opcode \<times> bytes) option \<Rightarrow> Head \<Rightarrow> bytes option \<Rightarrow> nat \<Rightarrow> bytes \<Rightarrow> item list" where
  "expect_payload keys n partial h key len body =
     (if length body < len then []
      else case frame_effect keys n partial h (clear_text key (take len body)) of
        (items, None) \<Rightarrow> items
      | (items, Some partial') \<Rightarrow> items @ expect keys (n + sends items) partial' (drop len body))"

definition expect_extra :: "(nat \<Rightarrow> bytes) \<Rightarrow> nat \<Rightarrow> (Opcode \<times> bytes) option \<Rightarrow> Head \<Rightarrow> bytes \<Rightarrow> item list" where
  "expect_extra keys n partial h r =
     (if length r < head_extra h then []
      else case head_payload h (take (head_extra h) r) of
        Inl e \<Rightarrow> [Stopped e]
      | Inr (len, key) \<Rightarrow> expect_payload keys n partial h key len (drop (head_extra h) r))"

lemma expect_head:
  "expect keys n partial (b0 # b1 # r) =
     (case head_parse b0 b1 of Inl e \<Rightarrow> [Stopped e] | Inr h \<Rightarrow> expect_extra keys n partial h r)"
  by (subst expect.simps) (auto simp: expect_extra_def expect_payload_def Let_def split: sum.splits)

lemma expect_short: "length bs < 2 \<Longrightarrow> expect keys n partial bs = []"
  by (subst expect.simps) (auto split: list.splits)

section \<open>One poll\<close>

definition unread :: "WebSocket \<Rightarrow> bytes" where
  "unread ws = ws_pending ws @ ws_stream ws"

text \<open>What a socket in the middle of a frame still has to do with the bytes it has and will get.\<close>

definition still :: "(nat \<Rightarrow> bytes) \<Rightarrow> WebSocket \<Rightarrow> item list" where
  "still keys ws =
     (let n = length (ws_sent ws); p = ws_partial ws; u = unread ws
      in case ws_phase ws of
           Phase_Head bs \<Rightarrow> expect keys n p (bs @ u)
         | Phase_Extra h bs need \<Rightarrow> expect_extra keys n p h (bs @ u)
         | Phase_Payload h key len bs \<Rightarrow> expect_payload keys n p h key len (bs @ u))"

definition ws_ok :: "WebSocket \<Rightarrow> bool" where
  "ws_ok ws \<longleftrightarrow> ws_failure ws = None \<and>
     (case ws_partial ws of None \<Rightarrow> True | Some (op, bs) \<Rightarrow> length bs \<le> MAX_PAYLOAD) \<and>
     (case ws_phase ws of
        Phase_Head bs \<Rightarrow> length bs < 2
      | Phase_Extra h bs need \<Rightarrow> need = head_extra h \<and> length bs \<le> need
      | Phase_Payload h key len bs \<Rightarrow> length bs < len \<and> len \<le> MAX_PAYLOAD)"

definition outcome :: "WebSocket \<Rightarrow> WebSocket \<Rightarrow> Incoming \<Rightarrow> item list" where
  "outcome ws ws' inc =
     map Sent (drop (length (ws_sent ws)) (ws_sent ws')) @
     (case inc of
        Incoming_Idle \<Rightarrow> []
      | Incoming_Ended \<Rightarrow> [Stopped (the (ws_failure ws'))]
      | m \<Rightarrow> [Delivered m])"

definition hangs_up :: "arrival \<Rightarrow> bool" where
  "hangs_up ev \<longleftrightarrow> (case ev of Hangup _ \<Rightarrow> True | _ \<Rightarrow> False)"

lemma ws_read_cases:
  assumes "\<not> hangs_up ev" "0 < want"
  obtains "ws_read ev want ws = (ws, Read_Idle)"
    | new ws' where "ws_read ev want ws = (ws', Got new)" "new \<noteq> []" "length new \<le> want" "unread ws = new @ unread ws'"
      "ws_phase ws' = ws_phase ws" "ws_partial ws' = ws_partial ws" "ws_sent ws' = ws_sent ws" "ws_failure ws' = ws_failure ws"
proof (cases "ws_pending ws = []")
  case True
  show ?thesis
  proof (cases ev)
    case (Arrive k)
    define n where "n = min k (min want (length (ws_stream ws)))"
    show ?thesis
    proof (cases "n = 0")
      case True
      with \<open>ws_pending ws = []\<close> Arrive that(1) show ?thesis by (simp add: ws_read_def connection_read_def n_def Let_def)
    next
      case False
      have r: "ws_read ev want ws = (ws\<lparr>ws_stream := drop n (ws_stream ws)\<rparr>, Got (take n (ws_stream ws)))"
        using \<open>ws_pending ws = []\<close> Arrive False by (simp add: ws_read_def connection_read_def n_def Let_def)
      show ?thesis
        by (rule that(2) [OF r]) (use \<open>ws_pending ws = []\<close> False in \<open>auto simp: unread_def n_def\<close>)
    qed
  next
    case Quiet
    with True that(1) show ?thesis by (simp add: ws_read_def connection_read_def)
  qed (use assms(1) in \<open>simp add: hangs_up_def\<close>)
next
  case False
  define n where "n = min want (length (ws_pending ws))"
  have r: "ws_read ev want ws = (ws\<lparr>ws_pending := drop n (ws_pending ws)\<rparr>, Got (take n (ws_pending ws)))"
    using False by (simp add: ws_read_def n_def Let_def)
  show ?thesis by (rule that(2) [OF r]) (use False assms(2) in \<open>auto simp: unread_def n_def\<close>)
qed

lemma length_clear_text [simp]: "length (clear_text key block) = length block"
  by (simp add: clear_text_def unmask_def split: option.splits)

text \<open>The socket between two frames.\<close>

definition between :: "WebSocket \<Rightarrow> bool" where
  "between ws \<longleftrightarrow> ws_ok ws \<and> ws_phase ws = Phase_Head []"

lemma whole_effect:
  assumes "between ws" "length block \<le> MAX_PAYLOAD" "whole keys h key block ws = (ws', inc)"
  shows "frame_effect keys (length (ws_sent ws)) (ws_partial ws) h (clear_text key block) =
      (outcome ws ws' inc, if inc = Incoming_Ended then None else Some (ws_partial ws'))"
    and "inc \<noteq> Incoming_Ended \<Longrightarrow> between ws' \<and> unread ws' = unread ws \<and>
      length (ws_sent ws') = length (ws_sent ws) + sends (outcome ws ws' inc)"
proof -
  define b where "b = clear_text key block"
  have lb: "length b = length block" by (simp add: b_def)
  have w: "whole keys h key block ws =
      (case head_opcode h of
         Ping \<Rightarrow> (ws_send keys Pong b ws, Incoming_Idle)
       | Pong \<Rightarrow> (ws, Incoming_Idle)
       | Close \<Rightarrow> broken (close_reason b) (ws_send keys Close b ws)
       | Continuation \<Rightarrow>
           (case ws_partial ws of
              None \<Rightarrow> broken stray_continuation ws
            | Some (op, bytes) \<Rightarrow>
                (if MAX_PAYLOAD < length bytes + length b then broken message_too_long (ws\<lparr>ws_partial := None\<rparr>)
                 else if \<not> head_fin h then (ws\<lparr>ws_partial := Some (op, bytes @ b)\<rparr>, Incoming_Idle)
                 else (ws\<lparr>ws_partial := None\<rparr>, ws_message op (bytes @ b))))
       | op \<Rightarrow>
           (if ws_partial ws \<noteq> None then broken message_too_soon ws
            else if head_fin h then (ws, ws_message op b)
            else (ws\<lparr>ws_partial := Some (op, b)\<rparr>, Incoming_Idle)))"
    unfolding whole_def b_def clear_text_def Let_def by (auto split: Opcode.splits option.splits)
  have fine: "ws_failure ws = None" "ws_phase ws = Phase_Head []" using assms(1) by (simp_all add: between_def ws_ok_def)
  note simps = frame_effect_def outcome_def broken_def connection_fail_def ws_send_def ws_message_def between_def ws_ok_def unread_def sends_def
  show "frame_effect keys (length (ws_sent ws)) (ws_partial ws) h b =
      (outcome ws ws' inc, if inc = Incoming_Ended then None else Some (ws_partial ws'))"
    using assms(3) fine unfolding w
    by (cases "head_opcode h"; cases "ws_partial ws") (auto simp: simps split: option.splits if_splits)
  show "between ws' \<and> unread ws' = unread ws \<and> length (ws_sent ws') = length (ws_sent ws) + sends (outcome ws ws' inc)"
    if "inc \<noteq> Incoming_Ended"
    using assms fine that lb unfolding w
    by (cases "head_opcode h") (auto simp: simps split: option.splits if_splits)
qed

lemma payload_complete:
  assumes "between ws" "length block = len" "len \<le> MAX_PAYLOAD" "whole keys h key block ws = (ws', inc)"
  shows "expect_payload keys (length (ws_sent ws)) (ws_partial ws) h key len (block @ unread ws) =
      outcome ws ws' inc @ (if inc = Incoming_Ended then [] else still keys ws')"
    and "inc \<noteq> Incoming_Ended \<Longrightarrow> ws_ok ws'"
proof -
  note eff = whole_effect [OF assms(1) _ assms(4)]
  have "still keys ws' = expect keys (length (ws_sent ws) + sends (outcome ws ws' inc)) (ws_partial ws') (unread ws)"
    if "inc \<noteq> Incoming_Ended"
    using eff(2) [OF _ that] assms(2,3) by (simp add: still_def between_def)
  then show "expect_payload keys (length (ws_sent ws)) (ws_partial ws) h key len (block @ unread ws) =
      outcome ws ws' inc @ (if inc = Incoming_Ended then [] else still keys ws')"
    using eff(1) assms(2,3) by (simp add: expect_payload_def)
  show "ws_ok ws'" if "inc \<noteq> Incoming_Ended" using eff(2) [OF _ that] assms(2,3) by (simp add: between_def)
qed

lemma extra_complete:
  assumes "between ws" "length bytes = head_extra h" "extra_done keys h bytes ws = (ws', inc)"
  shows "expect_extra keys (length (ws_sent ws)) (ws_partial ws) h (bytes @ unread ws) =
      outcome ws ws' inc @ (if inc = Incoming_Ended then [] else still keys ws') \<and>
    (inc \<noteq> Incoming_Ended \<longrightarrow> ws_ok ws')"
proof (cases "head_payload h bytes")
  case (Inl e)
  with assms have "inc = Incoming_Ended" "outcome ws ws' inc = [Stopped e]"
    by (auto simp: extra_done_def broken_def connection_fail_def outcome_def between_def ws_ok_def)
  with Inl assms(2) show ?thesis by (simp add: expect_extra_def)
next
  case (Inr lk)
  obtain len key where lk: "lk = (len, key)" by (cases lk)
  have small: "len \<le> MAX_PAYLOAD" using Inr lk by (auto simp: head_payload_def Let_def split: if_splits)
  have ex: "expect_extra keys n p h (bytes @ u) = expect_payload keys n p h key len u" for n p u
    using Inr lk assms(2) by (simp add: expect_extra_def)
  show ?thesis
  proof (cases "len = 0")
    case True
    then have "whole keys h key [] ws = (ws', inc)" using Inr lk assms(3) by (simp add: extra_done_def)
    from payload_complete [OF assms(1) _ _ this, of 0] True show ?thesis by (simp add: ex)
  next
    case False
    then have "ws' = ws\<lparr>ws_phase := Phase_Payload h key len []\<rparr>" "inc = Incoming_Idle"
      using Inr lk assms(3) by (auto simp: extra_done_def)
    with False small assms(1) show ?thesis
      by (simp add: ex outcome_def still_def unread_def ws_ok_def between_def)
  qed
qed

text \<open>A read into a buffer that was not full yet, for the three phases alike.\<close>

lemma still_phase:
  "still keys (ws\<lparr>ws_phase := Phase_Head bs\<rparr>) = expect keys (length (ws_sent ws)) (ws_partial ws) (bs @ unread ws)"
  "still keys (ws\<lparr>ws_phase := Phase_Extra h bs need\<rparr>) = expect_extra keys (length (ws_sent ws)) (ws_partial ws) h (bs @ unread ws)"
  "still keys (ws\<lparr>ws_phase := Phase_Payload h key len bs\<rparr>) = expect_payload keys (length (ws_sent ws)) (ws_partial ws) h key len (bs @ unread ws)"
  by (simp_all add: still_def unread_def)

lemma outcome_idle: "ws_sent ws' = ws_sent ws \<Longrightarrow> outcome ws ws' Incoming_Idle = []"
  by (simp add: outcome_def)

lemma outcome_cong: "ws_sent ws1 = ws_sent ws2 \<Longrightarrow> outcome ws1 ws' inc = outcome ws2 ws' inc"
  by (simp add: outcome_def)

lemma between_cong:
  "between ws \<Longrightarrow> ws_phase w = ws_phase ws \<Longrightarrow> ws_partial w = ws_partial ws \<Longrightarrow> ws_failure w = ws_failure ws \<Longrightarrow> between w"
  by (simp add: between_def ws_ok_def)

lemma head_step:
  assumes "between ws" "length bytes < 2" "\<not> hangs_up ev" "advance_head ev bytes ws = (ws', inc)"
  shows "expect keys (length (ws_sent ws)) (ws_partial ws) (bytes @ unread ws) =
      outcome ws ws' inc @ (if inc = Incoming_Ended then [] else still keys ws') \<and>
    (inc \<noteq> Incoming_Ended \<longrightarrow> ws_ok ws')"
proof -
  have fine: "ws_failure ws = None" using assms(1) by (simp add: between_def ws_ok_def)
  have "0 < 2 - length bytes" using assms(2) by simp
  from assms(3) this show ?thesis
  proof (cases rule: ws_read_cases [where ws = ws])
    case 1
    with assms show ?thesis by (auto simp: advance_head_def still_phase outcome_idle ws_ok_def between_def)
  next
    case (2 new w)
    show ?thesis
    proof (cases "length (bytes @ new) < 2")
      case True
      with 2 assms fine show ?thesis
        by (auto simp: advance_head_def Let_def still_phase outcome_idle ws_ok_def between_def)
    next
      case False
      with 2(3) assms(2) have "length (bytes @ new) = Suc (Suc 0)" by simp
      then obtain b0 b1 where b: "bytes @ new = [b0, b1]" by (auto simp only: length_Suc_conv length_0_conv)
      have two: "length bytes + length new = 2" using arg_cong [OF b, of length] by simp
      have adv: "(case head_parse b0 b1 of Inl e \<Rightarrow> broken e w
          | Inr h \<Rightarrow> (w\<lparr>ws_phase := Phase_Extra h [] (head_extra h)\<rparr>, Incoming_Idle)) = (ws', inc)"
        using assms(4) 2(1) two by (simp add: advance_head_def Let_def b)
      have stream: "bytes @ unread ws = b0 # b1 # unread w" using 2(4) b by (metis append_Cons append_Nil append_assoc)
      show ?thesis
      proof (cases "head_parse b0 b1")
        case (Inl e)
        with 2 adv fine have "inc = Incoming_Ended" "outcome ws ws' inc = [Stopped e]"
          by (auto simp: broken_def connection_fail_def outcome_def)
        with Inl stream show ?thesis by (simp add: expect_head)
      next
        case (Inr h)
        with adv have "ws' = w\<lparr>ws_phase := Phase_Extra h [] (head_extra h)\<rparr>" "inc = Incoming_Idle" by auto
        moreover have "expect keys n p (bytes @ unread ws) = expect_extra keys n p h (unread w)" for n p
          by (simp only: stream expect_head Inr sum.case)
        ultimately show ?thesis using 2(5-8) assms(1)
          by (simp add: still_phase outcome_idle ws_ok_def between_def)
      qed
    qed
  qed
qed

lemma extra_step:
  assumes "between ws" "need = head_extra h" "length bytes \<le> need" "\<not> hangs_up ev" "advance_extra keys ev h bytes need ws = (ws', inc)"
  shows "expect_extra keys (length (ws_sent ws)) (ws_partial ws) h (bytes @ unread ws) =
      outcome ws ws' inc @ (if inc = Incoming_Ended then [] else still keys ws') \<and>
    (inc \<noteq> Incoming_Ended \<longrightarrow> ws_ok ws')"
proof (cases "length bytes < need")
  case False
  with assms show ?thesis by (intro extra_complete) (auto simp: advance_extra_def)
next
  case True
  then have "0 < need - length bytes" by simp
  from assms(4) this show ?thesis
  proof (cases rule: ws_read_cases [where ws = ws])
    case 1
    with assms True show ?thesis by (auto simp: advance_extra_def still_phase outcome_idle ws_ok_def between_def)
  next
    case (2 new w)
    have w: "between w" using between_cong [OF assms(1) 2(5,6,8)] .
    have stream: "bytes @ unread ws = (bytes @ new) @ unread w" using 2(4) by simp
    show ?thesis
    proof (cases "length (bytes @ new) < need")
      case go: True
      then have "ws' = w\<lparr>ws_phase := Phase_Extra h (bytes @ new) need\<rparr>" "inc = Incoming_Idle"
        using True 2(1) assms(5) by (auto simp: advance_extra_def Let_def)
      with go stream 2 w assms(2) show ?thesis
        by (simp add: still_phase outcome_idle ws_ok_def between_def)
    next
      case False
      then have "length (bytes @ new) = head_extra h" using 2(3) assms(2,3) by simp
      moreover have "extra_done keys h (bytes @ new) w = (ws', inc)" using False True 2(1) assms(5) by (simp add: advance_extra_def Let_def)
      ultimately show ?thesis using extra_complete [OF w] 2 stream outcome_cong [OF 2(7)] by metis
    qed
  qed
qed

lemma payload_step:
  assumes "between ws" "length bytes < len" "len \<le> MAX_PAYLOAD" "\<not> hangs_up ev" "advance_payload keys ev h key len bytes ws = (ws', inc)"
  shows "expect_payload keys (length (ws_sent ws)) (ws_partial ws) h key len (bytes @ unread ws) =
      outcome ws ws' inc @ (if inc = Incoming_Ended then [] else still keys ws') \<and>
    (inc \<noteq> Incoming_Ended \<longrightarrow> ws_ok ws')"
proof -
  have "0 < len - length bytes" using assms(2) by simp
  from assms(4) this show ?thesis
  proof (cases rule: ws_read_cases [where ws = ws])
    case 1
    with assms show ?thesis by (auto simp: advance_payload_def still_phase outcome_idle ws_ok_def between_def)
  next
    case (2 new w)
    have w: "between w" using between_cong [OF assms(1) 2(5,6,8)] .
    have stream: "bytes @ unread ws = (bytes @ new) @ unread w" using 2(4) by simp
    show ?thesis
    proof (cases "length (bytes @ new) < len")
      case True
      then have "ws' = w\<lparr>ws_phase := Phase_Payload h key len (bytes @ new)\<rparr>" "inc = Incoming_Idle"
        using 2(1) assms(5) by (auto simp: advance_payload_def Let_def)
      with True stream 2 w assms(3) show ?thesis
        by (simp add: still_phase outcome_idle ws_ok_def between_def)
    next
      case False
      then have "length (bytes @ new) = len" using 2(3) assms(2) by simp
      moreover have "whole keys h key (bytes @ new) w = (ws', inc)" using False 2(1) assms(5) by (simp add: advance_payload_def Let_def)
      ultimately show ?thesis using payload_complete [OF w _ assms(3)] 2 stream outcome_cong [OF 2(7)] by metis
    qed
  qed
qed

lemma advance_step:
  assumes "ws_ok ws" "\<not> hangs_up ev" "advance keys ev ws = (ws', inc)"
  shows "still keys ws = outcome ws ws' inc @ (if inc = Incoming_Ended then [] else still keys ws') \<and>
    (inc \<noteq> Incoming_Ended \<longrightarrow> ws_ok ws')"
proof -
  define fresh where "fresh = ws\<lparr>ws_phase := Phase_Head []\<rparr>"
  have fresh: "between fresh" "unread fresh = unread ws" "ws_sent fresh = ws_sent ws" "ws_partial fresh = ws_partial ws"
    using assms(1) by (simp_all add: fresh_def between_def ws_ok_def unread_def)
  note adv = assms(3) [unfolded advance_def Let_def, folded fresh_def]
  have out: "outcome ws ws' inc = outcome fresh ws' inc" using fresh(3) by (simp add: outcome_def)
  show ?thesis
  proof (cases "ws_phase ws")
    case (Phase_Head bytes)
    then have "length bytes < 2" using assms(1) by (simp add: ws_ok_def)
    from head_step [OF fresh(1) this assms(2), of ws' inc keys] adv Phase_Head fresh out show ?thesis by (simp add: still_def)
  next
    case (Phase_Extra h bytes need)
    then have need: "need = head_extra h" "length bytes \<le> need" using assms(1) by (simp_all add: ws_ok_def)
    from extra_step [OF fresh(1) need assms(2), of keys ws' inc] adv Phase_Extra fresh out show ?thesis by (simp add: still_def)
  next
    case (Phase_Payload h key len bytes)
    then have len: "length bytes < len" "len \<le> MAX_PAYLOAD" using assms(1) by (simp_all add: ws_ok_def)
    from payload_step [OF fresh(1) len assms(2), of keys h key ws' inc] adv Phase_Payload fresh out show ?thesis by (simp add: still_def)
  qed
qed

section \<open>Polling\<close>

fun run_polls :: "(nat \<Rightarrow> bytes) \<Rightarrow> arrival list \<Rightarrow> WebSocket \<Rightarrow> WebSocket \<times> item list \<times> bool" where
  "run_polls keys [] ws = (ws, [], False)"
| "run_polls keys (ev # evs) ws =
     (case advance keys ev ws of
        (ws', inc) \<Rightarrow>
          if inc = Incoming_Ended then (ws', outcome ws ws' inc, True)
          else case run_polls keys evs ws' of (ws'', items, ended) \<Rightarrow> (ws'', outcome ws ws' inc @ items, ended))"

lemma run_polls_spec:
  "ws_ok ws \<Longrightarrow> \<forall>ev \<in> set evs. \<not> hangs_up ev \<Longrightarrow> run_polls keys evs ws = (ws', items, ended) \<Longrightarrow>
   still keys ws = items @ (if ended then [] else still keys ws') \<and> (\<not> ended \<longrightarrow> ws_ok ws')"
proof (induction evs arbitrary: ws items)
  case (Cons ev evs)
  obtain w inc where adv: "advance keys ev ws = (w, inc)" by (cases "advance keys ev ws")
  have ev: "\<not> hangs_up ev" using Cons.prems(2) by simp
  note step = advance_step [OF Cons.prems(1) ev adv]
  show ?case
  proof (cases "inc = Incoming_Ended")
    case True
    with adv step Cons.prems(3) show ?thesis by auto
  next
    case False
    obtain w' its e where rest: "run_polls keys evs w = (w', its, e)" by (cases "run_polls keys evs w")
    with False adv Cons.prems(3) have "ws' = w'" "items = outcome ws w inc @ its" "ended = e" by auto
    moreover have "ws_ok w" using False step by blast
    ultimately show ?thesis using Cons.IH [of w its] rest Cons.prems(2) False step by simp
  qed
qed simp

text \<open>What is left to do, in polls that deliver something.\<close>

definition work :: "WebSocket \<Rightarrow> nat" where
  "work ws = 2 * length (unread ws) +
     (case ws_phase ws of Phase_Extra h bs need \<Rightarrow> if need \<le> length bs then 1 else 0 | _ \<Rightarrow> 0)"

definition delivers :: "arrival \<Rightarrow> bool" where
  "delivers ev \<longleftrightarrow> (case ev of Arrive k \<Rightarrow> 0 < k | _ \<Rightarrow> False)"

lemma still_idle: "ws_ok ws \<Longrightarrow> work ws = 0 \<Longrightarrow> still keys ws = []"
  by (auto simp: work_def still_def ws_ok_def expect_short expect_extra_def expect_payload_def Let_def
      split: FramerPhase.splits if_splits)

lemma ws_read_delivers: "delivers ev \<Longrightarrow> 0 < want \<Longrightarrow> ws_read ev want ws = (ws', Read_Idle) \<Longrightarrow> unread ws = []"
  by (auto simp: ws_read_def connection_read_def delivers_def unread_def Let_def min_def split: if_splits arrival.splits)

lemma whole_unread: "whole keys h key block ws = (ws', inc) \<Longrightarrow> unread ws' = unread ws \<and> ws_phase ws' = ws_phase ws"
  by (auto simp: whole_def broken_def connection_fail_def ws_send_def unread_def Let_def
      split: Opcode.splits option.splits if_splits)

lemma extra_done_work:
  assumes "extra_done keys h bytes ws = (ws', inc)" "ws_phase ws = Phase_Head []"
  shows "work ws' = 2 * length (unread ws)"
proof -
  have "unread ws' = unread ws \<and> (ws_phase ws' = Phase_Head [] \<or> (\<exists>key len. ws_phase ws' = Phase_Payload h key len []))"
  proof (cases "head_payload h bytes")
    case (Inl e)
    with assms show ?thesis by (auto simp: extra_done_def broken_def connection_fail_def unread_def split: option.splits)
  next
    case (Inr lk)
    obtain len key where lk: "lk = (len, key)" by (cases lk)
    show ?thesis
    proof (cases "len = 0")
      case True
      with Inr lk assms whole_unread [of keys h key "[]" ws ws' inc] show ?thesis by (simp add: extra_done_def)
    next
      case False
      with Inr lk assms(1) show ?thesis by (auto simp: extra_done_def unread_def)
    qed
  qed
  then show ?thesis by (auto simp: work_def)
qed

lemma advance_work:
  assumes "ws_ok ws" "\<not> hangs_up ev" "advance keys ev ws = (ws', inc)" "inc \<noteq> Incoming_Ended"
  shows "work ws' \<le> work ws \<and> (delivers ev \<and> 0 < work ws \<longrightarrow> work ws' < work ws)"
proof -
  define fresh where "fresh = ws\<lparr>ws_phase := Phase_Head []\<rparr>"
  have fresh: "unread fresh = unread ws" "ws_phase fresh = Phase_Head []" by (simp_all add: fresh_def unread_def)
  note adv = assms(3) [unfolded advance_def Let_def, folded fresh_def]
  have unread_phase: "unread (w\<lparr>ws_phase := p\<rparr>) = unread w" for w p by (simp add: unread_def)
  show ?thesis
  proof (cases "ws_phase ws")
    case (Phase_Head bytes)
    then have short: "0 < 2 - length bytes" using assms(1) by (simp add: ws_ok_def)
    from assms(2) short show ?thesis
    proof (cases rule: ws_read_cases [where ws = fresh])
      case 1
      then show ?thesis using adv Phase_Head fresh ws_read_delivers [OF _ short 1]
        by (auto simp: advance_head_def work_def unread_phase)
    next
      case (2 new w)
      then have "length (unread w) < length (unread ws)" using fresh by (cases new) auto
      with 2 adv Phase_Head assms(4) show ?thesis
        by (auto simp: advance_head_def work_def unread_phase broken_def Let_def split: if_splits sum.splits)
    qed
  next
    case (Phase_Extra h bytes need)
    show ?thesis
    proof (cases "length bytes < need")
      case False
      then have "extra_done keys h bytes fresh = (ws', inc)" using adv Phase_Extra by (simp add: advance_extra_def)
      from extra_done_work [OF this fresh(2)] False Phase_Extra fresh(1) show ?thesis by (simp add: work_def)
    next
      case True
      then have short: "0 < need - length bytes" by simp
      from assms(2) short show ?thesis
      proof (cases rule: ws_read_cases [where ws = fresh])
        case 1
        then show ?thesis using adv Phase_Extra True fresh ws_read_delivers [OF _ short 1]
          by (auto simp: advance_extra_def work_def unread_phase)
      next
        case (2 new w)
        then have less: "length (unread w) < length (unread ws)" using fresh by (cases new) auto
        show ?thesis
        proof (cases "length (bytes @ new) < need")
          case go: True
          with less 2(1) adv Phase_Extra True show ?thesis by (auto simp: advance_extra_def work_def unread_phase Let_def)
        next
          case False
          then have "extra_done keys h (bytes @ new) w = (ws', inc)" using 2(1) adv Phase_Extra True by (simp add: advance_extra_def Let_def)
          from extra_done_work [OF this] 2(5) fresh(2) less show ?thesis by (simp add: work_def)
        qed
      qed
    qed
  next
    case (Phase_Payload h key len bytes)
    then have short: "0 < len - length bytes" using assms(1) by (simp add: ws_ok_def)
    from assms(2) short show ?thesis
    proof (cases rule: ws_read_cases [where ws = fresh])
      case 1
      then show ?thesis using adv Phase_Payload fresh ws_read_delivers [OF _ short 1]
        by (auto simp: advance_payload_def work_def unread_phase)
    next
      case (2 new w)
      then have less: "length (unread w) < length (unread ws)" using fresh by (cases new) auto
      show ?thesis
      proof (cases "length (bytes @ new) < len")
        case True
        with less 2(1) adv Phase_Payload show ?thesis by (auto simp: advance_payload_def work_def unread_phase Let_def)
      next
        case False
        then have "whole keys h key (bytes @ new) w = (ws', inc)" using 2(1) adv Phase_Payload by (simp add: advance_payload_def Let_def)
        from whole_unread [OF this] 2(5) fresh(2) less show ?thesis by (simp add: work_def)
      qed
    qed
  qed
qed

lemma run_polls_work:
  "ws_ok ws \<Longrightarrow> \<forall>ev \<in> set evs. \<not> hangs_up ev \<Longrightarrow> run_polls keys evs ws = (ws', items, False) \<Longrightarrow>
   work ws \<le> length (filter delivers evs) \<Longrightarrow> work ws' = 0"
proof (induction evs arbitrary: ws items)
  case (Cons ev evs)
  obtain w inc where adv: "advance keys ev ws = (w, inc)" by (cases "advance keys ev ws")
  have ev: "\<not> hangs_up ev" using Cons.prems(2) by simp
  have on: "inc \<noteq> Incoming_Ended" using adv Cons.prems(3) by (auto split: if_splits)
  obtain its where rest: "run_polls keys evs w = (ws', its, False)"
    using adv on Cons.prems(3) by (auto split: prod.splits)
  have "work w \<le> length (filter delivers evs)"
    using advance_work [OF Cons.prems(1) ev adv on] Cons.prems(4) by (auto split: if_splits)
  with Cons.IH [OF _ _ rest] advance_step [OF Cons.prems(1) ev adv] on Cons.prems(2) show ?case by simp
qed simp

section \<open>The codec\<close>

lemma bit_be64_shift:
  "bit (push_bit 8 w OR ucast (b :: u8)) n \<longleftrightarrow> (if n < 8 then bit b n else n < 64 \<and> bit w (n - 8))" for w :: u64
  by (auto simp: bit_simps)

lemma of_be64_be64: "of_be64 (be64 w) = w"
proof (rule bit_word_eqI)
  fix n
  assume "n < LENGTH(64)"
  then consider "n < 8" | "8 \<le> n" "n < 16" | "16 \<le> n" "n < 24" | "24 \<le> n" "n < 32"
    | "32 \<le> n" "n < 40" | "40 \<le> n" "n < 48" | "48 \<le> n" "n < 56" | "56 \<le> n" "n < 64" by force
  then show "bit (of_be64 (be64 w)) n = bit w n"
    by cases (simp_all only: of_be64_def be64_def fold_simps bit_be64_shift, simp_all add: bit_ucast_iff bit_drop_bit_eq less_diff_conv2)
qed

lemma length_be64 [simp]: "length (be64 w) = 8"
  by (simp add: be64_def)

lemma unmask_unmask: "unmask (unmask bs m) m = bs"
  by (rule nth_equalityI) (simp_all add: unmask_def nth_enumerate_eq xor.assoc)

lemma marked_byte:
  assumes "unat w < 128"
  shows "((0x80 :: u8) OR w) AND 0x80 \<noteq> 0" "((0x80 :: u8) OR w) AND 0x7F = w"
proof -
  have w: "\<not> bit w n" if "7 \<le> n" for n
    using assms that below_iff_unat [of 7 w] by (auto simp: below_def)
  have "bit (((0x80 :: u8) OR w) AND 0x80) 7" by (simp add: bit_simps)
  then show "((0x80 :: u8) OR w) AND 0x80 \<noteq> 0" by (metis bit_0_eq bot_apply bot_bool_def)
  show "((0x80 :: u8) OR w) AND 0x7F = w"
  proof (rule bit_word_eqI)
    fix n
    assume "n < LENGTH(8)"
    then have "n \<in> {0, 1, 2, 3, 4, 5, 6, 7}" by auto
    then show "bit (((0x80 :: u8) OR w) AND 0x7F) n = bit w n"
      using w [of 7] by (auto simp: bit_simps numeral_eq_Suc)
  qed
qed

lemma head_parse_encoded:
  assumes "unat w < 128"
  shows "head_parse (0x80 OR opcode_bits op) (0x80 OR w) =
    Inr \<lparr>head_fin = True, head_opcode = op, head_masked = True, head_marker = w\<rparr>"
  using marked_byte [OF assms] by (cases op) (simp_all add: head_parse_def from_bits_def opcode_is_control_def)

text \<open>The marker and the extra bytes of an encoded frame.\<close>

definition marker_of :: "nat \<Rightarrow> u8 \<times> bytes" where
  "marker_of len = (if len < 126 then (of_nat len, []) else if len \<le> 0xFFFF then (126, be16 (of_nat len)) else (127, be64 (of_nat len)))"

lemma ws_encode_shape:
  "ws_encode m op payload =
     (0x80 OR opcode_bits op) # (0x80 OR fst (marker_of (length payload))) # snd (marker_of (length payload)) @ m @ unmask payload m"
  by (simp add: ws_encode_def marker_of_def unmask_def Let_def)

lemma marker_small: "unat (fst (marker_of len)) < 128"
  by (auto simp: marker_of_def unat_of_nat take_bit_nat_eq_self)

lemma key_four: "length m = 4 \<Longrightarrow> [(m @ xs) ! 0, (m @ xs) ! 1, (m @ xs) ! 2, (m @ xs) ! 3] = m"
  by (rule nth_equalityI) (auto simp: less_Suc_eq numeral_eq_Suc nth_append)

lemma payload_of_marker:
  assumes "len \<le> MAX_PAYLOAD" "opcode_is_control op \<longrightarrow> len \<le> MAX_CONTROL_PAYLOAD" "length m = 4"
  defines "h \<equiv> \<lparr>head_fin = True, head_opcode = op, head_masked = True, head_marker = fst (marker_of len)\<rparr>"
  shows "head_extra h = length (snd (marker_of len)) + 4"
    and "head_payload h (snd (marker_of len) @ m) = Inr (len, Some m)"
proof -
  have small: "len < 2 ^ 64" using assms(1) by (simp add: MAX_PAYLOAD_def)
  have one: "(of_nat len :: u8) \<noteq> 126" "(of_nat len :: u8) \<noteq> 127" "unat (of_nat len :: u8) = len" if "len < 126"
  proof -
    show u: "unat (of_nat len :: u8) = len" using that by (simp add: unat_of_nat take_bit_nat_eq_self)
    show "(of_nat len :: u8) \<noteq> 126" "(of_nat len :: u8) \<noteq> 127" using u that by auto
  qed
  have two: "unat (of_nat len :: u16) = len" if "len \<le> 0xFFFF" using that by (simp add: unat_of_nat take_bit_nat_eq_self)
  have eight: "unat (of_nat len :: u64) = len" using small by (simp add: unat_of_nat take_bit_nat_eq_self)
  show "head_extra h = length (snd (marker_of len)) + 4"
    using one by (auto simp: h_def head_extra_def marker_of_def)
  have key: "[(m @ []) ! 0, (m @ []) ! 1, (m @ []) ! 2, (m @ []) ! 3] = m" using key_four [OF assms(3)] .
  have be: "of_be16 (be16 v ! 0) (be16 v ! Suc 0) = v" "take 8 (be64 w @ m) = be64 w" "drop 8 (be64 w @ m) = m"
    "drop 2 (be16 v @ m) = m" "(be16 v @ m) ! 0 = be16 v ! 0" "(be16 v @ m) ! Suc 0 = be16 v ! Suc 0" for v w
    by (simp_all add: be16_def nth_append)
  show "head_payload h (snd (marker_of len) @ m) = Inr (len, Some m)"
    using one two eight assms(1,2) key
    by (auto simp: h_def head_payload_def marker_of_def Let_def be of_be64_be64 not_less simp del: of_be16_be16)
qed

lemma expect_encoded:
  assumes "length payload \<le> MAX_PAYLOAD" "opcode_is_control op \<longrightarrow> length payload \<le> MAX_CONTROL_PAYLOAD" "length m = 4"
  shows "expect keys n partial (ws_encode m op payload @ rest) =
    (case frame_effect keys n partial
        \<lparr>head_fin = True, head_opcode = op, head_masked = True, head_marker = fst (marker_of (length payload))\<rparr> payload of
       (items, None) \<Rightarrow> items
     | (items, Some partial') \<Rightarrow> items @ expect keys (n + sends items) partial' rest)"
proof -
  let ?h = "\<lparr>head_fin = True, head_opcode = op, head_masked = True, head_marker = fst (marker_of (length payload))\<rparr>"
  let ?x = "snd (marker_of (length payload)) @ m"
  note p = payload_of_marker [OF assms]
  have len: "length (unmask payload m) = length payload" by (simp add: unmask_def)
  have x: "length ?x = head_extra ?h" using p(1) assms(3) by simp
  have "expect keys n partial (ws_encode m op payload @ rest) = expect_extra keys n partial ?h (?x @ unmask payload m @ rest)"
    by (simp add: ws_encode_shape expect_head head_parse_encoded [OF marker_small])
  also have "\<dots> = expect_payload keys n partial ?h (Some m) (length payload) (unmask payload m @ rest)"
    unfolding expect_extra_def using x p(2) by (simp del: append_assoc)
  finally show ?thesis
    using len by (simp add: expect_payload_def clear_text_def unmask_unmask)
qed

text \<open>
  A message to send, named by what its receiver should get, and its frame: the opcode of its kind, and
  the UTF-8 form of a text or the bytes themselves.
\<close>

fun encode_message :: "bytes \<Rightarrow> Incoming \<Rightarrow> bytes" where
  "encode_message m (Message_Text t) = ws_encode m Text (utf8_encode t)"
| "encode_message m (Message_Binary bs) = ws_encode m Binary bs"
| "encode_message m _ = []"

fun sendable :: "Incoming \<Rightarrow> bool" where
  "sendable (Message_Text t) \<longleftrightarrow> scalars t \<and> length (utf8_encode t) \<le> MAX_PAYLOAD"
| "sendable (Message_Binary bs) \<longleftrightarrow> length bs \<le> MAX_PAYLOAD"
| "sendable _ \<longleftrightarrow> False"

lemma expect_message:
  assumes "length m = 4" "sendable msg"
  shows "expect keys n None (encode_message m msg @ rest) = Delivered msg # expect keys n None rest"
  using assms
proof (cases msg)
  case (Message_Text t)
  with assms have "from_utf8_lossy (utf8_encode t) = t" by (intro from_utf8_lossy_valid) simp
  with assms Message_Text show ?thesis
    by (simp add: expect_encoded opcode_is_control_def frame_effect_def sends_def ws_message_def)
next
  case (Message_Binary bs)
  with assms show ?thesis
    by (simp add: expect_encoded opcode_is_control_def frame_effect_def sends_def ws_message_def)
qed simp_all

lemma expect_messages:
  "\<forall>(m, msg) \<in> set fs. length m = 4 \<and> sendable msg \<Longrightarrow>
   expect keys n None (concat (map (\<lambda>(m, msg). encode_message m msg) fs)) = map (\<lambda>(m, msg). Delivered msg) fs"
  by (induction fs) (auto simp: expect_short expect_message)

section \<open>Properties\<close>

lemma ws_open_ok: "ws_ok (ws_open pending stream)"
  "still keys (ws_open pending stream) = expect keys 0 None (pending @ stream)"
  "work (ws_open pending stream) = 2 * length (pending @ stream)"
  by (simp_all add: ws_open_def ws_ok_def still_def unread_def work_def)

lemma run_polls_all:
  assumes "\<forall>ev \<in> set evs. \<not> hangs_up ev" "run_polls keys evs (ws_open pending stream) = (ws', items, ended)"
    and "2 * length (pending @ stream) \<le> length (filter delivers evs)"
  shows "items = expect keys 0 None (pending @ stream)"
proof -
  note spec = run_polls_spec [OF ws_open_ok(1) assms(1,2), unfolded ws_open_ok(2)]
  show ?thesis
  proof (cases ended)
    case False
    then have "work ws' = 0" using run_polls_work [OF ws_open_ok(1) assms(1), of keys pending stream ws' items] assms(2,3) by (simp add: ws_open_ok(3))
    with spec False still_idle show ?thesis by simp
  qed (use spec in simp)
qed

text \<open>
  C35: However the network cuts the stream, the socket amounts to the whole stream read in one go:
  at every moment the messages handed out, the frames sent in reply and the end are a prefix of what
  the specification gives for the bytes of the server, and after enough polls that deliver at least
  one byte they are all of it.  As long as the socket lives, no buffer passes its limit.
\<close>

theorem ws_client_ignores_segmentation:
  assumes "\<forall>ev \<in> set evs. \<not> hangs_up ev" "run_polls keys evs (ws_open pending stream) = (ws', items, ended)"
  shows "(\<exists>rest. expect keys 0 None (pending @ stream) = items @ rest) \<and>
    (2 * length (pending @ stream) \<le> length (filter delivers evs) \<longrightarrow> items = expect keys 0 None (pending @ stream)) \<and>
    (\<not> ended \<longrightarrow> ws_ok ws')"
  using run_polls_spec [OF ws_open_ok(1) assms, unfolded ws_open_ok(2)] run_polls_all [OF assms] by blast

theorem ws_client_ignores_segmentation_witness:
  "fst (snd (run_polls (\<lambda>n. [1, 2, 3, 4]) (replicate 10 (Arrive 1)) (ws_open [0x82] [3, 7, 8, 9]))) =
     [Delivered (Message_Binary [7, 8, 9])]"
proof -
  obtain ws' items ended where run: "run_polls (\<lambda>n. [1, 2, 3, 4]) (replicate 10 (Arrive 1)) (ws_open [0x82] [3, 7, 8, 9]) = (ws', items, ended)"
    by (cases rule: prod_cases3)
  have "expect (\<lambda>n. [1, 2, 3, 4]) 0 None [0x82, 3, 7, 8, 9] = [Delivered (Message_Binary [7, 8, 9])]"
    by (simp add: expect_head head_parse_def from_bits_def opcode_is_control_def expect_extra_def head_extra_def head_payload_def
        MAX_PAYLOAD_def expect_payload_def frame_effect_def clear_text_def ws_message_def expect_short)
  moreover have "\<forall>ev \<in> set (replicate 10 (Arrive 1)). \<not> hangs_up ev" by (simp add: hangs_up_def)
  moreover have "length (filter delivers (replicate 10 (Arrive 1))) = 10" by (simp add: delivers_def)
  ultimately have "items = [Delivered (Message_Binary [7, 8, 9])]"
    using ws_client_ignores_segmentation [OF _ run] by simp
  then show ?thesis by (simp only: run fst_conv snd_conv)
qed

text \<open>
  C36: A message that is sent is received unchanged: a stream of text messages, each a sequence of
  Unicode scalar values in UTF-8, and binary messages of up to 32 MiB each, encoded with any keys, is
  delivered as exactly those texts and those bytes, in order and nothing else, in any segmentation.
\<close>

theorem ws_messages_roundtrip:
  assumes "\<forall>(m, msg) \<in> set fs. length m = 4 \<and> sendable msg"
    and "stream = concat (map (\<lambda>(m, msg). encode_message m msg) fs)"
    and "\<forall>ev \<in> set evs. \<not> hangs_up ev" "2 * length stream \<le> length (filter delivers evs)"
    and "run_polls keys evs (ws_open [] stream) = (ws', items, ended)"
  shows "items = map (\<lambda>(m, msg). Delivered msg) fs"
  using run_polls_all [OF assms(3,5)] assms(4) expect_messages [OF assms(1)] by (simp add: assms(2))

theorem ws_messages_roundtrip_witness:
  "fst (snd (run_polls (\<lambda>n. [0, 0, 0, 0]) (replicate 40 (Arrive 3))
      (ws_open [] (ws_encode [1, 2, 3, 4] Text [0xC3, 0xA9, 0x69] @ ws_encode [9, 9, 9, 9] Binary [0xFF])))) =
     [Delivered (Message_Text [0xE9, 0x69]), Delivered (Message_Binary [0xFF])]"
proof -
  let ?fs = "[([1, 2, 3, 4], Message_Text [0xE9, 0x69]), ([9, 9, 9, 9], Message_Binary [0xFF])] :: (bytes \<times> Incoming) list"
  let ?stream = "ws_encode [1, 2, 3, 4] Text [0xC3, 0xA9, 0x69] @ ws_encode [9, 9, 9, 9] Binary [0xFF]"
  obtain ws' items ended where run: "run_polls (\<lambda>n. [0, 0, 0, 0]) (replicate 40 (Arrive 3)) (ws_open [] ?stream) = (ws', items, ended)"
    by (cases rule: prod_cases3)
  have utf8: "utf8_encode [0xE9, 0x69] = [0xC3, 0xA9, 0x69]" by (simp add: utf8_encode_def utf8_char_def byte_of_def)
  have "items = map (\<lambda>(m, msg). Delivered msg) ?fs"
    by (rule ws_messages_roundtrip [OF _ _ _ _ run])
      (simp_all add: utf8 MAX_PAYLOAD_def hangs_up_def delivers_def ws_encode_def scalar_def)
  then show ?thesis by (simp add: run)
qed

end
