(* ===== verification/Cps_Image.thy ===== *)
theory Cps_Image
  imports Rust_Text
begin

text \<open>
  The memory image of a radio's codeplug (\<open>crates/cps/src/image.rs\<close>): segments of bytes by their start
  addresses, the wire form of an image, and the blocks in which two images differ.

  The ordered map from start addresses to segments is the sorted list of its entries; addresses are
  natural numbers below \<open>2 ^ 32\<close>.  The specification of an image is the partial map from addresses to
  bytes it stands for, \<open>mem\<close>; \<open>image_ok\<close> says that the segments are in order and do not overlap.
\<close>

type_synonym Image = "(nat \<times> bytes) list"

section \<open>Data\<close>

datatype RegionKind = Fixed | Sparse nat nat

record Region =
  region_name :: string
  region_addr :: nat
  region_len :: nat
  region_kind :: RegionKind

definition region_fixed :: "string \<Rightarrow> nat \<Rightarrow> nat \<Rightarrow> Region" where
  "region_fixed name addr n = \<lparr>region_name = name, region_addr = addr, region_len = n, region_kind = Fixed\<rparr>"

definition region_sparse :: "string \<Rightarrow> nat \<Rightarrow> nat \<Rightarrow> nat \<Rightarrow> nat \<Rightarrow> Region" where
  "region_sparse name addr n stride stop =
     \<lparr>region_name = name, region_addr = addr, region_len = n, region_kind = Sparse stride stop\<rparr>"

definition region_end :: "Region \<Rightarrow> nat" where
  "region_end r = min (region_addr r + region_len r) (2 ^ 32 - 1)"

section \<open>Operations\<close>

text \<open>\<open>range(..=addr).next_back()\<close>, \<open>range(addr + 1..).next()\<close> and \<open>insert\<close> of the ordered map.\<close>

definition floor_seg :: "nat \<Rightarrow> Image \<Rightarrow> (nat \<times> bytes) option" where
  "floor_seg addr segs = (case filter (\<lambda>(s, d). s \<le> addr) segs of [] \<Rightarrow> None | xs \<Rightarrow> Some (last xs))"

definition next_start :: "nat \<Rightarrow> Image \<Rightarrow> nat option" where
  "next_start addr segs =
     (case filter (\<lambda>(s, d). min (addr + 1) (2 ^ 32 - 1) \<le> s) segs of [] \<Rightarrow> None | (s, d) # _ \<Rightarrow> Some s)"

fun insert_seg :: "nat \<Rightarrow> bytes \<Rightarrow> Image \<Rightarrow> Image" where
  "insert_seg k v [] = [(k, v)]"
| "insert_seg k v ((s, d) # segs) =
     (if k < s then (k, v) # (s, d) # segs else if k = s then (k, v) # segs else (s, d) # insert_seg k v segs)"

definition segment_for :: "nat \<Rightarrow> nat \<Rightarrow> Image \<Rightarrow> (nat \<times> bytes) option" where
  "segment_for addr n segs =
     (case floor_seg addr segs of
        None \<Rightarrow> None
      | Some (s, d) \<Rightarrow> if addr - s + n \<le> length d then Some (s, d) else None)"

definition get :: "nat \<Rightarrow> nat \<Rightarrow> Image \<Rightarrow> bytes option" where
  "get addr n segs = map_option (\<lambda>(s, d). take n (drop (addr - s) d)) (segment_for addr n segs)"

text \<open>Writing through the slice of \<open>get_mut\<close>, and \<open>put\<close>, which falls back to a segment of its own.\<close>

definition overwrite :: "nat \<Rightarrow> bytes \<Rightarrow> nat \<times> bytes \<Rightarrow> Image \<Rightarrow> Image" where
  "overwrite addr data seg segs =
     (case seg of (s, d) \<Rightarrow>
        insert_seg s (take (addr - s) d @ data @ drop (addr - s + length data) d) segs)"

definition put :: "nat \<Rightarrow> bytes \<Rightarrow> Image \<Rightarrow> Image" where
  "put addr data segs =
     (case segment_for addr (length data) segs of
        None \<Rightarrow> insert_seg addr data segs
      | Some seg \<Rightarrow> overwrite addr data seg segs)"

definition resize :: "nat \<Rightarrow> u8 \<Rightarrow> bytes \<Rightarrow> bytes" where
  "resize n fill d = take n d @ replicate (n - length d) fill"

definition allocate :: "nat \<Rightarrow> nat \<Rightarrow> u8 \<Rightarrow> Image \<Rightarrow> Image" where
  "allocate addr n fill segs =
     (if n = 0 \<or> get addr n segs \<noteq> None then segs
      else case floor_seg addr segs of
        None \<Rightarrow> insert_seg addr (replicate n fill) segs
      | Some (s, d) \<Rightarrow>
          (let offset = addr - s;
               wanted = offset + n;
               room = (case next_start addr segs of None \<Rightarrow> True | Some next \<Rightarrow> s + wanted \<le> next)
           in if offset \<le> length d \<and> room then insert_seg s (resize wanted fill d) segs
              else insert_seg addr (replicate n fill) segs))"

definition image_len :: "Image \<Rightarrow> nat" where
  "image_len segs = sum_list (map (\<lambda>(s, d). length d) segs)"

fun to_bytes :: "Image \<Rightarrow> bytes" where
  "to_bytes [] = []"
| "to_bytes ((s, d) # segs) = le32 (of_nat s) @ le32 (of_nat (length d)) @ d @ to_bytes segs"

text \<open>Reading the wire form from where the cursor stands; the bytes before it are gone.\<close>

function from_bytes_at :: "bytes \<Rightarrow> Image \<Rightarrow> Image option" where
  "from_bytes_at bs img =
     (case bs of
        [] \<Rightarrow> Some img
      | a0 # a1 # a2 # a3 # l0 # l1 # l2 # l3 # rest \<Rightarrow>
          (let addr = unat (of_be32 a3 a2 a1 a0); n = unat (of_be32 l3 l2 l1 l0)
           in if length rest < n then None
              else from_bytes_at (drop n rest) (insert_seg addr (take n rest) img))
      | _ \<Rightarrow> None)"
  by pat_completeness auto
termination
  by (relation "measure (\<lambda>(bs, img). length bs)") auto

declare from_bytes_at.simps [simp del]

definition from_bytes :: "bytes \<Rightarrow> Image option" where
  "from_bytes bs = from_bytes_at bs []"

text \<open>
  The blocks of one segment that differ from the image before.  A block size of zero would never
  advance; the loop's value is \<open>None\<close> then.
\<close>

partial_function (option) blocks_from :: "Image \<Rightarrow> nat \<Rightarrow> nat \<Rightarrow> bytes \<Rightarrow> nat \<Rightarrow> (nat \<times> bytes) list option" where
  "blocks_from before block addr data offset =
     (if length data \<le> offset then Some []
      else
        let n = min block (length data - offset);
            piece = take n (drop offset data);
            at = addr + offset
        in Option.bind (blocks_from before block addr data (offset + n))
             (\<lambda>others. Some (if get at n before \<noteq> Some piece then (at, piece) # others else others)))"

fun changed_blocks :: "Image \<Rightarrow> Image \<Rightarrow> nat \<Rightarrow> (nat \<times> bytes) list option" where
  "changed_blocks before [] block = Some []"
| "changed_blocks before ((addr, data) # segs) block =
     (case blocks_from before block addr data 0 of
        None \<Rightarrow> None
      | Some blocks \<Rightarrow>
          (case changed_blocks before segs block of None \<Rightarrow> None | Some others \<Rightarrow> Some (blocks @ others)))"

section \<open>The memory an image stands for\<close>

definition mem :: "Image \<Rightarrow> nat \<Rightarrow> u8 option" where
  "mem segs a =
     (case floor_seg a segs of
        None \<Rightarrow> None
      | Some (s, d) \<Rightarrow> if a - s < length d then Some (d ! (a - s)) else None)"

definition image_ok :: "Image \<Rightarrow> bool" where
  "image_ok segs \<longleftrightarrow> sorted_wrt (\<lambda>(s, d) (s', d'). s < s' \<and> s + length d \<le> s') segs"

lemma image_ok_Nil [simp]: "image_ok []"
  by (simp add: image_ok_def)

lemma image_ok_Cons [simp]:
  "image_ok ((s, d) # segs) \<longleftrightarrow> (\<forall>(s', d') \<in> set segs. s < s' \<and> s + length d \<le> s') \<and> image_ok segs"
  by (simp add: image_ok_def)

lemma floor_seg_Cons:
  "floor_seg a ((s, d) # segs) =
     (if s \<le> a then (case floor_seg a segs of None \<Rightarrow> Some (s, d) | Some x \<Rightarrow> Some x) else floor_seg a segs)"
  by (auto simp: floor_seg_def split: list.splits)

lemma floor_seg_Nil [simp]: "floor_seg a [] = None"
  by (simp add: floor_seg_def)

lemma floor_seg_below: "\<forall>(s, d) \<in> set segs. a < s \<Longrightarrow> floor_seg a segs = None"
  by (induction segs) (auto simp: floor_seg_Cons)

lemma floor_seg_Some: "floor_seg a segs = Some (s, d) \<Longrightarrow> (s, d) \<in> set segs \<and> s \<le> a"
  by (induction segs) (auto simp: floor_seg_Cons split: if_splits option.splits)

text \<open>The memory, segment by segment.\<close>

lemma mem_Nil [simp]: "mem [] a = None"
  by (simp add: mem_def)

lemma mem_Cons:
  assumes "image_ok ((s, d) # segs)"
  shows "mem ((s, d) # segs) a = (if a < s then None else if a < s + length d then Some (d ! (a - s)) else mem segs a)"
proof -
  consider "a < s" | "s \<le> a" "a < s + length d" | "s + length d \<le> a" by linarith
  then show ?thesis
  proof cases
    case 1
    then have "floor_seg a segs = None" using assms by (intro floor_seg_below) auto
    with 1 show ?thesis by (simp add: mem_def floor_seg_Cons)
  next
    case 2
    then have "floor_seg a segs = None" using assms by (intro floor_seg_below) auto
    with 2 show ?thesis by (simp add: mem_def floor_seg_Cons)
  next
    case 3
    then show ?thesis by (auto simp: mem_def floor_seg_Cons split: option.splits)
  qed
qed

lemma mem_in:
  assumes "image_ok segs" "(s, d) \<in> set segs" "s \<le> a" "a < s + length d"
  shows "mem segs a = Some (d ! (a - s))"
  using assms
proof (induction segs)
  case (Cons x segs)
  obtain s' d' where x: "x = (s', d')" by (cases x)
  show ?case
  proof (cases "(s, d) = x")
    case True
    with Cons.prems x show ?thesis by (simp add: mem_Cons)
  next
    case False
    with Cons.prems x have "s' < s" "s' + length d' \<le> s" "(s, d) \<in> set segs" by auto
    with Cons x show ?thesis by (simp add: mem_Cons)
  qed
qed simp

lemma mem_Some: "mem segs a = Some b \<Longrightarrow> \<exists>s d. (s, d) \<in> set segs \<and> s \<le> a \<and> a < s + length d \<and> b = d ! (a - s)"
proof -
  assume "mem segs a = Some b"
  then obtain s d where f: "floor_seg a segs = Some (s, d)" and "a - s < length d" "b = d ! (a - s)"
    by (auto simp: mem_def split: option.splits if_splits)
  with floor_seg_Some [OF f] have "(s, d) \<in> set segs \<and> s \<le> a \<and> a < s + length d \<and> b = d ! (a - s)" by linarith
  then show ?thesis by blast
qed

lemma mem_iff:
  "image_ok segs \<Longrightarrow> mem segs a = Some b \<longleftrightarrow> (\<exists>s d. (s, d) \<in> set segs \<and> s \<le> a \<and> a < s + length d \<and> b = d ! (a - s))"
  using mem_Some mem_in by metis

lemma keys_distinct: "image_ok segs \<Longrightarrow> (s, d) \<in> set segs \<Longrightarrow> (s, d') \<in> set segs \<Longrightarrow> d = d'"
  by (induction segs) auto

lemma image_ok_apart:
  assumes "image_ok segs" "(s, d) \<in> set segs" "(s', d') \<in> set segs" "s' \<noteq> s"
  shows "if s' < s then s' + length d' \<le> s else s + length d \<le> s'"
  using assms
proof (induction segs)
  case (Cons x segs)
  obtain t e where x: "x = (t, e)" by (cases x)
  from Cons.prems(1) have later: "(u, f) \<in> set segs \<Longrightarrow> t < u \<and> t + length e \<le> u" for u f
    unfolding x image_ok_Cons by blast
  consider "(s, d) = x" "(s', d') \<in> set segs" | "(s', d') = x" "(s, d) \<in> set segs" | "(s, d) \<in> set segs" "(s', d') \<in> set segs"
    using Cons.prems(2-4) by auto
  then show ?case
  proof cases
    case 1
    with later [of s' d'] x show ?thesis by auto
  next
    case 2
    with later [of s d] x show ?thesis by auto
  next
    case 3
    with Cons x show ?thesis by simp
  qed
qed simp

lemma cover_unique:
  assumes "image_ok segs" "(s, d) \<in> set segs" "s \<le> a" "a < s + length d" "(s', d') \<in> set segs" "s' \<le> a" "a < s' + length d'"
  shows "s = s'"
  using image_ok_apart [OF assms(1,2,5)] assms by (cases "s' = s") (auto split: if_splits)

lemma set_insert_seg: "image_ok segs \<Longrightarrow> set (insert_seg k v segs) = insert (k, v) {x \<in> set segs. fst x \<noteq> k}"
  by (induction k v segs rule: insert_seg.induct) (auto split: if_splits)

lemma insert_seg_ok:
  assumes "image_ok segs" and "\<forall>(s, d) \<in> set segs. s \<noteq> k \<longrightarrow> (if s < k then s + length d \<le> k else k + length v \<le> s)"
  shows "image_ok (insert_seg k v segs)"
  using assms
proof (induction k v segs rule: insert_seg.induct)
  case (2 k v s d segs)
  have ok: "image_ok segs" using 2(2) by simp
  consider "k < s" | "k = s" | "s < k" by linarith
  then show ?case
  proof cases
    case 3
    then have "image_ok (insert_seg k v segs)" using 2 by auto
    with 3 2 ok show ?thesis by (auto simp: set_insert_seg)
  qed (use 2 in fastforce)+
qed simp

lemma mem_insert_seg:
  assumes "image_ok segs" "image_ok (insert_seg k v segs)"
  shows "mem (insert_seg k v segs) a =
    (if k \<le> a \<and> a < k + length v then Some (v ! (a - k))
     else if \<exists>d. (k, d) \<in> set segs \<and> k \<le> a \<and> a < k + length d then None else mem segs a)"
proof -
  consider (new) "k \<le> a" "a < k + length v"
    | (old) d where "\<not> (k \<le> a \<and> a < k + length v)" "(k, d) \<in> set segs" "k \<le> a" "a < k + length d"
    | (neither) "\<not> (k \<le> a \<and> a < k + length v)" "\<not> (\<exists>d. (k, d) \<in> set segs \<and> k \<le> a \<and> a < k + length d)"
    by blast
  then show ?thesis
  proof cases
    case new
    then show ?thesis using mem_in [OF assms(2), of k v a] set_insert_seg [OF assms(1)] by simp
  next
    case old
    have "mem (insert_seg k v segs) a \<noteq> Some b" for b
    proof
      assume "mem (insert_seg k v segs) a = Some b"
      then obtain s d' where s: "(s, d') \<in> set segs" "s \<noteq> k" "s \<le> a" "a < s + length d'"
        using old(1) by (auto dest!: mem_Some simp: set_insert_seg [OF assms(1)])
      then show False using cover_unique [OF assms(1) s(1,3,4) old(2,3,4)] by simp
    qed
    with old show ?thesis by auto
  next
    case neither
    have "mem (insert_seg k v segs) a = Some b \<longleftrightarrow> mem segs a = Some b" for b
    proof
      assume "mem (insert_seg k v segs) a = Some b"
      then obtain s d where "(s, d) \<in> set segs" "s \<le> a" "a < s + length d" "b = d ! (a - s)"
        using neither(1) by (auto simp: mem_iff [OF assms(2)] set_insert_seg [OF assms(1)])
      then show "mem segs a = Some b" using mem_iff [OF assms(1)] by blast
    next
      assume "mem segs a = Some b"
      then obtain s d where "(s, d) \<in> set segs" "s \<le> a" "a < s + length d" "b = d ! (a - s)"
        using mem_iff [OF assms(1)] by blast
      moreover from this have "(s, d) \<in> set (insert_seg k v segs)"
        using neither(2) by (auto simp: set_insert_seg [OF assms(1)])
      ultimately show "mem (insert_seg k v segs) a = Some b" using mem_iff [OF assms(2)] by blast
    qed
    with neither show ?thesis by (cases "mem segs a") auto
  qed
qed

section \<open>Reading and writing\<close>

lemma segment_for_Some:
  assumes "segment_for addr n segs = Some (s, d)"
  shows "(s, d) \<in> set segs" "s \<le> addr" "addr + n \<le> s + length d"
proof -
  have f: "floor_seg addr segs = Some (s, d)" and le: "addr - s + n \<le> length d"
    using assms by (auto simp: segment_for_def split: option.splits if_splits)
  show "(s, d) \<in> set segs" "s \<le> addr" using floor_seg_Some [OF f] by auto
  with le show "addr + n \<le> s + length d" by linarith
qed

lemma get_mem:
  assumes "image_ok segs" "get addr n segs = Some bs"
  shows "length bs = n" "j < n \<Longrightarrow> mem segs (addr + j) = Some (bs ! j)"
proof -
  obtain s d where sd: "segment_for addr n segs = Some (s, d)" and bs: "bs = take n (drop (addr - s) d)"
    using assms(2) by (auto simp: get_def)
  note f = segment_for_Some [OF sd]
  show "length bs = n" using bs f by simp
  show "mem segs (addr + j) = Some (bs ! j)" if "j < n"
  proof -
    have "addr + j - s = addr - s + j" using f(2) by simp
    then show ?thesis using mem_in [OF assms(1) f(1), of "addr + j"] f that by (simp add: bs)
  qed
qed

lemma overwrite_mem:
  assumes "image_ok segs" "segment_for addr (length data) segs = Some (s, d)"
  shows "image_ok (overwrite addr data (s, d) segs)"
    and "mem (overwrite addr data (s, d) segs) a =
      (if addr \<le> a \<and> a < addr + length data then Some (data ! (a - addr)) else mem segs a)"
proof -
  note f = segment_for_Some [OF assms(2)]
  let ?off = "addr - s"
  let ?v = "take ?off d @ data @ drop (?off + length data) d"
  have len: "length ?v = length d" using f by simp
  have nth: "j < length d \<Longrightarrow> ?v ! j = (if ?off \<le> j \<and> j < ?off + length data then data ! (j - ?off) else d ! j)" for j
    using f by (auto simp: nth_append)
  have "\<forall>(s', d') \<in> set segs. s' \<noteq> s \<longrightarrow> (if s' < s then s' + length d' \<le> s else s + length ?v \<le> s')"
    unfolding len using image_ok_apart [OF assms(1) f(1)] by fastforce
  then have ok: "image_ok (insert_seg s ?v segs)" using insert_seg_ok [OF assms(1)] by blast
  then show "image_ok (overwrite addr data (s, d) segs)" by (simp add: overwrite_def)
  have only: "(s, d') \<in> set segs \<Longrightarrow> d' = d" for d' using keys_distinct [OF assms(1) f(1)] by blast
  show "mem (overwrite addr data (s, d) segs) a =
      (if addr \<le> a \<and> a < addr + length data then Some (data ! (a - addr)) else mem segs a)"
  proof (cases "s \<le> a \<and> a < s + length d")
    case True
    then have "mem (overwrite addr data (s, d) segs) a = Some (?v ! (a - s))"
      using mem_insert_seg [OF assms(1) ok, of a] len by (simp add: overwrite_def)
    also have "?v ! (a - s) = (if addr \<le> a \<and> a < addr + length data then data ! (a - addr) else d ! (a - s))"
      using nth [of "a - s"] True f by auto
    finally show ?thesis using True mem_in [OF assms(1) f(1), of a] by simp
  next
    case False
    then have "mem (overwrite addr data (s, d) segs) a = mem segs a"
      using mem_insert_seg [OF assms(1) ok, of a] len only by (auto simp: overwrite_def)
    with False f show ?thesis by auto
  qed
qed

section \<open>Allocating\<close>

lemma floor_max:
  "floor_seg a segs = Some (s, d) \<Longrightarrow> image_ok segs \<Longrightarrow> (t, e) \<in> set segs \<Longrightarrow> t \<le> a \<Longrightarrow> t \<le> s"
proof (induction segs)
  case (Cons x segs)
  obtain u f where x: "x = (u, f)" by (cases x)
  have later: "(v, g) \<in> set segs \<Longrightarrow> u < v" for v g using Cons.prems(2) unfolding x image_ok_Cons by blast
  show ?case
  proof (cases "floor_seg a segs")
    case None
    then have "(t, e) \<notin> set segs" using Cons.prems(4) by (induction segs) (auto simp: floor_seg_Cons split: if_splits option.splits)
    with Cons.prems x None show ?thesis by (auto simp: floor_seg_Cons split: if_splits)
  next
    case (Some y)
    with Cons.prems x have y: "floor_seg a segs = Some (s, d)" by (auto simp: floor_seg_Cons split: if_splits)
    show ?thesis
    proof (cases "(t, e) \<in> set segs")
      case True
      with Cons x y show ?thesis by simp
    next
      case False
      with Cons.prems(3) x have "t = u" by simp
      with later [of s d] floor_seg_Some [OF y] show ?thesis by simp
    qed
  qed
qed simp

lemma floor_None: "floor_seg a segs = None \<Longrightarrow> (t, e) \<in> set segs \<Longrightarrow> a < t"
  by (induction segs) (auto simp: floor_seg_Cons split: if_splits option.splits)

lemma next_start_Some:
  assumes "next_start addr segs = Some t" "addr + 1 < 2 ^ 32"
  shows "addr < t \<and> (\<exists>e. (t, e) \<in> set segs)"
proof -
  obtain e rest where "filter (\<lambda>(s, d). min (addr + 1) (2 ^ 32 - 1) \<le> s) segs = (t, e) # rest"
    using assms(1) by (auto simp: next_start_def split: list.splits)
  then have "(t, e) \<in> set (filter (\<lambda>(s, d). min (addr + 1) (2 ^ 32 - 1) \<le> s) segs)" by simp
  with assms(2) show ?thesis by auto
qed

text \<open>Nothing starts inside the range to be allocated.\<close>

definition clear :: "nat \<Rightarrow> nat \<Rightarrow> Image \<Rightarrow> bool" where
  "clear addr n segs \<longleftrightarrow> addr + n < 2 ^ 32 \<and> (\<forall>(s, d) \<in> set segs. addr < s \<longrightarrow> addr + n \<le> s)"

lemma clearD: "clear addr n segs \<Longrightarrow> (s, d) \<in> set segs \<Longrightarrow> addr < s \<Longrightarrow> addr + n \<le> s"
  by (auto simp: clear_def)

lemma mem_beyond:
  assumes "image_ok segs" "floor_seg addr segs = Some (s, d)" "clear addr n segs" "addr \<le> a" "a < addr + n" "s + length d \<le> a"
  shows "mem segs a = None"
proof (rule ccontr)
  assume "mem segs a \<noteq> None"
  then obtain t e where t: "(t, e) \<in> set segs" "t \<le> a" "a < t + length e" using mem_Some by fastforce
  have "t \<le> addr" using clearD [OF assms(3) t(1)] t(2) assms(5) by linarith
  then have "t \<le> s" using floor_max [OF assms(2,1) t(1)] by simp
  moreover have "(s, d) \<in> set segs" using floor_seg_Some [OF assms(2)] by simp
  ultimately show False
    using image_ok_apart [OF assms(1) _ t(1), of s d] keys_distinct [OF assms(1) _ t(1), of d] t assms(4,6) floor_seg_Some [OF assms(2)]
    by (cases "t = s") auto
qed

lemma allocate_grow:
  fixes fill :: u8
  assumes "image_ok segs" "floor_seg addr segs = Some (s, d)" "clear addr n segs" "addr \<le> s + length d" "s + length d < addr + n"
  defines "v \<equiv> resize (addr - s + n) fill d"
  shows "image_ok (insert_seg s v segs)"
    and "mem (insert_seg s v segs) a =
      (case mem segs a of Some b \<Rightarrow> Some b | None \<Rightarrow> if addr \<le> a \<and> a < addr + n then Some fill else None)"
proof -
  have sd: "(s, d) \<in> set segs" "s \<le> addr" using floor_seg_Some [OF assms(2)] by auto
  have v: "v = d @ replicate (addr + n - (s + length d)) fill" and len: "length v = addr + n - s"
    using assms(4,5) sd(2) by (simp_all add: v_def resize_def)
  have "\<forall>(t, e) \<in> set segs. t \<noteq> s \<longrightarrow> (if t < s then t + length e \<le> s else s + length v \<le> t)"
  proof clarify
    fix t e
    assume te: "(t, e) \<in> set segs" "t \<noteq> s"
    show "if t < s then t + length e \<le> s else s + length v \<le> t"
    proof (cases "t < s")
      case False
      then have "addr < t" using te floor_max [OF assms(2,1) te(1)] by linarith
      then show ?thesis using False clearD [OF assms(3) te(1)] len sd(2) by simp
    qed (use image_ok_apart [OF assms(1) sd(1) te(1,2)] in simp)
  qed
  then show ok: "image_ok (insert_seg s v segs)" using insert_seg_ok [OF assms(1)] by blast
  have only: "(s, d') \<in> set segs \<Longrightarrow> d' = d" for d' using keys_distinct [OF assms(1) sd(1)] by blast
  consider (old) "s \<le> a" "a < s + length d" | (new) "s + length d \<le> a" "a < addr + n" | (out) "a < s \<or> addr + n \<le> a" by linarith
  then show "mem (insert_seg s v segs) a =
      (case mem segs a of Some b \<Rightarrow> Some b | None \<Rightarrow> if addr \<le> a \<and> a < addr + n then Some fill else None)"
  proof cases
    case old
    then have "a - s < length d" by linarith
    with old show ?thesis
      using mem_insert_seg [OF assms(1) ok, of a] mem_in [OF assms(1) sd(1), of a] assms(5) len sd(2) by (simp add: v nth_append)
  next
    case new
    then have "mem segs a = None" using mem_beyond [OF assms(1-3)] assms(4) by simp
    moreover have "\<not> a - s < length d" using new(1) by linarith
    ultimately show ?thesis
      using new mem_insert_seg [OF assms(1) ok, of a] assms(4) len sd(2) by (simp add: v nth_append)
  next
    case out
    then show ?thesis
      using mem_insert_seg [OF assms(1) ok, of a] assms(5) len sd(2) only by (auto split: option.splits)
  qed
qed

lemma allocate_new:
  assumes "image_ok segs" "clear addr n segs" and free: "\<forall>(t, e) \<in> set segs. t \<le> addr \<longrightarrow> t \<noteq> addr \<and> t + length e \<le> addr"
  shows "image_ok (insert_seg addr (replicate n fill) segs)"
    and "mem (insert_seg addr (replicate n fill) segs) a =
      (case mem segs a of Some b \<Rightarrow> Some b | None \<Rightarrow> if addr \<le> a \<and> a < addr + n then Some fill else None)"
proof -
  have "\<forall>(t, e) \<in> set segs. t \<noteq> addr \<longrightarrow> (if t < addr then t + length e \<le> addr else addr + length (replicate n fill) \<le> t)"
    using free clearD [OF assms(2)] by fastforce
  then show ok: "image_ok (insert_seg addr (replicate n fill) segs)" using insert_seg_ok [OF assms(1)] by blast
  have none: "mem segs a = None" if "addr \<le> a" "a < addr + n"
  proof (rule ccontr)
    assume "mem segs a \<noteq> None"
    then obtain t e where t: "(t, e) \<in> set segs" "t \<le> a" "a < t + length e" using mem_Some by fastforce
    then show False using free clearD [OF assms(2) t(1)] that by fastforce
  qed
  have "(addr, d) \<notin> set segs" for d using free by auto
  with none show "mem (insert_seg addr (replicate n fill) segs) a =
      (case mem segs a of Some b \<Rightarrow> Some b | None \<Rightarrow> if addr \<le> a \<and> a < addr + n then Some fill else None)"
    using mem_insert_seg [OF assms(1) ok, of a] by (auto split: option.splits)
qed

lemma allocate_spec:
  assumes "image_ok segs" "clear addr n segs"
  shows "image_ok (allocate addr n fill segs)"
    and "mem (allocate addr n fill segs) a =
      (case mem segs a of Some b \<Rightarrow> Some b | None \<Rightarrow> if addr \<le> a \<and> a < addr + n then Some fill else None)"
proof -
  have "image_ok (allocate addr n fill segs) \<and> mem (allocate addr n fill segs) a =
      (case mem segs a of Some b \<Rightarrow> Some b | None \<Rightarrow> if addr \<le> a \<and> a < addr + n then Some fill else None)"
  proof (cases "n = 0 \<or> get addr n segs \<noteq> None")
    case True
    have "mem segs a \<noteq> None" if "addr \<le> a" "a < addr + n"
      using True that get_mem(2) [OF assms(1), of addr n _ "a - addr"] by auto
    with True assms(1) show ?thesis by (auto simp: allocate_def split: option.splits)
  next
    case False
    show ?thesis
    proof (cases "floor_seg addr segs")
      case None
      then have "\<forall>(t, e) \<in> set segs. t \<le> addr \<longrightarrow> t \<noteq> addr \<and> t + length e \<le> addr" using floor_None [OF None] by fastforce
      with None False allocate_new [OF assms] show ?thesis by (simp add: allocate_def)
    next
      case (Some sd)
      obtain s d where sd: "sd = (s, d)" by (cases sd)
      note f = floor_seg_Some [OF Some [unfolded sd]]
      have short: "s + length d < addr + n"
        using False Some sd f by (auto simp: get_def segment_for_def split: if_splits)
      have room: "case next_start addr segs of None \<Rightarrow> True | Some t \<Rightarrow> s + (addr - s + n) \<le> t"
        using next_start_Some [of addr segs] clearD [OF assms(2)] assms(2) False f
        by (fastforce simp: clear_def split: option.splits)
      show ?thesis
      proof (cases "addr \<le> s + length d")
        case True
        then have "allocate addr n fill segs = insert_seg s (resize (addr - s + n) fill d) segs"
          using False Some sd f room by (simp add: allocate_def Let_def le_diff_conv add.commute)
        with allocate_grow [OF assms(1) Some [unfolded sd] assms(2) True short] show ?thesis by simp
      next
        case far: False
        then have eq: "allocate addr n fill segs = insert_seg addr (replicate n fill) segs"
          using False Some sd f by (simp add: allocate_def Let_def le_diff_conv add.commute)
        have "t \<noteq> addr \<and> t + length e \<le> addr" if "(t, e) \<in> set segs" "t \<le> addr" for t e
        proof -
          have "t \<le> s" using floor_max [OF Some [unfolded sd] assms(1) that] .
          with that far f image_ok_apart [OF assms(1) _ that(1), of s d] keys_distinct [OF assms(1) _ that(1), of d] show ?thesis
            by (cases "t = s") auto
        qed
        then have "\<forall>(t, e) \<in> set segs. t \<le> addr \<longrightarrow> t \<noteq> addr \<and> t + length e \<le> addr" by blast
        with eq allocate_new [OF assms] show ?thesis by simp
      qed
    qed
  qed
  then show "image_ok (allocate addr n fill segs)"
    and "mem (allocate addr n fill segs) a =
      (case mem segs a of Some b \<Rightarrow> Some b | None \<Rightarrow> if addr \<le> a \<and> a < addr + n then Some fill else None)" by blast+
qed

text \<open>Writing to a range no segment touches, the fallback of \<open>put\<close>.\<close>

definition vacant :: "nat \<Rightarrow> nat \<Rightarrow> Image \<Rightarrow> bool" where
  "vacant addr n segs \<longleftrightarrow> (\<forall>(s, d) \<in> set segs. if s \<le> addr then s + length d \<le> addr else addr + n \<le> s)"

lemma put_vacant:
  assumes "image_ok segs" "vacant addr (length data) segs"
  shows "image_ok (put addr data segs)"
    "mem (put addr data segs) a = (if addr \<le> a \<and> a < addr + length data then Some (data ! (a - addr)) else mem segs a)"
proof -
  let ?mem = "if addr \<le> a \<and> a < addr + length data then Some (data ! (a - addr)) else mem segs a"
  have apart: "if s \<le> addr then s + length d \<le> addr else addr + length data \<le> s" if "(s, d) \<in> set segs" for s d
    using assms(2) that by (auto simp: vacant_def)
  have "image_ok (put addr data segs) \<and> mem (put addr data segs) a = ?mem"
  proof (cases "segment_for addr (length data) segs")
    case None
    have ok: "image_ok (insert_seg addr data segs)" using assms(1) apart by (intro insert_seg_ok) fastforce+
    moreover have "\<not> (\<exists>d. (addr, d) \<in> set segs \<and> addr \<le> a \<and> a < addr + length d)" using apart by fastforce
    ultimately have "mem (insert_seg addr data segs) a = ?mem" using mem_insert_seg [OF assms(1) ok, of a] by (simp only: if_False)
    with ok None show ?thesis by (simp add: put_def)
  next
    case (Some seg)
    then show ?thesis using overwrite_mem [OF assms(1)] by (cases seg) (simp add: put_def)
  qed
  then show "image_ok (put addr data segs)" "mem (put addr data segs) a = ?mem" by blast+
qed

text \<open>Allocating over data that the next segment keeps from growing.\<close>

lemma next_start_le:
  assumes "image_ok segs" "(t, e) \<in> set segs" "addr < t"
  shows "\<exists>nx. next_start addr segs = Some nx \<and> nx \<le> t"
  using assms
proof (induction segs)
  case (Cons x segs)
  obtain u f where x: "x = (u, f)" by (cases x)
  show ?case
  proof (cases "min (addr + 1) (2 ^ 32 - 1) \<le> u")
    case True
    have "u \<le> t" using Cons.prems(1,2) unfolding x by auto
    with True show ?thesis by (simp add: next_start_def x)
  next
    case False
    then have "(t, e) \<in> set segs" using Cons.prems(2,3) x by auto
    moreover have "next_start addr (x # segs) = next_start addr segs" using False by (simp add: next_start_def x)
    ultimately show ?thesis using Cons x by simp
  qed
qed simp

lemma allocate_blocked:
  assumes ok: "image_ok segs" and sd: "(s, d) \<in> set segs" "s \<le> addr" "addr < s + length d"
    and te: "(t, e) \<in> set segs" "addr < t" "t < addr + n"
  shows "allocate addr n fill segs = insert_seg addr (replicate n fill) segs"
proof -
  have gap: "s + length d \<le> t" using image_ok_apart [OF ok sd(1) te(1)] sd te by (auto split: if_splits)
  obtain s' d' where f: "floor_seg addr segs = Some (s', d')"
    using floor_None [of addr segs s d] sd(1,2) by (cases "floor_seg addr segs") auto
  have "s \<le> s'" using floor_max [OF f ok sd(1,2)] .
  moreover have in_f: "(s', d') \<in> set segs" "s' \<le> addr" using floor_seg_Some [OF f] by auto
  ultimately have s': "s' = s" using image_ok_apart [OF ok sd(1) in_f(1)] sd(3) by (cases "s' = s") (auto split: if_splits)
  with in_f sd(1) have d': "d' = d" using keys_distinct [OF ok] by blast
  obtain nx where nx: "next_start addr segs = Some nx" "nx \<le> t" using next_start_le [OF ok te(1,2)] by blast
  have "length d < addr - s + n" "\<not> s + (addr - s + n) \<le> nx" "n \<noteq> 0" using gap sd te nx by linarith+
  then show ?thesis using f s' d' nx by (simp add: allocate_def get_def segment_for_def)
qed

lemma floor_insert_here: "sorted_wrt (\<lambda>x y. fst x < fst y) segs \<Longrightarrow> k \<le> a \<Longrightarrow> \<forall>(s, d) \<in> set segs. k < s \<longrightarrow> a < s \<Longrightarrow>
   floor_seg a (insert_seg k v segs) = Some (k, v)"
proof (induction k v segs rule: insert_seg.induct)
  case (2 k v s d segs)
  consider "k < s" | "k = s" | "s < k" by linarith
  then show ?case
  proof cases
    case 1
    then have "floor_seg a ((s, d) # segs) = None" using 2 by (intro floor_seg_below) fastforce
    with 1 2 show ?thesis by (simp add: floor_seg_Cons [of a k])
  next
    case 2
    then have "floor_seg a segs = None" using \<open>sorted_wrt _ _\<close> \<open>\<forall>_ \<in> _. _\<close> by (intro floor_seg_below) fastforce
    with 2 \<open>k \<le> a\<close> show ?thesis by (simp add: floor_seg_Cons)
  next
    case 3
    with 2 show ?thesis by (simp add: floor_seg_Cons)
  qed
qed (simp add: floor_seg_Cons)

lemma image_ok_keys: "image_ok segs \<Longrightarrow> sorted_wrt (\<lambda>x y. fst x < fst y) segs"
  unfolding image_ok_def by (rule sorted_wrt_mono_rel) auto

lemma floor_insert_other:
  assumes "sorted_wrt (\<lambda>x y. fst x < fst y) segs" "(t, e) \<in> set segs" "k < t"
  shows "floor_seg t (insert_seg k v segs) = Some (t, e)"
  using assms
proof (induction k v segs rule: insert_seg.induct)
  case (2 k v s d segs)
  have here: "floor_seg t segs' = Some (t, e)" if "sorted_wrt (\<lambda>x y. fst x < fst y) segs'" "(t, e) \<in> set segs'" for segs'
    using that
  proof (induction segs')
    case (Cons x segs')
    show ?case
    proof (cases "x = (t, e)")
      case True
      then have "floor_seg t segs' = None" using Cons.prems(1) by (intro floor_seg_below) auto
      with True show ?thesis by (simp add: floor_seg_Cons)
    next
      case False
      with Cons have "floor_seg t segs' = Some (t, e)" by simp
      then show ?thesis by (cases x) (simp add: floor_seg_Cons)
    qed
  qed simp
  consider "k < s" | "k = s" | "s < k" by linarith
  then show ?case
  proof cases
    case 1
    with here [OF 2(2,3)] show ?thesis by (simp add: floor_seg_Cons [of t k])
  next
    case k: 2
    then have "(t, e) \<in> set segs" using 2(3,4) by auto
    with here [of segs] 2(2) k show ?thesis by (simp add: floor_seg_Cons)
  next
    case 3
    then have "floor_seg t (insert_seg k v segs) = Some (t, e)" using 2 by auto
    with 3 show ?thesis by (simp add: floor_seg_Cons)
  qed
qed simp

section \<open>Properties\<close>

text \<open>
  C30: On an image whose segments do not overlap, writing to a range that lies within one segment or
  that no segment touches sets exactly the bytes of that range; allocating a range below \<open>2 ^ 32\<close>, after
  whose start no segment starts within it, keeps every byte that was there and fills the rest; both
  keep the segments apart.  What is read of a range are its bytes in memory.  Nothing is claimed of
  writing over the edge of a segment or of allocating into the next one.
\<close>

theorem image_refines_memory:
  assumes "image_ok segs"
  shows "(get addr (length data) segs \<noteq> None \<or> vacant addr (length data) segs \<longrightarrow>
      image_ok (put addr data segs) \<and>
      mem (put addr data segs) a = (if addr \<le> a \<and> a < addr + length data then Some (data ! (a - addr)) else mem segs a)) \<and>
    (clear addr n segs \<longrightarrow>
      image_ok (allocate addr n fill segs) \<and>
      mem (allocate addr n fill segs) a =
        (case mem segs a of Some b \<Rightarrow> Some b | None \<Rightarrow> if addr \<le> a \<and> a < addr + n then Some fill else None)) \<and>
    (get addr n segs = Some bs \<longrightarrow> length bs = n \<and> (\<forall>j < n. mem segs (addr + j) = Some (bs ! j)))"
proof (intro conjI impI)
  assume put: "get addr (length data) segs \<noteq> None \<or> vacant addr (length data) segs"
  have "image_ok (put addr data segs) \<and>
    mem (put addr data segs) a = (if addr \<le> a \<and> a < addr + length data then Some (data ! (a - addr)) else mem segs a)"
  proof (cases "vacant addr (length data) segs")
    case False
    with put obtain s d where sd: "segment_for addr (length data) segs = Some (s, d)" by (auto simp: get_def)
    then show ?thesis using overwrite_mem [OF assms sd] by (simp add: put_def)
  qed (use put_vacant [OF assms] in simp)
  then show "image_ok (put addr data segs)"
    "mem (put addr data segs) a = (if addr \<le> a \<and> a < addr + length data then Some (data ! (a - addr)) else mem segs a)"
    by blast+
qed (use allocate_spec [OF assms] get_mem [OF assms] in auto)

theorem image_refines_memory_witness:
  "mem (allocate 0x110 32 0xFF [(0x100, [1, 2, 3, 4, 5, 6, 7, 8, 9, 10, 11, 12, 13, 14, 15, 16])]) 0x105 = Some 6 \<and>
   mem (put 0x102 [7] [(0x100, [1, 2, 3])]) 0x102 = Some 7 \<and> mem (put 0x200 [7] [(0x100, [1, 2, 3])]) 0x200 = Some 7"
proof -
  let ?one = "[(0x100, [1, 2, 3, 4, 5, 6, 7, 8, 9, 10, 11, 12, 13, 14, 15, 16])] :: Image"
  have "mem ?one 0x105 = Some 6" by (simp add: mem_Cons)
  moreover have "clear 0x110 32 ?one" by (simp add: clear_def)
  ultimately have "mem (allocate 0x110 32 0xFF ?one) 0x105 = Some 6"
    using image_refines_memory [where segs = ?one and addr = "0x110" and data = "[]" and a = "0x105" and n = 32 and fill = "0xFF" and bs = "[]"] by simp
  moreover have "get 0x102 1 [(0x100, [1, 2, 3])] \<noteq> None"
    by (simp add: get_def segment_for_def floor_seg_Cons)
  then have "mem (put 0x102 [7] [(0x100, [1, 2, 3])]) 0x102 = Some 7"
    using image_refines_memory [where segs = "[(0x100, [1, 2, 3])]" and addr = "0x102" and data = "[7]" and a = "0x102" and n = 0 and fill = 0 and bs = "[]"] by simp
  moreover have "vacant 0x200 1 [(0x100, [1, 2, 3])]" by (simp add: vacant_def)
  then have "mem (put 0x200 [7] [(0x100, [1, 2, 3])]) 0x200 = Some 7"
    using image_refines_memory [where segs = "[(0x100, [1, 2, 3])]" and addr = "0x200" and data = "[7]" and a = "0x200" and n = 0 and fill = 0 and bs = "[]"] by simp
  ultimately show ?thesis by simp
qed

text \<open>
  C31: Allocating can destroy data: when the range starts inside a segment and another segment starts
  within the range, the bytes of the first segment from the start of the range on all become the
  fill byte, the result has overlapping segments, and the two reads of the second segment's start
  contradict each other: the allocated range reads as fill, the second segment as it was.
\<close>

theorem allocate_overwrites_data:
  assumes "image_ok segs" and "(s, d) \<in> set segs" "s \<le> addr" "addr < s + length d"
    and "(t, e) \<in> set segs" "addr < t" "t < addr + n"
  shows "(\<forall>a. addr \<le> a \<and> a < s + length d \<longrightarrow> mem segs a = Some (d ! (a - s)) \<and> mem (allocate addr n fill segs) a = Some fill) \<and>
    \<not> image_ok (allocate addr n fill segs) \<and>
    get addr n (allocate addr n fill segs) = Some (replicate n fill) \<and>
    get t (length e) (allocate addr n fill segs) = Some e"
proof -
  let ?new = "insert_seg addr (replicate n fill) segs"
  have new: "allocate addr n fill segs = ?new" by (rule allocate_blocked [OF assms])
  note keys = image_ok_keys [OF assms(1)]
  have gap: "s + length d \<le> t" using image_ok_apart [OF assms(1,2,5)] assms by (auto split: if_splits)
  have beyond: "s + length d \<le> u" if "(u, f) \<in> set segs" "addr < u" for u f
    using image_ok_apart [OF assms(1,2) that(1)] assms(3) that(2) by (auto split: if_splits)
  have floor: "floor_seg a ?new = Some (addr, replicate n fill)" if "addr \<le> a" "a < s + length d" for a
    using floor_insert_here [OF keys that(1)] beyond that(2) by fastforce
  have "mem ?new a = Some fill" if "addr \<le> a" "a < s + length d" for a
    using floor [OF that] that gap assms(7) by (simp add: mem_def)
  moreover have "mem segs a = Some (d ! (a - s))" if "addr \<le> a" "a < s + length d" for a
    using mem_in [OF assms(1,2)] that assms(3) by simp
  moreover have "\<not> image_ok ?new"
  proof
    assume bad: "image_ok ?new"
    have "(addr, replicate n fill) \<in> set ?new" "(t, e) \<in> set ?new"
      using set_insert_seg [OF assms(1)] assms(5,6) by auto
    from image_ok_apart [OF bad this] assms(6,7) show False by (auto split: if_splits)
  qed
  moreover have "get addr n ?new = Some (replicate n fill)"
    using floor [of addr] assms(4) by (simp add: get_def segment_for_def)
  moreover have "get t (length e) ?new = Some e"
    using floor_insert_other [OF keys assms(5,6)] by (simp add: get_def segment_for_def)
  ultimately show ?thesis unfolding new by blast
qed

theorem allocate_overwrites_data_witness:
  "mem [(0x100, [1, 2]), (0x102, [3, 4])] 0x101 = Some 2 \<and>
   mem (allocate 0x101 2 0xFF [(0x100, [1, 2]), (0x102, [3, 4])]) 0x101 = Some 0xFF \<and>
   get 0x101 2 (allocate 0x101 2 0xFF [(0x100, [1, 2]), (0x102, [3, 4])]) = Some [0xFF, 0xFF] \<and>
   get 0x102 2 (allocate 0x101 2 0xFF [(0x100, [1, 2]), (0x102, [3, 4])]) = Some [3, 4]"
proof -
  let ?segs = "[(0x100, [1, 2]), (0x102, [3, 4])] :: Image"
  have w: "(\<forall>a. 0x101 \<le> a \<and> a < 0x100 + length [1 :: u8, 2] \<longrightarrow>
        mem ?segs a = Some ([1, 2] ! (a - 0x100)) \<and> mem (allocate 0x101 2 0xFF ?segs) a = Some 0xFF) \<and>
      \<not> image_ok (allocate 0x101 2 0xFF ?segs) \<and> get 0x101 2 (allocate 0x101 2 0xFF ?segs) = Some (replicate 2 0xFF) \<and>
      get 0x102 (length [3 :: u8, 4]) (allocate 0x101 2 0xFF ?segs) = Some [3, 4]"
    by (rule allocate_overwrites_data) simp_all
  then have "mem ?segs 0x101 = Some ([1, 2] ! (0x101 - 0x100)) \<and> mem (allocate 0x101 2 0xFF ?segs) 0x101 = Some 0xFF"
    by (elim conjE allE [of _ "0x101"]) simp
  moreover have "replicate 2 (0xFF :: u8) = [0xFF, 0xFF]" by (simp add: numeral_2_eq_2)
  ultimately show ?thesis using w by (simp add: numeral_2_eq_2)
qed

text \<open>The wire form.\<close>

definition encodable :: "Image \<Rightarrow> bool" where
  "encodable segs \<longleftrightarrow> sorted_wrt (\<lambda>x y. fst x < fst y) segs \<and> (\<forall>(s, d) \<in> set segs. s < 2 ^ 32 \<and> length d < 2 ^ 32)"

lemma insert_seg_last: "\<forall>(s, d) \<in> set segs. s < k \<Longrightarrow> insert_seg k v segs = segs @ [(k, v)]"
  by (induction k v segs rule: insert_seg.induct) auto

lemma le32_of_be32: "\<exists>b0 b1 b2 b3. le32 w = [b0, b1, b2, b3] \<and> of_be32 b3 b2 b1 b0 = w"
  by (simp add: le32_def be32_def)

lemma from_bytes_at_to_bytes:
  assumes "encodable (done @ segs)"
  shows "from_bytes_at (to_bytes segs) done = Some (done @ segs)"
  using assms
proof (induction segs arbitrary: "done")
  case Nil
  then show ?case by (simp add: from_bytes_at.simps)
next
  case (Cons x segs)
  obtain s d where x: "x = (s, d)" by (cases x)
  have fits: "s < 2 ^ 32" "length d < 2 ^ 32" using Cons.prems x by (auto simp: encodable_def)
  have last: "insert_seg s d done = done @ [(s, d)]"
    using Cons.prems x by (intro insert_seg_last) (auto simp: encodable_def sorted_wrt_append)
  obtain a0 a1 a2 a3 where a: "le32 (of_nat s) = [a0, a1, a2, a3]" "of_be32 a3 a2 a1 a0 = of_nat s" using le32_of_be32 by blast
  obtain l0 l1 l2 l3 where l: "le32 (of_nat (length d)) = [l0, l1, l2, l3]" "of_be32 l3 l2 l1 l0 = of_nat (length d)"
    using le32_of_be32 by blast
  have n: "unat (of_nat s :: u32) = s" "unat (of_nat (length d) :: u32) = length d" using fits by (simp_all add: unat_of_nat)
  have "from_bytes_at (to_bytes (x # segs)) done = from_bytes_at (to_bytes segs) (done @ [(s, d)])"
    by (subst from_bytes_at.simps) (simp add: x a l n last Let_def)
  also have "\<dots> = Some ((done @ [(s, d)]) @ segs)" using Cons.prems x by (intro Cons.IH) simp
  finally show ?case by (simp add: x)
qed

text \<open>
  The wire form of an image is lossless: reading back what was written gives the same segments,
  for every image whose addresses and lengths fit 32 bits.
\<close>

theorem image_wire_roundtrip: "encodable segs \<Longrightarrow> from_bytes (to_bytes segs) = Some segs"
  using from_bytes_at_to_bytes [of "[]" segs] by (simp add: from_bytes_def)

theorem image_wire_roundtrip_witness: "from_bytes (to_bytes [(0x40, [1, 2]), (0x2000, [])]) = Some [(0x40, [1, 2]), (0x2000, [])]"
  by (rule image_wire_roundtrip) (simp add: encodable_def)

section \<open>Changed blocks\<close>

text \<open>What the blocks of one segment are: pieces of it no longer than a block, none as it was before,
  and together all that changed.\<close>

definition blocks_ok :: "Image \<Rightarrow> nat \<Rightarrow> nat \<Rightarrow> bytes \<Rightarrow> nat \<Rightarrow> (nat \<times> bytes) list \<Rightarrow> bool" where
  "blocks_ok before block addr data offset blocks \<longleftrightarrow>
     (\<forall>(at, p) \<in> set blocks. p \<noteq> [] \<and> length p \<le> block \<and> get at (length p) before \<noteq> Some p \<and>
        addr + offset \<le> at \<and> p = take (length p) (drop (at - addr) data) \<and> at - addr + length p \<le> length data) \<and>
     (\<forall>i. offset \<le> i \<longrightarrow> i < length data \<longrightarrow>
        (\<exists>(at, p) \<in> set blocks. at \<le> addr + i \<and> addr + i < at + length p) \<or> mem before (addr + i) = Some (data ! i))"

lemma blocks_ok_covers:
  assumes "blocks_ok before block addr data 0 blocks" "i < length data"
  shows "(\<exists>(at, p) \<in> set blocks. at \<le> addr + i \<and> addr + i < at + length p) \<or> mem before (addr + i) = Some (data ! i)"
  using assms unfolding blocks_ok_def by simp

lemma blocks_from_ok:
  assumes "image_ok before" "0 < block"
  shows "\<exists>blocks. blocks_from before block addr data offset = Some blocks \<and> blocks_ok before block addr data offset blocks"
proof (induction "length data - offset" arbitrary: offset rule: less_induct)
  case less
  show ?case
  proof (cases "length data \<le> offset")
    case True
    then show ?thesis by (subst blocks_from.simps) (simp add: blocks_ok_def)
  next
    case False
    define n where "n = min block (length data - offset)"
    define piece where "piece = take n (drop offset data)"
    have n: "0 < n" "n \<le> block" "offset + n \<le> length data" using False assms(2) by (auto simp: n_def)
    have len: "length piece = n" using n(3) by (simp add: piece_def)
    have "length data - (offset + n) < length data - offset" using n False by simp
    from less.hyps [OF this] obtain others where
      others: "blocks_from before block addr data (offset + n) = Some others" "blocks_ok before block addr data (offset + n) others"
      by blast
    have run: "blocks_from before block addr data offset =
        Some (if get (addr + offset) n before \<noteq> Some piece then (addr + offset, piece) # others else others)"
      using False others(1) by (subst blocks_from.simps) (simp add: Let_def n_def piece_def)
    have ok: "p \<noteq> [] \<and> length p \<le> block \<and> get at (length p) before \<noteq> Some p \<and>
        addr + offset \<le> at \<and> p = take (length p) (drop (at - addr) data) \<and> at - addr + length p \<le> length data"
      if "(at, p) \<in> set others" for at p
      using others(2) that unfolding blocks_ok_def by fastforce
    have cover: "(\<exists>(at, p) \<in> set others. at \<le> addr + i \<and> addr + i < at + length p) \<or> mem before (addr + i) = Some (data ! i)"
      if "offset + n \<le> i" "i < length data" for i
      using others(2) that unfolding blocks_ok_def by blast
    have here: "mem before (addr + i) = Some (data ! i)"
      if "get (addr + offset) n before = Some piece" "offset \<le> i" "i < offset + n" for i
    proof -
      have "mem before (addr + offset + (i - offset)) = Some (piece ! (i - offset))"
        using get_mem(2) [OF assms(1) that(1), of "i - offset"] that(2,3) by simp
      moreover have "piece ! (i - offset) = data ! i" using that(2,3) n by (simp add: piece_def)
      ultimately show ?thesis using that(2) by simp
    qed
    have piece: "piece = take (length piece) (drop offset data)" unfolding len by (simp add: piece_def)
    show ?thesis
    proof (cases "get (addr + offset) n before = Some piece")
      case True
      have "blocks_ok before block addr data offset others"
        unfolding blocks_ok_def
      proof (intro conjI ballI allI impI)
        fix b
        assume "b \<in> set others"
        then show "case b of (at, p) \<Rightarrow> p \<noteq> [] \<and> length p \<le> block \<and> get at (length p) before \<noteq> Some p \<and>
          addr + offset \<le> at \<and> p = take (length p) (drop (at - addr) data) \<and> at - addr + length p \<le> length data"
          using ok by (cases b) auto
      next
        fix i
        assume i: "offset \<le> i" "i < length data"
        show "(\<exists>(at, p) \<in> set others. at \<le> addr + i \<and> addr + i < at + length p) \<or> mem before (addr + i) = Some (data ! i)"
          using cover [of i] here [OF True, of i] i by (cases "i < offset + n") auto
      qed
      with run True show ?thesis by auto
    next
      case changed: False
      have "blocks_ok before block addr data offset ((addr + offset, piece) # others)"
        unfolding blocks_ok_def
      proof (intro conjI ballI allI impI)
        fix b
        assume "b \<in> set ((addr + offset, piece) # others)"
        then show "case b of (at, p) \<Rightarrow> p \<noteq> [] \<and> length p \<le> block \<and> get at (length p) before \<noteq> Some p \<and>
          addr + offset \<le> at \<and> p = take (length p) (drop (at - addr) data) \<and> at - addr + length p \<le> length data"
          using ok changed len n piece by (cases b) auto
      next
        fix i
        assume i: "offset \<le> i" "i < length data"
        show "(\<exists>(at, p) \<in> set ((addr + offset, piece) # others). at \<le> addr + i \<and> addr + i < at + length p) \<or>
            mem before (addr + i) = Some (data ! i)"
          using cover [of i] i len by (cases "i < offset + n") auto
      qed
      with run changed show ?thesis by auto
    qed
  qed
qed

text \<open>All the blocks of an image: each is memory of the image, and they cover what changed.\<close>

lemma changed_blocks_ok:
  assumes "image_ok before" "0 < block" "image_ok after"
  shows "\<exists>blocks. changed_blocks before after block = Some blocks \<and>
    (\<forall>(at, p) \<in> set blocks. p \<noteq> [] \<and> length p \<le> block \<and> get at (length p) before \<noteq> Some p \<and>
       (\<forall>j < length p. mem after (at + j) = Some (p ! j))) \<and>
    (\<forall>a b. mem after a = Some b \<longrightarrow> (\<exists>(at, p) \<in> set blocks. at \<le> a \<and> a < at + length p) \<or> mem before a = Some b)"
  using assms(3)
proof (induction after)
  case (Cons x segs)
  obtain s d where x: "x = (s, d)" by (cases x)
  have okseg: "image_ok segs" using Cons.prems x by simp
  obtain bs where bs: "blocks_from before block s d 0 = Some bs" "blocks_ok before block s d 0 bs"
    using blocks_from_ok [OF assms(1,2)] by blast
  obtain cs where cs: "changed_blocks before segs block = Some cs"
    and each: "\<forall>(at, p) \<in> set cs. p \<noteq> [] \<and> length p \<le> block \<and> get at (length p) before \<noteq> Some p \<and>
       (\<forall>j < length p. mem segs (at + j) = Some (p ! j))"
    and cover: "\<forall>a b. mem segs a = Some b \<longrightarrow> (\<exists>(at, p) \<in> set cs. at \<le> a \<and> a < at + length p) \<or> mem before a = Some b"
    using Cons.IH [OF okseg] by blast
  have later: "mem (x # segs) a = mem segs a" if some: "mem segs a \<noteq> None" for a
  proof -
    obtain b where "mem segs a = Some b" using some by blast
    then obtain t e where "(t, e) \<in> set segs" "t \<le> a" using mem_Some by blast
    with Cons.prems x have "s + length d \<le> a" by fastforce
    then show ?thesis using Cons.prems x by (simp add: mem_Cons)
  qed
  have first: "p \<noteq> [] \<and> length p \<le> block \<and> get at (length p) before \<noteq> Some p \<and>
      (\<forall>j < length p. mem (x # segs) (at + j) = Some (p ! j))" if "(at, p) \<in> set bs" for at p
  proof -
    have p: "p \<noteq> []" "length p \<le> block" "get at (length p) before \<noteq> Some p" "s \<le> at"
      "p = take (length p) (drop (at - s) d)" "at - s + length p \<le> length d"
      using bs(2) that unfolding blocks_ok_def by fastforce+
    have "mem (x # segs) (at + j) = Some (p ! j)" if "j < length p" for j
    proof -
      have "take (length p) (drop (at - s) d) ! j = d ! (at - s + j)" using p(6) that by simp
      then have "p ! j = d ! (at - s + j)" by (simp only: p(5) [symmetric])
      moreover from p(4,6) that have "s \<le> at + j \<and> at + j < s + length d" by linarith
      then have "mem (x # segs) (at + j) = Some (d ! (at + j - s))"
        using Cons.prems x by (simp add: mem_Cons)
      moreover have "at + j - s = at - s + j" using p(4) by linarith
      ultimately show ?thesis by (simp only:)
    qed
    with p show ?thesis by blast
  qed
  have "(\<exists>(at, p) \<in> set (bs @ cs). at \<le> a \<and> a < at + length p) \<or> mem before a = Some b" if "mem (x # segs) a = Some b" for a b
  proof (cases "s \<le> a \<and> a < s + length d")
    case True
    then have "b = d ! (a - s)" using that Cons.prems x by (simp add: mem_Cons)
    moreover have "(\<exists>(at, p) \<in> set bs. at \<le> a \<and> a < at + length p) \<or> mem before a = Some (d ! (a - s))"
    proof -
      have "a - s < length d" "s + (a - s) = a" using True by linarith+
      with blocks_ok_covers [OF bs(2), of "a - s"] show ?thesis by simp
    qed
    ultimately show ?thesis by (simp only: set_append bex_Un) blast
  next
    case False
    then have "mem segs a = Some b" using that Cons.prems x by (auto simp: mem_Cons split: if_splits)
    then have "(\<exists>(at, p) \<in> set cs. at \<le> a \<and> a < at + length p) \<or> mem before a = Some b" using cover by blast
    then show ?thesis by (simp only: set_append bex_Un) blast
  qed
  moreover have "changed_blocks before (x # segs) block = Some (bs @ cs)" by (simp add: x bs(1) cs)
  moreover have "\<forall>(at, p) \<in> set (bs @ cs). p \<noteq> [] \<and> length p \<le> block \<and> get at (length p) before \<noteq> Some p \<and>
      (\<forall>j < length p. mem (x # segs) (at + j) = Some (p ! j))"
  proof (clarify, goal_cases)
    case (1 at p)
    then consider "(at, p) \<in> set bs" | "(at, p) \<in> set cs" by auto
    then show ?case
    proof cases
      case 1
      then show ?thesis by (rule first)
    next
      case 2
      with each have "p \<noteq> [] \<and> length p \<le> block \<and> get at (length p) before \<noteq> Some p \<and>
        (\<forall>j < length p. mem segs (at + j) = Some (p ! j))" by blast
      with later show ?thesis by simp
    qed
  qed
  ultimately show ?case by blast
qed simp

end
