(* ===== verification/Cps_Bits.thy ===== *)
theory Cps_Bits
  imports Rust_Text
begin

text \<open>
  The field accessors of the codeplug programmer (\<open>crates/cps/src/bits.rs\<close>): little- and big-endian
  integers, bit fields, packed decimal and text at an offset of a byte array.

  An accessor never fails: reading past the end gives zeros and writing past the end does nothing.
  Text is a list of scalar values; \<open>trim\<close> and the encodings are those of the Rust library.
\<close>

section \<open>Integers\<close>

definition get_u8 :: "bytes \<Rightarrow> nat \<Rightarrow> u8" where
  "get_u8 data offset = (if offset < length data then data ! offset else 0)"

definition set_u8 :: "bytes \<Rightarrow> nat \<Rightarrow> u8 \<Rightarrow> bytes" where
  "set_u8 data offset v = (if offset < length data then data[offset := v] else data)"

definition get_u16_le :: "bytes \<Rightarrow> nat \<Rightarrow> u16" where
  "get_u16_le data offset = of_be16 (get_u8 data (offset + 1)) (get_u8 data offset)"

definition set_u16_le :: "bytes \<Rightarrow> nat \<Rightarrow> u16 \<Rightarrow> bytes" where
  "set_u16_le data offset v =
     (let bs = le16 v in set_u8 (set_u8 data offset (bs ! 0)) (offset + 1) (bs ! 1))"


text \<open>The loop over \<open>enumerate()\<close>: consecutive bytes from an offset on.\<close>

fun set_bytes :: "bytes \<Rightarrow> nat \<Rightarrow> bytes \<Rightarrow> bytes" where
  "set_bytes data offset [] = data"
| "set_bytes data offset (b # bs) = set_bytes (set_u8 data offset b) (offset + 1) bs"

definition set_u32_le :: "bytes \<Rightarrow> nat \<Rightarrow> u32 \<Rightarrow> bytes" where
  "set_u32_le data offset v = set_bytes data offset (le32 v)"


definition set_u32_be :: "bytes \<Rightarrow> nat \<Rightarrow> u32 \<Rightarrow> bytes" where
  "set_u32_be data offset v = set_bytes data offset (be32 v)"

section \<open>Bit fields\<close>


definition set_bit :: "bytes \<Rightarrow> nat \<Rightarrow> nat \<Rightarrow> bool \<Rightarrow> bytes" where
  "set_bit data offset b v =
     (let m = push_bit b 1; byte = get_u8 data offset
      in set_u8 data offset (if v then byte OR m else byte AND NOT m))"


definition set_bits :: "bytes \<Rightarrow> nat \<Rightarrow> nat \<Rightarrow> nat \<Rightarrow> u8 \<Rightarrow> bytes" where
  "set_bits data offset b width v =
     (let m = ucast (push_bit b (push_bit width 1 - 1) :: u16) :: u8; byte = get_u8 data offset
      in set_u8 data offset ((byte AND NOT m) OR (push_bit b v AND m)))"

section \<open>Packed decimal\<close>









section \<open>Text\<close>

fun ascii_until :: "bytes \<Rightarrow> nat \<Rightarrow> nat list \<Rightarrow> u8 \<Rightarrow> rtext" where
  "ascii_until data offset [] eos = []"
| "ascii_until data offset (i # is_rest) eos =
     (let byte = get_u8 data (offset + i)
      in if byte = 0 \<or> byte = eos then [] else unat byte # ascii_until data offset is_rest eos)"

definition read_ascii :: "bytes \<Rightarrow> nat \<Rightarrow> nat \<Rightarrow> u8 \<Rightarrow> rtext" where
  "read_ascii data offset max_len eos = trim (ascii_until data offset [0..<max_len] eos)"

definition printable :: "nat \<Rightarrow> bool" where
  "printable c \<longleftrightarrow> c < 256 \<and> 0x20 \<le> c"

definition ascii_bytes :: "rtext \<Rightarrow> bytes" where
  "ascii_bytes s = map byte_of (filter printable s)"

definition write_ascii :: "bytes \<Rightarrow> nat \<Rightarrow> rtext \<Rightarrow> nat \<Rightarrow> u8 \<Rightarrow> bytes" where
  "write_ascii data offset s max_len eos =
     (let bs = take max_len (ascii_bytes s); data = set_bytes data offset bs
      in if length bs < max_len then set_u8 data (offset + length bs) eos else data)"

text \<open>UTF-16 of the Rust library: \<open>encode_utf16\<close> and \<open>String::from_utf16_lossy\<close>.\<close>

definition utf16_char :: "nat \<Rightarrow> u16 list" where
  "utf16_char c =
     (if c < 0x10000 then [of_nat c]
      else [of_nat (0xD800 + (c - 0x10000) div 0x400), of_nat (0xDC00 + (c - 0x10000) mod 0x400)])"

definition encode_utf16 :: "rtext \<Rightarrow> u16 list" where
  "encode_utf16 s = concat (map utf16_char s)"

definition high_surrogate :: "u16 \<Rightarrow> bool" where
  "high_surrogate u \<longleftrightarrow> 0xD800 \<le> unat u \<and> unat u < 0xDC00"

definition low_surrogate :: "u16 \<Rightarrow> bool" where
  "low_surrogate u \<longleftrightarrow> 0xDC00 \<le> unat u \<and> unat u < 0xE000"

fun from_utf16_lossy :: "u16 list \<Rightarrow> rtext" where
  "from_utf16_lossy [] = []"
| "from_utf16_lossy [u] = [if high_surrogate u \<or> low_surrogate u then 0xFFFD else unat u]"
| "from_utf16_lossy (u # v # us) =
     (if high_surrogate u \<and> low_surrogate v
      then (0x10000 + (unat u - 0xD800) * 0x400 + (unat v - 0xDC00)) # from_utf16_lossy us
      else (if high_surrogate u \<or> low_surrogate u then 0xFFFD else unat u) # from_utf16_lossy (v # us))"

fun units_until :: "bytes \<Rightarrow> nat \<Rightarrow> nat list \<Rightarrow> u16 list" where
  "units_until data offset [] = []"
| "units_until data offset (i # is_rest) =
     (let unit = get_u16_le data (offset + i * 2)
      in if unit = 0 \<or> unit = 0xFFFF then [] else unit # units_until data offset is_rest)"

definition read_utf16 :: "bytes \<Rightarrow> nat \<Rightarrow> nat \<Rightarrow> rtext" where
  "read_utf16 data offset max_units = trim (from_utf16_lossy (units_until data offset [0..<max_units]))"

fun set_units :: "bytes \<Rightarrow> nat \<Rightarrow> u16 list \<Rightarrow> bytes" where
  "set_units data offset [] = data"
| "set_units data offset (u # us) = set_units (set_u16_le data offset u) (offset + 2) us"

definition write_utf16 :: "bytes \<Rightarrow> nat \<Rightarrow> rtext \<Rightarrow> nat \<Rightarrow> bytes" where
  "write_utf16 data offset s max_units =
     (let us = take max_units (encode_utf16 s); data = set_units data offset us
      in if length us < max_units then set_u16_le data (offset + length us * 2) 0 else data)"

definition is_erased :: "bytes \<Rightarrow> bool" where
  "is_erased data \<longleftrightarrow> (\<forall>b \<in> set data. b = 0xFF) \<or> (\<forall>b \<in> set data. b = 0)"

definition is_blank :: "bytes \<Rightarrow> bool" where
  "is_blank data \<longleftrightarrow> (\<forall>b \<in> set data. b = 0 \<or> b = 0xFF)"

section \<open>What a write leaves\<close>

lemma length_set [simp]:
  "length (set_u8 data i v) = length data"
  "length (set_bytes data i bs) = length data"
  by (simp add: set_u8_def) (induction data i bs rule: set_bytes.induct, simp_all add: set_u8_def)

lemma length_set_fields [simp]:
  "length (set_u16_le data i w) = length data"
  "length (set_u32_le data i x) = length data"
  "length (set_u32_be data i x) = length data"
  "length (set_bit data i b v) = length data"
  "length (set_bits data i b n y) = length data"
  by (simp_all add: set_u16_le_def set_u32_le_def set_u32_be_def set_bit_def set_bits_def Let_def)

lemma get_set_u8: "get_u8 (set_u8 data i v) j = (if i = j \<and> i < length data then v else get_u8 data j)"
  by (simp add: get_u8_def set_u8_def)

lemma get_set_bytes:
  "get_u8 (set_bytes data i bs) j =
     (if i \<le> j \<and> j < i + length bs \<and> j < length data then bs ! (j - i) else get_u8 data j)"
proof (induction data i bs rule: set_bytes.induct)
  case (2 data offset b bs)
  have "(b # bs) ! (j - offset) = bs ! (j - Suc offset)" if "Suc offset \<le> j"
  proof -
    have "j - offset = Suc (j - Suc offset)" using that by simp
    then show ?thesis by simp
  qed
  with 2 show ?case by (cases "offset = j") (simp_all add: get_set_u8)
qed auto

lemma set_u16_le_bytes: "set_u16_le data i w = set_bytes data i (le16 w)"
  by (simp add: set_u16_le_def le16_def be16_def Let_def)

lemma get_set_u16_le: "i + 2 \<le> length data \<Longrightarrow> get_u16_le (set_u16_le data i w) i = w"
  by (simp add: get_u16_le_def set_u16_le_bytes get_set_u8 le16_def be16_def)









section \<open>Packed decimal\<close>


fun digits_pack :: "nat \<Rightarrow> nat \<Rightarrow> nat" where
  "digits_pack 0 v = 0"
| "digits_pack (Suc k) v = v mod 10 + 16 * digits_pack k (v div 10)"

lemma digits_pack_less: "digits_pack k v < 16 ^ k"
proof (induction k arbitrary: v)
  case (Suc k)
  have "v mod 10 < 16" by simp
  moreover have "digits_pack k (v div 10) + 1 \<le> 16 ^ k" using Suc [of "v div 10"] by simp
  ultimately show ?case by simp
qed simp












section \<open>Text\<close>

lemma takeWhile_stop: "\<not> P y \<Longrightarrow> takeWhile P (xs @ y # ys) = takeWhile P xs"
  by (induction xs) simp_all

lemma takeWhile_cut:
  assumes "take (length bs) xs = bs" "length bs < length xs \<Longrightarrow> \<not> P (xs ! length bs)"
  shows "takeWhile P xs = takeWhile P bs"
proof (cases "length bs < length xs")
  case True
  have "xs = take (length bs) xs @ xs ! length bs # drop (Suc (length bs)) xs" using True by (rule id_take_nth_drop)
  also have "\<dots> = bs @ xs ! length bs # drop (Suc (length bs)) xs" by (simp only: assms(1))
  finally have "takeWhile P xs = takeWhile P (bs @ xs ! length bs # drop (Suc (length bs)) xs)" by simp
  also have "\<dots> = takeWhile P bs" using takeWhile_stop [of P "xs ! length bs" bs] assms(2) [OF True] by simp
  finally show ?thesis .
qed (use assms(1) in simp)

lemma ascii_until_takeWhile:
  "ascii_until data offset is eos = map unat (takeWhile (\<lambda>b. b \<noteq> 0 \<and> b \<noteq> eos) (map (\<lambda>i. get_u8 data (offset + i)) is))"
  by (induction data offset "is" eos rule: ascii_until.induct) (auto simp: Let_def)

lemma units_until_takeWhile:
  "units_until data offset is = takeWhile (\<lambda>u. u \<noteq> 0 \<and> u \<noteq> 0xFFFF) (map (\<lambda>i. get_u16_le data (offset + i * 2)) is)"
  by (induction data offset "is" rule: units_until.induct) (auto simp: Let_def)

lemma length_write_ascii [simp]: "length (write_ascii data offset s n eos) = length data"
  by (simp add: write_ascii_def Let_def)

lemma get_write_ascii:
  "get_u8 (write_ascii data offset s n eos) j =
     (let bs = take n (ascii_bytes s)
      in if offset \<le> j \<and> j < offset + length bs \<and> j < length data then bs ! (j - offset)
         else if length bs < n \<and> j = offset + length bs \<and> j < length data then eos else get_u8 data j)"
  by (simp add: write_ascii_def Let_def get_set_u8 get_set_bytes)

lemma ascii_kept: "takeWhile (\<lambda>b. b \<noteq> 0 \<and> b \<noteq> eos) (take n (ascii_bytes s)) = map byte_of
    (takeWhile (\<lambda>c. c \<noteq> unat eos) (take n (filter printable s)))"
proof -
  have "takeWhile (\<lambda>b. b \<noteq> 0 \<and> b \<noteq> eos) (map byte_of cs) = map byte_of (takeWhile (\<lambda>c. c \<noteq> unat eos) cs)"
    if "\<forall>c \<in> set cs. printable c" for cs
    using that
  proof (induction cs)
    case (Cons c cs)
    then have c: "unat (byte_of c) = c" "c \<noteq> 0" by (auto simp: printable_def)
    have "byte_of c \<noteq> 0" using c by (metis unat_0)
    moreover have "byte_of c = eos \<longleftrightarrow> c = unat eos" using c(1) by auto
    ultimately have "byte_of c \<noteq> 0" "byte_of c = eos \<longleftrightarrow> c = unat eos" .
    with Cons show ?case by simp
  qed simp
  moreover have "\<forall>c \<in> set (take n (filter printable s)). printable c"
    using set_take_subset [of n "filter printable s"] by auto
  ultimately show ?thesis by (simp only: ascii_bytes_def take_map)
qed

lemma read_write_ascii:
  assumes "offset + n \<le> length data"
  shows "read_ascii (write_ascii data offset s n eos) offset n eos =
    trim (takeWhile (\<lambda>c. c \<noteq> unat eos) (take n (filter printable s)))"
proof -
  define bs where "bs = take n (ascii_bytes s)"
  let ?L = "map (\<lambda>i. get_u8 (write_ascii data offset s n eos) (offset + i)) [0..<n]"
  have n: "length bs \<le> n" by (simp add: bs_def)
  have L: "?L ! i = (if i < length bs then bs ! i else if i = length bs then eos else get_u8 data (offset + i))" if "i < n" for i
    using that assms n by (auto simp: get_write_ascii Let_def bs_def [symmetric])
  have "take (length bs) ?L = bs"
  proof (rule nth_equalityI)
    show "take (length bs) ?L ! i = bs ! i" if "i < length (take (length bs) ?L)" for i
      using that n L [of i] by (simp del: nth_map)
  qed (use n in simp)
  moreover have "?L ! length bs = eos" if "length bs < length ?L" using that L [of "length bs"] by simp
  ultimately have "takeWhile (\<lambda>b. b \<noteq> 0 \<and> b \<noteq> eos) ?L = takeWhile (\<lambda>b. b \<noteq> 0 \<and> b \<noteq> eos) bs"
    using takeWhile_cut [of bs ?L "\<lambda>b. b \<noteq> 0 \<and> b \<noteq> eos"] by blast
  then have "ascii_until (write_ascii data offset s n eos) offset [0..<n] eos =
      map unat (map byte_of (takeWhile (\<lambda>c. c \<noteq> unat eos) (take n (filter printable s))))"
    by (simp only: ascii_until_takeWhile ascii_kept bs_def)
  also have "\<dots> = takeWhile (\<lambda>c. c \<noteq> unat eos) (take n (filter printable s))"
  proof -
    let ?cs = "takeWhile (\<lambda>c. c \<noteq> unat eos) (take n (filter printable s))"
    have "c < 256" if c: "c \<in> set ?cs" for c
      using set_takeWhileD [OF c] set_take_subset [of n "filter printable s"] by (auto simp: printable_def)
    then have "\<And>c. c \<in> set ?cs \<Longrightarrow> (unat \<circ> byte_of) c = c" by simp
    then show ?thesis unfolding map_map by (rule map_idI)
  qed
  finally show ?thesis by (simp only: read_ascii_def)
qed

text \<open>UTF-16: the units written are the units read, and whole characters survive.\<close>

lemma get_u8_set_units:
  "get_u8 (set_units data offset us) j = get_u8 data j" if "j < offset \<or> offset + 2 * length us \<le> j"
  using that
proof (induction data offset us rule: set_units.induct)
  case (2 data offset u us)
  then show ?case by (auto simp: set_u16_le_bytes get_set_u8 le16_def be16_def)
qed simp

lemma length_set_units [simp]: "length (set_units data offset us) = length data"
  by (induction data offset us rule: set_units.induct) simp_all

lemma get_set_units:
  "offset + 2 * length us \<le> length data \<Longrightarrow> i < length us \<Longrightarrow> get_u16_le (set_units data offset us) (offset + i * 2) = us ! i"
proof (induction data offset us arbitrary: i rule: set_units.induct)
  case (2 data offset u us)
  show ?case
  proof (cases i)
    case 0
    have "get_u16_le (set_units (set_u16_le data offset u) (offset + 2) us) offset = get_u16_le (set_u16_le data offset u) offset"
      by (simp add: get_u16_le_def get_u8_set_units)
    with 0 2(2) show ?thesis by (simp add: get_set_u16_le)
  next
    case (Suc k)
    with 2(1) [of k] 2(2,3) show ?thesis by (simp add: add.assoc)
  qed
qed simp

lemma length_write_utf16 [simp]: "length (write_utf16 data offset s n) = length data"
  by (simp add: write_utf16_def Let_def)

lemma units_write_utf16:
  assumes "offset + 2 * n \<le> length data"
  shows "units_until (write_utf16 data offset s n) offset [0..<n] =
    takeWhile (\<lambda>u. u \<noteq> 0 \<and> u \<noteq> 0xFFFF) (take n (encode_utf16 s))"
proof -
  define us where "us = take n (encode_utf16 s)"
  let ?L = "map (\<lambda>i. get_u16_le (write_utf16 data offset s n) (offset + i * 2)) [0..<n]"
  have n: "length us \<le> n" by (simp add: us_def)
  have d: "write_utf16 data offset s n =
      (if length us < n then set_u16_le (set_units data offset us) (offset + length us * 2) 0 else set_units data offset us)"
    by (simp add: write_utf16_def us_def Let_def)
  have units: "?L ! i = us ! i" if "i < length us" for i
  proof -
    have "get_u16_le (set_units data offset us) (offset + i * 2) = us ! i" using assms n that by (intro get_set_units) simp_all
    moreover have "get_u16_le (set_u16_le e (offset + length us * 2) 0) (offset + i * 2) = get_u16_le e (offset + i * 2)" for e
      using that by (auto simp: get_u16_le_def set_u16_le_bytes get_set_u8 le16_def be16_def)
    ultimately show ?thesis using that n by (simp add: d)
  qed
  have "take (length us) ?L = us"
  proof (rule nth_equalityI)
    show "take (length us) ?L ! i = us ! i" if "i < length (take (length us) ?L)" for i
      using that n units [of i] by (simp del: nth_map)
  qed (use n in simp)
  moreover have "?L ! length us = 0" if "length us < length ?L"
    using that assms by (simp add: d get_set_u16_le)
  ultimately have "takeWhile (\<lambda>u. u \<noteq> 0 \<and> u \<noteq> 0xFFFF) ?L = takeWhile (\<lambda>u. u \<noteq> 0 \<and> u \<noteq> 0xFFFF) us"
    using takeWhile_cut [of us ?L "\<lambda>u. u \<noteq> 0 \<and> u \<noteq> 0xFFFF"] by blast
  then show ?thesis by (simp only: units_until_takeWhile us_def)
qed

lemma unat_of_nat_16: "n < 2 ^ 16 \<Longrightarrow> unat (of_nat n :: u16) = n"
  by (simp add: unat_of_nat take_bit_nat_eq_self)

lemma plain_unit:
  assumes "scalar c" "c < 0x10000"
  shows "unat (of_nat c :: u16) = c" "\<not> high_surrogate (of_nat c)" "\<not> low_surrogate (of_nat c)"
  using assms unat_of_nat_16 [of c] by (auto simp: scalar_def high_surrogate_def low_surrogate_def)

lemma from_utf16_lossy_char: "scalar c \<Longrightarrow> from_utf16_lossy (utf16_char c @ us) = c # from_utf16_lossy us"
proof (cases "c < 0x10000")
  case True
  assume "scalar c"
  with True plain_unit [of c] show ?thesis by (cases us) (simp_all add: utf16_char_def)
next
  case False
  assume "scalar c"
  define h l where "h = (c - 0x10000) div 0x400" and "l = (c - 0x10000) mod 0x400"
  have "c - 0x10000 < 0x100000" using \<open>scalar c\<close> False by (auto simp: scalar_def)
  then have "h < 0x400" "l < 0x400" by (simp_all add: h_def l_def less_mult_imp_div_less)
  moreover from this have u: "unat (of_nat (0xD800 + h) :: u16) = 0xD800 + h" "unat (of_nat (0xDC00 + l) :: u16) = 0xDC00 + l"
    by (intro unat_of_nat_16; simp)+
  moreover have "utf16_char c = [of_nat (0xD800 + h), of_nat (0xDC00 + l)]" using False by (simp only: utf16_char_def h_def l_def if_False)
  moreover have "0x10000 + h * 0x400 + l = c"
    using False div_mult_mod_eq [of "c - 0x10000" "0x400"] unfolding h_def l_def by linarith
  ultimately show ?thesis by (simp only: append_Cons append_Nil from_utf16_lossy.simps) (simp only: u high_surrogate_def low_surrogate_def, simp)
qed

lemma from_utf16_lossy_encode: "scalars s \<Longrightarrow> from_utf16_lossy (encode_utf16 s) = s"
  by (induction s) (simp_all add: encode_utf16_def from_utf16_lossy_char)

text \<open>No unit ends the text before its time when no character is U+0000 or U+FFFF.\<close>

lemma utf16_char_units: "scalar c \<Longrightarrow> c \<noteq> 0 \<Longrightarrow> c \<noteq> 0xFFFF \<Longrightarrow> u \<in> set (utf16_char c) \<Longrightarrow> u \<noteq> 0 \<and> u \<noteq> 0xFFFF"
proof -
  assume c: "scalar c" "c \<noteq> 0" "c \<noteq> 0xFFFF" and u: "u \<in> set (utf16_char c)"
  have ends: "(0 :: u16) = of_nat 0" "(0xFFFF :: u16) = of_nat 0xFFFF" by simp_all
  have "\<exists>n. u = of_nat n \<and> n < 2 ^ 16 \<and> n \<noteq> 0 \<and> n \<noteq> 0xFFFF"
  proof (cases "c < 0x10000")
    case True
    with c u show ?thesis by (intro exI [of _ c]) (simp add: utf16_char_def)
  next
    case False
    have "(c - 0x10000) div 0x400 < 0x400" using c(1) False by (intro less_mult_imp_div_less) (auto simp: scalar_def)
    moreover have "(c - 0x10000) mod 0x400 < 0x400" by simp
    moreover have "u = of_nat (0xD800 + (c - 0x10000) div 0x400) \<or> u = of_nat (0xDC00 + (c - 0x10000) mod 0x400)"
      using u False by (simp only: utf16_char_def if_False) auto
    ultimately consider "u = of_nat (0xD800 + (c - 0x10000) div 0x400)" "(c - 0x10000) div 0x400 < 0x400"
      | "u = of_nat (0xDC00 + (c - 0x10000) mod 0x400)" "(c - 0x10000) mod 0x400 < 0x400" by blast
    then show ?thesis
    proof cases
      case 1
      then show ?thesis by (intro exI [of _ "0xD800 + (c - 0x10000) div 0x400"]) simp
    next
      case 2
      define l where "l = (c - 0x10000) mod 0x400"
      from 2 have "u = of_nat (0xDC00 + l)" "l < 0x400" by (simp_all only: l_def)
      then show ?thesis by (intro exI [of _ "0xDC00 + l"]) simp
    qed
  qed
  then obtain n where n: "u = of_nat n" "n < 2 ^ 16" "n \<noteq> 0" "n \<noteq> 0xFFFF" by blast
  then have "unat u = n" by (simp only: unat_of_nat_16)
  with n(3,4) show "u \<noteq> 0 \<and> u \<noteq> 0xFFFF" by auto
qed

lemma encode_utf16_units: "scalars s \<Longrightarrow> 0 \<notin> set s \<Longrightarrow> 0xFFFF \<notin> set s \<Longrightarrow> u \<in> set (encode_utf16 s) \<Longrightarrow> u \<noteq> 0 \<and> u \<noteq> 0xFFFF"
proof (induction s)
  case (Cons c s)
  then show ?case using utf16_char_units [of c u] by (auto simp: encode_utf16_def)
qed (simp add: encode_utf16_def)

section \<open>Properties\<close>



text \<open>
  A name written into a record is read back up to what the record can hold: single-byte text
  keeps its printable characters up to U+00FF, cut to the field and at the terminator, and UTF-16
  text that fits in its field is kept whole; both lose only the white space at their ends.  The
  bytes outside the field are untouched.
\<close>

theorem cps_text_roundtrip:
  assumes "offset + n \<le> length data" "at + 2 * units \<le> length data"
    and "scalars s" "0 \<notin> set s" "0xFFFF \<notin> set s" "length (encode_utf16 s) \<le> units"
  shows "read_ascii (write_ascii data offset t n eos) offset n eos =
      trim (takeWhile (\<lambda>c. c \<noteq> unat eos) (take n (filter printable t))) \<and>
    read_utf16 (write_utf16 data at s units) at units = trim s \<and>
    (j < offset \<or> offset + n \<le> j \<longrightarrow> get_u8 (write_ascii data offset t n eos) j = get_u8 data j) \<and>
    (j < at \<or> at + 2 * units \<le> j \<longrightarrow> get_u8 (write_utf16 data at s units) j = get_u8 data j)"
proof (intro conjI impI)
  show "read_ascii (write_ascii data offset t n eos) offset n eos =
      trim (takeWhile (\<lambda>c. c \<noteq> unat eos) (take n (filter printable t)))" using assms(1) by (rule read_write_ascii)
  have "takeWhile (\<lambda>u. u \<noteq> 0 \<and> u \<noteq> 0xFFFF) (encode_utf16 s) = encode_utf16 s"
    using encode_utf16_units [OF assms(3-5)] by (simp add: takeWhile_eq_all_conv)
  then show "read_utf16 (write_utf16 data at s units) at units = trim s"
    using assms(6) by (simp only: read_utf16_def units_write_utf16 [OF assms(2)] take_all from_utf16_lossy_encode [OF assms(3)])
  show "get_u8 (write_ascii data offset t n eos) j = get_u8 data j" if "j < offset \<or> offset + n \<le> j"
    using that by (auto simp: get_write_ascii Let_def)
  show "get_u8 (write_utf16 data at s units) j = get_u8 data j" if "j < at \<or> at + 2 * units \<le> j"
    using that assms(6)
    by (auto simp: write_utf16_def Let_def get_u8_set_units set_u16_le_bytes get_set_u8 le16_def be16_def)
qed

theorem cps_text_roundtrip_witness:
  "read_ascii (write_ascii (replicate 8 0xFF) 1 (chars ''TG 91'') 6 0) 1 6 0 = chars ''TG 91'' \<and>
   read_utf16 (write_utf16 (replicate 8 0xFF) 0 [0x1F4FB, 0x41] 4) 0 4 = [0x1F4FB, 0x41]"
proof -
  have "length (encode_utf16 [0x1F4FB, 0x41]) \<le> 4" by (simp add: encode_utf16_def utf16_char_def)
  then show ?thesis
    using cps_text_roundtrip [of 1 6 "replicate 8 0xFF" 0 4 "[0x1F4FB, 0x41]" "chars ''TG 91''" 0]
    by (simp add: scalar_def chars_def printable_def trim_def whitespace_def)
qed

end
