(* ===== verification/Cps_Transfer.thy ===== *)
theory Cps_Transfer
  imports Cps_Image Cps_Bits
begin

text \<open>
  The transfer of a codeplug image from and to a radio (\<open>crates/cps/src/transfer.rs\<close>, with the parts of
  \<open>model.rs\<close> it uses).  A session is any state with a read and a write operation, and \<open>cancelled k\<close> is
  what the control says the k-th time it is asked; what a transfer reports is a list.
\<close>

section \<open>Transfers\<close>

datatype CpsError =
    UnknownModel string
  | Transport string
  | CpsTimeout nat nat
  | CpsProtocol string string
  | ModelMismatch string rtext
  | MissingRegion nat nat
  | Codeplug string
  | Cancelled

text \<open>A progress report: its step, the bytes done and the bytes in all.\<close>

type_synonym Progress = "string \<times> nat \<times> nat"

definition chunk_size :: "RegionKind \<Rightarrow> nat \<Rightarrow> nat" where
  "chunk_size kind block =
     (case kind of
        Sparse stride _ \<Rightarrow> if 0 < stride then (stride + block - 1) div block * block else block
      | Fixed \<Rightarrow> block)"

section \<open>Reading\<close>

definition transfer_bytes :: "Region list \<Rightarrow> nat" where
  "transfer_bytes regions = sum_list (map region_len regions)"

definition blank_image :: "u8 \<Rightarrow> Region list \<Rightarrow> Image" where
  "blank_image erased regions = fold (\<lambda>r img. allocate (region_addr r) (region_len r) erased img) regions []"

text \<open>The loop over one region; the read operation takes the buffer and returns it filled.\<close>

partial_function (option) read_region ::
  "(nat \<Rightarrow> bytes \<Rightarrow> 's \<Rightarrow> 's \<times> (CpsError + bytes)) \<Rightarrow> (nat \<Rightarrow> bool) \<Rightarrow> u8 \<Rightarrow> nat \<Rightarrow> nat \<Rightarrow> Region
   \<Rightarrow> nat \<Rightarrow> nat \<Rightarrow> nat \<Rightarrow> nat \<Rightarrow> Image \<Rightarrow> 's \<Rightarrow> Progress list
   \<Rightarrow> ('s \<times> Progress list \<times> (CpsError + nat \<times> nat \<times> Image)) option" where
  "read_region rd cancelled erased whole chunk region k empty_run offset fin img s reports =
     (if region_len region \<le> offset then Some (s, reports, Inr (k, fin, img))
      else if cancelled k then Some (s, reports, Inl Cancelled)
      else
        let n = min chunk (region_len region - offset);
            addr = region_addr region + offset;
            img = allocate addr n erased img
        in case segment_for addr n img of
             None \<Rightarrow> Some (s, reports, Inl (MissingRegion addr n))
           | Some (start, segment) \<Rightarrow>
               (case rd addr (take n (drop (addr - start) segment)) s of
                  (s', Inl e) \<Rightarrow> Some (s', reports, Inl e)
                | (s', Inr slot) \<Rightarrow>
                    (let img = overwrite addr slot (start, segment) img;
                         reports = reports @ [(region_name region, fin + n, whole)]
                     in case region_kind region of
                          Fixed \<Rightarrow>
                            read_region rd cancelled erased whole chunk region (Suc k) empty_run (offset + n) (fin + n) img s' reports
                        | Sparse stride stop_after_empty \<Rightarrow>
                            (let empty_run = (if is_erased slot then empty_run + 1 else 0)
                             in if stop_after_empty \<le> empty_run
                                then Some (s', reports, Inr (Suc k, fin + n + (region_len region - (offset + n)), img))
                                else read_region rd cancelled erased whole chunk region (Suc k) empty_run (offset + n) (fin + n)
                                       img s' reports))))"

fun read_regions ::
  "(nat \<Rightarrow> bytes \<Rightarrow> 's \<Rightarrow> 's \<times> (CpsError + bytes)) \<Rightarrow> (nat \<Rightarrow> bool) \<Rightarrow> u8 \<Rightarrow> nat \<Rightarrow> nat \<Rightarrow> Region list
   \<Rightarrow> nat \<Rightarrow> nat \<Rightarrow> Image \<Rightarrow> 's \<Rightarrow> Progress list \<Rightarrow> ('s \<times> Progress list \<times> (CpsError + Image)) option" where
  "read_regions rd cancelled erased whole block [] k fin img s reports =
     Some (s, reports @ [(''done'', whole, whole)], Inr img)"
| "read_regions rd cancelled erased whole block (region # regions) k fin img s reports =
     (case read_region rd cancelled erased whole (chunk_size (region_kind region) block) region k 0 0 fin img s reports of
        None \<Rightarrow> None
      | Some (s', reports', Inl e) \<Rightarrow> Some (s', reports', Inl e)
      | Some (s', reports', Inr (k', fin', img')) \<Rightarrow>
          read_regions rd cancelled erased whole block regions k' fin' img' s' reports')"

definition transfer_read ::
  "(nat \<Rightarrow> bytes \<Rightarrow> 's \<Rightarrow> 's \<times> (CpsError + bytes)) \<Rightarrow> (nat \<Rightarrow> bool) \<Rightarrow> nat \<Rightarrow> u8 \<Rightarrow> Region list \<Rightarrow> 's
   \<Rightarrow> ('s \<times> Progress list \<times> (CpsError + Image)) option" where
  "transfer_read rd cancelled block_size erased regions s =
     read_regions rd cancelled erased (transfer_bytes regions) (max block_size 1) regions 0 0 [] s []"

section \<open>One chunk\<close>

lemma floor_seg_in:
  assumes "image_ok segs" "(s, d) \<in> set segs" "s \<le> a" "a < s + length d"
  shows "floor_seg a segs = Some (s, d)"
proof -
  have "floor_seg a segs \<noteq> None" using floor_None [of a segs s d] assms(2,3) by fastforce
  then obtain t e where f: "floor_seg a segs = Some (t, e)" by fastforce
  then have t: "(t, e) \<in> set segs" "t \<le> a" using floor_seg_Some by auto
  have "s \<le> t" using floor_max [OF f assms(1,2,3)] .
  moreover have "\<not> s < t" using image_ok_apart [OF assms(1,2) t(1)] assms(4) t(2) by auto
  ultimately have "t = s" by simp
  with f keys_distinct [OF assms(1,2), of e] t(1) show ?thesis by simp
qed

lemma segment_for_in:
  assumes "image_ok segs" "(s, d) \<in> set segs" "s \<le> addr" "addr + n \<le> s + length d" "0 < n"
  shows "segment_for addr n segs = Some (s, d)"
  using floor_seg_in [OF assms(1-3)] assms(3-5) by (simp add: segment_for_def)

text \<open>An allocated range is there to be written, in one segment, and no segment is empty.\<close>

lemma allocate_present:
  assumes "image_ok segs" "clear addr n segs" "0 < n"
  shows "segment_for addr n (allocate addr n fill segs) \<noteq> None"
proof -
  have ok: "image_ok (allocate addr n fill segs)" using allocate_spec(1) [OF assms(1,2)] .
  have new: ?thesis if "allocate addr n fill segs = insert_seg addr (replicate n fill) segs"
    using segment_for_in [OF ok, of addr "replicate n fill" addr n] assms(3) by (simp add: that set_insert_seg [OF assms(1)])
  have grown: ?thesis
    if "s \<le> addr" "allocate addr n fill segs = insert_seg s (resize (addr - s + n) fill d) segs" for s d
    using segment_for_in [OF ok, of s "resize (addr - s + n) fill d" addr n] assms(3) that(1)
    by (simp add: that(2) set_insert_seg [OF assms(1)] resize_def)
  show ?thesis
  proof (cases "get addr n segs = None")
    case False
    then show ?thesis by (auto simp: allocate_def get_def)
  next
    case True
    show ?thesis
    proof (cases "floor_seg addr segs")
      case None
      with True assms(3) show ?thesis by (intro new) (simp add: allocate_def)
    next
      case (Some sd)
      obtain s d where sd: "sd = (s, d)" by (cases sd)
      have "s \<le> addr" using floor_seg_Some [OF Some [unfolded sd]] by simp
      moreover have "allocate addr n fill segs = insert_seg s (resize (addr - s + n) fill d) segs \<or>
          allocate addr n fill segs = insert_seg addr (replicate n fill) segs"
        using Some sd True assms(3) by (simp add: allocate_def Let_def)
      ultimately show ?thesis using new grown by blast
    qed
  qed
qed

definition full :: "Image \<Rightarrow> bool" where
  "full segs \<longleftrightarrow> (\<forall>(s, d) \<in> set segs. d \<noteq> [])"

lemma full_insert: "full segs \<Longrightarrow> d \<noteq> [] \<Longrightarrow> image_ok segs \<Longrightarrow> full (insert_seg s d segs)"
  by (auto simp: full_def set_insert_seg)

lemma allocate_full:
  assumes "image_ok segs" "full segs" "0 < n"
  shows "full (allocate addr n fill segs)"
proof -
  have "full (insert_seg s (resize (m + n) fill d) segs)" for s m d
    using assms by (intro full_insert) (auto simp: resize_def)
  moreover have "full (insert_seg addr (replicate n fill) segs)" using assms by (intro full_insert) auto
  ultimately show ?thesis using assms(2) by (simp add: allocate_def Let_def split: option.splits)
qed

text \<open>
  The image of a memory \<open>R\<close> as far as it has been read: the bytes of the addresses in \<open>D\<close>.
\<close>

definition image_of :: "(nat \<Rightarrow> u8) \<Rightarrow> nat set \<Rightarrow> Image \<Rightarrow> bool" where
  "image_of R D img \<longleftrightarrow> image_ok img \<and> full img \<and> (\<forall>a. mem img a = (if a \<in> D then Some (R a) else None))"

lemma image_of_clear:
  assumes "image_of R D img" "\<forall>a. addr \<le> a \<and> a < addr + n \<longrightarrow> a \<notin> D" "addr + n < 2 ^ 32"
  shows "clear addr n img"
proof -
  have "addr + n \<le> s" if "(s, d) \<in> set img" "addr < s" for s d
  proof (rule ccontr)
    assume "\<not> addr + n \<le> s"
    with that(2) assms(2) have "s \<notin> D" by simp
    moreover have "d \<noteq> []" using assms(1) that(1) by (auto simp: image_of_def full_def)
    then have "mem img s = Some (d ! 0)" using mem_in [of img s d s] assms(1) that(1) by (simp add: image_of_def)
    ultimately show False using assms(1) by (simp add: image_of_def)
  qed
  then show ?thesis using assms(3) by (auto simp: clear_def)
qed

lemma image_of_step:
  assumes "image_of R D img" "\<forall>a. addr \<le> a \<and> a < addr + n \<longrightarrow> a \<notin> D" "addr + n < 2 ^ 32" "0 < n"
  obtains s d where "segment_for addr n (allocate addr n fill img) = Some (s, d)"
    and "length (take n (drop (addr - s) d)) = n"
    and "image_of R (D \<union> {addr..<addr + n}) (overwrite addr (map R [addr..<addr + n]) (s, d) (allocate addr n fill img))"
proof -
  let ?img = "allocate addr n fill img" and ?new = "map R [addr..<addr + n]"
  have ok: "image_ok img" "full img" using assms(1) by (simp_all add: image_of_def)
  have cl: "clear addr n img" using image_of_clear [OF assms(1-3)] .
  note alloc = allocate_spec [OF ok(1) cl, of fill]
  obtain s d where seg: "segment_for addr n ?img = Some (s, d)" using allocate_present [OF ok(1) cl assms(4), of fill] by auto
  then have seg': "segment_for addr (length ?new) ?img = Some (s, d)" by simp
  note over = overwrite_mem [OF alloc(1) seg']
  have sd: "(s, d) \<in> set ?img" "s \<le> addr" "addr + n \<le> s + length d" using segment_for_Some [OF seg] by auto
  have len: "length (take (addr - s) d @ ?new @ drop (addr - s + length ?new) d) = length d" using sd by simp
  have "d \<noteq> []" using sd assms(4) by auto
  then have "take (addr - s) d @ ?new @ drop (addr - s + length ?new) d \<noteq> []" using assms(4) by simp
  then have "full (overwrite addr ?new (s, d) ?img)"
    unfolding overwrite_def using allocate_full [OF ok assms(4)] alloc(1) by (simp add: full_insert)
  moreover have "mem (overwrite addr ?new (s, d) ?img) a = (if a \<in> D \<union> {addr..<addr + n} then Some (R a) else None)" for a
  proof (cases "addr \<le> a \<and> a < addr + n")
    case True
    then have "a - addr < n" "addr + (a - addr) = a" by linarith+
    then have "?new ! (a - addr) = R a" by simp
    with True over(2) [of a] show ?thesis by simp
  next
    case False
    have "mem ?img a = (if a \<in> D then Some (R a) else None)"
      using False alloc(2) [of a] assms(1) by (auto simp: image_of_def)
    with False over(2) [of a] show ?thesis by auto
  qed
  ultimately have "image_of R (D \<union> {addr..<addr + n}) (overwrite addr ?new (s, d) ?img)"
    using over(1) by (simp add: image_of_def)
  with seg sd that show ?thesis by simp
qed

section \<open>One region\<close>

text \<open>A radio with the memory \<open>R\<close>: a read within the address space fills the buffer from it or fails.\<close>

definition reads :: "(nat \<Rightarrow> bytes \<Rightarrow> 's \<Rightarrow> 's \<times> (CpsError + bytes)) \<Rightarrow> (nat \<Rightarrow> u8) \<Rightarrow> bool" where
  "reads rd R \<longleftrightarrow> (\<forall>addr buf s. addr + length buf < 2 ^ 32 \<longrightarrow> (\<exists>s'. rd addr buf s = (s', Inr (map R [addr..<addr + length buf]))) \<or>
     (\<exists>s' e. rd addr buf s = (s', Inl e)))"

text \<open>
  How far a region is read: to its end, or, when it is sparse, to where enough chunks in a row were
  erased.
\<close>

definition chunk_erased :: "(nat \<Rightarrow> u8) \<Rightarrow> nat \<Rightarrow> Region \<Rightarrow> nat \<Rightarrow> bool" where
  "chunk_erased R chunk region i \<longleftrightarrow>
     is_erased (map R [region_addr region + i * chunk..<region_addr region + min (Suc i * chunk) (region_len region)])"

definition read_upto :: "(nat \<Rightarrow> u8) \<Rightarrow> nat \<Rightarrow> Region \<Rightarrow> nat \<Rightarrow> bool" where
  "read_upto R chunk region off \<longleftrightarrow> off = region_len region \<or>
     (\<exists>stride stop c. region_kind region = Sparse stride stop \<and> stop \<le> c \<and> off = min (c * chunk) (region_len region) \<and>
        (\<forall>i. c - stop \<le> i \<and> i < c \<longrightarrow> chunk_erased R chunk region i))"

text \<open>The state of the loop at the start of chunk \<open>c\<close>, with the addresses in \<open>D\<close> read before the region.\<close>

definition at_chunk :: "(nat \<Rightarrow> u8) \<Rightarrow> nat \<Rightarrow> Region \<Rightarrow> nat set \<Rightarrow> nat \<Rightarrow> nat \<Rightarrow> nat \<Rightarrow> Image \<Rightarrow> bool" where
  "at_chunk R chunk region D c empty_run offset img \<longleftrightarrow>
     offset = min (c * chunk) (region_len region) \<and> empty_run \<le> c \<and> (region_kind region = Fixed \<longrightarrow> empty_run = 0) \<and>
     (\<forall>i. c - empty_run \<le> i \<and> i < c \<longrightarrow> chunk_erased R chunk region i) \<and>
     image_of R (D \<union> {region_addr region..<region_addr region + offset}) img"

lemma read_region_chunk:
  assumes "reads rd R" "0 < chunk" "region_addr region + region_len region < 2 ^ 32"
    and "\<forall>a \<in> D. \<not> (region_addr region \<le> a \<and> a < region_addr region + region_len region)"
    and "at_chunk R chunk region D c empty_run offset img" "offset < region_len region" "\<not> cancelled k"
  defines "n \<equiv> min chunk (region_len region - offset)"
  shows "(\<exists>addr buf s' e. rd addr buf s = (s', Inl e) \<and>
      read_region rd cancelled erased whole chunk region k empty_run offset fin img s reports = Some (s', reports, Inl e)) \<or>
    (\<exists>s' img'. image_of R (D \<union> {region_addr region..<region_addr region + (offset + n)}) img' \<and>
      read_region rd cancelled erased whole chunk region k empty_run offset fin img s reports =
       (case region_kind region of
          Fixed \<Rightarrow> read_region rd cancelled erased whole chunk region (Suc k) empty_run (offset + n) (fin + n) img' s'
            (reports @ [(region_name region, fin + n, whole)])
        | Sparse stride stop \<Rightarrow>
            (if stop \<le> (if chunk_erased R chunk region c then empty_run + 1 else 0)
             then Some (s', reports @ [(region_name region, fin + n, whole)],
               Inr (Suc k, fin + n + (region_len region - (offset + n)), img'))
             else read_region rd cancelled erased whole chunk region (Suc k) (if chunk_erased R chunk region c then empty_run + 1 else 0)
               (offset + n) (fin + n) img' s' (reports @ [(region_name region, fin + n, whole)]))))"
proof -
  let ?len = "region_len region"
  have c: "offset = c * chunk" and img: "image_of R (D \<union> {region_addr region..<region_addr region + offset}) img"
    using assms(5,6) by (auto simp: at_chunk_def)
  define addr where "addr = region_addr region + offset"
  have n: "0 < n" "offset + n \<le> ?len" "offset + n = min (Suc c * chunk) ?len" using assms(2,6) c by (auto simp: n_def)
  have fresh: "\<forall>a. addr \<le> a \<and> a < addr + n \<longrightarrow> a \<notin> D \<union> {region_addr region..<region_addr region + offset}"
    using assms(4) n(2) by (auto simp: addr_def)
  have space: "addr + n < 2 ^ 32" using assms(3) n(2) by (simp add: addr_def)
  then obtain start segment where seg: "segment_for addr n (allocate addr n erased img) = Some (start, segment)"
    and buf: "length (take n (drop (addr - start) segment)) = n"
    and img': "image_of R (D \<union> {region_addr region..<region_addr region + offset} \<union> {addr..<addr + n})
        (overwrite addr (map R [addr..<addr + n]) (start, segment) (allocate addr n erased img))"
    using image_of_step [OF img fresh _ n(1)] by blast
  have D: "D \<union> {region_addr region..<region_addr region + offset} \<union> {addr..<addr + n} =
      D \<union> {region_addr region..<region_addr region + (offset + n)}" by (auto simp: addr_def)
  have erased: "is_erased (map R [addr..<addr + n]) \<longleftrightarrow> chunk_erased R chunk region c"
    by (simp only: chunk_erased_def addr_def c [symmetric] n(3) [symmetric] add.assoc)
  let ?buf = "take n (drop (addr - start) segment)"
  note unfold1 = read_region.simps [of rd cancelled erased whole chunk region k empty_run offset fin img s reports,
      folded n_def addr_def, unfolded Let_def, folded n_def addr_def]
  consider s' where "rd addr ?buf s = (s', Inr (map R [addr..<addr + n]))" | s' e where "rd addr ?buf s = (s', Inl e)"
    using assms(1) [unfolded reads_def, rule_format, of addr ?buf s] space unfolding buf by blast
  then show ?thesis
  proof cases
    case (1 s')
    show ?thesis
      using img' [unfolded D] assms(6,7) seg 1 unfolding unfold1
      by (intro disjI2 exI [of _ s'] exI [of _ "overwrite addr (map R [addr..<addr + n]) (start, segment) (allocate addr n erased img)"])
         (simp add: erased)
  next
    case (2 s' e)
    with assms(6,7) seg show ?thesis unfolding unfold1
      by (intro disjI1 exI [of _ addr] exI [of _ ?buf] exI [of _ s'] exI [of _ e]) simp
  qed
qed

lemma at_chunk_next:
  assumes "at_chunk R chunk region D c empty_run offset img" "offset < region_len region"
    and "image_of R (D \<union> {region_addr region..<region_addr region + (offset + n)}) img'" "n = min chunk (region_len region - offset)"
    and "run = (if region_kind region = Fixed then empty_run else if chunk_erased R chunk region c then empty_run + 1 else 0)"
  shows "at_chunk R chunk region D (Suc c) run (offset + n) img'"
proof -
  have "offset + n = min (Suc c * chunk) (region_len region)" using assms(1,2,4) by (auto simp: at_chunk_def)
  moreover have old: "empty_run \<le> c" "region_kind region = Fixed \<longrightarrow> empty_run = 0"
    "\<forall>i. c - empty_run \<le> i \<and> i < c \<longrightarrow> chunk_erased R chunk region i"
    using assms(1) by (auto simp: at_chunk_def)
  then have "run \<le> Suc c" "region_kind region = Fixed \<longrightarrow> run = 0" using assms(5) by simp_all
  moreover have "chunk_erased R chunk region i" if i: "Suc c - run \<le> i" "i < Suc c" for i
  proof -
    have "run \<noteq> 0" using i by linarith
    then have "run = Suc empty_run" "chunk_erased R chunk region c" using assms(5) old(2) by (auto split: if_splits)
    with old(3) i show ?thesis by (cases "i = c") auto
  qed
  ultimately show ?thesis using assms(3) unfolding at_chunk_def by blast
qed

text \<open>What reading a region comes to, from an offset on: the reports it adds and its result.\<close>

definition region_read ::
  "(nat \<Rightarrow> bytes \<Rightarrow> 's \<Rightarrow> 's \<times> (CpsError + bytes)) \<Rightarrow> (nat \<Rightarrow> u8) \<Rightarrow> nat \<Rightarrow> nat \<Rightarrow> Region \<Rightarrow> nat set \<Rightarrow> nat \<Rightarrow> Progress list
   \<Rightarrow> ('s \<times> Progress list \<times> (CpsError + nat \<times> nat \<times> Image)) option \<Rightarrow> bool" where
  "region_read rd R whole chunk region D goal reports outcome \<longleftrightarrow>
     (\<exists>s' news result. outcome = Some (s', reports @ news, result) \<and>
        (\<forall>(step, d, t) \<in> set news. d \<le> goal \<and> t = whole) \<and>
        (case result of
           Inl e \<Rightarrow> e = Cancelled \<or> (\<exists>addr buf s s'. rd addr buf s = (s', Inl e))
         | Inr (k, fin, img) \<Rightarrow> fin = goal \<and>
             (\<exists>off. off \<le> region_len region \<and> read_upto R chunk region off \<and>
                image_of R (D \<union> {region_addr region..<region_addr region + off}) img)))"

lemma region_read_report:
  assumes "region_read rd R whole chunk region D goal (reports @ [(step, d, whole)]) outcome" "d \<le> goal"
  shows "region_read rd R whole chunk region D goal reports outcome"
proof -
  obtain s' news result where r: "outcome = Some (s', reports @ (step, d, whole) # news, result)"
    "\<forall>(step, d, t) \<in> set news. d \<le> goal \<and> t = whole"
    "case result of
           Inl e \<Rightarrow> e = Cancelled \<or> (\<exists>addr buf s s'. rd addr buf s = (s', Inl e))
         | Inr (k, fin, img) \<Rightarrow> fin = goal \<and>
             (\<exists>off. off \<le> region_len region \<and> read_upto R chunk region off \<and>
                image_of R (D \<union> {region_addr region..<region_addr region + off}) img)"
    using assms(1) by (auto simp: region_read_def)
  then show ?thesis unfolding region_read_def
    using assms(2) by (intro exI [of _ s'] exI [of _ "(step, d, whole) # news"] exI [of _ result]) simp
qed

lemma read_region_spec:
  assumes "reads rd R" "0 < chunk" "region_addr region + region_len region < 2 ^ 32"
    and "\<forall>a \<in> D. \<not> (region_addr region \<le> a \<and> a < region_addr region + region_len region)"
  shows "at_chunk R chunk region D c empty_run offset img \<Longrightarrow>
    region_read rd R whole chunk region D (fin + (region_len region - offset)) reports
      (read_region rd cancelled erased whole chunk region k empty_run offset fin img s reports)"
proof (induction "region_len region - offset" arbitrary: offset c empty_run img k fin s reports rule: less_induct)
  case less
  let ?len = "region_len region"
  let ?run = "read_region rd cancelled erased whole chunk region"
  define n where "n = min chunk (?len - offset)"
  consider "?len \<le> offset" | "offset < ?len" "cancelled k" | "offset < ?len" "\<not> cancelled k" by linarith
  then show ?case
  proof cases
    case 1
    with less.prems have "offset = ?len" "image_of R (D \<union> {region_addr region..<region_addr region + offset}) img"
      by (auto simp: at_chunk_def)
    with 1 show ?thesis by (subst read_region.simps) (auto simp: region_read_def read_upto_def)
  next
    case 2
    then show ?thesis by (subst read_region.simps) (auto simp: region_read_def)
  next
    case 3
    have n: "0 < n" "offset + n \<le> ?len" using 3(1) assms(2) by (auto simp: n_def)
    have goal: "fin + n + (?len - (offset + n)) = fin + (?len - offset)" using n(2) by simp
    have again: "region_read rd R whole chunk region D (fin + (?len - offset)) reports
        (?run (Suc k) run (offset + n) (fin + n) img' s' (reports @ [(region_name region, fin + n, whole)]))"
      if "at_chunk R chunk region D (Suc c) run (offset + n) img'" for run img' s'
    proof (rule region_read_report)
      show "region_read rd R whole chunk region D (fin + (?len - offset)) (reports @ [(region_name region, fin + n, whole)])
          (?run (Suc k) run (offset + n) (fin + n) img' s' (reports @ [(region_name region, fin + n, whole)]))"
        using less.hyps [OF _ that, of "fin + n"] n(1) 3(1) unfolding goal by simp
    qed (use n(2) in simp)
    from read_region_chunk [where cancelled = cancelled and k = k, OF assms less.prems 3, folded n_def, of s erased whole fin reports] show ?thesis
    proof (elim disjE exE conjE)
      fix addr buf s' e
      assume "rd addr buf s = (s', Inl e)" "?run k empty_run offset fin img s reports = Some (s', reports, Inl e)"
      then show ?thesis by (auto simp: region_read_def)
    next
      fix s' img'
      assume img': "image_of R (D \<union> {region_addr region..<region_addr region + (offset + n)}) img'"
      note nxt = at_chunk_next [OF less.prems 3(1) img' n_def refl]
      assume run: "?run k empty_run offset fin img s reports = (case region_kind region of
          Fixed \<Rightarrow> ?run (Suc k) empty_run (offset + n) (fin + n) img' s' (reports @ [(region_name region, fin + n, whole)])
        | Sparse stride stop \<Rightarrow>
            (if stop \<le> (if chunk_erased R chunk region c then empty_run + 1 else 0)
             then Some (s', reports @ [(region_name region, fin + n, whole)], Inr (Suc k, fin + n + (?len - (offset + n)), img'))
             else ?run (Suc k) (if chunk_erased R chunk region c then empty_run + 1 else 0) (offset + n) (fin + n) img' s'
               (reports @ [(region_name region, fin + n, whole)])))"
      show ?thesis
      proof (cases "region_kind region")
        case Fixed
        then show ?thesis using nxt run by (simp add: again)
      next
        case (Sparse stride stop)
        define er where "er = (if chunk_erased R chunk region c then empty_run + 1 else 0)"
        have at: "at_chunk R chunk region D (Suc c) er (offset + n) img'" using nxt Sparse by (simp add: er_def)
        show ?thesis
        proof (cases "stop \<le> er")
          case True
          with at Sparse have "read_upto R chunk region (offset + n)" unfolding read_upto_def at_chunk_def
            by (intro disjI2 exI [of _ stride] exI [of _ stop] exI [of _ "Suc c"]) auto
          with True Sparse run img' n(2) goal show ?thesis by (auto simp: region_read_def er_def [symmetric])
        qed (use at Sparse run in \<open>simp add: again er_def [symmetric]\<close>)
      qed
    qed
  qed
qed

section \<open>All regions\<close>

definition in_region :: "Region \<Rightarrow> nat \<Rightarrow> bool" where
  "in_region r a \<longleftrightarrow> region_addr r \<le> a \<and> a < region_addr r + region_len r"

definition separate :: "Region list \<Rightarrow> bool" where
  "separate regions \<longleftrightarrow> (\<forall>r \<in> set regions. region_addr r + region_len r < 2 ^ 32) \<and>
     sorted_wrt (\<lambda>r r'. \<forall>a. \<not> (in_region r a \<and> in_region r' a)) regions"

lemma chunk_positive: "0 < block \<Longrightarrow> 0 < chunk_size kind block"
  by (cases kind) (auto simp: chunk_size_def div_greater_zero_iff)

lemma read_regions_spec:
  assumes "reads rd R" "0 < block"
  shows "separate regions \<Longrightarrow> \<forall>r \<in> set regions. \<forall>a \<in> D. \<not> in_region r a \<Longrightarrow> image_of R D img \<Longrightarrow>
    fin + transfer_bytes regions \<le> whole \<Longrightarrow>
    \<exists>s' news result. read_regions rd cancelled erased whole block regions k fin img s reports = Some (s', reports @ news, result) \<and>
      (\<forall>(step, d, t) \<in> set news. d \<le> whole \<and> t = whole) \<and>
      (case result of
         Inl e \<Rightarrow> e = Cancelled \<or> (\<exists>addr buf s s'. rd addr buf s = (s', Inl e))
       | Inr img' \<Rightarrow> \<exists>D'. image_of R D' img' \<and> D \<subseteq> D' \<and> (\<forall>a \<in> D' - D. \<exists>r \<in> set regions. in_region r a) \<and>
           (\<forall>r \<in> set regions. \<exists>off. off \<le> region_len r \<and> read_upto R (chunk_size (region_kind r) block) r off \<and>
              {region_addr r..<region_addr r + off} \<subseteq> D'))"
proof (induction regions arbitrary: D k fin img s reports)
  case Nil
  then show ?case by auto
next
  case (Cons r regions)
  let ?chunk = "chunk_size (region_kind r) block"
  have apart: "\<forall>a \<in> D. \<not> (region_addr r \<le> a \<and> a < region_addr r + region_len r)"
    using Cons.prems(2) by (auto simp: in_region_def)
  have r: "region_addr r + region_len r < 2 ^ 32" "separate regions" and
    others: "\<forall>r' \<in> set regions. \<forall>a. \<not> (in_region r a \<and> in_region r' a)"
    using Cons.prems(1) by (auto simp: separate_def)
  have "at_chunk R ?chunk r D 0 0 0 img" using Cons.prems(3) by (simp add: at_chunk_def)
  from read_region_spec [OF assms(1) chunk_positive [OF assms(2)] r(1) apart this,
      where whole = whole and fin = fin and reports = reports and cancelled = cancelled and k = k and s = s and erased = erased]
  obtain s' news result where
    one: "read_region rd cancelled erased whole ?chunk r k 0 0 fin img s reports = Some (s', reports @ news, result)"
    and news: "\<forall>(step, d, t) \<in> set news. d \<le> fin + region_len r \<and> t = whole"
    and result: "case result of Inl e \<Rightarrow> e = Cancelled \<or> (\<exists>addr buf s s'. rd addr buf s = (s', Inl e))
         | Inr (k, fin', img) \<Rightarrow> fin' = fin + region_len r \<and>
             (\<exists>off. off \<le> region_len r \<and> read_upto R ?chunk r off \<and> image_of R (D \<union> {region_addr r..<region_addr r + off}) img)"
    by (auto simp: region_read_def)
  have small: "fin + region_len r + transfer_bytes regions \<le> whole" using Cons.prems(4) by (simp add: transfer_bytes_def)
  then have news': "\<forall>(step, d, t) \<in> set news. d \<le> whole \<and> t = whole" using news by fastforce
  show ?case
  proof (cases result)
    case (Inl e)
    with one result news' show ?thesis by simp
  next
    case (Inr x)
    obtain k' fin' img' where x: "x = (k', fin', img')" by (cases x)
    with Inr result obtain off where off: "fin' = fin + region_len r" "off \<le> region_len r" "read_upto R ?chunk r off"
      "image_of R (D \<union> {region_addr r..<region_addr r + off}) img'" by auto
    let ?D = "D \<union> {region_addr r..<region_addr r + off}"
    have here: "\<forall>a \<in> ?D - D. in_region r a" using off(2) by (auto simp: in_region_def)
    then have "\<forall>r' \<in> set regions. \<forall>a \<in> ?D. \<not> in_region r' a"
      using Cons.prems(2) others by (metis Diff_iff list.set_intros(2))
    from Cons.IH [OF r(2) this off(4), of "fin + region_len r" k' s' "reports @ news"] small
    obtain s'' news'' result'' where
      rest: "read_regions rd cancelled erased whole block regions k' fin' img' s' (reports @ news) = Some (s'', reports @ (news @ news''), result'')"
      "\<forall>(step, d, t) \<in> set news''. d \<le> whole \<and> t = whole"
      and result'': "case result'' of
         Inl e \<Rightarrow> e = Cancelled \<or> (\<exists>addr buf s s'. rd addr buf s = (s', Inl e))
       | Inr img' \<Rightarrow> \<exists>D'. image_of R D' img' \<and> ?D \<subseteq> D' \<and> (\<forall>a \<in> D' - ?D. \<exists>r \<in> set regions. in_region r a) \<and>
           (\<forall>r \<in> set regions. \<exists>off. off \<le> region_len r \<and> read_upto R (chunk_size (region_kind r) block) r off \<and>
              {region_addr r..<region_addr r + off} \<subseteq> D')"
      unfolding off(1) by auto
    have "\<forall>(step, d, t) \<in> set (news @ news''). d \<le> whole \<and> t = whole" using news' rest(2) by auto
    moreover have "read_regions rd cancelled erased whole block (r # regions) k fin img s reports = Some (s'', reports @ (news @ news''), result'')"
      using one Inr x rest(1) by simp
    moreover have "case result'' of
         Inl e \<Rightarrow> e = Cancelled \<or> (\<exists>addr buf s s'. rd addr buf s = (s', Inl e))
       | Inr img' \<Rightarrow> \<exists>D'. image_of R D' img' \<and> D \<subseteq> D' \<and> (\<forall>a \<in> D' - D. \<exists>r' \<in> set (r # regions). in_region r' a) \<and>
           (\<forall>r' \<in> set (r # regions). \<exists>off. off \<le> region_len r' \<and> read_upto R (chunk_size (region_kind r') block) r' off \<and>
              {region_addr r'..<region_addr r' + off} \<subseteq> D')"
    proof (cases result'')
      case (Inr img'')
      with result'' obtain D' where D': "image_of R D' img''" "?D \<subseteq> D'" "\<forall>a \<in> D' - ?D. \<exists>r \<in> set regions. in_region r a"
        "\<forall>r \<in> set regions. \<exists>off. off \<le> region_len r \<and> read_upto R (chunk_size (region_kind r) block) r off \<and>
              {region_addr r..<region_addr r + off} \<subseteq> D'" by auto
      have "\<forall>a \<in> D' - D. \<exists>r' \<in> set (r # regions). in_region r' a" using D'(3) here by fastforce
      with D' off(2,3) Inr show ?thesis by auto
    qed (use result'' in simp)
    ultimately show ?thesis by blast
  qed
qed

lemma transfer_read_image:
  assumes "reads rd R" "separate regions"
  shows "\<exists>s' reports result. transfer_read rd cancelled block_size erased regions s = Some (s', reports, result) \<and>
    (\<forall>(step, d, t) \<in> set reports. d \<le> transfer_bytes regions \<and> t = transfer_bytes regions) \<and>
    (case result of
       Inl e \<Rightarrow> e = Cancelled \<or> (\<exists>addr buf s s'. rd addr buf s = (s', Inl e))
     | Inr img' \<Rightarrow> \<exists>D'. image_of R D' img' \<and> (\<forall>a \<in> D'. \<exists>r \<in> set regions. in_region r a) \<and>
           (\<forall>r \<in> set regions. \<exists>off. off \<le> region_len r \<and> read_upto R (chunk_size (region_kind r) (max block_size 1)) r off \<and>
              {region_addr r..<region_addr r + off} \<subseteq> D'))"
proof -
  have start: "image_of R {} []" by (simp add: image_of_def full_def)
  have block: "0 < max block_size 1" and vacant: "\<forall>r \<in> set regions. \<forall>a \<in> {}. \<not> in_region r a" by simp_all
  show ?thesis
    using read_regions_spec [OF assms(1) block assms(2) vacant start, of 0 "transfer_bytes regions" cancelled erased 0 s "[]"]
    unfolding transfer_read_def by (simp only: append_Nil Diff_empty empty_subsetI simp_thms add_0 order_refl)
qed

text \<open>
  Reading a radio always ends.  When it succeeds, the image holds exactly bytes of the radio's
  memory, only from the model's regions, and every region to its end, but for a sparse region, which
  is left after as many erased chunks in a row as the model asks for; when it fails, the radio's
  session failed or the transfer was cancelled, so the image itself never lacks a region.  Progress
  never passes the total.
\<close>

lemma transfer_read_memory:
  assumes "reads rd R" "separate regions"
  shows "\<exists>s' reports result. transfer_read rd cancelled block_size erased regions s = Some (s', reports, result) \<and>
    (\<forall>(step, d, t) \<in> set reports. d \<le> transfer_bytes regions \<and> t = transfer_bytes regions) \<and>
    (case result of
       Inl e \<Rightarrow> e = Cancelled \<or> (\<exists>addr buf s s'. rd addr buf s = (s', Inl e))
     | Inr img \<Rightarrow> image_ok img \<and>
         (\<forall>a b. mem img a = Some b \<longrightarrow> b = R a \<and> (\<exists>r \<in> set regions. in_region r a)) \<and>
         (\<forall>r \<in> set regions. \<exists>off. off \<le> region_len r \<and> read_upto R (chunk_size (region_kind r) (max block_size 1)) r off \<and>
            (\<forall>a. region_addr r \<le> a \<and> a < region_addr r + off \<longrightarrow> mem img a = Some (R a))))"
proof -
  obtain s' reports result where
    run: "transfer_read rd cancelled block_size erased regions s = Some (s', reports, result)"
    "\<forall>(step, d, t) \<in> set reports. d \<le> transfer_bytes regions \<and> t = transfer_bytes regions"
    and result: "case result of
       Inl e \<Rightarrow> e = Cancelled \<or> (\<exists>addr buf s s'. rd addr buf s = (s', Inl e))
     | Inr img' \<Rightarrow> \<exists>D'. image_of R D' img' \<and> (\<forall>a \<in> D'. \<exists>r \<in> set regions. in_region r a) \<and>
           (\<forall>r \<in> set regions. \<exists>off. off \<le> region_len r \<and> read_upto R (chunk_size (region_kind r) (max block_size 1)) r off \<and>
              {region_addr r..<region_addr r + off} \<subseteq> D')"
    using transfer_read_image [OF assms] by blast
  have "case result of
       Inl e \<Rightarrow> e = Cancelled \<or> (\<exists>addr buf s s'. rd addr buf s = (s', Inl e))
     | Inr img \<Rightarrow> image_ok img \<and>
         (\<forall>a b. mem img a = Some b \<longrightarrow> b = R a \<and> (\<exists>r \<in> set regions. in_region r a)) \<and>
         (\<forall>r \<in> set regions. \<exists>off. off \<le> region_len r \<and> read_upto R (chunk_size (region_kind r) (max block_size 1)) r off \<and>
            (\<forall>a. region_addr r \<le> a \<and> a < region_addr r + off \<longrightarrow> mem img a = Some (R a)))"
  proof (cases result)
    case (Inr img)
    with result obtain D' where D': "image_of R D' img" "\<forall>a \<in> D'. \<exists>r \<in> set regions. in_region r a"
      "\<forall>r \<in> set regions. \<exists>off. off \<le> region_len r \<and> read_upto R (chunk_size (region_kind r) (max block_size 1)) r off \<and>
              {region_addr r..<region_addr r + off} \<subseteq> D'" by auto
    have m: "mem img a = (if a \<in> D' then Some (R a) else None)" for a using D'(1) by (simp add: image_of_def)
    have "\<exists>off. off \<le> region_len r \<and> read_upto R (chunk_size (region_kind r) (max block_size 1)) r off \<and>
        (\<forall>a. region_addr r \<le> a \<and> a < region_addr r + off \<longrightarrow> mem img a = Some (R a))" if r: "r \<in> set regions" for r
      using D'(3) [rule_format, OF r] m by (metis atLeastLessThan_iff subsetD)
    moreover have "image_ok img" using D'(1) by (simp add: image_of_def)
    ultimately show ?thesis using Inr D'(2) m by simp
  qed (use result in simp)
  with run show ?thesis by blast
qed

section \<open>Writing\<close>

fun write_blocks :: "(nat \<Rightarrow> bytes \<Rightarrow> 's \<Rightarrow> 's \<times> (CpsError + unit)) \<Rightarrow> (nat \<Rightarrow> bool) \<Rightarrow> nat \<Rightarrow> nat \<Rightarrow> nat
    \<Rightarrow> (nat \<times> bytes) list \<Rightarrow> 's \<Rightarrow> 's \<times> Progress list \<times> (CpsError + nat)" where
  "write_blocks wr cancelled whole k fin [] s = (s, [], Inr fin)"
| "write_blocks wr cancelled whole k fin ((addr, data) # blocks) s =
     (if cancelled k then (s, [], Inl Cancelled)
      else case wr addr data s of
        (s', Inl e) \<Rightarrow> (s', [], Inl e)
      | (s', Inr _) \<Rightarrow>
          (case write_blocks wr cancelled whole (Suc k) (fin + length data) blocks s' of
             (s'', reports, r) \<Rightarrow> (s'', (''writing'', fin + length data, whole) # reports, r)))"

definition transfer_write :: "(nat \<Rightarrow> bytes \<Rightarrow> 's \<Rightarrow> 's \<times> (CpsError + unit)) \<Rightarrow> (nat \<Rightarrow> bool) \<Rightarrow> nat \<Rightarrow> Image \<Rightarrow> Image \<Rightarrow> 's
    \<Rightarrow> ('s \<times> Progress list \<times> (CpsError + nat)) option" where
  "transfer_write wr cancelled block_size before after s =
     map_option (\<lambda>blocks. write_blocks wr cancelled (sum_list (map (\<lambda>(at, p). length p) blocks)) 0 0 blocks s)
       (changed_blocks before after (max block_size 1))"

text \<open>A memory after bytes were stored in it.\<close>

definition store :: "nat \<Rightarrow> bytes \<Rightarrow> (nat \<Rightarrow> u8) \<Rightarrow> nat \<Rightarrow> u8" where
  "store addr data R a = (if addr \<le> a \<and> a < addr + length data then data ! (a - addr) else R a)"

text \<open>Data filled up with zeros to whole blocks, as radios that are written in blocks get it.\<close>

definition padded_to :: "nat \<Rightarrow> bytes \<Rightarrow> bytes" where
  "padded_to k data = data @ replicate ((k - length data mod k) mod k) 0"

lemma padded_to_Nil [simp]: "padded_to k [] = []"
  by (simp add: padded_to_def)

lemma padded_to_whole: "length data mod k = 0 \<Longrightarrow> padded_to k data = data"
  by (simp add: padded_to_def)

lemma padded_to_block:
  assumes "data \<noteq> []" "0 < k"
  shows "padded_to k data = resize k 0 (take k data) @ padded_to k (drop k data)"
proof (cases "length data < k")
  case True
  with assms show ?thesis by (simp add: padded_to_def resize_def mod_less)
next
  case False
  then have "length (drop k data) mod k = length data mod k"
    by (simp add: le_mod_geq)
  with False show ?thesis
    by (simp add: padded_to_def resize_def append_assoc [symmetric] del: append_assoc)
qed

lemma store_append: "store (a + length xs) ys (store a xs R) = store a (xs @ ys) R"
proof
  fix x
  consider "x < a" | "a \<le> x" "x < a + length xs" | "a + length xs \<le> x" by linarith
  then show "store (a + length xs) ys (store a xs R) x = store a (xs @ ys) R x"
    by cases (auto simp: store_def nth_append diff_diff_add)
qed

lemma store_Nil [simp]: "store a [] R = R"
  by (auto simp: store_def fun_eq_iff)

lemma store_padding:
  "addr + length data \<le> a \<Longrightarrow> a < addr + length (padded_to k data) \<Longrightarrow> store addr (padded_to k data) R a = 0"
  by (auto simp: store_def padded_to_def nth_append)

lemma length_resize: "length (resize n fill d) = n"
  by (simp add: resize_def)

lemma padded_length:
  assumes "0 < k"
  shows "length (padded_to k d) mod k = 0" "length d \<le> length (padded_to k d)"
proof -
  let ?n = "length d"
  have len: "length (padded_to k d) = ?n + (k - ?n mod k) mod k" by (simp add: padded_to_def)
  have "(?n + (k - ?n mod k)) mod k = (k * (?n div k) + k) mod k"
    using assms mod_less_divisor [OF assms, of ?n] mult_div_mod_eq [of k ?n] by (intro arg_cong [of _ _ "\<lambda>x. x mod k"]) linarith
  then show "length (padded_to k d) mod k = 0" unfolding len by (simp add: mod_simps)
  show "?n \<le> length (padded_to k d)" using len by simp
qed

lemma padded_short: "p \<noteq> [] \<Longrightarrow> length p \<le> k \<Longrightarrow> length (padded_to k p) = k"
  by (cases "length p = k") (auto simp: padded_to_def mod_less)

lemma padded_tail: "length p \<le> j \<Longrightarrow> j < length (padded_to k p) \<Longrightarrow> padded_to k p ! j = 0"
  by (auto simp: padded_to_def nth_append)

lemma multiples_apart:
  fixes x y k :: nat
  assumes "x mod k = 0" "y mod k = 0" "x < y"
  shows "x + k \<le> y"
proof -
  have "k dvd y - x" using assms(1,2) by (intro dvd_diff_nat) (simp_all only: dvd_eq_mod_eq_0)
  with assms(3) have "k \<le> y - x" by (intro dvd_imp_le) auto
  with assms(3) show ?thesis by simp
qed

section \<open>The blocks that are sent do not overlap\<close>

abbreviation apart :: "nat \<Rightarrow> nat \<times> bytes \<Rightarrow> nat \<times> bytes \<Rightarrow> bool" where
  "apart k x y \<equiv> fst x + k \<le> fst y"

text \<open>A block of a segment: within it, of full length or its tail, and its filled-up form within the filled-up segment.\<close>

definition block_of :: "nat \<Rightarrow> nat \<Rightarrow> bytes \<Rightarrow> nat \<times> bytes \<Rightarrow> bool" where
  "block_of k s d x \<longleftrightarrow> s \<le> fst x \<and> fst x + k \<le> s + length (padded_to k d) \<and>
     (length (snd x) = k \<and> fst x + k \<le> s + length d \<or> fst x + length (snd x) = s + length d)"

lemma blocks_from_apart:
  assumes "0 < k" "offset mod k = 0" "blocks_from before k addr data offset = Some blocks"
  shows "sorted_wrt (apart k) blocks \<and> (\<forall>x \<in> set blocks. addr + offset \<le> fst x \<and> block_of k addr data x)"
  using assms(2,3)
proof (induction "length data - offset" arbitrary: offset blocks rule: less_induct)
  case less
  show ?case
  proof (cases "length data \<le> offset")
    case True
    with less.prems(2) show ?thesis by (subst (asm) blocks_from.simps) simp
  next
    case False
    define n where "n = min k (length data - offset)"
    define x where "x = (addr + offset, take n (drop offset data))"
    obtain others where others: "blocks_from before k addr data (offset + n) = Some others"
      and "blocks = x # others \<or> blocks = others"
      using less.prems(2) False by (subst (asm) (2) blocks_from.simps) (auto simp: Let_def n_def x_def bind_eq_Some_conv split: if_splits)
    have len: "length (snd x) = n" using False by (auto simp: x_def n_def)
    have fits: "offset + k \<le> length (padded_to k data)"
      using multiples_apart [OF less.prems(1) padded_length(1) [OF assms(1)]] padded_length(2) [OF assms(1), of data] False by simp
    have x: "addr + offset \<le> fst x \<and> block_of k addr data x"
      using fits len False by (auto simp: block_of_def x_def n_def)
    show ?thesis
    proof (cases "k \<le> length data - offset")
      case True
      then have n: "n = k" by (simp add: n_def)
      have "length data - (offset + k) < length data - offset" using False assms(1) by simp
      from less.hyps [OF this _ others [unfolded n]] less.prems(1)
      have "sorted_wrt (apart k) others \<and> (\<forall>x \<in> set others. addr + (offset + k) \<le> fst x \<and> block_of k addr data x)" by simp
      with x \<open>blocks = x # others \<or> blocks = others\<close> show ?thesis by (fastforce simp: x_def)
    next
      case False
      then have "length data \<le> offset + n" by (simp add: n_def)
      with others have "others = []" by (subst (asm) blocks_from.simps) simp
      with x \<open>blocks = x # others \<or> blocks = others\<close> show ?thesis by auto
    qed
  qed
qed

text \<open>An image whose segments stay apart even when each is filled up to whole blocks.\<close>

definition spaced :: "nat \<Rightarrow> Image \<Rightarrow> bool" where
  "spaced k segs \<longleftrightarrow> sorted_wrt (\<lambda>(s, d) (t, e). s + length (padded_to k d) \<le> t) segs \<and> (\<forall>(s, d) \<in> set segs. s + length d \<le> 2 ^ 32)"

lemma spaced_apart:
  assumes "spaced k segs" "(s, d) \<in> set segs" "(t, e) \<in> set segs"
  shows "(s, d) = (t, e) \<or> s + length (padded_to k d) \<le> t \<or> t + length (padded_to k e) \<le> s"
proof -
  have "sorted_wrt (\<lambda>(s, d) (t, e). s + length (padded_to k d) \<le> t) segs" using assms(1) by (simp add: spaced_def)
  then show ?thesis using assms(2,3) by (induction segs) auto
qed

lemma changed_blocks_apart:
  assumes "0 < k" "sorted_wrt (\<lambda>(s, d) (t, e). s + length (padded_to k d) \<le> t) after" "changed_blocks before after k = Some blocks"
  shows "sorted_wrt (apart k) blocks \<and> (\<forall>x \<in> set blocks. \<exists>(s, d) \<in> set after. block_of k s d x)"
  using assms(2,3)
proof (induction after arbitrary: blocks)
  case (Cons seg segs)
  obtain s d where seg: "seg = (s, d)" by (cases seg)
  obtain bs cs where bs: "blocks_from before k s d 0 = Some bs" and cs: "changed_blocks before segs k = Some cs" and blocks: "blocks = bs @ cs"
    using Cons.prems(2) seg by (auto split: option.splits)
  have here: "sorted_wrt (apart k) bs" "\<forall>x \<in> set bs. block_of k s d x" using blocks_from_apart [OF assms(1) _ bs] by auto
  have there: "sorted_wrt (apart k) cs" "\<forall>x \<in> set cs. \<exists>(t, e) \<in> set segs. block_of k t e x"
    using Cons.IH [OF _ cs] Cons.prems(1) by auto
  have "apart k x y" if "x \<in> set bs" "y \<in> set cs" for x y
  proof -
    obtain t e where te: "(t, e) \<in> set segs" "block_of k t e y" using there(2) \<open>y \<in> set cs\<close> by blast
    have "s + length (padded_to k d) \<le> t" using Cons.prems(1) te(1) seg by auto
    moreover have "fst x + k \<le> s + length (padded_to k d)" "t \<le> fst y" using here(2) that(1) te(2) by (auto simp: block_of_def)
    ultimately show ?thesis by simp
  qed
  with here there blocks seg show ?case by (fastforce simp: sorted_wrt_append)
qed simp

section \<open>What a programmed radio holds\<close>

text \<open>
  Every byte of the image is in the radio; any other address is as it was, or behind the end of a
  segment in its last block and zero.
\<close>

definition programmed :: "nat \<Rightarrow> Image \<Rightarrow> (nat \<Rightarrow> u8) \<Rightarrow> (nat \<Rightarrow> u8) \<Rightarrow> bool" where
  "programmed k after R R' \<longleftrightarrow>
     (\<forall>a. case mem after a of
            Some b \<Rightarrow> R' a = b
          | None \<Rightarrow> R' a = R a \<or> R' a = 0 \<and> (\<exists>(s, d) \<in> set after. s + length d \<le> a \<and> a < s + length (padded_to k d)))"

lemma programmed_whole:
  assumes "programmed k after R R'" "\<forall>(s, d) \<in> set after. length d mod k = 0"
  shows "R' a = (case mem after a of Some b \<Rightarrow> b | None \<Rightarrow> R a)"
proof -
  have "\<not> (\<exists>(s, d) \<in> set after. s + length d \<le> a \<and> a < s + length (padded_to k d))"
    using assms(2) by (fastforce simp: padded_to_whole)
  with assms(1) show ?thesis unfolding programmed_def by (auto split: option.splits dest: spec [of _ a])
qed

text \<open>A session whose writes, when they succeed, store the data in whole blocks of the memory \<open>M\<close>.\<close>

definition stores_blocks :: "(nat \<Rightarrow> bytes \<Rightarrow> 's \<Rightarrow> 's \<times> (CpsError + unit)) \<Rightarrow> ('s \<Rightarrow> nat \<Rightarrow> u8) \<Rightarrow> nat \<Rightarrow> bool" where
  "stores_blocks wr M k \<longleftrightarrow>
     (\<forall>addr data s s'. addr + length data \<le> 2 ^ 32 \<longrightarrow> wr addr data s = (s', Inr ()) \<longrightarrow> M s' = store addr (padded_to k data) (M s))"

lemma write_blocks_effect:
  assumes law: "stores_blocks wr M k"
    and "write_blocks wr cancelled whole c fin blocks s = (s', reports, Inr n)" "sorted_wrt (apart k) blocks"
    and "\<forall>(at, p) \<in> set blocks. at + length p \<le> 2 ^ 32 \<and> p \<noteq> [] \<and> length p \<le> k"
  shows "n = fin + sum_list (map (\<lambda>(at, p). length p) blocks) \<and>
    (\<forall>(at, p) \<in> set blocks. \<forall>a. at \<le> a \<and> a < at + k \<longrightarrow> M s' a = padded_to k p ! (a - at)) \<and>
    (\<forall>a. (\<forall>(at, p) \<in> set blocks. \<not> (at \<le> a \<and> a < at + k)) \<longrightarrow> M s' a = M s a)"
  using assms(2-4)
proof (induction blocks arbitrary: c fin s reports)
  case (Cons b blocks)
  obtain addr data where b: "b = (addr, data)" by (cases b)
  obtain s1 where w: "wr addr data s = (s1, Inr ())" and "\<not> cancelled c"
    using Cons.prems(1) b by (auto split: if_splits prod.splits sum.splits)
  have data: "addr + length data \<le> 2 ^ 32" "length (padded_to k data) = k" using Cons.prems(3) b padded_short by auto
  have S: "M s1 = store addr (padded_to k data) (M s)" by (rule law [unfolded stores_blocks_def, rule_format, OF data(1) w])
  obtain reports' where rest: "write_blocks wr cancelled whole (Suc c) (fin + length data) blocks s1 = (s', reports', Inr n)"
    using Cons.prems(1) b w \<open>\<not> cancelled c\<close> by (auto split: prod.splits)
  have later: "sorted_wrt (apart k) blocks" "\<forall>(at, p) \<in> set blocks. at + length p \<le> 2 ^ 32 \<and> p \<noteq> [] \<and> length p \<le> k"
    using Cons.prems(2,3) by auto
  note IH = Cons.IH [OF rest later]
  have off: "\<forall>(at, p) \<in> set blocks. \<not> (at \<le> a \<and> a < at + k)" if "a < addr + k" for a
    using Cons.prems(2) b that by fastforce
  have "M s' a = padded_to k data ! (a - addr)" if "addr \<le> a" "a < addr + k" for a
    using IH [THEN conjunct2, THEN conjunct2, rule_format, OF off [OF that(2), rule_format]] S data(2) that by (simp add: store_def)
  moreover have "M s' a = M s a" if "\<forall>(at, p) \<in> set (b # blocks). \<not> (at \<le> a \<and> a < at + k)" for a
  proof -
    have "M s' a = M s1 a" using IH that by simp
    with that b data(2) S show ?thesis by (auto simp: store_def)
  qed
  ultimately show ?case using IH b by auto
qed simp

lemma transfer_write_effect:
  assumes law: "stores_blocks wr M k"
    and ok: "0 < k" "image_ok before" "image_ok after" "spaced k after"
    and agree: "\<forall>a b. mem before a = Some b \<longrightarrow> M s a = b"
  shows "\<exists>s' reports result blocks. transfer_write wr cancelled k before after s = Some (s', reports, result) \<and>
    changed_blocks before after k = Some blocks \<and> (\<forall>(at, p) \<in> set blocks. length p \<le> k \<and> get at (length p) before \<noteq> Some p) \<and>
    (\<forall>n. result = Inr n \<longrightarrow> programmed k after (M s) (M s') \<and> n = sum_list (map (\<lambda>(at, p). length p) blocks))"
proof -
  have k: "max k 1 = k" using ok(1) by simp
  obtain blocks where blocks: "changed_blocks before after k = Some blocks"
    and each: "\<forall>(at, p) \<in> set blocks. p \<noteq> [] \<and> length p \<le> k \<and> get at (length p) before \<noteq> Some p \<and>
       (\<forall>j < length p. mem after (at + j) = Some (p ! j))"
    and cover: "\<forall>a b. mem after a = Some b \<longrightarrow> (\<exists>(at, p) \<in> set blocks. at \<le> a \<and> a < at + length p) \<or> mem before a = Some b"
    using changed_blocks_ok [OF ok(2,1,3)] by blast
  have apart: "sorted_wrt (apart k) blocks" "\<forall>x \<in> set blocks. \<exists>(s, d) \<in> set after. block_of k s d x"
    using changed_blocks_apart [OF ok(1) _ blocks] ok(4) by (auto simp: spaced_def)
  have small: "\<forall>(at, p) \<in> set blocks. at + length p \<le> 2 ^ 32 \<and> p \<noteq> [] \<and> length p \<le> k"
    using each apart(2) ok(4) by (fastforce simp: spaced_def block_of_def)
  define whole where "whole = sum_list (map (\<lambda>(at, p). length p) blocks)"
  obtain s' reports result where run: "write_blocks wr cancelled whole 0 0 blocks s = (s', reports, result)"
    by (cases "write_blocks wr cancelled whole 0 0 blocks s")
  have "programmed k after (M s) (M s') \<and> n = whole" if "result = Inr n" for n
  proof -
    note eff = write_blocks_effect [OF law run [unfolded that] apart(1) small]
    have "case mem after a of Some b \<Rightarrow> M s' a = b
        | None \<Rightarrow> M s' a = M s a \<or> M s' a = 0 \<and> (\<exists>(s, d) \<in> set after. s + length d \<le> a \<and> a < s + length (padded_to k d))" for a
    proof (cases "\<exists>(at, p) \<in> set blocks. at \<le> a \<and> a < at + k")
      case True
      then obtain at p where p: "(at, p) \<in> set blocks" "at \<le> a" "a < at + k" by auto
      have v: "M s' a = padded_to k p ! (a - at)" using eff p by blast
      show ?thesis
      proof (cases "a < at + length p")
        case True
        have "\<forall>j < length p. mem after (at + j) = Some (p ! j)" using each p(1) by blast
        moreover have less: "a - at < length p" using p(2) True by linarith
        ultimately have "mem after (at + (a - at)) = Some (p ! (a - at))" by blast
        with p less v show ?thesis by (simp add: padded_to_def nth_append)
      next
        case False
        obtain s d where sd: "(s, d) \<in> set after" "block_of k s d (at, p)" using apart(2) p(1) by blast
        then have tail: "s + length d \<le> a" "a < s + length (padded_to k d)" using False p by (auto simp: block_of_def)
        have "length (padded_to k p) = k" using each p(1) padded_short by blast
        moreover have "length p \<le> a - at" "a - at < k" using False p(2,3) by linarith+
        ultimately have zero: "M s' a = 0" using padded_tail [of p "a - at" k] v by simp
        have "mem after a = None"
        proof (rule ccontr)
          assume "mem after a \<noteq> None"
          then obtain t e where te: "(t, e) \<in> set after" "t \<le> a" "a < t + length e" using mem_Some by fastforce
          show False using spaced_apart [OF ok(4) sd(1) te(1)] te tail padded_length(2) [OF ok(1), of e] padded_length(2) [OF ok(1), of d] by auto
        qed
        with zero tail sd(1) show ?thesis by auto
      qed
    next
      case False
      then have same: "M s' a = M s a" using eff by auto
      show ?thesis
      proof (cases "mem after a")
        case (Some b)
        have "\<not> (\<exists>(at, p) \<in> set blocks. at \<le> a \<and> a < at + length p)" using False small by fastforce
        then have "mem before a = Some b" using cover Some by blast
        with agree Some same show ?thesis by simp
      qed (simp add: same)
    qed
    with eff show ?thesis by (simp add: whole_def programmed_def)
  qed
  moreover have "transfer_write wr cancelled k before after s = Some (s', reports, result)"
    unfolding transfer_write_def k blocks using run by (simp add: whole_def)
  moreover have "\<forall>(at, p) \<in> set blocks. length p \<le> k \<and> get at (length p) before \<noteq> Some p" using each by auto
  ultimately show ?thesis using blocks unfolding whole_def by blast
qed

end
