(* ===== verification/Cps_Serial.thy ===== *)
theory Cps_Serial
  imports Cps_Transfer
begin

text \<open>
  What the programming sessions of the radios share: the serial port (\<open>crates/cps/src/serial.rs\<close>), the
  identity a radio reports and the eight-bit sum both protocols check their frames with.
\<close>

section \<open>The serial line\<close>

text \<open>
  The port is a parameter: a record of its four operations on a state of its own.  A \<open>receive\<close> of \<open>n\<close>
  bytes returns the \<open>n\<close> bytes of the buffer.
\<close>

record 'l SerialLink =
  link_send :: "bytes \<Rightarrow> 'l \<Rightarrow> 'l \<times> (CpsError + unit)"
  link_receive :: "nat \<Rightarrow> 'l \<Rightarrow> 'l \<times> (CpsError + bytes)"
  link_discard :: "'l \<Rightarrow> 'l \<times> (CpsError + unit)"
  link_lines :: "bool \<Rightarrow> 'l \<Rightarrow> 'l \<times> (CpsError + unit)"

record RadioIdent =
  reported_model :: rtext
  firmware :: "rtext option"
  bands :: "rtext option"
  model_id :: "rtext option"

text \<open>A request and the reply to it; the laws of a radio are laws of its replies.\<close>

definition exchange :: "'l SerialLink \<Rightarrow> bytes \<Rightarrow> nat \<Rightarrow> 'l \<Rightarrow> 'l \<times> (CpsError + bytes)" where
  "exchange io request n l =
     (case link_send io request l of (l, Inl e) \<Rightarrow> (l, Inl e) | (l, Inr _) \<Rightarrow> link_receive io n l)"

definition sum8 :: "bytes \<Rightarrow> u8" where
  "sum8 bs = fold (\<lambda>byte acc. acc + byte) bs 0"

lemma sum8_sum: "sum8 bs = sum_list bs"
proof -
  have "fold (\<lambda>byte acc. acc + byte) bs c = c + sum_list bs" for c :: u8
    by (induction bs arbitrary: c) (simp_all add: add.assoc)
  then show ?thesis by (simp add: sum8_def)
qed

lemma sum8_update: "i < length xs \<Longrightarrow> sum8 (xs[i := b]) = sum8 xs - xs ! i + b"
proof -
  assume i: "i < length xs"
  have "sum8 xs = sum8 (take i xs @ xs ! i # drop (Suc i) xs)" using id_take_nth_drop [OF i] by simp
  moreover have "sum8 (xs[i := b]) = sum8 (take i xs @ b # drop (Suc i) xs)" by (simp only: upd_conv_take_nth_drop [OF i])
  ultimately show ?thesis by (simp add: sum8_sum)
qed

section \<open>Reading through a session\<close>

text \<open>
  What a session promises a transfer: while the line behaves as \<open>law R\<close> says, for a radio whose
  memory is \<open>R\<close>, a read returns the bytes of that memory or an error.  A transfer over fixed regions
  then captures the radio.
\<close>

locale radio_reader =
  fixes rd :: "nat \<Rightarrow> bytes \<Rightarrow> 's \<Rightarrow> 's \<times> (CpsError + bytes)"
    and law :: "(nat \<Rightarrow> u8) \<Rightarrow> bool"
  assumes rd_memory: "law R \<Longrightarrow> addr + length buf < 2 ^ 32 \<Longrightarrow> rd addr buf s = (s', Inr out) \<Longrightarrow>
    out = map R [addr..<addr + length buf]"
begin

lemma law_reads: "law R \<Longrightarrow> reads rd R"
  unfolding reads_def
proof (intro allI impI)
  fix addr :: nat and buf :: bytes and s
  assume R: "law R" "addr + length buf < 2 ^ 32"
  obtain s' r where "rd addr buf s = (s', r)" by (cases "rd addr buf s")
  with rd_memory [OF R] show "(\<exists>s'. rd addr buf s = (s', Inr (map R [addr..<addr + length buf]))) \<or> (\<exists>s' e. rd addr buf s = (s', Inl e))"
    by (cases r) auto
qed

lemma transfer_captures:
  assumes "law R" "separate regions"
  shows "\<exists>st' reports result. transfer_read rd cancelled block_size erased regions st = Some (st', reports, result) \<and>
    (\<forall>img. result = Inr img \<longrightarrow>
       (\<forall>a b. mem img a = Some b \<longrightarrow> b = R a \<and> (\<exists>r \<in> set regions. in_region r a)) \<and>
       (\<forall>r \<in> set regions. \<exists>off. off \<le> region_len r \<and> read_upto R (chunk_size (region_kind r) (max block_size 1)) r off \<and>
          (\<forall>a. region_addr r \<le> a \<and> a < region_addr r + off \<longrightarrow> mem img a = Some (R a))))"
  using transfer_read_memory [OF law_reads [OF assms(1)] assms(2), of cancelled block_size erased st] by fastforce

lemma transfer_captures_fixed:
  assumes "law R" "separate regions" "\<forall>r \<in> set regions. region_kind r = Fixed"
  shows "\<exists>st' reports result. transfer_read rd cancelled block_size erased regions st = Some (st', reports, result) \<and>
    (\<forall>img. result = Inr img \<longrightarrow> (\<forall>r \<in> set regions. \<forall>a. in_region r a \<longrightarrow> mem img a = Some (R a)))"
proof -
  obtain st' reports result where run: "transfer_read rd cancelled block_size erased regions st = Some (st', reports, result)"
    and result: "\<forall>img. result = Inr img \<longrightarrow> (\<forall>r \<in> set regions. \<exists>off. off \<le> region_len r \<and>
       read_upto R (chunk_size (region_kind r) (max block_size 1)) r off \<and>
       (\<forall>a. region_addr r \<le> a \<and> a < region_addr r + off \<longrightarrow> mem img a = Some (R a)))"
    using transfer_captures [OF assms(1,2), of cancelled block_size erased st] by blast
  have "mem img a = Some (R a)" if img: "result = Inr img" and r: "r \<in> set regions" "in_region r a" for img r a
    using result [rule_format, OF img r(1)] assms(3) r by (auto simp: read_upto_def in_region_def)
  with run show ?thesis by blast
qed

end

section \<open>Writing through a session\<close>

text \<open>
  What a session promises a transfer that writes: while the line behaves as \<open>law M\<close> says, for a radio
  whose memory in a state of the session is \<open>M\<close>, a write that succeeds has stored the data, filled up
  with zeros to whole blocks of the session.  A transfer that succeeds has then programmed the radio.
\<close>

locale radio_writer =
  fixes wr :: "nat \<Rightarrow> bytes \<Rightarrow> 's \<Rightarrow> 's \<times> (CpsError + unit)"
    and law :: "('s \<Rightarrow> nat \<Rightarrow> u8) \<Rightarrow> bool"
    and block :: nat
  assumes block_positive: "0 < block"
    and wr_memory: "law M \<Longrightarrow> addr + length data \<le> 2 ^ 32 \<Longrightarrow> wr addr data s = (s', Inr ()) \<Longrightarrow>
      M s' = store addr (padded_to block data) (M s)"
begin

lemma law_stores: "law M \<Longrightarrow> stores_blocks wr M block"
  using wr_memory by (auto simp: stores_blocks_def)

lemma transfer_programs:
  assumes "law M" "image_ok before" "image_ok after" "spaced block after" "\<forall>a b. mem before a = Some b \<longrightarrow> M s a = b"
  shows "\<exists>s' reports result blocks. transfer_write wr cancelled block before after s = Some (s', reports, result) \<and>
    changed_blocks before after block = Some blocks \<and> (\<forall>(at, p) \<in> set blocks. length p \<le> block \<and> get at (length p) before \<noteq> Some p) \<and>
    (\<forall>n. result = Inr n \<longrightarrow> programmed block after (M s) (M s') \<and> n = sum_list (map (\<lambda>(at, p). length p) blocks))"
  by (rule transfer_write_effect [OF law_stores [OF assms(1)] block_positive assms(2-5)])

end

end
