(* ===== verification/Cps_Radtel.thy ===== *)
theory Cps_Radtel
  imports Cps_Serial
begin

text \<open>
  The programming session of the Radtel RT-4D (\<open>crates/cps/src/radtel\<close>): the frames on the serial line
  (\<open>frame.rs\<close>), the flash segments that may be written (\<open>segments.rs\<close>), the tables of the codeplug
  (\<open>layout.rs\<close>) and the session itself (\<open>protocol.rs\<close>).

  The serial port is a parameter.  Addresses are numbers below \<open>2 ^ 32\<close>.
\<close>

section \<open>Frames\<close>

definition ACK :: u8 where "ACK = 0x06"
definition PAGE_BYTES :: nat where "PAGE_BYTES = 1024"
definition PAGE_REPLY_BYTES :: nat where "PAGE_REPLY_BYTES = PAGE_BYTES + 4"
definition SESSION_PREFIX :: bytes where "SESSION_PREFIX = [0x34, 0x52, 0x05]"
definition ENTER_CODE :: u8 where "ENTER_CODE = 0x10"
definition LEAVE_CODE :: u8 where "LEAVE_CODE = 0xEE"
definition READ_CODE :: u8 where "READ_CODE = 0x52"
definition WRITE_CODE :: u8 where "WRITE_CODE = 0x09"

datatype Command = Enter | Leave | ReadPage u16 | WritePage u8 u16 bytes

definition session_body :: "u8 \<Rightarrow> bytes" where
  "session_body code = SESSION_PREFIX @ [code]"

definition write_body :: "u8 \<Rightarrow> u16 \<Rightarrow> bytes \<Rightarrow> bytes" where
  "write_body segment page data =
     resize (PAGE_BYTES + 4) 0 ([WRITE_CODE, segment] @ be16 page @ take PAGE_BYTES data)"

fun command_body :: "Command \<Rightarrow> bytes" where
  "command_body Enter = session_body ENTER_CODE"
| "command_body Leave = session_body LEAVE_CODE"
| "command_body (ReadPage page) = READ_CODE # be16 page"
| "command_body (WritePage segment page data) = write_body segment page data"

definition command_bytes :: "Command \<Rightarrow> bytes" where
  "command_bytes c = (let frm = command_body c in frm @ [sum8 frm])"

definition page_payload :: "bytes \<Rightarrow> CpsError + bytes" where
  "page_payload reply =
     (let framed = take (PAGE_REPLY_BYTES - 1) reply; checksum = drop (PAGE_REPLY_BYTES - 1) reply
      in if framed ! 0 \<noteq> READ_CODE
         then Inl (CpsProtocol ''read'' (''reply starts with '' @ hex_padded 4 (unat (framed ! 0))))
         else if sum8 framed \<noteq> checksum ! 0 then Inl (CpsProtocol ''read'' ''page checksum mismatch'')
         else Inr (drop 3 framed))"

section \<open>Segments\<close>

record Segment =
  seg_start :: nat
  seg_len :: nat

definition segment_new :: "nat \<Rightarrow> nat \<Rightarrow> Segment" where
  "segment_new start n = \<lparr>seg_start = start, seg_len = n\<rparr>"

definition segment_end :: "Segment \<Rightarrow> nat" where
  "segment_end s = seg_start s + seg_len s"

definition WRITABLE :: "Segment list" where
  "WRITABLE =
     [segment_new 0x02000 0x00400, segment_new 0x04000 0x0C000, segment_new 0x1C000 0x00400,
      segment_new 0x1E000 0x20000, segment_new 0x5E000 0x34000, segment_new 0xC6000 0x05000,
      segment_new 0xD0000 0x03000, segment_new 0xD6000 0x01000, segment_new 0xF0000 0x01000]"

record Placement =
  at_segment :: u8
  at_page :: u16

definition place :: "nat \<Rightarrow> nat \<Rightarrow> Placement option" where
  "place addr n =
     (if 2 ^ 32 \<le> n \<or> n = 0 \<or> PAGE_BYTES < n then None
      else case position (\<lambda>s. seg_start s \<le> addr \<and> addr < segment_end s) WRITABLE of
        None \<Rightarrow> None
      | Some number \<Rightarrow>
          (let segment = WRITABLE ! number; offset = addr - seg_start segment
           in if offset mod PAGE_BYTES \<noteq> 0 \<or> 2 ^ 32 \<le> addr + n \<or> segment_end segment < addr + n then None
              else if 2 ^ 8 \<le> number \<or> 2 ^ 16 \<le> offset div PAGE_BYTES then None
              else Some \<lparr>at_segment = of_nat number, at_page = of_nat (offset div PAGE_BYTES)\<rparr>))"

section \<open>Tables\<close>

record Table =
  table_name :: string
  table_base :: nat
  table_stride :: nat
  table_count :: nat

definition ERASED :: u8 where "ERASED = 0xFF"

definition table_bytes :: "Table \<Rightarrow> nat" where
  "table_bytes t = table_stride t * table_count t"

definition table_region :: "Table \<Rightarrow> Region" where
  "table_region t = region_fixed (table_name t) (table_base t) (table_bytes t)"

definition table_record :: "Table \<Rightarrow> Image \<Rightarrow> nat \<Rightarrow> bytes option" where
  "table_record t img i =
     (if table_count t \<le> i then None else get (table_base t + i * table_stride t) (table_stride t) img)"

definition SETTINGS :: Table where
  "SETTINGS = \<lparr>table_name = ''settings'', table_base = 0x02000, table_stride = 0x400, table_count = 1\<rparr>"
definition CHANNELS :: Table where
  "CHANNELS = \<lparr>table_name = ''channels'', table_base = 0x04000, table_stride = 0x30, table_count = 1024\<rparr>"
definition ZONES :: Table where
  "ZONES = \<lparr>table_name = ''zones'', table_base = 0x1E000, table_stride = 0x208, table_count = 250\<rparr>"
definition CONTACTS :: Table where
  "CONTACTS = \<lparr>table_name = ''contacts'', table_base = 0x5E000, table_stride = 0x15, table_count = 10000\<rparr>"
definition GROUP_LISTS :: Table where
  "GROUP_LISTS = \<lparr>table_name = ''group lists'', table_base = 0xC6000, table_stride = 0x50, table_count = 250\<rparr>"

definition REGIONS :: "Region list" where
  "REGIONS = map table_region [SETTINGS, CHANNELS, ZONES, CONTACTS, GROUP_LISTS]"

definition is_vacant :: "bytes \<Rightarrow> bool" where
  "is_vacant r \<longleftrightarrow> (\<forall>b \<in> set r. b = ERASED)"

definition claim :: "bytes \<Rightarrow> bytes" where
  "claim r = (if is_vacant r then replicate (length r) 0 else r)"

definition release :: "bytes \<Rightarrow> bytes" where
  "release r = (if \<not> is_blank r then replicate (length r) ERASED else r)"

text \<open>\<open>fill\<close>: every whole record of the table, the i-th written from the i-th item or released.\<close>

fun fill_records :: "(bytes \<Rightarrow> 'a \<Rightarrow> bytes) \<Rightarrow> nat \<Rightarrow> nat \<Rightarrow> 'a list \<Rightarrow> bytes \<Rightarrow> bytes" where
  "fill_records write_record stride 0 items bs = bs"
| "fill_records write_record stride (Suc k) items bs =
     (let r = take stride bs
      in (case items of [] \<Rightarrow> release r | item # _ \<Rightarrow> write_record (claim r) item) @
         fill_records write_record stride k (drop 1 items) (drop stride bs))"

definition table_fill :: "Table \<Rightarrow> Image \<Rightarrow> 'a list \<Rightarrow> (bytes \<Rightarrow> 'a \<Rightarrow> bytes) \<Rightarrow> CpsError + Image" where
  "table_fill t img items write_record =
     (let img = allocate (table_base t) (table_bytes t) ERASED img
      in case segment_for (table_base t) (table_bytes t) img of
           None \<Rightarrow> Inl (MissingRegion (table_base t) (table_bytes t))
         | Some (start, segment) \<Rightarrow>
             (let whole = take (table_bytes t) (drop (table_base t - start) segment)
              in Inr (overwrite (table_base t) (fill_records write_record (table_stride t) (table_bytes t div table_stride t) items whole)
                   (start, segment) img)))"

definition field_text :: "bytes \<Rightarrow> nat \<Rightarrow> nat \<Rightarrow> rtext" where
  "field_text r at n = read_ascii r at n ERASED"

definition put_text :: "bytes \<Rightarrow> nat \<Rightarrow> nat \<Rightarrow> rtext \<Rightarrow> bytes" where
  "put_text r at n v =
     (let r = (if at + n \<le> length r then take at r @ replicate n ERASED @ drop (at + n) r else r)
      in write_ascii r at v n ERASED)"

section \<open>The session\<close>

definition IDENTITY_PAGE :: nat where "IDENTITY_PAGE = 0x2000"
definition SIGNATURE_AT :: nat where "SIGNATURE_AT = 12"
definition SIGNATURE :: u16 where "SIGNATURE = 0xABCD"
definition REPORTED_MODEL :: string where "REPORTED_MODEL = ''RT4D''"
definition MODEL_ID :: string where "MODEL_ID = ''radtel-rt4d''"

datatype Phase = Idle | Programming | Closed

record 'l Session =
  session_link :: 'l
  session_phase :: Phase

definition session_open :: "'l SerialLink \<Rightarrow> 'l \<Rightarrow> 'l \<times> (CpsError + 'l Session)" where
  "session_open io l =
     (case link_lines io True l of
        (l, Inl e) \<Rightarrow> (l, Inl e)
      | (l, Inr _) \<Rightarrow>
          (case link_discard io l of
             (l, Inl e) \<Rightarrow> (l, Inl e)
           | (l, Inr _) \<Rightarrow> (l, Inr \<lparr>session_link = l, session_phase = Idle\<rparr>)))"

definition send_acknowledged :: "'l SerialLink \<Rightarrow> string \<Rightarrow> Command \<Rightarrow> 'l Session \<Rightarrow> 'l Session \<times> (CpsError + unit)" where
  "send_acknowledged io step c st =
     (case link_send io (command_bytes c) (session_link st) of
        (l, Inl e) \<Rightarrow> (st\<lparr>session_link := l\<rparr>, Inl e)
      | (l, Inr _) \<Rightarrow>
          (case link_receive io 1 l of
             (l, Inl e) \<Rightarrow> (st\<lparr>session_link := l\<rparr>, Inl e)
           | (l, Inr reply) \<Rightarrow>
               (st\<lparr>session_link := l\<rparr>,
                if reply ! 0 = ACK then Inr ()
                else Inl (CpsProtocol step (''answered '' @ hex_padded 4 (unat (reply ! 0)) @ '' instead of ACK'')))))"

definition ensure_programming :: "'l SerialLink \<Rightarrow> 'l Session \<Rightarrow> 'l Session \<times> (CpsError + unit)" where
  "ensure_programming io st =
     (case session_phase st of
        Programming \<Rightarrow> (st, Inr ())
      | Closed \<Rightarrow> (st, Inl (CpsProtocol ''enter'' ''the session is already closed''))
      | Idle \<Rightarrow>
          (case send_acknowledged io ''enter'' Enter st of
             (st, Inl e) \<Rightarrow> (st, Inl e)
           | (st, Inr _) \<Rightarrow> (st\<lparr>session_phase := Programming\<rparr>, Inr ())))"

definition read_page :: "'l SerialLink \<Rightarrow> u16 \<Rightarrow> 'l Session \<Rightarrow> 'l Session \<times> (CpsError + bytes)" where
  "read_page io page st =
     (case link_send io (command_bytes (ReadPage page)) (session_link st) of
        (l, Inl e) \<Rightarrow> (st\<lparr>session_link := l\<rparr>, Inl e)
      | (l, Inr _) \<Rightarrow>
          (case link_receive io PAGE_REPLY_BYTES l of
             (l, Inl e) \<Rightarrow> (st\<lparr>session_link := l\<rparr>, Inl e)
           | (l, Inr reply) \<Rightarrow> (st\<lparr>session_link := l\<rparr>, page_payload reply)))"

definition write_page :: "'l SerialLink \<Rightarrow> Placement \<Rightarrow> bytes \<Rightarrow> 'l Session \<Rightarrow> 'l Session \<times> (CpsError + unit)" where
  "write_page io at data st = send_acknowledged io ''write'' (WritePage (at_segment at) (at_page at) data) st"

definition leave :: "'l SerialLink \<Rightarrow> 'l Session \<Rightarrow> 'l Session" where
  "leave io st =
     (let l = (if session_phase st = Programming
               then (case link_send io (command_bytes Leave) (session_link st) of
                       (l, Inl e) \<Rightarrow> l
                     | (l, Inr _) \<Rightarrow> fst (link_receive io 1 l))
               else session_link st)
      in st\<lparr>session_link := l, session_phase := Closed\<rparr>)"

definition page_of :: "nat \<Rightarrow> CpsError + u16" where
  "page_of addr =
     (if addr div PAGE_BYTES < 2 ^ 16 then Inr (of_nat (addr div PAGE_BYTES))
      else Inl (CpsProtocol ''read'' (hex_padded 0 addr @ '' is beyond the addressable memory'')))"

text \<open>The plan of a write: the loop over the pages of the data, from an offset on.\<close>

function placements_from :: "nat \<Rightarrow> nat \<Rightarrow> nat \<Rightarrow> CpsError + (Placement \<times> nat) list" where
  "placements_from addr n offset =
     (if offset < n then
        let take_n = min PAGE_BYTES (n - offset)
        in case (if 2 ^ 32 \<le> offset \<or> 2 ^ 32 \<le> addr + offset then None else place (addr + offset) take_n) of
             None \<Rightarrow> Inl (CpsProtocol ''write'' (hex_padded 0 addr @ '' (+'' @ hex_padded 0 offset @ '') is outside every writable segment''))
           | Some at \<Rightarrow>
               (case placements_from addr n (offset + take_n) of
                  Inl e \<Rightarrow> Inl e
                | Inr plan \<Rightarrow> Inr ((at, offset) # plan))
      else Inr [])"
  by pat_completeness auto
termination
  by (relation "measure (\<lambda>(addr, n, offset). n - offset)") (auto simp: PAGE_BYTES_def)

declare placements_from.simps [simp del]

definition placements :: "nat \<Rightarrow> nat \<Rightarrow> CpsError + (Placement \<times> nat) list" where
  "placements addr n = placements_from addr n 0"

definition identify :: "'l SerialLink \<Rightarrow> 'l Session \<Rightarrow> 'l Session \<times> (CpsError + RadioIdent)" where
  "identify io st =
     (case ensure_programming io st of
        (st, Inl e) \<Rightarrow> (st, Inl e)
      | (st, Inr _) \<Rightarrow>
          (case page_of IDENTITY_PAGE of
             Inl e \<Rightarrow> (st, Inl e)
           | Inr p \<Rightarrow>
               (case read_page io p st of
                  (st, Inl e) \<Rightarrow> (st, Inl e)
                | (st, Inr page) \<Rightarrow>
                    (let signature = get_u16_le page SIGNATURE_AT
                     in (st, if signature \<noteq> SIGNATURE
                             then Inl (CpsProtocol ''identify'' (''signature '' @ hex_padded 6 (unat signature) @ '' is not an RT-4D''))
                             else Inr \<lparr>reported_model = chars REPORTED_MODEL, firmware = None, bands = None, model_id = Some (chars MODEL_ID)\<rparr>)))))"

text \<open>The loop of \<open>read\<close>: what is in the buffer so far is \<open>out\<close>, and \<open>n\<close> is its length in the end.\<close>

function read_pages :: "'l SerialLink \<Rightarrow> nat \<Rightarrow> nat \<Rightarrow> nat \<Rightarrow> bytes \<Rightarrow> 'l Session \<Rightarrow> 'l Session \<times> (CpsError + bytes)" where
  "read_pages io addr n filled out st =
     (if filled < n then
        let cursor = min (addr + filled) (2 ^ 32 - 1);
            within = cursor mod PAGE_BYTES;
            take_n = min (PAGE_BYTES - within) (n - filled)
        in case page_of cursor of
             Inl e \<Rightarrow> (st, Inl e)
           | Inr p \<Rightarrow>
               (case read_page io p st of
                  (st', Inl e) \<Rightarrow> (st', Inl e)
                | (st', Inr page) \<Rightarrow> read_pages io addr n (filled + take_n) (out @ take take_n (drop within page)) st')
      else (st, Inr out))"
  by pat_completeness auto
termination
proof (relation "measure (\<lambda>(io, addr, n, filled, out, st). n - filled)")
  fix addr n filled cursor within take_n :: nat
  assume "filled < n" "within = cursor mod PAGE_BYTES" "take_n = min (PAGE_BYTES - within) (n - filled)"
  moreover have "cursor mod PAGE_BYTES < PAGE_BYTES" by (simp add: PAGE_BYTES_def)
  ultimately have "n - (filled + take_n) < n - filled" by auto
  then show "((io, addr, n, filled + take_n, out @ take take_n (drop within page), st'), (io, addr, n, filled, out, st))
    \<in> measure (\<lambda>(io, addr, n, filled, out, st). n - filled)" for io :: "'l SerialLink" and out page st st' by simp
qed simp

declare read_pages.simps [simp del]

definition session_read :: "'l SerialLink \<Rightarrow> nat \<Rightarrow> bytes \<Rightarrow> 'l Session \<Rightarrow> 'l Session \<times> (CpsError + bytes)" where
  "session_read io addr buf st =
     (case ensure_programming io st of
        (st, Inl e) \<Rightarrow> (st, Inl e)
      | (st, Inr _) \<Rightarrow> read_pages io addr (length buf) 0 [] st)"

fun write_pages :: "'l SerialLink \<Rightarrow> bytes \<Rightarrow> (Placement \<times> nat) list \<Rightarrow> 'l Session \<Rightarrow> 'l Session \<times> (CpsError + unit)" where
  "write_pages io data [] st = (st, Inr ())"
| "write_pages io data ((at, offset) # plan) st =
     (let stop = min (offset + PAGE_BYTES) (length data)
      in case write_page io at (take (stop - offset) (drop offset data)) st of
           (st, Inl e) \<Rightarrow> (st, Inl e)
         | (st, Inr _) \<Rightarrow> write_pages io data plan st)"

definition session_write :: "'l SerialLink \<Rightarrow> nat \<Rightarrow> bytes \<Rightarrow> 'l Session \<Rightarrow> 'l Session \<times> (CpsError + unit)" where
  "session_write io addr data st =
     (case placements addr (length data) of
        Inl e \<Rightarrow> (st, Inl e)
      | Inr plan \<Rightarrow>
          (case ensure_programming io st of
             (st, Inl e) \<Rightarrow> (st, Inl e)
           | (st, Inr _) \<Rightarrow> write_pages io data plan st))"

definition session_finish :: "'l SerialLink \<Rightarrow> 'l Session \<Rightarrow> 'l Session \<times> (CpsError + unit)" where
  "session_finish io st =
     (if session_phase st = Closed then (st, Inr ())
      else let st = leave io st
           in case link_lines io False (session_link st) of (l, r) \<Rightarrow> (st\<lparr>session_link := l\<rparr>, r))"

definition session_drop :: "'l SerialLink \<Rightarrow> 'l Session \<Rightarrow> 'l Session" where
  "session_drop io st =
     (if session_phase st \<noteq> Closed
      then let st = leave io st in st\<lparr>session_link := fst (link_lines io False (session_link st))\<rparr>
      else st)"

section \<open>Frames and their checksum\<close>

lemma page_payload_iff:
  assumes "length reply = PAGE_REPLY_BYTES"
  shows "page_payload reply = Inr d \<longleftrightarrow>
    reply ! 0 = READ_CODE \<and> sum8 (take 1027 reply) = reply ! 1027 \<and> d = drop 3 (take 1027 reply)"
  using assms by (auto simp: page_payload_def PAGE_REPLY_BYTES_def PAGE_BYTES_def Let_def)

lemma page_payload_one_byte:
  assumes "length reply = PAGE_REPLY_BYTES" "page_payload reply = Inr d" "i < PAGE_REPLY_BYTES" "b \<noteq> reply ! i"
  shows "\<exists>e. page_payload (reply[i := b]) = Inl e"
proof -
  have good: "sum8 (take 1027 reply) = reply ! 1027" using assms(1,2) by (simp add: page_payload_iff)
  have "sum8 (take 1027 (reply[i := b])) \<noteq> reply[i := b] ! 1027"
  proof (cases "i < 1027")
    case True
    then have "sum8 ((take 1027 reply)[i := b]) = reply ! 1027 - reply ! i + b"
      using assms(1) good by (subst sum8_update) (simp_all add: PAGE_REPLY_BYTES_def PAGE_BYTES_def)
    with True assms(4) show ?thesis by (simp add: take_update_swap)
  next
    case False
    with assms(3) have "i = 1027" by (simp add: PAGE_REPLY_BYTES_def PAGE_BYTES_def)
    with good assms(1,4) show ?thesis by (simp add: PAGE_REPLY_BYTES_def PAGE_BYTES_def)
  qed
  then have "page_payload (reply[i := b]) \<noteq> Inr x" for x using assms(1) by (simp add: page_payload_iff)
  then show ?thesis by (metis sum.exhaust)
qed

text \<open>What a write frame carries: the page, filled up with zeros.\<close>

lemma write_frame_payload:
  "take PAGE_BYTES (drop 4 (command_bytes (WritePage segment page data))) = resize PAGE_BYTES 0 (take PAGE_BYTES data)"
  by (simp add: command_bytes_def write_body_def resize_def be16_def PAGE_BYTES_def Let_def numeral_nat(2,3) drop_Cons')

section \<open>Placement\<close>

lemma WRITABLE_apart:
  "i < j \<Longrightarrow> j < length WRITABLE \<Longrightarrow> segment_end (WRITABLE ! i) \<le> seg_start (WRITABLE ! j)"
proof -
  assume ij: "i < j" "j < length WRITABLE"
  have "sorted_wrt (\<lambda>s t. segment_end s \<le> seg_start t) WRITABLE"
    by (simp add: WRITABLE_def segment_new_def segment_end_def)
  with ij show ?thesis by (simp add: sorted_wrt_iff_nth_less)
qed

lemma WRITABLE_bounds: "\<forall>s \<in> set WRITABLE. segment_end s \<le> 0xF1000 \<and> seg_len s \<le> 0x34000 \<and> seg_len s mod 1024 = 0"
  by (simp add: WRITABLE_def segment_new_def segment_end_def)

lemma WRITABLE_length: "length WRITABLE = 9"
  by (simp add: WRITABLE_def)

text \<open>The segment an address is in, as the search finds it: there is at most one.\<close>

lemma position_WRITABLE:
  "position (\<lambda>s. seg_start s \<le> addr \<and> addr < segment_end s) WRITABLE = Some i \<longleftrightarrow>
   i < length WRITABLE \<and> seg_start (WRITABLE ! i) \<le> addr \<and> addr < segment_end (WRITABLE ! i)"
  (is "position ?P WRITABLE = Some i \<longleftrightarrow> ?R i")
proof
  assume "?R i"
  moreover have "\<not> ?P (WRITABLE ! j)" if "j < i" for j
  proof -
    have "segment_end (WRITABLE ! j) \<le> seg_start (WRITABLE ! i)" using that calculation by (intro WRITABLE_apart) auto
    with calculation show ?thesis by auto
  qed
  ultimately show "position ?P WRITABLE = Some i" by (intro position_SomeI) auto
qed (use position_SomeD [of ?P WRITABLE i] in auto)

lemma place_Some:
  "place addr n = Some at \<longleftrightarrow> 0 < n \<and> n \<le> PAGE_BYTES \<and> unat (at_segment at) < length WRITABLE \<and>
     addr = seg_start (WRITABLE ! unat (at_segment at)) + unat (at_page at) * PAGE_BYTES \<and>
     addr + n \<le> segment_end (WRITABLE ! unat (at_segment at))"
  (is "_ \<longleftrightarrow> ?R")
proof
  assume p: "place addr n = Some at"
  then obtain i where i: "position (\<lambda>s. seg_start s \<le> addr \<and> addr < segment_end s) WRITABLE = Some i"
    by (auto simp: place_def split: if_splits option.splits)
  define s where "s = WRITABLE ! i"
  have at: "0 < n" "n \<le> PAGE_BYTES" "(addr - seg_start s) mod PAGE_BYTES = 0" "addr + n \<le> segment_end s" "i < 2 ^ 8"
    "(addr - seg_start s) div PAGE_BYTES < 2 ^ 16" "at = \<lparr>at_segment = of_nat i, at_page = of_nat ((addr - seg_start s) div PAGE_BYTES)\<rparr>"
    using p i by (auto simp: place_def s_def Let_def split: if_splits)
  have "unat (at_segment at) = i" "unat (at_page at) = (addr - seg_start s) div PAGE_BYTES"
    using at by (simp_all add: unat_of_nat take_bit_nat_eq_self)
  moreover have "i < length WRITABLE" "seg_start s \<le> addr" using i by (auto simp: position_WRITABLE s_def)
  moreover have "(addr - seg_start s) div PAGE_BYTES * PAGE_BYTES = addr - seg_start s" using at(3) by (simp add: mod_0_imp_dvd)
  ultimately show ?R using at(1,2,4) by (simp add: s_def)
next
  assume r: ?R
  define i p s where "i = unat (at_segment at)" and "p = unat (at_page at)" and "s = WRITABLE ! i"
  have addr: "addr = seg_start s + p * PAGE_BYTES" "addr + n \<le> segment_end s" "0 < n" "n \<le> PAGE_BYTES" "i < length WRITABLE"
    using r by (simp_all add: i_def p_def s_def)
  have "s \<in> set WRITABLE" using addr(5) by (simp add: s_def)
  then have small: "segment_end s \<le> 0xF1000" using WRITABLE_bounds by blast
  have found: "position (\<lambda>s. seg_start s \<le> addr \<and> addr < segment_end s) WRITABLE = Some i"
    unfolding position_WRITABLE using addr by (auto simp: s_def)
  have "p < 2 ^ 16" using unsigned_less [of "at_page at", where ?'a = nat] by (simp add: p_def)
  moreover have "i < 2 ^ 8" using addr(5) by (simp add: WRITABLE_length)
  moreover have "(of_nat p :: u16) = at_page at" "(of_nat i :: u8) = at_segment at" by (simp_all add: p_def i_def)
  moreover have "addr - seg_start s = p * PAGE_BYTES" "n < 2 ^ 32" using addr by (simp_all add: PAGE_BYTES_def)
  moreover have "0 < PAGE_BYTES" by (simp add: PAGE_BYTES_def)
  ultimately show "place addr n = Some at"
    using addr small found by (simp add: place_def s_def [symmetric] Let_def)
qed

lemma place_inj: "place a n = Some at \<Longrightarrow> place b m = Some at \<Longrightarrow> a = b"
  by (auto simp: place_Some)

section \<open>Talking to the radio\<close>

lemma send_acknowledged_exchange:
  "send_acknowledged io step c st =
     (case exchange io (command_bytes c) 1 (session_link st) of
        (l, Inl e) \<Rightarrow> (st\<lparr>session_link := l\<rparr>, Inl e)
      | (l, Inr reply) \<Rightarrow>
          (st\<lparr>session_link := l\<rparr>,
           if reply ! 0 = ACK then Inr ()
           else Inl (CpsProtocol step (''answered '' @ hex_padded 4 (unat (reply ! 0)) @ '' instead of ACK''))))"
  by (auto simp: send_acknowledged_def exchange_def split: prod.splits sum.splits)

lemma read_page_exchange:
  "read_page io page st =
     (case exchange io (command_bytes (ReadPage page)) PAGE_REPLY_BYTES (session_link st) of
        (l, Inl e) \<Rightarrow> (st\<lparr>session_link := l\<rparr>, Inl e)
      | (l, Inr reply) \<Rightarrow> (st\<lparr>session_link := l\<rparr>, page_payload reply))"
  by (auto simp: read_page_def exchange_def split: prod.splits sum.splits)

text \<open>A radio with the memory \<open>R\<close> answers a request for a page with that page, or the exchange fails.\<close>

definition page_reply :: "u16 \<Rightarrow> (nat \<Rightarrow> u8) \<Rightarrow> bytes" where
  "page_reply page R =
     (let framed = READ_CODE # be16 page @ map R [unat page * PAGE_BYTES..<unat page * PAGE_BYTES + PAGE_BYTES]
      in framed @ [sum8 framed])"

definition serves :: "'l SerialLink \<Rightarrow> (nat \<Rightarrow> u8) \<Rightarrow> bool" where
  "serves io R \<longleftrightarrow> (\<forall>page l.
     (\<exists>l'. exchange io (command_bytes (ReadPage page)) PAGE_REPLY_BYTES l = (l', Inr (page_reply page R))) \<or>
     (\<exists>l' e. exchange io (command_bytes (ReadPage page)) PAGE_REPLY_BYTES l = (l', Inl e)))"

lemma page_payload_reply:
  "page_payload (page_reply page R) = Inr (map R [unat page * PAGE_BYTES..<unat page * PAGE_BYTES + PAGE_BYTES])"
proof -
  let ?d = "map R [unat page * PAGE_BYTES..<unat page * PAGE_BYTES + PAGE_BYTES]"
  let ?f = "READ_CODE # be16 page @ ?d"
  have f: "length ?f = 1027" by (simp add: PAGE_BYTES_def be16_def)
  have reply: "page_reply page R = ?f @ [sum8 ?f]" by (simp add: page_reply_def Let_def)
  then have "length (page_reply page R) = PAGE_REPLY_BYTES" using f by (simp add: PAGE_REPLY_BYTES_def PAGE_BYTES_def)
  moreover have "take 1027 (page_reply page R) = ?f" "page_reply page R ! 1027 = sum8 ?f"
    using f reply by (simp_all add: nth_append)
  moreover have "page_reply page R ! 0 = READ_CODE" by (simp add: reply)
  moreover have "drop 3 ?f = ?d" by (simp add: be16_def numeral_3_eq_3)
  ultimately show ?thesis by (simp only: page_payload_iff simp_thms)
qed

section \<open>Reading\<close>

lemma read_page_serves:
  assumes "serves io R"
  obtains st' where "read_page io page st = (st', Inr (map R [unat page * PAGE_BYTES..<unat page * PAGE_BYTES + PAGE_BYTES]))"
  | st' e where "read_page io page st = (st', Inl e)"
proof -
  from assms consider l' where "exchange io (command_bytes (ReadPage page)) PAGE_REPLY_BYTES (session_link st) = (l', Inr (page_reply page R))"
    | l' e where "exchange io (command_bytes (ReadPage page)) PAGE_REPLY_BYTES (session_link st) = (l', Inl e)"
    unfolding serves_def by blast
  then show ?thesis
  proof cases
    case (1 l')
    then show ?thesis using that(1) by (simp add: read_page_exchange page_payload_reply)
  next
    case (2 l' e)
    then show ?thesis using that(2) by (simp add: read_page_exchange)
  qed
qed

lemma page_of_Some:
  assumes "page_of cursor = Inr p" 
  shows "unat p = cursor div PAGE_BYTES" "cursor < 2 ^ 26"
proof -
  have p: "cursor div PAGE_BYTES < 2 ^ 16" "p = of_nat (cursor div PAGE_BYTES)"
    using assms by (auto simp: page_of_def split: if_splits)
  then show "unat p = cursor div PAGE_BYTES" by (simp add: unat_of_nat take_bit_nat_eq_self)
  have "cursor = cursor div PAGE_BYTES * PAGE_BYTES + cursor mod PAGE_BYTES" by simp
  moreover have "cursor mod PAGE_BYTES < PAGE_BYTES" by (simp add: PAGE_BYTES_def)
  ultimately show "cursor < 2 ^ 26" using p(1) unfolding PAGE_BYTES_def by simp
qed

lemma slice_of_page:
  "within + k \<le> n \<Longrightarrow> take k (drop within (map R [a..<a + n])) = map R [a + within..<a + within + k]"
  by (simp add: take_map drop_map)

lemma read_pages_serves:
  "serves io R \<Longrightarrow> out = map R [addr..<addr + filled] \<Longrightarrow> filled \<le> n \<Longrightarrow>
    (\<exists>st'. read_pages io addr n filled out st = (st', Inr (map R [addr..<addr + n]))) \<or>
    (\<exists>st' e. read_pages io addr n filled out st = (st', Inl e))"
proof (induction io addr n filled out st rule: read_pages.induct)
  case (1 io addr n filled out st)
  show ?case
  proof (cases "filled < n")
    case False
    with 1(3,4) show ?thesis by (simp add: read_pages.simps)
  next
    case True
    define cursor where "cursor = min (addr + filled) (2 ^ 32 - 1)"
    define within where "within = cursor mod PAGE_BYTES"
    define k where "k = min (PAGE_BYTES - within) (n - filled)"
    note step = read_pages.simps [of io addr n filled out st, unfolded Let_def, folded cursor_def, folded within_def, folded k_def]
    show ?thesis
    proof (cases "page_of cursor")
      case (Inl e)
      with True show ?thesis by (simp add: step)
    next
      case (Inr p)
      note p = page_of_Some [OF Inr]
      have cursor: "cursor = addr + filled" using p(2) by (auto simp: cursor_def min_def split: if_splits)
      have base: "unat p * PAGE_BYTES + within = addr + filled" using p(1) cursor by (simp add: within_def)
      consider (page) st' where "read_page io p st = (st', Inr (map R [unat p * PAGE_BYTES..<unat p * PAGE_BYTES + PAGE_BYTES]))"
        | (failed) st' e where "read_page io p st = (st', Inl e)" using read_page_serves [OF 1(2), of p st] by blast
      then show ?thesis
      proof cases
        case (page st')
        let ?page = "map R [unat p * PAGE_BYTES..<unat p * PAGE_BYTES + PAGE_BYTES]"
        have w: "within < PAGE_BYTES" by (simp add: within_def PAGE_BYTES_def)
        then have k: "within + k \<le> PAGE_BYTES" "filled + k \<le> n" using True by (auto simp: k_def)
        have "[addr..<addr + (filled + k)] = [addr..<addr + filled] @ [addr + filled..<addr + filled + k]"
          using upt_add_eq_append [of addr "addr + filled" k] by (simp only: add.assoc le_add1)
        then have "out @ take k (drop within ?page) = map R [addr..<addr + (filled + k)]"
          unfolding slice_of_page [OF k(1)] base 1(3) by (simp only: map_append)
        then show ?thesis
          using 1(1) [OF True cursor_def within_def k_def Inr page [symmetric] refl 1(2)] True Inr page k(2) by (simp add: step)
      next
        case (failed st' e)
        with True Inr show ?thesis by (simp add: step)
      qed
    qed
  qed
qed

interpretation rt4d: radio_reader "session_read io" "serves io" for io
proof
  fix R addr buf st st' out
  assume s: "serves io R" and run: "session_read io addr buf st = (st', Inr out)"
  obtain st1 r where "ensure_programming io st = (st1, r)" by (cases "ensure_programming io st")
  with run read_pages_serves [OF s, of "[]" addr 0 "length buf" st1] show "out = map R [addr..<addr + length buf]"
    by (cases r) (auto simp: session_read_def)
qed

lemma REGIONS_separate: "separate REGIONS"
  by (auto simp: separate_def REGIONS_def table_region_def region_fixed_def in_region_def table_bytes_def
      SETTINGS_def CHANNELS_def ZONES_def CONTACTS_def GROUP_LISTS_def)

section \<open>Writing\<close>

text \<open>
  A radio whose memory is \<open>m l\<close>: an acknowledged write frame has stored its 1024 payload bytes at the
  page it names, and no other exchange changes the memory.
\<close>

definition programs :: "'l SerialLink \<Rightarrow> ('l \<Rightarrow> nat \<Rightarrow> u8) \<Rightarrow> bool" where
  "programs io m \<longleftrightarrow>
     (\<forall>c l l' r. exchange io (command_bytes c) 1 l = (l', r) \<longrightarrow>
        m l' = (case (c, r) of
                  (WritePage segment page data, Inr reply) \<Rightarrow>
                    if reply ! 0 = ACK
                    then store (seg_start (WRITABLE ! unat segment) + unat page * PAGE_BYTES)
                           (take PAGE_BYTES (drop 4 (command_bytes c))) (m l)
                    else m l
                | _ \<Rightarrow> m l))"

lemma write_page_programs:
  assumes "programs io m" "write_page io at data st = (st', Inr u)"
  shows "m (session_link st') = store (seg_start (WRITABLE ! unat (at_segment at)) + unat (at_page at) * PAGE_BYTES)
    (resize PAGE_BYTES 0 (take PAGE_BYTES data)) (m (session_link st))"
proof -
  let ?c = "WritePage (at_segment at) (at_page at) data"
  obtain l' r where ex: "exchange io (command_bytes ?c) 1 (session_link st) = (l', r)" by (cases "exchange io (command_bytes ?c) 1 (session_link st)")
  with assms(2) have "\<exists>reply. r = Inr reply \<and> reply ! 0 = ACK" "session_link st' = l'"
    by (auto simp: write_page_def send_acknowledged_exchange split: sum.splits if_splits)
  then show ?thesis using assms(1) [unfolded programs_def, rule_format, OF ex] write_frame_payload by auto
qed

lemma write_pages_programs:
  "programs io m \<Longrightarrow> placements_from addr (length data) offset = Inr plan \<Longrightarrow> write_pages io data plan st = (st', Inr u) \<Longrightarrow>
   m (session_link st') = store (addr + offset) (padded_to PAGE_BYTES (drop offset data)) (m (session_link st))"
proof (induction addr "length data" offset arbitrary: plan st rule: placements_from.induct)
  case (1 addr offset)
  show ?case
  proof (cases "offset < length data")
    case False
    with 1(3) have "plan = []" by (simp add: placements_from.simps)
    with 1(4) False show ?thesis by simp
  next
    case True
    define k where "k = min PAGE_BYTES (length data - offset)"
    obtain at plan' where found: "(if 2 ^ 32 \<le> offset \<or> 2 ^ 32 \<le> addr + offset then None else place (addr + offset) k) = Some at"
      and rest: "placements_from addr (length data) (offset + k) = Inr plan'"
      and plan: "plan = (at, offset) # plan'"
      using 1(3) True
      by (subst (asm) placements_from.simps) (auto simp: k_def Let_def split: option.splits sum.splits if_splits)
    from found have at: "place (addr + offset) k = Some at" by (simp split: if_splits)
    let ?page = "take (min (offset + PAGE_BYTES) (length data) - offset) (drop offset data)"
    have page: "?page = take PAGE_BYTES (drop offset data)" by (simp add: min_def)
    obtain st1 where w: "write_page io at ?page st = (st1, Inr ())" and rest': "write_pages io data plan' st1 = (st', Inr u)"
      using 1(4) plan by (auto simp: Let_def split: prod.splits sum.splits)
    have "m (session_link st') = store (addr + (offset + k)) (padded_to PAGE_BYTES (drop (offset + k) data)) (m (session_link st1))"
      using 1(1) [OF True k_def found 1(2) rest rest'] .
    moreover have "m (session_link st1) = store (addr + offset) (resize PAGE_BYTES 0 (take PAGE_BYTES (drop offset data))) (m (session_link st))"
      using write_page_programs [OF 1(2) w] at page by (simp add: place_Some)
    moreover have "drop (offset + k) data = drop PAGE_BYTES (drop offset data)" "k < PAGE_BYTES \<Longrightarrow> drop (offset + k) data = []"
      by (auto simp: k_def min_def add.commute)
    moreover have "padded_to PAGE_BYTES (drop offset data) = resize PAGE_BYTES 0 (take PAGE_BYTES (drop offset data)) @ padded_to PAGE_BYTES (drop PAGE_BYTES (drop offset data))"
      using True by (intro padded_to_block) (simp_all add: PAGE_BYTES_def)
    ultimately show ?thesis
      by (cases "k < PAGE_BYTES") (auto simp: k_def store_append [symmetric] length_resize add.assoc)
  qed
qed

section \<open>Properties\<close>

text \<open>
  C33: Reading an RT-4D captures its codeplug: whatever the memory, a transfer through the session
  that succeeds has read every byte of every table at its address, page by page; it always ends, and
  a page whose reply differs from the radio's in a single byte is refused.
\<close>

theorem rt4d_read_captures:
  assumes "serves io R"
  shows "\<exists>st' reports result. transfer_read (session_read io) cancelled PAGE_BYTES ERASED REGIONS st = Some (st', reports, result) \<and>
    (\<forall>img. result = Inr img \<longrightarrow> (\<forall>r \<in> set REGIONS. \<forall>a. in_region r a \<longrightarrow> mem img a = Some (R a))) \<and>
    (\<forall>page i b. i < PAGE_REPLY_BYTES \<longrightarrow> b \<noteq> page_reply page R ! i \<longrightarrow> (\<exists>e. page_payload ((page_reply page R)[i := b]) = Inl e))"
proof -
  have fixed: "\<forall>r \<in> set REGIONS. region_kind r = Fixed" by (simp add: REGIONS_def table_region_def region_fixed_def)
  have "length (page_reply page R) = PAGE_REPLY_BYTES" for page
    by (simp add: page_reply_def PAGE_REPLY_BYTES_def be16_def Let_def)
  then have "\<forall>page i b. i < PAGE_REPLY_BYTES \<longrightarrow> b \<noteq> page_reply page R ! i \<longrightarrow> (\<exists>e. page_payload ((page_reply page R)[i := b]) = Inl e)"
    using page_payload_one_byte [OF _ page_payload_reply] by blast
  with rt4d.transfer_captures_fixed [OF assms REGIONS_separate fixed, of cancelled PAGE_BYTES ERASED st] show ?thesis by blast
qed

definition sample_reader :: "(nat \<Rightarrow> u8) \<Rightarrow> bytes SerialLink" where
  "sample_reader R = \<lparr>link_send = (\<lambda>bs l. (bs, Inr ())),
     link_receive = (\<lambda>n l. (l, Inr (if n = 1 then [ACK] else page_reply (of_be16 (l ! 1) (l ! 2)) R))),
     link_discard = (\<lambda>l. (l, Inr ())), link_lines = (\<lambda>on l. (l, Inr ()))\<rparr>"

theorem rt4d_read_captures_witness:
  "\<exists>st' reports result. transfer_read (session_read (sample_reader (\<lambda>a. of_nat a))) (\<lambda>k. False) PAGE_BYTES ERASED REGIONS
     \<lparr>session_link = [], session_phase = Idle\<rparr> = Some (st', reports, result) \<and>
   (\<forall>img. result = Inr img \<longrightarrow> mem img 0x4005 = Some 5)"
proof -
  have "serves (sample_reader R) R" for R
    by (simp add: serves_def exchange_def sample_reader_def PAGE_REPLY_BYTES_def PAGE_BYTES_def command_bytes_def be16_def Let_def)
  moreover have "table_region CHANNELS \<in> set REGIONS" "in_region (table_region CHANNELS) 0x4005"
    by (simp_all add: REGIONS_def in_region_def table_region_def region_fixed_def CHANNELS_def table_bytes_def)
  ultimately show ?thesis
    using rt4d_read_captures [of "sample_reader (\<lambda>a. of_nat a)" "\<lambda>a. of_nat a" "\<lambda>k. False" "\<lparr>session_link = [], session_phase = Idle\<rparr>"]
    by fastforce
qed

lemma session_write_programs:
  assumes "programs io m" "session_write io addr data st = (st', Inr ())"
  shows "m (session_link st') = store addr (padded_to PAGE_BYTES data) (m (session_link st))"
proof -
  obtain plan st1 where plan: "placements addr (length data) = Inr plan" and enter: "ensure_programming io st = (st1, Inr ())"
    and w: "write_pages io data plan st1 = (st', Inr ())"
    using assms(2) by (auto simp: session_write_def split: sum.splits prod.splits)
  have "m (session_link st1) = m (session_link st)"
  proof -
    obtain l' r where ex: "exchange io (command_bytes Enter) 1 (session_link st) = (l', r)" by (cases "exchange io (command_bytes Enter) 1 (session_link st)")
    have "m l' = m (session_link st)" using assms(1) [unfolded programs_def, rule_format, OF ex] by simp
    with enter ex show ?thesis
      by (auto simp: ensure_programming_def send_acknowledged_exchange split: Phase.splits sum.splits if_splits)
  qed
  then show ?thesis
    using write_pages_programs [OF assms(1) plan [unfolded placements_def] w] by simp
qed

interpretation rt4d_writer: radio_writer "session_write io" "\<lambda>M. \<exists>m. programs io m \<and> M = (\<lambda>st. m (session_link st))" PAGE_BYTES for io
proof
  show "0 < PAGE_BYTES" by (simp add: PAGE_BYTES_def)
qed (use session_write_programs in blast)

text \<open>
  C34: A write through an RT-4D session that succeeds has stored the data at its address and filled
  the rest of the last page with zeros: data of whole pages changes nothing else, but a write that
  ends inside a page overwrites what the radio held behind it.
\<close>

theorem rt4d_write_programs:
  assumes "programs io m" "session_write io addr data st = (st', Inr ())"
  shows "m (session_link st') = store addr (padded_to PAGE_BYTES data) (m (session_link st)) \<and>
    (length data mod PAGE_BYTES = 0 \<longrightarrow> padded_to PAGE_BYTES data = data) \<and>
    (\<forall>a. addr + length data \<le> a \<and> a < addr + length (padded_to PAGE_BYTES data) \<longrightarrow> m (session_link st') a = 0)"
  using session_write_programs [OF assms] store_padding padded_to_whole by simp

text \<open>A radio that stores: its memory and the last request.\<close>

definition sample_writer :: "((nat \<Rightarrow> u8) \<times> bytes) SerialLink" where
  "sample_writer = \<lparr>link_send = (\<lambda>bs (M, l). ((M, bs), Inr ())),
     link_receive = (\<lambda>n (M, l).
       ((if l ! 0 = WRITE_CODE
         then store (seg_start (WRITABLE ! unat (l ! 1)) + unat (of_be16 (l ! 2) (l ! 3)) * PAGE_BYTES) (take PAGE_BYTES (drop 4 l)) M
         else M, l), Inr [ACK])),
     link_discard = (\<lambda>l. (l, Inr ())), link_lines = (\<lambda>on l. (l, Inr ()))\<rparr>"

lemma sample_writer_programs: "programs sample_writer fst"
  unfolding programs_def
proof (intro allI impI)
  fix c l l' r
  assume ex: "exchange sample_writer (command_bytes c) 1 l = (l', r)"
  have codes: "command_bytes Enter ! 0 \<noteq> WRITE_CODE" "command_bytes Leave ! 0 \<noteq> WRITE_CODE" "command_bytes (ReadPage p) ! 0 \<noteq> WRITE_CODE" for p
    by (simp_all add: command_bytes_def session_body_def SESSION_PREFIX_def WRITE_CODE_def READ_CODE_def Let_def)
  have fields: "command_bytes (WritePage segment page data) ! 0 = WRITE_CODE" "command_bytes (WritePage segment page data) ! Suc 0 = segment"
    "of_be16 (command_bytes (WritePage segment page data) ! 2) (command_bytes (WritePage segment page data) ! 3) = page" for segment page data
    by (simp_all add: command_bytes_def write_body_def resize_def be16_def Let_def PAGE_BYTES_def)
  show "fst l' = (case (c, r) of (WritePage segment page data, Inr reply) \<Rightarrow>
        if reply ! 0 = ACK then store (seg_start (WRITABLE ! unat segment) + unat page * PAGE_BYTES)
             (take PAGE_BYTES (drop 4 (command_bytes c))) (fst l) else fst l | _ \<Rightarrow> fst l)"
    using ex by (cases c; cases l) (auto simp: exchange_def sample_writer_def codes fields)
qed

lemma sample_writer_run:
  "\<exists>st'. session_write sample_writer 0x2000 [1, 2, 3] \<lparr>session_link = (\<lambda>a. 9, []), session_phase = Programming\<rparr> = (st', Inr ())"
proof -
  have "place 0x2000 3 = Some \<lparr>at_segment = 0, at_page = 0\<rparr>"
    by (simp add: place_Some PAGE_BYTES_def WRITABLE_def segment_new_def segment_end_def)
  then have "placements 0x2000 3 = Inr [(\<lparr>at_segment = 0, at_page = 0\<rparr>, 0)]"
    by (simp add: placements_def placements_from.simps PAGE_BYTES_def)
  then show ?thesis
    by (simp add: session_write_def ensure_programming_def write_page_def send_acknowledged_def sample_writer_def numeral_3_eq_3)
qed

theorem rt4d_write_programs_witness:
  "\<exists>st'. session_write sample_writer 0x2000 [1, 2, 3] \<lparr>session_link = (\<lambda>a. 9, []), session_phase = Programming\<rparr> = (st', Inr ()) \<and>
     fst (session_link st') 0x2001 = 2 \<and> fst (session_link st') 0x2003 = 0"
proof -
  let ?st = "\<lparr>session_link = (\<lambda>a. 9, []), session_phase = Programming\<rparr> :: ((nat \<Rightarrow> u8) \<times> bytes) Session"
  obtain st' where run: "session_write sample_writer 0x2000 [1, 2, 3] ?st = (st', Inr ())" using sample_writer_run by blast
  have len: "length (padded_to PAGE_BYTES [1, 2, 3]) = 1024" by (simp add: padded_to_def PAGE_BYTES_def)
  note eff = rt4d_write_programs [OF sample_writer_programs run]
  have "fst (session_link st') 0x2001 = padded_to PAGE_BYTES [1, 2, 3] ! 1" using eff len by (simp add: store_def)
  then have "fst (session_link st') 0x2001 = 2" by (simp add: padded_to_def)
  moreover have "fst (session_link st') 0x2003 = 0" using eff [THEN conjunct2, THEN conjunct2, rule_format, of "0x2003"] len by simp
  ultimately show ?thesis using run by blast
qed

text \<open>
  The session guards the radio.  An address and length are placed exactly when they lie in one
  page of one writable segment, at a page boundary, and different addresses get different pages; a
  write any part of which has no place fails before a byte is sent; and a session that was finished
  or dropped is closed, refuses every operation and leaves the line alone.
\<close>

theorem rt4d_session_guards:
  "(place addr n = Some at \<longleftrightarrow> 0 < n \<and> n \<le> PAGE_BYTES \<and> unat (at_segment at) < length WRITABLE \<and>
      addr = seg_start (WRITABLE ! unat (at_segment at)) + unat (at_page at) * PAGE_BYTES \<and>
      addr + n \<le> segment_end (WRITABLE ! unat (at_segment at))) \<and>
   (place addr n = Some at \<and> place b k = Some at \<longrightarrow> addr = b) \<and>
   (0 < length data \<and> place addr (min PAGE_BYTES (length data)) = None \<longrightarrow> (\<exists>e. session_write io addr data st = (st, Inl e))) \<and>
   session_phase (fst (session_finish io st)) = Closed \<and> session_phase (session_drop io st) = Closed \<and>
   (session_phase st = Closed \<longrightarrow>
      (\<exists>e. identify io st = (st, Inl e)) \<and> (\<exists>e. session_read io addr buf st = (st, Inl e)) \<and>
      (\<exists>e. session_write io addr data st = (st, Inl e)) \<and> session_finish io st = (st, Inr ()) \<and> session_drop io st = st)"
proof (intro conjI impI)
  show "place addr n = Some at \<longleftrightarrow> 0 < n \<and> n \<le> PAGE_BYTES \<and> unat (at_segment at) < length WRITABLE \<and>
      addr = seg_start (WRITABLE ! unat (at_segment at)) + unat (at_page at) * PAGE_BYTES \<and>
      addr + n \<le> segment_end (WRITABLE ! unat (at_segment at))" by (rule place_Some)
  show "addr = b" if "place addr n = Some at \<and> place b k = Some at" using that place_inj by blast
  show "\<exists>e. session_write io addr data st = (st, Inl e)" if "0 < length data \<and> place addr (min PAGE_BYTES (length data)) = None"
    using that by (simp add: session_write_def placements_def placements_from.simps Let_def)
  show "session_phase (fst (session_finish io st)) = Closed" "session_phase (session_drop io st) = Closed"
    by (auto simp: session_finish_def session_drop_def leave_def Let_def split: prod.splits)
  assume closed: "session_phase st = Closed"
  then have shut: "ensure_programming io st = (st, Inl (CpsProtocol ''enter'' ''the session is already closed''))"
    by (simp add: ensure_programming_def)
  show "\<exists>e. identify io st = (st, Inl e)" "\<exists>e. session_read io addr buf st = (st, Inl e)"
    "\<exists>e. session_write io addr data st = (st, Inl e)" "session_finish io st = (st, Inr ())" "session_drop io st = st"
    using closed by (auto simp: identify_def session_read_def session_write_def session_finish_def session_drop_def shut split: sum.splits)
qed

theorem rt4d_session_guards_witness:
  "(\<exists>e. session_write sample_writer 0 [1] \<lparr>session_link = (\<lambda>a. 9, []), session_phase = Idle\<rparr> =
      (\<lparr>session_link = (\<lambda>a. 9, []), session_phase = Idle\<rparr>, Inl e)) \<and>
   session_drop sample_writer \<lparr>session_link = (\<lambda>a. 9, []), session_phase = Closed\<rparr> = \<lparr>session_link = (\<lambda>a. 9, []), session_phase = Closed\<rparr>"
proof -
  have "place 0 1 = None"
    by (simp add: place_def WRITABLE_def segment_new_def segment_end_def)
  then have none: "0 < length [1 :: u8] \<and> place 0 (min PAGE_BYTES (length [1 :: u8])) = None" by (simp add: PAGE_BYTES_def)
  note guards = rt4d_session_guards [where io = sample_writer and addr = 0 and n = 1 and b = 0 and k = 1 and at = "\<lparr>at_segment = 0, at_page = 0\<rparr>" and buf = "[]"]
  have "\<exists>e. session_write sample_writer 0 [1] \<lparr>session_link = (\<lambda>a. 9, []), session_phase = Idle\<rparr> =
      (\<lparr>session_link = (\<lambda>a. 9, []), session_phase = Idle\<rparr>, Inl e)"
    using guards [THEN conjunct2, THEN conjunct2, THEN conjunct1] none by (rule mp)
  moreover have "session_drop sample_writer \<lparr>session_link = (\<lambda>a. 9, []), session_phase = Closed\<rparr> = \<lparr>session_link = (\<lambda>a. 9, []), session_phase = Closed\<rparr>"
    using guards [where data = "[]" and st = "\<lparr>session_link = (\<lambda>a. 9, []), session_phase = Closed\<rparr>"] by (simp only: Session.simps simp_thms)
  ultimately show ?thesis ..
qed

end
