(* ===== verification/Cps_Anytone.thy ===== *)
theory Cps_Anytone
  imports Cps_Serial
begin

text \<open>
  The programming session of the AnyTone radios (\<open>crates/cps/src/anytone/protocol.rs\<close>): the memory is
  read and written in blocks of sixteen bytes, each in a frame with its address, a checksum and an
  acknowledgement.  The serial port is a parameter.  Addresses are numbers; a frame carries them as
  32 bits.  The running address of the loops is one of them, so that of a range which ends at \<open>2 ^ 32\<close>
  is stepped past its last block without the overflow a debug build would stop at.
\<close>

section \<open>Frames\<close>

definition BLOCK :: nat where "BLOCK = 16"
definition ANY_ACK :: u8 where "ANY_ACK = 0x06"
definition HELLO :: bytes where "HELLO = map byte_of (chars ''PROGRAM'')"
definition HELLO_REPLY :: bytes where "HELLO_REPLY = map byte_of (chars ''QX'') @ [0x06]"
definition QUERY_ID :: u8 where "QUERY_ID = 0x02"
definition BYE :: bytes where "BYE = map byte_of (chars ''END'')"
definition READ :: u8 where "READ = 0x52"
definition DATA :: u8 where "DATA = 0x57"
definition DATA_FRAME :: nat where "DATA_FRAME = BLOCK + 8"

text \<open>\<open>hex\<close>: two digits for every byte.\<close>

definition hex_bytes :: "bytes \<Rightarrow> string" where
  "hex_bytes bs = concat (map (\<lambda>b. [hex_digit (unat b div 16), hex_digit (unat b mod 16)]) bs)"

definition data_frame :: "nat \<Rightarrow> bytes \<Rightarrow> bytes" where
  "data_frame addr block =
     (let body = be32 (of_nat addr) @ [of_nat BLOCK] @ block @ replicate (BLOCK - length block) 0
      in [DATA] @ body @ [sum8 body, ANY_ACK])"

definition verify_data_frame :: "bytes \<Rightarrow> nat \<Rightarrow> CpsError + unit" where
  "verify_data_frame frm addr =
     (if frm ! 0 \<noteq> DATA \<or> frm ! (DATA_FRAME - 1) \<noteq> ANY_ACK
      then Inl (CpsProtocol ''read'' (''malformed reply '' @ hex_padded 4 (unat (frm ! 0)) @ ''..'' @
             hex_padded 4 (unat (frm ! (DATA_FRAME - 1))) @ '' at '' @ hex_padded 10 addr))
      else let echoed = unat (of_be32 (frm ! 1) (frm ! 2) (frm ! 3) (frm ! 4))
           in if echoed \<noteq> addr \<or> unat (frm ! 5) \<noteq> BLOCK
              then Inl (CpsProtocol ''read'' (''asked for '' @ decimal BLOCK @ '' bytes at '' @ hex_padded 10 addr @ '', got '' @
                     decimal (unat (frm ! 5)) @ '' at '' @ hex_padded 10 echoed))
              else let expected = sum8 (take (DATA_FRAME - 3) (drop 1 frm))
                   in if frm ! (DATA_FRAME - 2) \<noteq> expected
                      then Inl (CpsProtocol ''read'' (''bad checksum at '' @ hex_padded 10 addr @ '': '' @
                             hex_padded 4 (unat (frm ! (DATA_FRAME - 2))) @ '', want '' @ hex_padded 4 (unat expected)))
                      else Inr ())"

definition cut_text :: "bytes \<Rightarrow> rtext" where
  "cut_text bs = trim (from_utf8_lossy (takeWhile (\<lambda>b. b \<noteq> 0) bs))"

record Identity =
  ident_model :: rtext
  ident_bands :: u8
  ident_firmware :: "rtext option"

definition identity_parse :: "bytes \<Rightarrow> CpsError + Identity" where
  "identity_parse reply =
     (if reply ! 0 \<noteq> 0x49 \<or> reply ! 15 \<noteq> ANY_ACK
      then Inl (CpsProtocol ''identify'' (''no identification frame: '' @ hex_bytes reply))
      else let fw = cut_text (take 6 (drop 9 reply))
           in Inr \<lparr>ident_model = cut_text (take 7 (drop 1 reply)), ident_bands = reply ! 8,
                   ident_firmware = (if fw \<noteq> [] then Some fw else None)\<rparr>)"

section \<open>The session\<close>

record 'l AnytoneSession =
  any_link :: 'l
  any_model_id :: string
  any_accepted :: "string list"
  any_programming :: bool
  any_finished :: bool

definition transact :: "'l SerialLink \<Rightarrow> bytes \<Rightarrow> nat \<Rightarrow> 'l AnytoneSession \<Rightarrow> 'l AnytoneSession \<times> (CpsError + bytes)" where
  "transact io request n st =
     (case link_send io request (any_link st) of
        (l, Inl e) \<Rightarrow> (st\<lparr>any_link := l\<rparr>, Inl e)
      | (l, Inr _) \<Rightarrow> (case link_receive io n l of (l, r) \<Rightarrow> (st\<lparr>any_link := l\<rparr>, r)))"

definition any_ensure_programming :: "'l SerialLink \<Rightarrow> 'l AnytoneSession \<Rightarrow> 'l AnytoneSession \<times> (CpsError + unit)" where
  "any_ensure_programming io st =
     (if any_programming st then (st, Inr ())
      else case transact io HELLO 3 st of
        (st, Inl e) \<Rightarrow> (st, Inl e)
      | (st, Inr reply) \<Rightarrow>
          if reply \<noteq> HELLO_REPLY
          then (st, Inl (CpsProtocol ''enter program mode'' (''radio replied '' @ hex_bytes reply)))
          else (st\<lparr>any_programming := True\<rparr>, Inr ()))"

definition any_open :: "'l SerialLink \<Rightarrow> string \<Rightarrow> string list \<Rightarrow> 'l \<Rightarrow> 'l AnytoneSession \<times> (CpsError + unit)" where
  "any_open io model accepted l =
     (let st = \<lparr>any_link = l, any_model_id = model, any_accepted = accepted, any_programming = False, any_finished = False\<rparr>
      in case link_discard io l of
           (l, Inl e) \<Rightarrow> (st\<lparr>any_link := l\<rparr>, Inl e)
         | (l, Inr _) \<Rightarrow> any_ensure_programming io (st\<lparr>any_link := l\<rparr>))"

definition ascii_lower :: "nat \<Rightarrow> nat" where
  "ascii_lower c = (if 65 \<le> c \<and> c \<le> 90 then c + 32 else c)"

definition accepts :: "'l AnytoneSession \<Rightarrow> rtext \<Rightarrow> bool" where
  "accepts st model \<longleftrightarrow>
     any_accepted st = [] \<or> (\<exists>name \<in> set (any_accepted st). map ascii_lower (chars name) = map ascii_lower model)"

definition fetch_block :: "'l SerialLink \<Rightarrow> nat \<Rightarrow> 'l AnytoneSession \<Rightarrow> 'l AnytoneSession \<times> (CpsError + bytes)" where
  "fetch_block io addr st =
     (case transact io ([READ] @ be32 (of_nat addr) @ [of_nat BLOCK]) DATA_FRAME st of
        (st, Inl e) \<Rightarrow> (st, Inl e)
      | (st, Inr reply) \<Rightarrow>
          (case verify_data_frame reply addr of Inl e \<Rightarrow> (st, Inl e) | Inr _ \<Rightarrow> (st, Inr reply)))"

definition store_block :: "'l SerialLink \<Rightarrow> nat \<Rightarrow> bytes \<Rightarrow> 'l AnytoneSession \<Rightarrow> 'l AnytoneSession \<times> (CpsError + unit)" where
  "store_block io addr block st =
     (case transact io (data_frame addr block) 1 st of
        (st, Inl e) \<Rightarrow> (st, Inl e)
      | (st, Inr reply) \<Rightarrow>
          (st, if reply ! 0 = ANY_ACK then Inr ()
               else Inl (CpsProtocol ''write'' (''radio replied '' @ hex_padded 4 (unat (reply ! 0)) @ '' at '' @ hex_padded 10 addr))))"

definition any_identify :: "'l SerialLink \<Rightarrow> 'l AnytoneSession \<Rightarrow> 'l AnytoneSession \<times> (CpsError + RadioIdent)" where
  "any_identify io st =
     (case any_ensure_programming io st of
        (st, Inl e) \<Rightarrow> (st, Inl e)
      | (st, Inr _) \<Rightarrow>
          (case transact io [QUERY_ID] 16 st of
             (st, Inl e) \<Rightarrow> (st, Inl e)
           | (st, Inr reply) \<Rightarrow>
               (case identity_parse reply of
                  Inl e \<Rightarrow> (st, Inl e)
                | Inr ident \<Rightarrow>
                    (st, if \<not> accepts st (ident_model ident) then Inl (ModelMismatch (any_model_id st) (ident_model ident))
                         else Inr \<lparr>reported_model = ident_model ident, firmware = ident_firmware ident,
                                   bands = Some (chars (hex_padded 4 (unat (ident_bands ident)))),
                                   model_id = Some (chars (any_model_id st))\<rparr>))))"

text \<open>The loops over the blocks of a buffer: \<open>n\<close> bytes are still to be read.\<close>

function any_read_blocks :: "'l SerialLink \<Rightarrow> nat \<Rightarrow> nat \<Rightarrow> 'l AnytoneSession \<Rightarrow> 'l AnytoneSession \<times> (CpsError + bytes)" where
  "any_read_blocks io at n st =
     (if n = 0 then (st, Inr [])
      else case fetch_block io at st of
        (st', Inl e) \<Rightarrow> (st', Inl e)
      | (st', Inr frm) \<Rightarrow>
          (case any_read_blocks io (at + BLOCK) (n - BLOCK) st' of
             (st'', Inl e) \<Rightarrow> (st'', Inl e)
           | (st'', Inr rest) \<Rightarrow> (st'', Inr (take (min BLOCK n) (drop 6 frm) @ rest))))"
  by pat_completeness auto
termination
  by (relation "measure (\<lambda>(io, at, n, st). n)") (auto simp: BLOCK_def)

declare any_read_blocks.simps [simp del]

definition any_read :: "'l SerialLink \<Rightarrow> nat \<Rightarrow> bytes \<Rightarrow> 'l AnytoneSession \<Rightarrow> 'l AnytoneSession \<times> (CpsError + bytes)" where
  "any_read io addr buf st =
     (case any_ensure_programming io st of
        (st, Inl e) \<Rightarrow> (st, Inl e)
      | (st, Inr _) \<Rightarrow> any_read_blocks io addr (length buf) st)"

function any_write_blocks :: "'l SerialLink \<Rightarrow> nat \<Rightarrow> bytes \<Rightarrow> 'l AnytoneSession \<Rightarrow> 'l AnytoneSession \<times> (CpsError + unit)" where
  "any_write_blocks io at data st =
     (if data = [] then (st, Inr ())
      else case store_block io at (take BLOCK data) st of
        (st', Inl e) \<Rightarrow> (st', Inl e)
      | (st', Inr _) \<Rightarrow> any_write_blocks io (at + BLOCK) (drop BLOCK data) st')"
  by pat_completeness auto
termination
  by (relation "measure (\<lambda>(io, at, data, st). length data)") (auto simp: BLOCK_def)

declare any_write_blocks.simps [simp del]

definition any_write :: "'l SerialLink \<Rightarrow> nat \<Rightarrow> bytes \<Rightarrow> 'l AnytoneSession \<Rightarrow> 'l AnytoneSession \<times> (CpsError + unit)" where
  "any_write io addr data st =
     (case any_ensure_programming io st of
        (st, Inl e) \<Rightarrow> (st, Inl e)
      | (st, Inr _) \<Rightarrow> any_write_blocks io addr data st)"

definition any_finish :: "'l SerialLink \<Rightarrow> 'l AnytoneSession \<Rightarrow> 'l AnytoneSession \<times> (CpsError + unit)" where
  "any_finish io st =
     (if any_finished st then (st, Inr ())
      else let st = st\<lparr>any_finished := True\<rparr>
           in if \<not> any_programming st then (st, Inr ())
              else case transact io BYE 1 (st\<lparr>any_programming := False\<rparr>) of
                (st, Inl e) \<Rightarrow> (st, Inl e)
              | (st, Inr _) \<Rightarrow> (st, Inr ()))"

definition any_drop :: "'l SerialLink \<Rightarrow> 'l AnytoneSession \<Rightarrow> 'l AnytoneSession" where
  "any_drop io st = fst (any_finish io st)"

section \<open>The regions of the D890UV\<close>

text \<open>\<open>regions\<close> of \<open>d890uv.rs\<close>: the tables of the codeplug, all sparse but the primary identity, and one bank per 128 channels.\<close>

definition CHANNEL_BANKS :: nat where "CHANNEL_BANKS = 0x01000000"
definition BETWEEN_CHANNEL_BANKS :: nat where "BETWEEN_CHANNEL_BANKS = 0x00080000"
definition CHANNELS_PER_BANK :: nat where "CHANNELS_PER_BANK = 128"
definition NUM_CHANNELS :: nat where "NUM_CHANNELS = 4096"
definition CHANNEL_SIZE :: nat where "CHANNEL_SIZE = 0x80"
definition EMPTY_RUN :: nat where "EMPTY_RUN = 8"
definition D890_ERASED :: u8 where "D890_ERASED = 0xFF"

definition channel_address :: "nat \<Rightarrow> nat" where
  "channel_address i =
     CHANNEL_BANKS + (i div CHANNELS_PER_BANK) * BETWEEN_CHANNEL_BANKS + (i mod CHANNELS_PER_BANK) * CHANNEL_SIZE"

definition d890_tables :: "Region list" where
  "d890_tables =
     [region_sparse ''radio IDs'' 0x03680000 (250 * 0x40) 0x40 EMPTY_RUN,
      region_fixed ''primary radio ID'' 0x03684000 0x40,
      region_sparse ''contacts'' 0x03A00000 (10000 * 0xC8) 0xC8 EMPTY_RUN,
      region_sparse ''group lists'' 0x03780000 (250 * 0x200) 0x200 EMPTY_RUN,
      region_sparse ''zone names'' 0x03600000 (250 * 0x40) 0x40 EMPTY_RUN,
      region_sparse ''zone channels'' 0x02000000 (250 * 0x200) 0x200 EMPTY_RUN,
      region_sparse ''scan lists'' 0x02100000 (250 * 0x200) 0x200 EMPTY_RUN]"

definition d890_regions :: "Region list" where
  "d890_regions = d890_tables @
     map (\<lambda>bank. region_sparse ''channels'' (CHANNEL_BANKS + bank * BETWEEN_CHANNEL_BANKS)
                    (CHANNELS_PER_BANK * CHANNEL_SIZE) CHANNEL_SIZE EMPTY_RUN)
       [0..<NUM_CHANNELS div CHANNELS_PER_BANK]"

section \<open>The frame check\<close>

lemma transact_exchange:
  "transact io request n st = (case exchange io request n (any_link st) of (l, r) \<Rightarrow> (st\<lparr>any_link := l\<rparr>, r))"
  by (auto simp: transact_def exchange_def split: prod.splits sum.splits)

lemma verify_iff:
  "verify_data_frame frm addr = Inr () \<longleftrightarrow>
     frm ! 0 = DATA \<and> frm ! 23 = ANY_ACK \<and> unat (of_be32 (frm ! 1) (frm ! 2) (frm ! 3) (frm ! 4)) = addr \<and> unat (frm ! 5) = BLOCK \<and>
     frm ! 22 = sum8 (take 21 (drop 1 frm))"
  by (auto simp: verify_data_frame_def DATA_FRAME_def BLOCK_def Let_def)

lemma unat_of_nat_u32: "n < 2 ^ 32 \<Longrightarrow> unat (of_nat n :: u32) = n"
  by (simp add: unat_of_nat take_bit_nat_eq_self)

lemma data_frame_shape:
  assumes "length block \<le> BLOCK"
  shows "length (data_frame addr block) = DATA_FRAME"
    "take BLOCK (drop 6 (data_frame addr block)) = resize BLOCK 0 block"
  using assms by (simp_all add: data_frame_def DATA_FRAME_def BLOCK_def resize_def be32_def Let_def)

lemma verify_data_frame_ok:
  assumes "length block \<le> BLOCK" "addr < 2 ^ 32"
  shows "verify_data_frame (data_frame addr block) addr = Inr ()"
proof -
  define q where "q = block @ replicate (BLOCK - length block) 0"
  have q: "length q = 16" using assms(1) by (simp add: q_def BLOCK_def)
  obtain a b c d where w: "be32 (of_nat addr) = [a, b, c, d]" and re: "of_be32 a b c d = (of_nat addr :: u32)"
    using that of_be32_be32 [of "of_nat addr"] by (simp add: be32_def)
  have f: "data_frame addr block = [DATA, a, b, c, d, of_nat BLOCK] @ q @ [sum8 ([a, b, c, d, of_nat BLOCK] @ q), ANY_ACK]"
    by (simp add: data_frame_def w q_def Let_def)
  have "take 21 (drop 1 (data_frame addr block)) = [a, b, c, d, of_nat BLOCK] @ q" using q by (simp add: f)
  moreover have "data_frame addr block ! 22 = sum8 ([a, b, c, d, of_nat BLOCK] @ q)" "data_frame addr block ! 23 = ANY_ACK"
    using q by (simp_all add: f nth_append)
  moreover have "data_frame addr block ! 0 = DATA" "data_frame addr block ! 1 = a" "data_frame addr block ! 2 = b"
    "data_frame addr block ! 3 = c" "data_frame addr block ! 4 = d" "data_frame addr block ! 5 = of_nat BLOCK" by (simp_all add: f)
  moreover have "unat (of_be32 a b c d) = addr" using re assms(2) by (simp only: unat_of_nat_u32)
  moreover have "unat (of_nat BLOCK :: u8) = BLOCK" by (simp add: BLOCK_def)
  ultimately show ?thesis unfolding verify_iff by metis
qed

text \<open>No single damaged byte goes unnoticed.\<close>

lemma verify_one_byte:
  assumes "length frm = DATA_FRAME" "verify_data_frame frm addr = Inr ()" "i < DATA_FRAME" "b \<noteq> frm ! i"
  shows "\<exists>e. verify_data_frame (frm[i := b]) addr = Inl e"
proof -
  have n: "length frm = 24" "i < 24" using assms(1,3) by (simp_all add: DATA_FRAME_def BLOCK_def)
  note ok = assms(2) [unfolded verify_iff]
  have "verify_data_frame (frm[i := b]) addr \<noteq> Inr ()"
  proof
    assume "verify_data_frame (frm[i := b]) addr = Inr ()"
    note ok' = this [unfolded verify_iff]
    have "of_be32 (frm ! 1) (frm ! 2) (frm ! 3) (frm ! 4) = of_be32 (frm[i := b] ! 1) (frm[i := b] ! 2) (frm[i := b] ! 3) (frm[i := b] ! 4)"
      using ok ok' by (metis word_unat_eq_iff)
    then have addr: "[frm ! 1, frm ! 2, frm ! 3, frm ! 4] = [frm[i := b] ! 1, frm[i := b] ! 2, frm[i := b] ! 3, frm[i := b] ! 4]"
      by (simp only: be32_of_be32 [symmetric])
    have len: "frm ! 5 = frm[i := b] ! 5" using ok ok' by (metis word_unat_eq_iff)
    have differ: "j \<noteq> i" if "frm ! j = frm[i := b] ! j" for j using that assms(4) n by auto
    have "0 \<noteq> i" "23 \<noteq> i" using ok ok' by (metis differ)+
    moreover have "1 \<noteq> i" "2 \<noteq> i" "3 \<noteq> i" "4 \<noteq> i" "5 \<noteq> i" by (rule differ, use addr len in \<open>simp only: list.inject\<close>)+
    moreover have "22 \<noteq> i"
    proof
      assume e: "22 = i"
      then have "take 21 (drop 1 (frm[i := b])) = take 21 (drop 1 frm)" by (auto simp: drop_update_swap)
      then have "frm ! 22 = frm[i := b] ! 22" using ok ok' by metis
      from differ [OF this] e show False by contradiction
    qed
    ultimately have i: "6 \<le> i" "i < 22" using n(2) by auto
    then have "take 21 (drop 1 (frm[i := b])) = (take 21 (drop 1 frm))[i - 1 := b]"
      using n by (simp add: drop_update_swap take_update_swap)
    moreover have "i - 1 < length (take 21 (drop 1 frm))" "take 21 (drop 1 frm) ! (i - 1) = frm ! i" using i n by auto
    ultimately have "sum8 (take 21 (drop 1 (frm[i := b]))) = sum8 (take 21 (drop 1 frm)) - frm ! i + b"
      by (simp only: sum8_update)
    moreover have "frm[i := b] ! 22 = frm ! 22" using i by simp
    ultimately have "sum8 (take 21 (drop 1 frm)) = sum8 (take 21 (drop 1 frm)) - frm ! i + b" using ok ok' by metis
    with assms(4) show False by (simp add: algebra_simps)
  qed
  then show ?thesis by (cases "verify_data_frame (frm[i := b]) addr") auto
qed

section \<open>Reading\<close>

text \<open>A radio with memory \<open>R\<close>: it answers a request for sixteen bytes with those bytes in a data frame.\<close>

definition any_request :: "nat \<Rightarrow> bytes" where
  "any_request addr = [READ] @ be32 (of_nat addr) @ [of_nat BLOCK]"

definition any_serves :: "'l SerialLink \<Rightarrow> (nat \<Rightarrow> u8) \<Rightarrow> bool" where
  "any_serves io R \<longleftrightarrow>
     (\<forall>addr l l' reply. addr < 2 ^ 32 \<longrightarrow> exchange io (any_request addr) DATA_FRAME l = (l', Inr reply) \<longrightarrow>
        reply = data_frame addr (map R [addr..<addr + BLOCK]))"

lemma fetch_block_exchange:
  "fetch_block io addr st =
     (case exchange io (any_request addr) DATA_FRAME (any_link st) of
        (l, Inl e) \<Rightarrow> (st\<lparr>any_link := l\<rparr>, Inl e)
      | (l, Inr reply) \<Rightarrow>
          (case verify_data_frame reply addr of Inl e \<Rightarrow> (st\<lparr>any_link := l\<rparr>, Inl e) | Inr _ \<Rightarrow> (st\<lparr>any_link := l\<rparr>, Inr reply)))"
  by (auto simp: fetch_block_def transact_exchange any_request_def split: prod.splits sum.splits)

lemma fetch_block_serves:
  assumes "any_serves io R" "addr < 2 ^ 32" "fetch_block io addr st = (st', Inr frm)"
  shows "take BLOCK (drop 6 frm) = map R [addr..<addr + BLOCK]"
proof -
  from assms(3) obtain l where "exchange io (any_request addr) DATA_FRAME (any_link st) = (l, Inr frm)"
    by (auto simp: fetch_block_exchange split: prod.splits sum.splits)
  then have "frm = data_frame addr (map R [addr..<addr + BLOCK])" using assms(1,2) unfolding any_serves_def by blast
  then show ?thesis by (simp add: data_frame_shape resize_def)
qed

lemma any_read_blocks_serves:
  "any_serves io R \<Longrightarrow> at + n < 2 ^ 32 \<Longrightarrow> any_read_blocks io at n st = (st', Inr out) \<Longrightarrow> out = map R [at..<at + n]"
proof (induction io at n st arbitrary: st' out rule: any_read_blocks.induct)
  case (1 io at n st)
  show ?case
  proof (cases "n = 0")
    case True
    with 1(4) show ?thesis by (simp add: any_read_blocks.simps)
  next
    case False
    obtain st1 frm rest where got: "fetch_block io at st = (st1, Inr frm)"
      and rest: "any_read_blocks io (at + BLOCK) (n - BLOCK) st1 = (st', Inr rest)"
      and out: "out = take (min BLOCK n) (drop 6 frm) @ rest"
      using 1(4) False by (subst (asm) any_read_blocks.simps) (auto split: prod.splits sum.splits)
    have blk: "take BLOCK (drop 6 frm) = map R [at..<at + BLOCK]" using fetch_block_serves [OF 1(2) _ got] 1(3) by simp
    show ?thesis
    proof (cases "BLOCK \<le> n")
      case True
      then have "rest = map R [at + BLOCK..<at + n]"
        using 1(1) [OF False got [symmetric] refl 1(2) _ rest] 1(3) by simp
      with out blk True have "out = map R ([at..<at + BLOCK] @ [at + BLOCK..<at + BLOCK + (n - BLOCK)])" by simp
      then show ?thesis using True upt_add_eq_append [of at "at + BLOCK" "n - BLOCK"] by simp
    next
      case less: False
      then have "rest = []" using rest by (simp add: any_read_blocks.simps)
      moreover have "take n (take BLOCK (drop 6 frm)) = map R [at..<at + n]" using less by (simp add: blk take_map)
      ultimately show ?thesis using out less by (simp add: min_def)
    qed
  qed
qed

interpretation anytone: radio_reader "any_read io" "any_serves io" for io
proof
  fix R addr buf st st' out
  assume s: "any_serves io R" and n: "addr + length buf < 2 ^ 32" and run: "any_read io addr buf st = (st', Inr out)"
  obtain st1 r where "any_ensure_programming io st = (st1, r)" by (cases "any_ensure_programming io st")
  with run any_read_blocks_serves [OF s n] show "out = map R [addr..<addr + length buf]"
    by (cases r) (auto simp: any_read_def)
qed

section \<open>Writing\<close>

text \<open>
  A radio whose memory is \<open>m l\<close>: an acknowledged data frame has stored its sixteen bytes at its
  address; a frame that is not acknowledged and the greeting leave the memory as it is.
\<close>

definition any_programs :: "'l SerialLink \<Rightarrow> ('l \<Rightarrow> nat \<Rightarrow> u8) \<Rightarrow> bool" where
  "any_programs io m \<longleftrightarrow>
     (\<forall>l l' r. exchange io HELLO 3 l = (l', r) \<longrightarrow> m l' = m l) \<and>
     (\<forall>addr blk l l' r. addr < 2 ^ 32 \<longrightarrow> exchange io (data_frame addr blk) 1 l = (l', r) \<longrightarrow>
        m l' = (case r of
                  Inl _ \<Rightarrow> m l
                | Inr reply \<Rightarrow> if reply ! 0 = ANY_ACK then store addr (take BLOCK (drop 6 (data_frame addr blk))) (m l) else m l))"

lemma store_block_programs:
  assumes "any_programs io m" "addr < 2 ^ 32" "length blk \<le> BLOCK" "store_block io addr blk st = (st', Inr u)"
  shows "m (any_link st') = store addr (resize BLOCK 0 blk) (m (any_link st))"
proof -
  obtain l r where ex: "exchange io (data_frame addr blk) 1 (any_link st) = (l, r)" by (cases "exchange io (data_frame addr blk) 1 (any_link st)")
  with assms(4) have "\<exists>reply. r = Inr reply \<and> reply ! 0 = ANY_ACK" "any_link st' = l"
    by (auto simp: store_block_def transact_exchange split: prod.splits sum.splits if_splits)
  with assms(1,2) ex show ?thesis unfolding any_programs_def by (auto simp: data_frame_shape [OF assms(3)])
qed

lemma any_write_blocks_programs:
  "any_programs io m \<Longrightarrow> at + length data \<le> 2 ^ 32 \<Longrightarrow> any_write_blocks io at data st = (st', Inr u) \<Longrightarrow>
   m (any_link st') = store at (padded_to BLOCK data) (m (any_link st))"
proof (induction io at data st arbitrary: st' rule: any_write_blocks.induct)
  case (1 io at data st)
  show ?case
  proof (cases "data = []")
    case True
    with 1(4) show ?thesis by (simp add: any_write_blocks.simps)
  next
    case False
    obtain st1 where w: "store_block io at (take BLOCK data) st = (st1, Inr ())"
      and rest: "any_write_blocks io (at + BLOCK) (drop BLOCK data) st1 = (st', Inr u)"
      using 1(4) False by (subst (asm) any_write_blocks.simps) (auto split: prod.splits sum.splits)
    have at: "at < 2 ^ 32" using 1(3) False by (cases data) simp_all
    have one: "m (any_link st1) = store at (resize BLOCK 0 (take BLOCK data)) (m (any_link st))"
      using store_block_programs [OF 1(2) at _ w] by simp
    have "m (any_link st') = store (at + BLOCK) (padded_to BLOCK (drop BLOCK data)) (m (any_link st1))"
    proof (cases "BLOCK \<le> length data")
      case True
      then show ?thesis using 1(1) [OF False w [symmetric] refl 1(2) _ rest] 1(3) by simp
    next
      case less: False
      then have "st' = st1" using rest by (simp add: any_write_blocks.simps)
      with less show ?thesis by simp
    qed
    with one show ?thesis
      using padded_to_block [OF False, of BLOCK] store_append [of at "resize BLOCK 0 (take BLOCK data)"]
      by (simp add: length_resize BLOCK_def)
  qed
qed

lemma any_ensure_programs:
  assumes "any_programs io m" "any_ensure_programming io st = (st', r)"
  shows "m (any_link st') = m (any_link st)" "any_finished st' = any_finished st"
proof -
  obtain l q where ex: "exchange io HELLO 3 (any_link st) = (l, q)" by (cases "exchange io HELLO 3 (any_link st)")
  then have "m l = m (any_link st)" using assms(1) unfolding any_programs_def by blast
  with ex assms(2) show "m (any_link st') = m (any_link st)" "any_finished st' = any_finished st"
    by (auto simp: any_ensure_programming_def transact_exchange split: if_splits sum.splits)
qed

section \<open>The regions\<close>

lemma d890_tables_separate:
  "separate d890_tables" "r \<in> set d890_tables \<Longrightarrow> 0x02000000 \<le> region_addr r"
  by (auto simp: separate_def d890_tables_def region_sparse_def region_fixed_def in_region_def)

lemmas bank_defs = CHANNEL_BANKS_def BETWEEN_CHANNEL_BANKS_def CHANNELS_PER_BANK_def NUM_CHANNELS_def CHANNEL_SIZE_def

lemma d890_banks:
  assumes "r \<in> set (map (\<lambda>bank. region_sparse ''channels'' (CHANNEL_BANKS + bank * BETWEEN_CHANNEL_BANKS)
      (CHANNELS_PER_BANK * CHANNEL_SIZE) CHANNEL_SIZE EMPTY_RUN) [0..<NUM_CHANNELS div CHANNELS_PER_BANK])"
  shows "region_addr r + region_len r \<le> 0x02000000"
  using assms by (auto simp: region_sparse_def bank_defs)

lemma d890_banks_sorted:
  "sorted_wrt (\<lambda>r r'. \<forall>a. \<not> (in_region r a \<and> in_region r' a))
     (map (\<lambda>bank. region_sparse ''channels'' (CHANNEL_BANKS + bank * BETWEEN_CHANNEL_BANKS)
        (CHANNELS_PER_BANK * CHANNEL_SIZE) CHANNEL_SIZE EMPTY_RUN) [0..<k])"
  by (auto simp: sorted_wrt_map region_sparse_def in_region_def bank_defs intro!: sorted_wrt_mono_rel [OF _ sorted_wrt_upt])

lemma d890_regions_separate: "separate d890_regions"
proof -
  have "\<not> (in_region r a \<and> in_region r' a)"
    if "r \<in> set d890_tables" "r' \<in> set (map (\<lambda>bank. region_sparse ''channels'' (CHANNEL_BANKS + bank * BETWEEN_CHANNEL_BANKS)
        (CHANNELS_PER_BANK * CHANNEL_SIZE) CHANNEL_SIZE EMPTY_RUN) [0..<NUM_CHANNELS div CHANNELS_PER_BANK])" for r r' a
    using d890_tables_separate(2) [OF that(1)] d890_banks [OF that(2)] by (auto simp: in_region_def)
  moreover have "region_addr r + region_len r < 2 ^ 32" if "r \<in> set d890_regions" for r
    using that d890_banks [of r] d890_tables_separate(1) by (fastforce simp: d890_regions_def separate_def)
  ultimately show ?thesis
    using d890_tables_separate(1) d890_banks_sorted unfolding separate_def d890_regions_def sorted_wrt_append by blast
qed

lemma channel_in_bank:
  assumes "i < NUM_CHANNELS"
  shows "\<exists>r \<in> set d890_regions. region_addr r \<le> channel_address i \<and> channel_address i + CHANNEL_SIZE \<le> region_addr r + region_len r \<and>
    (channel_address i - region_addr r) mod CHANNEL_SIZE = 0"
proof (rule bexI)
  let ?r = "region_sparse ''channels'' (CHANNEL_BANKS + (i div CHANNELS_PER_BANK) * BETWEEN_CHANNEL_BANKS)
     (CHANNELS_PER_BANK * CHANNEL_SIZE) CHANNEL_SIZE EMPTY_RUN"
  show "?r \<in> set d890_regions" using assms by (simp add: d890_regions_def bank_defs)
  show "region_addr ?r \<le> channel_address i \<and> channel_address i + CHANNEL_SIZE \<le> region_addr ?r + region_len ?r \<and>
      (channel_address i - region_addr ?r) mod CHANNEL_SIZE = 0"
    using mod_less_divisor [of CHANNELS_PER_BANK i] by (simp add: channel_address_def region_sparse_def CHANNEL_SIZE_def CHANNELS_PER_BANK_def)
qed

lemma channel_address_inj:
  assumes "channel_address i = channel_address j"
  shows "i = j"
proof -
  define split :: "nat \<Rightarrow> nat" where "split n = (n div 128) * 0x80000 + (n mod 128) * 0x80" for n
  have bank: "split n div 0x80000 = n div 128" and slot: "split n mod 0x80000 = (n mod 128) * 0x80" for n
    using mod_less_divisor [of 128 n] by (simp_all add: split_def)
  have "split i = split j" using assms by (simp add: channel_address_def bank_defs split_def)
  then have "i div 128 = j div 128" "(i mod 128) * 0x80 = (j mod 128) * 0x80" using bank slot by metis+
  then show ?thesis by (metis div_mult_mod_eq mult_right_cancel zero_neq_numeral)
qed

section \<open>Properties\<close>

text \<open>
  C37: Reading a D890UV captures its codeplug: whatever the memory, a transfer through the session ends,
  and the image of one that succeeds holds only bytes of the radio, every region to its end or to
  where eight chunks in a row were erased.  A data frame that differs from the radio's in a single
  byte is refused.  Every channel has an address of its own, inside one bank.
\<close>

theorem anytone_read_captures:
  assumes "any_serves io R"
  shows "(\<exists>st' reports result. transfer_read (any_read io) cancelled BLOCK D890_ERASED d890_regions st = Some (st', reports, result) \<and>
      (\<forall>img. result = Inr img \<longrightarrow>
         (\<forall>a b. mem img a = Some b \<longrightarrow> b = R a \<and> (\<exists>r \<in> set d890_regions. in_region r a)) \<and>
         (\<forall>r \<in> set d890_regions. \<exists>off. off \<le> region_len r \<and> read_upto R (chunk_size (region_kind r) BLOCK) r off \<and>
            (\<forall>a. region_addr r \<le> a \<and> a < region_addr r + off \<longrightarrow> mem img a = Some (R a))))) \<and>
    (\<forall>addr blk i b. addr < 2 ^ 32 \<and> length blk \<le> BLOCK \<and> i < DATA_FRAME \<and> b \<noteq> data_frame addr blk ! i \<longrightarrow>
      (\<exists>e. verify_data_frame ((data_frame addr blk)[i := b]) addr = Inl e)) \<and>
    (\<forall>i j. channel_address i = channel_address j \<longrightarrow> i = j) \<and>
    (\<forall>i < NUM_CHANNELS. \<exists>r \<in> set d890_regions. region_addr r \<le> channel_address i \<and> channel_address i + CHANNEL_SIZE \<le> region_addr r + region_len r)"
proof (intro conjI)
  have block: "max BLOCK 1 = BLOCK" by (simp add: BLOCK_def)
  show "\<exists>st' reports result. transfer_read (any_read io) cancelled BLOCK D890_ERASED d890_regions st = Some (st', reports, result) \<and>
      (\<forall>img. result = Inr img \<longrightarrow>
         (\<forall>a b. mem img a = Some b \<longrightarrow> b = R a \<and> (\<exists>r \<in> set d890_regions. in_region r a)) \<and>
         (\<forall>r \<in> set d890_regions. \<exists>off. off \<le> region_len r \<and> read_upto R (chunk_size (region_kind r) BLOCK) r off \<and>
            (\<forall>a. region_addr r \<le> a \<and> a < region_addr r + off \<longrightarrow> mem img a = Some (R a))))"
    by (rule anytone.transfer_captures [OF assms d890_regions_separate, of cancelled BLOCK D890_ERASED st, unfolded block])
  show "\<forall>addr blk i b. addr < 2 ^ 32 \<and> length blk \<le> BLOCK \<and> i < DATA_FRAME \<and> b \<noteq> data_frame addr blk ! i \<longrightarrow>
      (\<exists>e. verify_data_frame ((data_frame addr blk)[i := b]) addr = Inl e)"
    using verify_one_byte [OF data_frame_shape(1) verify_data_frame_ok] by blast
  show "\<forall>i j. channel_address i = channel_address j \<longrightarrow> i = j" using channel_address_inj by blast
  show "\<forall>i < NUM_CHANNELS. \<exists>r \<in> set d890_regions. region_addr r \<le> channel_address i \<and> channel_address i + CHANNEL_SIZE \<le> region_addr r + region_len r"
    using channel_in_bank by blast
qed

text \<open>A radio that serves a memory: its state is the last request.\<close>

definition sample_any_reader :: "(nat \<Rightarrow> u8) \<Rightarrow> bytes SerialLink" where
  "sample_any_reader R = \<lparr>link_send = (\<lambda>bs l. (bs, Inr ())),
     link_receive = (\<lambda>n l.
       (l, Inr (if n = DATA_FRAME
                then let addr = unat (of_be32 (l ! 1) (l ! 2) (l ! 3) (l ! 4)) in data_frame addr (map R [addr..<addr + BLOCK])
                else HELLO_REPLY))),
     link_discard = (\<lambda>l. (l, Inr ())), link_lines = (\<lambda>on l. (l, Inr ()))\<rparr>"

lemma sample_any_reader_serves: "any_serves (sample_any_reader R) R"
  by (auto simp: any_serves_def exchange_def sample_any_reader_def any_request_def be32_def unat_of_nat_u32 Let_def)

theorem anytone_read_captures_witness:
  "\<exists>st' reports result. transfer_read (any_read (sample_any_reader (\<lambda>a. of_nat (a mod 251)))) (\<lambda>k. False) BLOCK D890_ERASED d890_regions
     \<lparr>any_link = [], any_model_id = ''anytone-d890uv'', any_accepted = [], any_programming = False, any_finished = False\<rparr> =
       Some (st', reports, result) \<and>
   (\<forall>img. result = Inr img \<longrightarrow> mem img 0x03684001 = Some (of_nat (0x03684001 mod 251)))"
proof -
  let ?R = "\<lambda>a. of_nat (a mod 251) :: u8"
  let ?st = "\<lparr>any_link = [], any_model_id = ''anytone-d890uv'', any_accepted = [], any_programming = False, any_finished = False\<rparr> :: bytes AnytoneSession"
  obtain st' reports result where run: "transfer_read (any_read (sample_any_reader ?R)) (\<lambda>k. False) BLOCK D890_ERASED d890_regions ?st = Some (st', reports, result)"
    and img: "\<forall>img. result = Inr img \<longrightarrow> (\<forall>r \<in> set d890_regions. \<exists>off. off \<le> region_len r \<and> read_upto ?R (chunk_size (region_kind r) BLOCK) r off \<and>
            (\<forall>a. region_addr r \<le> a \<and> a < region_addr r + off \<longrightarrow> mem img a = Some (?R a)))"
    using anytone_read_captures [OF sample_any_reader_serves, THEN conjunct1, of ?R "\<lambda>k. False" ?st] by blast
  have r: "region_fixed ''primary radio ID'' 0x03684000 0x40 \<in> set d890_regions" by (simp add: d890_regions_def d890_tables_def)
  have "mem img 0x03684001 = Some (?R 0x03684001)" if "result = Inr img" for img
    using img [rule_format, OF that r] by (auto simp: read_upto_def region_fixed_def)
  with run show ?thesis by blast
qed

lemma any_write_programs:
  assumes "any_programs io m" "addr + length data \<le> 2 ^ 32" "any_write io addr data st = (st', Inr ())"
  shows "m (any_link st') = store addr (padded_to BLOCK data) (m (any_link st))"
proof -
  obtain st1 where enter: "any_ensure_programming io st = (st1, Inr ())" and w: "any_write_blocks io addr data st1 = (st', Inr ())"
    using assms(3) by (auto simp: any_write_def split: prod.splits sum.splits)
  show ?thesis
    using any_write_blocks_programs [OF assms(1,2) w] any_ensure_programs(1) [OF assms(1) enter] by simp
qed

interpretation anytone_writer: radio_writer "any_write io" "\<lambda>M. \<exists>m. any_programs io m \<and> M = (\<lambda>st. m (any_link st))" BLOCK for io
proof
  show "0 < BLOCK" by (simp add: BLOCK_def)
qed (use any_write_programs in blast)

text \<open>
  C38: A write through an AnyTone session that succeeds has stored the data at its address, block by
  block, and filled the last block with zeros: data of whole blocks changes nothing else, but a write
  that ends inside a block overwrites what the radio held behind it.
\<close>

theorem anytone_write_programs:
  assumes "any_programs io m" "addr + length data \<le> 2 ^ 32" "any_write io addr data st = (st', Inr ())"
  shows "m (any_link st') = store addr (padded_to BLOCK data) (m (any_link st)) \<and>
    (length data mod BLOCK = 0 \<longrightarrow> padded_to BLOCK data = data) \<and>
    (\<forall>a. addr + length data \<le> a \<and> a < addr + length (padded_to BLOCK data) \<longrightarrow> m (any_link st') a = 0)"
  using any_write_programs [OF assms] store_padding padded_to_whole by simp

text \<open>A radio that stores: its memory and the last request.\<close>

definition sample_any_writer :: "((nat \<Rightarrow> u8) \<times> bytes) SerialLink" where
  "sample_any_writer = \<lparr>link_send = (\<lambda>bs (M, l). ((M, bs), Inr ())),
     link_receive = (\<lambda>n (M, l).
       if n = 1 \<and> l ! 0 = DATA
       then ((store (unat (of_be32 (l ! 1) (l ! 2) (l ! 3) (l ! 4))) (take BLOCK (drop 6 l)) M, l), Inr [ANY_ACK])
       else ((M, l), Inr HELLO_REPLY)),
     link_discard = (\<lambda>l. (l, Inr ())), link_lines = (\<lambda>on l. (l, Inr ()))\<rparr>"

lemma data_frame_head:
  "data_frame addr blk ! 0 = DATA"
  "addr < 2 ^ 32 \<Longrightarrow> unat (of_be32 (data_frame addr blk ! Suc 0) (data_frame addr blk ! 2) (data_frame addr blk ! 3) (data_frame addr blk ! 4)) = addr"
  by (simp_all add: data_frame_def be32_def unat_of_nat_u32 Let_def)

lemma sample_any_writer_programs: "any_programs sample_any_writer fst"
  unfolding any_programs_def
proof (intro conjI allI impI)
  fix l l' r
  assume "exchange sample_any_writer HELLO 3 l = (l', r)"
  then show "fst l' = fst l" by (cases l) (auto simp: exchange_def sample_any_writer_def)
next
  fix addr blk l l' r
  assume "addr < 2 ^ 32" "exchange sample_any_writer (data_frame addr blk) 1 l = (l', r)"
  then show "fst l' = (case r of Inl _ \<Rightarrow> fst l
      | Inr reply \<Rightarrow> if reply ! 0 = ANY_ACK then store addr (take BLOCK (drop 6 (data_frame addr blk))) (fst l) else fst l)"
    by (cases l) (auto simp: exchange_def sample_any_writer_def data_frame_head)
qed

theorem anytone_write_programs_witness:
  "\<exists>st'. any_write sample_any_writer 0x100 [1, 2, 3]
      \<lparr>any_link = (\<lambda>a. 9, []), any_model_id = [], any_accepted = [], any_programming = False, any_finished = False\<rparr> = (st', Inr ()) \<and>
     fst (any_link st') 0x101 = 2 \<and> fst (any_link st') 0x103 = 0"
proof -
  let ?st = "\<lparr>any_link = (\<lambda>a. 9, []), any_model_id = [], any_accepted = [], any_programming = False, any_finished = False\<rparr> :: ((nat \<Rightarrow> u8) \<times> bytes) AnytoneSession"
  obtain st' where run: "any_write sample_any_writer 0x100 [1, 2, 3] ?st = (st', Inr ())"
    by (simp add: any_write_def any_ensure_programming_def transact_def sample_any_writer_def any_write_blocks.simps store_block_def
        data_frame_head BLOCK_def)
  have len: "length (padded_to BLOCK [1, 2, 3]) = 16" by (simp add: padded_to_def BLOCK_def)
  note eff = anytone_write_programs [OF sample_any_writer_programs _ run]
  have "fst (any_link st') 0x101 = padded_to BLOCK [1, 2, 3] ! 1" using eff len by (simp add: store_def)
  then have "fst (any_link st') 0x101 = 2" by (simp add: padded_to_def)
  moreover have "fst (any_link st') 0x103 = 0" using eff [THEN conjunct2, THEN conjunct2, rule_format, of "0x103"] len by simp
  ultimately show ?thesis using run by blast
qed

text \<open>
  A finished session is finished once and for all, yet it still serves: an operation after \<open>finish\<close>
  puts the radio back into program mode, and neither another \<open>finish\<close> nor dropping the session takes
  it out again.
\<close>

lemma anytone_reenters_after_finish:
  assumes "any_finish io st = (st1, r)" "any_ensure_programming io st1 = (st2, Inr ())"
  shows "\<not> any_programming st1 \<or> any_finished st" "any_programming st2" "any_finish io st2 = (st2, Inr ())" "any_drop io st2 = st2"
proof -
  have "any_finished st1" "\<not> any_programming st1 \<or> any_finished st"
    using assms(1) by (auto simp: any_finish_def transact_exchange Let_def split: if_splits prod.splits sum.splits)
  moreover from this have "any_finished st2" "any_programming st2"
    using assms(2) by (auto simp: any_ensure_programming_def transact_exchange split: if_splits prod.splits sum.splits)
  ultimately show "\<not> any_programming st1 \<or> any_finished st" "any_programming st2" "any_finish io st2 = (st2, Inr ())" "any_drop io st2 = st2"
    by (simp_all add: any_finish_def any_drop_def)
qed

end
