(* ===== verification/Cps_Program.thy ===== *)
theory Cps_Program
  imports Cps_Radtel Cps_Anytone
begin

text \<open>
  Programming the two radios: \<open>Transfer::write\<close> (\<open>crates/cps/src/transfer.rs\<close>) through the RT-4D session
  and through the AnyTone session, on the interpretations of \<open>radio_writer\<close> for both.
\<close>

lemma spaced_whole:
  assumes "image_ok after" "\<forall>(s, d) \<in> set after. length d mod k = 0 \<and> s + length d \<le> 2 ^ 32"
  shows "spaced k after"
proof -
  have "sorted_wrt (\<lambda>(s, d) (t, e). s + length (padded_to k d) \<le> t) after"
    using assms(1) unfolding image_ok_def
    by (rule sorted_wrt_mono_rel [rotated]) (use assms(2) in \<open>auto simp: padded_to_whole\<close>)
  with assms(2) show ?thesis by (auto simp: spaced_def)
qed

text \<open>
  C29: Writing a codeplug through either real session to a radio whose memory agrees with the image
  read before: the transfer always ends, it sends only blocks that differ, none longer than the
  session's block, and when it reports success the count is the bytes sent and every byte of the new
  image is in the radio.  This holds for images whose segments stay apart when they are filled up to
  whole blocks; any other address is as it was or, behind the end of a segment in its last block,
  zero.  An image of whole blocks leaves every other address as it was.
\<close>

theorem write_programs_radio:
  assumes "image_ok before" "image_ok after"
  shows "(programs io m \<longrightarrow> spaced PAGE_BYTES after \<longrightarrow> (\<forall>a b. mem before a = Some b \<longrightarrow> m (session_link st) a = b) \<longrightarrow>
      (\<exists>st' reports result blocks. transfer_write (session_write io) cancelled PAGE_BYTES before after st = Some (st', reports, result) \<and>
         changed_blocks before after PAGE_BYTES = Some blocks \<and>
         (\<forall>(at, p) \<in> set blocks. length p \<le> PAGE_BYTES \<and> get at (length p) before \<noteq> Some p) \<and>
         (\<forall>n. result = Inr n \<longrightarrow>
            n = sum_list (map (\<lambda>(at, p). length p) blocks) \<and>
            programmed PAGE_BYTES after (m (session_link st)) (m (session_link st')) \<and>
            ((\<forall>(s, d) \<in> set after. length d mod PAGE_BYTES = 0) \<longrightarrow>
               (\<forall>a. m (session_link st') a = (case mem after a of Some b \<Rightarrow> b | None \<Rightarrow> m (session_link st) a)))))) \<and>
    (any_programs line M \<longrightarrow> spaced BLOCK after \<longrightarrow> (\<forall>a b. mem before a = Some b \<longrightarrow> M (any_link sa) a = b) \<longrightarrow>
      (\<exists>sa' reports result blocks. transfer_write (any_write line) cancelled BLOCK before after sa = Some (sa', reports, result) \<and>
         changed_blocks before after BLOCK = Some blocks \<and>
         (\<forall>(at, p) \<in> set blocks. length p \<le> BLOCK \<and> get at (length p) before \<noteq> Some p) \<and>
         (\<forall>n. result = Inr n \<longrightarrow>
            n = sum_list (map (\<lambda>(at, p). length p) blocks) \<and>
            programmed BLOCK after (M (any_link sa)) (M (any_link sa')) \<and>
            ((\<forall>(s, d) \<in> set after. length d mod BLOCK = 0) \<longrightarrow>
               (\<forall>a. M (any_link sa') a = (case mem after a of Some b \<Rightarrow> b | None \<Rightarrow> M (any_link sa) a))))))"
proof (intro conjI impI, goal_cases)
  case 1
  let ?M = "\<lambda>st. m (session_link st)"
  have "\<exists>m. programs io m \<and> ?M = (\<lambda>st. m (session_link st))" using 1(1) by blast
  from rt4d_writer.transfer_programs [OF this assms 1(2,3), of cancelled]
  show ?case using programmed_whole [of PAGE_BYTES after "?M st"] by blast
next
  case 2
  let ?M = "\<lambda>st. M (any_link st)"
  have "\<exists>m. any_programs line m \<and> ?M = (\<lambda>st. m (any_link st))" using 2(1) by blast
  from anytone_writer.transfer_programs [OF this assms 2(2,3), of cancelled]
  show ?case using programmed_whole [of BLOCK after "?M sa"] by blast
qed

text \<open>
  The sample AnyTone radio holds nines; three bytes of one block and a whole block further on change,
  the rest of the first block becomes zero.
\<close>

definition sample_before :: Image where
  "sample_before = [(0x100, [9, 9, 9]), (0x120, replicate 16 9)]"

definition sample_after :: Image where
  "sample_after = [(0x100, [1, 2, 3]), (0x120, replicate 16 9)]"

definition sample_session :: "((nat \<Rightarrow> u8) \<times> bytes) AnytoneSession" where
  "sample_session = \<lparr>any_link = (\<lambda>a. 9, []), any_model_id = [], any_accepted = [], any_programming = False, any_finished = False\<rparr>"

lemma sample_changed: "changed_blocks sample_before sample_after BLOCK = Some [(0x100, [1, 2, 3])]"
  by (simp add: sample_before_def sample_after_def BLOCK_def blocks_from.simps get_def segment_for_def floor_seg_Cons)

lemma sample_writes: "\<exists>sa. any_write sample_any_writer 0x100 [1, 2, 3] sample_session = (sa, Inr ())"
  by (simp add: any_write_def any_ensure_programming_def transact_def sample_any_writer_def any_write_blocks.simps store_block_def
      data_frame_head BLOCK_def sample_session_def)

theorem write_programs_radio_witness:
  "\<exists>sa reports. transfer_write (any_write sample_any_writer) (\<lambda>k. False) BLOCK sample_before sample_after sample_session =
     Some (sa, reports, Inr 3) \<and> fst (any_link sa) 0x101 = 2 \<and> fst (any_link sa) 0x125 = 9 \<and> fst (any_link sa) 0x110 = 9 \<and>
   (\<exists>st reports. transfer_write (session_write sample_writer) (\<lambda>k. False) PAGE_BYTES [(0x2000, [9, 9, 9])] [(0x2000, [1, 2, 3])]
        \<lparr>session_link = (\<lambda>a. 9, []), session_phase = Programming\<rparr> = Some (st, reports, Inr 3) \<and> fst (session_link st) 0x2002 = 3)"
proof -
  obtain sa where w: "any_write sample_any_writer 0x100 [1, 2, 3] sample_session = (sa, Inr ())" using sample_writes by blast
  have run: "transfer_write (any_write sample_any_writer) (\<lambda>k. False) BLOCK sample_before sample_after sample_session =
      Some (sa, [(''writing'', 3, 3)], Inr 3)"
    unfolding transfer_write_def using w sample_changed by (simp add: BLOCK_def)
  have ok: "image_ok sample_before" "image_ok sample_after" by (simp_all add: sample_before_def sample_after_def)
  have "spaced BLOCK sample_after" by (simp add: spaced_def sample_after_def padded_to_def BLOCK_def)
  moreover have "\<forall>a b. mem sample_before a = Some b \<longrightarrow> fst (any_link sample_session) a = b"
    using ok(1) by (auto simp: sample_before_def sample_session_def mem_Cons nth_Cons split: if_splits nat.splits)
  ultimately have prog: "programmed BLOCK sample_after (fst (any_link sample_session)) (fst (any_link sa))"
    using write_programs_radio [where line = sample_any_writer and M = fst and sa = sample_session
        and cancelled = "\<lambda>k. False", OF ok, THEN conjunct2] sample_any_writer_programs run by auto
  have "mem sample_after 0x101 = Some 2" "mem sample_after 0x125 = Some 9" "mem sample_after 0x110 = None"
    using ok(2) by (simp_all add: sample_after_def mem_Cons)
  moreover have "\<not> (\<exists>(s, d) \<in> set sample_after. s + length d \<le> 0x110 \<and> 0x110 < s + length (padded_to BLOCK d))"
    by (simp add: sample_after_def padded_to_def BLOCK_def)
  ultimately have "fst (any_link sa) 0x101 = 2 \<and> fst (any_link sa) 0x125 = 9 \<and> fst (any_link sa) 0x110 = 9"
    using prog [unfolded programmed_def, rule_format, of "0x101"] prog [unfolded programmed_def, rule_format, of "0x125"]
      prog [unfolded programmed_def, rule_format, of "0x110"]
    by (simp add: sample_session_def)
  moreover have "\<exists>st reports. transfer_write (session_write sample_writer) (\<lambda>k. False) PAGE_BYTES [(0x2000, [9, 9, 9])] [(0x2000, [1, 2, 3])]
        \<lparr>session_link = (\<lambda>a. 9, []), session_phase = Programming\<rparr> = Some (st, reports, Inr 3) \<and> fst (session_link st) 0x2002 = 3"
  proof -
    let ?st = "\<lparr>session_link = (\<lambda>a. 9, []), session_phase = Programming\<rparr> :: ((nat \<Rightarrow> u8) \<times> bytes) Session"
    let ?before = "[(0x2000, [9, 9, 9])] :: Image" and ?after = "[(0x2000, [1, 2, 3])] :: Image"
    obtain st where w: "session_write sample_writer 0x2000 [1, 2, 3] ?st = (st, Inr ())" using sample_writer_run by blast
    have "changed_blocks ?before ?after PAGE_BYTES = Some [(0x2000, [1, 2, 3])]"
      by (simp add: PAGE_BYTES_def blocks_from.simps get_def segment_for_def floor_seg_Cons)
    then have run: "transfer_write (session_write sample_writer) (\<lambda>k. False) PAGE_BYTES ?before ?after ?st = Some (st, [(''writing'', 3, 3)], Inr 3)"
      unfolding transfer_write_def using w by (simp add: PAGE_BYTES_def)
    have ok: "image_ok ?before" "image_ok ?after" "spaced PAGE_BYTES ?after" by (simp_all add: spaced_def)
    have "\<forall>a b. mem ?before a = Some b \<longrightarrow> fst (session_link ?st) a = b"
      using ok(1) by (auto simp: mem_Cons nth_Cons split: if_splits nat.splits)
    then have prog: "programmed PAGE_BYTES ?after (fst (session_link ?st)) (fst (session_link st))"
      using write_programs_radio [where io = sample_writer and m = fst and st = ?st and cancelled = "\<lambda>k. False", OF ok(1,2), THEN conjunct1]
        ok(3) sample_writer_programs run by auto
    have "mem ?after 0x2002 = Some 3" by (simp add: mem_Cons)
    with prog [unfolded programmed_def, rule_format, of "0x2002"] run show ?thesis by auto
  qed
  ultimately show ?thesis using run by blast
qed

end
