(* ===== verification/Placement_Search.thy ===== *)
theory Placement_Search
  imports Prelude "HOL-Library.Product_Lexorder"
begin

text \<open>
  Choosing the tunings of the radios so that they hear as many channels as possible: the sets of
  channels a tuning covers (\<open>crates/engine/src/placement/coverage.rs\<close>) and the branch-and-bound search
  over one tuning per radio stream (\<open>search.rs\<close>).

  The budget of the search counts nodes and time.  The clock is a parameter: \<open>late n\<close> says whether the
  time was up when the check before node \<open>n\<close> read it.
\<close>

section \<open>Coverage sets\<close>

type_synonym Coverage = "u64 list"

definition cov_empty :: "nat \<Rightarrow> Coverage" where
  "cov_empty n = replicate ((n + 63) div 64) 0"

text \<open>Both index the vector: the position is below its size wherever they are called.\<close>

definition cov_insert :: "nat \<Rightarrow> Coverage \<Rightarrow> Coverage" where
  "cov_insert i c = c[i div 64 := (c ! (i div 64)) OR push_bit (i mod 64) 1]"

definition cov_contains :: "Coverage \<Rightarrow> nat \<Rightarrow> bool" where
  "cov_contains c i \<longleftrightarrow> (c ! (i div 64)) AND push_bit (i mod 64) 1 \<noteq> 0"

definition cov_count :: "Coverage \<Rightarrow> nat" where
  "cov_count c = sum_list (map count_ones c)"

definition cov_union :: "Coverage \<Rightarrow> Coverage \<Rightarrow> Coverage" where
  "cov_union c d = map2 (\<lambda>a b. a OR b) c d"

definition cov_gain :: "Coverage \<Rightarrow> Coverage \<Rightarrow> nat" where
  "cov_gain c covered = sum_list (map2 (\<lambda>a b. count_ones (a AND NOT b)) c covered)"

definition cov_subset_of :: "Coverage \<Rightarrow> Coverage \<Rightarrow> bool" where
  "cov_subset_of c d \<longleftrightarrow> list_all (\<lambda>(a, b). a AND NOT b = 0) (zip c d)"

section \<open>The search\<close>

record Domain =
  dom_radio :: nat
  dom_stream :: nat
  dom_options :: "Coverage list"

record Limits =
  limit_duration :: nat
  limit_nodes :: nat

definition limits_default :: Limits where
  "limits_default = \<lparr>limit_duration = 50, limit_nodes = 100000\<rparr>"

definition expired :: "Limits \<Rightarrow> (nat \<Rightarrow> bool) \<Rightarrow> nat \<Rightarrow> bool" where
  "expired limits late n \<longleftrightarrow> limit_nodes limits \<le> n \<or> late n"

record Search =
  best :: nat
  chosen :: "nat list option"
  upper_bound :: nat
  nodes :: nat
  interrupted :: bool

text \<open>\<open>suffix\<close>: for every depth the channels that the domains from there on can cover at all.\<close>

fun search_suffix :: "Domain list \<Rightarrow> nat \<Rightarrow> Coverage list" where
  "search_suffix [] whole = [cov_empty whole]"
| "search_suffix (d # ds) whole =
     (let rest = search_suffix ds whole in fold (\<lambda>opt all. cov_union all opt) (dom_options d) (hd rest) # rest)"

definition search_new :: "nat \<Rightarrow> nat \<Rightarrow> Search" where
  "search_new whole heard = \<lparr>best = heard, chosen = None, upper_bound = whole, nodes = 0, interrupted = False\<rparr>"

definition search_bound :: "Domain list \<Rightarrow> Coverage list \<Rightarrow> nat \<Rightarrow> Coverage \<Rightarrow> nat" where
  "search_bound domains suffix depth covered =
     min (cov_count (cov_union covered (suffix ! depth)))
       (cov_count covered +
        sum_list (map (\<lambda>d. fold max (map (\<lambda>opt. cov_gain opt covered) (dom_options d)) 0) (drop depth domains)))"

definition option_order :: "Coverage list \<Rightarrow> Coverage \<Rightarrow> nat list" where
  "option_order opts covered = sort_key (\<lambda>i. (- int (cov_gain (opts ! i) covered), i)) [0..<length opts]"

function visit :: "Domain list \<Rightarrow> Coverage list \<Rightarrow> (nat \<Rightarrow> bool) \<Rightarrow> nat \<Rightarrow> Coverage \<Rightarrow> nat list \<Rightarrow> Search \<Rightarrow> Search" where
  "visit domains suffix stop depth covered path st =
     (if search_bound domains suffix depth covered \<le> best st then st
      else if stop (nodes st) then st\<lparr>interrupted := True\<rparr>
      else
        let st = st\<lparr>nodes := nodes st + 1\<rparr>
        in if length domains \<le> depth then st\<lparr>best := cov_count covered, chosen := Some path\<rparr>
           else
             let opts = dom_options (domains ! depth)
             in fold (\<lambda>i st. if interrupted st \<or> upper_bound st \<le> best st then st
                             else visit domains suffix stop (depth + 1) (cov_union (opts ! i) covered) (path @ [i]) st)
                  (option_order opts covered) st)"
  by pat_completeness auto
termination
  by (relation "measure (\<lambda>(domains, suffix, stop, depth, covered, path, st). length domains - depth)") auto

declare visit.simps [simp del]

definition search_run :: "Domain list \<Rightarrow> Limits \<Rightarrow> (nat \<Rightarrow> bool) \<Rightarrow> nat \<Rightarrow> Search \<Rightarrow> Search" where
  "search_run domains limits late whole st =
     (let suffix = search_suffix domains whole; none = cov_empty whole;
          st = st\<lparr>upper_bound := search_bound domains suffix 0 none\<rparr>
      in if upper_bound st < best st then st\<lparr>upper_bound := whole\<rparr>
         else
           let st = visit domains suffix (expired limits late) 0 none [] st
           in if interrupted st then st else st\<lparr>upper_bound := best st\<rparr>)"

section \<open>Coverage sets are sets\<close>

definition cov_set :: "Coverage \<Rightarrow> nat set" where
  "cov_set c = {i. i div 64 < length c \<and> bit (c ! (i div 64)) (i mod 64)}"

lemma cov_set_Nil [simp]: "cov_set [] = {}"
  by (simp add: cov_set_def)

lemma cov_set_Cons: "cov_set (w # c) = {i. i < 64 \<and> bit w i} \<union> (\<lambda>i. 64 + i) ` cov_set c"
proof (intro set_eqI iffI)
  fix i
  assume i: "i \<in> cov_set (w # c)"
  show "i \<in> {i. i < 64 \<and> bit w i} \<union> (\<lambda>i. 64 + i) ` cov_set c"
  proof (cases "i < 64")
    case True
    with i show ?thesis by (simp add: cov_set_def)
  next
    case False
    then have "i = 64 + (i - 64)" "i div 64 = Suc ((i - 64) div 64)" "(i - 64) mod 64 = i mod 64"
      by (simp_all add: le_div_geq le_mod_geq)
    with i have "i - 64 \<in> cov_set c" by (simp add: cov_set_def)
    with \<open>i = 64 + (i - 64)\<close> show ?thesis by blast
  qed
next
  fix i
  assume "i \<in> {i. i < 64 \<and> bit w i} \<union> (\<lambda>i. 64 + i) ` cov_set c"
  moreover have "(64 + j) div 64 = Suc (j div 64)" for j :: nat by simp
  ultimately show "i \<in> cov_set (w # c)" by (auto simp: cov_set_def simp del: div_add_self1)
qed

lemma finite_cov_set [simp]: "finite (cov_set c)"
proof (induction c)
  case (Cons w c)
  then show ?case by (simp add: cov_set_Cons)
qed simp

lemma cov_count_card: "cov_count c = card (cov_set c)"
proof (induction c)
  case Nil
  show ?case by (simp add: cov_count_def)
next
  case (Cons w c)
  have bits: "{i. bit w i} = {i. i < 64 \<and> bit w i}" by (auto dest: bit_imp_le_length)
  have "card (cov_set (w # c)) = card {i. i < 64 \<and> bit w i} + card ((\<lambda>i. 64 + i) ` cov_set c)"
    unfolding cov_set_Cons by (rule card_Un_disjoint) auto
  also have "\<dots> = count_ones w + card (cov_set c)" by (simp add: card_image count_ones_card bits)
  finally show ?case using Cons.IH by (simp add: cov_count_def)
qed

lemma cov_set_map2:
  assumes "length c = length d" "\<And>a b i. bit (f a b) i \<longleftrightarrow> i < 64 \<and> P (bit a i) (bit b i)"
  shows "cov_set (map2 f c d) = {i. i div 64 < length c \<and> P (i \<in> cov_set c) (i \<in> cov_set d)}"
  using assms by (auto simp: cov_set_def)

lemma length_cov_union [simp]: "length (cov_union c d) = min (length c) (length d)"
  by (simp add: cov_union_def)

lemma cov_set_union: "length c = length d \<Longrightarrow> cov_set (cov_union c d) = cov_set c \<union> cov_set d"
proof -
  assume n: "length c = length d"
  have "bit (a OR b) i \<longleftrightarrow> i < 64 \<and> (bit a i \<or> bit b i)" for a b :: u64 and i
    by (auto simp: bit_or_iff dest: bit_imp_le_length)
  from cov_set_map2 [of c d "\<lambda>a b. a OR b" "\<lambda>p q. p \<or> q", OF n this] n show ?thesis by (auto simp: cov_union_def cov_set_def)
qed

lemma cov_gain_card: "length c = length d \<Longrightarrow> cov_gain c d = card (cov_set c - cov_set d)"
proof -
  assume n: "length c = length d"
  have "bit (a AND NOT b) i \<longleftrightarrow> i < 64 \<and> (bit a i \<and> \<not> bit b i)" for a b :: u64 and i
    by (auto simp: bit_and_iff bit_not_iff dest: bit_imp_le_length)
  from cov_set_map2 [of c d "\<lambda>a b. a AND NOT b" "\<lambda>p q. p \<and> \<not> q", OF n this] have "cov_set (map2 (\<lambda>a b. a AND NOT b) c d) = cov_set c - cov_set d"
    by (auto simp: cov_set_def)
  moreover have "cov_gain c d = cov_count (map2 (\<lambda>a b. a AND NOT b) c d)"
    by (simp add: cov_gain_def cov_count_def o_def case_prod_unfold)
  ultimately show ?thesis by (simp add: cov_count_card)
qed

lemma cov_subset_of_iff: "length c = length d \<Longrightarrow> cov_subset_of c d \<longleftrightarrow> cov_set c \<subseteq> cov_set d"
proof -
  assume n: "length c = length d"
  have zero: "a AND NOT b = 0 \<longleftrightarrow> (\<forall>i < 64. bit a i \<longrightarrow> bit b i)" for a b :: u64
    by (auto simp: bit_eq_iff bit_and_iff bit_not_iff)
  have "cov_subset_of c d \<longleftrightarrow> (\<forall>k < length c. \<forall>i < 64. bit (c ! k) i \<longrightarrow> bit (d ! k) i)"
    using n by (simp add: cov_subset_of_def list_all_length zero)
  also have "\<dots> \<longleftrightarrow> cov_set c \<subseteq> cov_set d"
  proof
    assume "\<forall>k < length c. \<forall>i < 64. bit (c ! k) i \<longrightarrow> bit (d ! k) i"
    then show "cov_set c \<subseteq> cov_set d" using n by (auto simp: cov_set_def)
  next
    assume sub: "cov_set c \<subseteq> cov_set d"
    have "bit (d ! k) i" if "k < length c" "i < 64" "bit (c ! k) i" for k i
    proof -
      have "64 * k + i \<in> cov_set c" using that by (simp add: cov_set_def)
      with sub have "64 * k + i \<in> cov_set d" by blast
      with that show ?thesis by (simp add: cov_set_def)
    qed
    then show "\<forall>k < length c. \<forall>i < 64. bit (c ! k) i \<longrightarrow> bit (d ! k) i" by blast
  qed
  finally show ?thesis .
qed

lemma cov_set_empty [simp]: "cov_set (cov_empty n) = {}"
  by (auto simp: cov_set_def cov_empty_def)

lemma bit_shifted_one: "j < 64 \<Longrightarrow> bit (push_bit j 1 :: u64) i \<longleftrightarrow> i = j"
  by (auto simp: bit_simps)

lemma cov_set_insert: "i div 64 < length c \<Longrightarrow> cov_set (cov_insert i c) = Set.insert i (cov_set c)"
proof -
  assume n: "i div 64 < length c"
  have "j \<in> cov_set (cov_insert i c) \<longleftrightarrow> j = i \<or> j \<in> cov_set c" for j
  proof (cases "j div 64 = i div 64")
    case True
    then have "j mod 64 = i mod 64 \<longleftrightarrow> j = i" by (metis div_mult_mod_eq)
    with True n show ?thesis by (auto simp: cov_set_def cov_insert_def bit_or_iff bit_shifted_one)
  next
    case False
    then have "j \<noteq> i" by auto
    with False n show ?thesis by (simp add: cov_set_def cov_insert_def)
  qed
  then show ?thesis by auto
qed

lemma cov_contains_iff: "i div 64 < length c \<Longrightarrow> cov_contains c i \<longleftrightarrow> i \<in> cov_set c"
proof -
  assume n: "i div 64 < length c"
  have "w AND push_bit j 1 \<noteq> 0 \<longleftrightarrow> bit w j" for w :: u64 and j
    by (simp add: and_exp_eq_0_iff_not_bit)
  from this [of _ "i mod 64"] n show ?thesis by (simp add: cov_contains_def cov_set_def)
qed


text \<open>
  What the search relies on: coverages stand for finite sets, counted and joined as sets.  The two
  bounds on what a choice of coverages can add hold for any such representation.
\<close>

locale coverage_sets =
  fixes abs_of :: "'c \<Rightarrow> nat set"
    and ok :: "'c \<Rightarrow> bool"
    and un :: "'c \<Rightarrow> 'c \<Rightarrow> 'c"
    and cnt :: "'c \<Rightarrow> nat"
    and gain :: "'c \<Rightarrow> 'c \<Rightarrow> nat"
  assumes finite_abs: "finite (abs_of c)"
    and abs_un: "ok c \<Longrightarrow> ok d \<Longrightarrow> abs_of (un c d) = abs_of c \<union> abs_of d"
    and ok_un: "ok c \<Longrightarrow> ok d \<Longrightarrow> ok (un c d)"
    and cnt_card: "cnt c = card (abs_of c)"
    and gain_card: "ok c \<Longrightarrow> ok d \<Longrightarrow> gain c d = card (abs_of c - abs_of d)"
begin

lemma fold_un:
  "\<forall>c \<in> set cs. ok c \<Longrightarrow> ok c0 \<Longrightarrow> ok (fold un cs c0) \<and> abs_of (fold un cs c0) = abs_of c0 \<union> (\<Union>c \<in> set cs. abs_of c)"
  by (induction cs arbitrary: c0) (auto simp: abs_un ok_un)

lemma union_bound:
  assumes "\<forall>c \<in> set cs. ok c \<and> abs_of c \<subseteq> abs_of s" "ok c0" "ok s"
  shows "cnt (fold un cs c0) \<le> cnt (un c0 s)"
  using assms fold_un [of cs c0] by (auto simp: cnt_card abs_un finite_abs intro!: card_mono)

lemma gain_bound:
  assumes "list_all2 (\<lambda>c g. ok c \<and> gain c c0 \<le> g) cs gs" "ok c0"
  shows "cnt (fold un cs c0) \<le> cnt c0 + sum_list gs"
proof -
  have ok: "\<forall>c \<in> set cs. ok c" using assms(1) by (auto simp: list_all2_conv_all_nth in_set_conv_nth)
  have "card (\<Union>c \<in> set cs. abs_of c - abs_of c0) \<le> sum_list gs"
    using assms(1)
  proof (induction cs gs rule: list_all2_induct)
    case (Cons c cs g gs)
    have "card (\<Union>c \<in> set (c # cs). abs_of c - abs_of c0) \<le> card (abs_of c - abs_of c0) + card (\<Union>c \<in> set cs. abs_of c - abs_of c0)"
      using card_Un_le [of "abs_of c - abs_of c0"] by simp
    also have "\<dots> \<le> g + sum_list gs" using Cons assms(2) gain_card [of c c0] by (intro add_mono) simp_all
    finally show ?case by simp
  qed simp
  moreover have "abs_of (fold un cs c0) = abs_of c0 \<union> (\<Union>c \<in> set cs. abs_of c - abs_of c0)"
    using fold_un [OF ok assms(2)] by auto
  ultimately show ?thesis
    using card_Un_le [of "abs_of c0" "\<Union>c \<in> set cs. abs_of c - abs_of c0"] by (simp add: cnt_card)
qed

end

interpretation cov: coverage_sets cov_set "\<lambda>c. length c = n" cov_union cov_count cov_gain for n
  by unfold_locales (simp_all add: cov_set_union cov_count_card cov_gain_card)

section \<open>Choices\<close>

text \<open>
  A choice takes one option of every domain: its indices and the channels covered in the end.  The
  leaves below a point of the search are the choices of the domains that are left.
\<close>

definition wide :: "nat \<Rightarrow> Domain list \<Rightarrow> bool" where
  "wide n domains \<longleftrightarrow> (\<forall>d \<in> set domains. \<forall>c \<in> set (dom_options d). length c = n)"

definition picks :: "Domain list \<Rightarrow> nat list \<Rightarrow> bool" where
  "picks ds p \<longleftrightarrow> list_all2 (\<lambda>i d. i < length (dom_options d)) p ds"

definition picked :: "Domain list \<Rightarrow> nat list \<Rightarrow> Coverage list" where
  "picked ds p = map2 (\<lambda>i d. dom_options d ! i) p ds"

definition leaves :: "Domain list \<Rightarrow> Coverage \<Rightarrow> nat list \<Rightarrow> (nat list \<times> Coverage) set" where
  "leaves ds covered path = {(path @ p, fold cov_union (picked ds p) covered) | p. picks ds p}"

lemma leaves_Nil: "leaves [] covered path = {(path, covered)}"
  by (auto simp: leaves_def picks_def picked_def)

lemma leaves_Cons:
  "leaves (d # ds) covered path = (\<Union>i < length (dom_options d). leaves ds (cov_union (dom_options d ! i) covered) (path @ [i]))"
proof (intro set_eqI iffI)
  fix x
  assume "x \<in> leaves (d # ds) covered path"
  then obtain p where p: "picks (d # ds) p" "x = (path @ p, fold cov_union (picked (d # ds) p) covered)" by (auto simp: leaves_def)
  then obtain i q where "p = i # q" "i < length (dom_options d)" "picks ds q" by (auto simp: picks_def list_all2_Cons2)
  with p(2) show "x \<in> (\<Union>i < length (dom_options d). leaves ds (cov_union (dom_options d ! i) covered) (path @ [i]))"
    by (auto simp: leaves_def picked_def)
next
  fix x
  assume "x \<in> (\<Union>i < length (dom_options d). leaves ds (cov_union (dom_options d ! i) covered) (path @ [i]))"
  then obtain i q where "i < length (dom_options d)" "picks ds q"
    "x = ((path @ [i]) @ q, fold cov_union (picked ds q) (cov_union (dom_options d ! i) covered))" by (auto simp: leaves_def)
  then show "x \<in> leaves (d # ds) covered path" by (auto simp: leaves_def picks_def picked_def intro!: exI [of _ "i # q"])
qed

lemma picked_options:
  assumes "picks ds p" "c \<in> set (picked ds p)"
  shows "\<exists>d \<in> set ds. c \<in> set (dom_options d)"
proof -
  have n: "length p = length ds" using assms(1) by (simp add: picks_def list_all2_lengthD)
  from assms(2) obtain k where "k < length (picked ds p)" "c = picked ds p ! k" by (auto simp: in_set_conv_nth)
  with n have k: "k < length ds" "c = dom_options (ds ! k) ! (p ! k)" by (simp_all add: picked_def)
  moreover have "p ! k < length (dom_options (ds ! k))" using assms(1) k n by (auto simp: picks_def list_all2_conv_all_nth)
  ultimately show ?thesis by (metis nth_mem)
qed

section \<open>The bound\<close>

lemma length_search_suffix [simp]: "length (search_suffix ds whole) = Suc (length ds)"
  by (induction ds) (simp_all add: Let_def)

lemma suffix_drop: "k \<le> length ds \<Longrightarrow> search_suffix ds whole ! k = hd (search_suffix (drop k ds) whole)"
proof (induction ds arbitrary: k)
  case (Cons d ds)
  then show ?case by (cases k) (simp_all add: Let_def)
qed simp

lemma suffix_covers:
  assumes "wide n ds" "n = (whole + 63) div 64"
  shows "length (hd (search_suffix ds whole)) = n \<and> (\<forall>d \<in> set ds. \<forall>c \<in> set (dom_options d). cov_set c \<subseteq> cov_set (hd (search_suffix ds whole)))"
  using assms(1)
proof (induction ds)
  case Nil
  then show ?case by (simp add: assms(2) cov_empty_def)
next
  case (Cons d ds)
  define s where "s = hd (search_suffix ds whole)"
  have s: "length s = n" "\<forall>d \<in> set ds. \<forall>c \<in> set (dom_options d). cov_set c \<subseteq> cov_set s"
    using Cons unfolding s_def wide_def by auto
  have opts: "\<forall>c \<in> set (dom_options d). length c = n" using Cons.prems by (simp add: wide_def)
  have "length (fold (\<lambda>opt all. cov_union all opt) cs s) = n \<and> cov_set (fold (\<lambda>opt all. cov_union all opt) cs s) = cov_set s \<union> (\<Union>c \<in> set cs. cov_set c)"
    if "\<forall>c \<in> set cs. length c = n" for cs
    using that s(1) by (induction cs arbitrary: s) (auto simp: cov_set_union)
  from this [OF opts] s show ?case by (auto simp: s_def [symmetric] Let_def)
qed

lemma fold_max_start: "m \<le> fold max xs (m :: nat)"
proof (induction xs arbitrary: m)
  case (Cons x xs)
  then show ?case using order_trans [OF max.cobounded2 Cons.IH [of "max x m"]] by simp
qed simp

lemma fold_max_ge: "x \<in> set xs \<Longrightarrow> x \<le> fold max xs (m :: nat)"
proof (induction xs arbitrary: m)
  case (Cons y xs)
  have "y \<le> fold max xs (max y m)" by (rule order_trans [OF max.cobounded1 fold_max_start])
  with Cons show ?case by auto
qed simp

lemma search_bound_admissible:
  assumes "wide n domains" "n = (whole + 63) div 64" "length covered = n" "depth \<le> length domains"
    and "(p, c) \<in> leaves (drop depth domains) covered path"
  shows "cov_count c \<le> search_bound domains (search_suffix domains whole) depth covered"
proof -
  let ?ds = "drop depth domains"
  have w: "wide n ?ds" using assms(1) by (auto simp: wide_def dest: in_set_dropD)
  obtain q where q: "picks ?ds q" "c = fold cov_union (picked ?ds q) covered" using assms(5) by (auto simp: leaves_def)
  have opts: "\<exists>d \<in> set ?ds. c \<in> set (dom_options d)" "length c = n" if "c \<in> set (picked ?ds q)" for c
    using picked_options [OF q(1) that] w by (auto simp: wide_def)
  have "cov_count c \<le> cov_count (cov_union covered (search_suffix domains whole ! depth))"
    unfolding q(2) suffix_drop [OF assms(4)]
  proof (rule cov.union_bound [where n = n])
    show "\<forall>c \<in> set (picked ?ds q). length c = n \<and> cov_set c \<subseteq> cov_set (hd (search_suffix ?ds whole))"
      using suffix_covers [OF w assms(2)] opts by blast
  qed (use assms(3) suffix_covers [OF w assms(2)] in simp_all)
  moreover have "cov_count c \<le> cov_count covered + sum_list (map (\<lambda>d. fold max (map (\<lambda>opt. cov_gain opt covered) (dom_options d)) 0) ?ds)"
    unfolding q(2)
  proof (rule cov.gain_bound [where n = n])
    have n: "length q = length ?ds" using q(1) by (simp add: picks_def list_all2_lengthD)
    have "length (picked ?ds q ! k) = n \<and> cov_gain (picked ?ds q ! k) covered \<le> fold max (map (\<lambda>opt. cov_gain opt covered) (dom_options (?ds ! k))) 0"
      if k: "k < length ?ds" for k
    proof
      have "picked ?ds q ! k \<in> set (picked ?ds q)" using k n by (intro nth_mem) (simp add: picked_def)
      then show "length (picked ?ds q ! k) = n" by (rule opts(2))
      have "q ! k < length (dom_options (?ds ! k))" using q(1) k n unfolding picks_def list_all2_conv_all_nth by metis
      then show "cov_gain (picked ?ds q ! k) covered \<le> fold max (map (\<lambda>opt. cov_gain opt covered) (dom_options (?ds ! k))) 0"
        using k n by (intro fold_max_ge) (simp add: picked_def)
    qed
    with n show "list_all2 (\<lambda>c g. length c = n \<and> cov_gain c covered \<le> g) (picked ?ds q)
        (map (\<lambda>d. fold max (map (\<lambda>opt. cov_gain opt covered) (dom_options d)) 0) ?ds)"
      by (simp add: list_all2_conv_all_nth picked_def)
  qed (use assms(3) in simp)
  ultimately show ?thesis by (simp add: search_bound_def)
qed


section \<open>The search tries every choice\<close>

text \<open>
  What a visit did, with \<open>L\<close> the leaves below it: unless it was interrupted or reached the bound of the
  whole search, none of them covers more than the best; a new best is one of them.
\<close>

definition tried :: "nat \<Rightarrow> (nat list \<times> Coverage) set \<Rightarrow> Search \<Rightarrow> Search \<Rightarrow> bool" where
  "tried limit L st st' \<longleftrightarrow>
     best st \<le> best st' \<and> upper_bound st' = upper_bound st \<and> (interrupted st \<longrightarrow> interrupted st') \<and>
     nodes st' \<le> max (nodes st) limit \<and>
     (\<not> interrupted st' \<longrightarrow> upper_bound st \<le> best st' \<or> (\<forall>(p, c) \<in> L. cov_count c \<le> best st')) \<and>
     (best st' = best st \<and> chosen st' = chosen st \<or> (\<exists>(p, c) \<in> L. chosen st' = Some p \<and> best st' = cov_count c))"

lemma tried_skip: "interrupted st \<or> upper_bound st \<le> best st \<Longrightarrow> tried limit L st st"
  by (auto simp: tried_def)

lemma tried_none: "\<forall>(p, c) \<in> L. cov_count c \<le> best st \<Longrightarrow> tried limit L st st"
  by (auto simp: tried_def)

lemma tried_join: "tried limit L st st1 \<Longrightarrow> tried limit M st1 st2 \<Longrightarrow> tried limit (L \<union> M) st st2"
proof -
  assume 1: "tried limit L st st1" and 2: "tried limit M st1 st2"
  have up: "best st1 \<le> best st2" "upper_bound st1 = upper_bound st" using 1 2 by (simp_all add: tried_def)
  have "upper_bound st \<le> best st2 \<or> (\<forall>(p, c) \<in> L \<union> M. cov_count c \<le> best st2)" if go: "\<not> interrupted st2"
  proof -
    have "upper_bound st \<le> best st1 \<or> (\<forall>(p, c) \<in> L. cov_count c \<le> best st1)" using 1 2 go by (auto simp: tried_def)
    moreover have "upper_bound st \<le> best st2 \<or> (\<forall>(p, c) \<in> M. cov_count c \<le> best st2)" using 2 go up(2) by (auto simp: tried_def)
    ultimately consider "upper_bound st \<le> best st2" | "\<forall>(p, c) \<in> L. cov_count c \<le> best st1" "\<forall>(p, c) \<in> M. cov_count c \<le> best st2"
      using up(1) by linarith
    then show ?thesis using up(1) by cases (fastforce+)
  qed
  moreover have "best st2 = best st \<and> chosen st2 = chosen st \<or> (\<exists>(p, c) \<in> L \<union> M. chosen st2 = Some p \<and> best st2 = cov_count c)"
  proof (cases "best st2 = best st1 \<and> chosen st2 = chosen st1")
    case True
    moreover have "best st1 = best st \<and> chosen st1 = chosen st \<or> (\<exists>(p, c) \<in> L. chosen st1 = Some p \<and> best st1 = cov_count c)"
      using 1 by (simp only: tried_def)
    ultimately show ?thesis by (simp only: bex_Un) blast
  next
    case False
    then have "\<exists>(p, c) \<in> M. chosen st2 = Some p \<and> best st2 = cov_count c" using 2 by (simp only: tried_def) blast
    then show ?thesis by blast
  qed
  moreover have "nodes st2 \<le> max (nodes st) limit" using 1 2 by (auto simp: tried_def max_def split: if_splits)
  moreover have "best st \<le> best st2" "interrupted st \<longrightarrow> interrupted st2" using 1 2 by (auto simp: tried_def)
  moreover have "upper_bound st2 = upper_bound st" using 2 up by (simp add: tried_def)
  ultimately show ?thesis unfolding tried_def by blast
qed

lemma tried_fold:
  assumes "\<And>i st. i \<in> set is' \<Longrightarrow> tried limit (L i) st (f i st)"
  shows "tried limit (\<Union>i \<in> set is'. L i) st (fold f is' st)"
  using assms
proof (induction is' arbitrary: st)
  case Nil
  show ?case by (simp add: tried_none)
next
  case (Cons i is')
  have "tried limit (L i) st (f i st)" using Cons.prems by simp
  moreover have "tried limit (\<Union>i \<in> set is'. L i) (f i st) (fold f is' (f i st))" using Cons by simp
  ultimately show ?case using tried_join by simp
qed

lemma set_option_order [simp]: "set (option_order opts covered) = {..<length opts}"
  by (auto simp: option_order_def)

lemma visit_tried:
  assumes "wide n domains" "n = (whole + 63) div 64" "\<And>k. limit \<le> k \<Longrightarrow> stop k"
  shows "length covered = n \<Longrightarrow> depth \<le> length domains \<Longrightarrow>
    tried limit (leaves (drop depth domains) covered path) st (visit domains (search_suffix domains whole) stop depth covered path st)"
proof (induction "length domains - depth" arbitrary: depth covered path st)
  case 0
  then have d: "depth = length domains" by simp
  let ?st = "st\<lparr>nodes := nodes st + 1\<rparr>"
  show ?case
  proof (cases "search_bound domains (search_suffix domains whole) depth covered \<le> best st")
    case True
    then show ?thesis using search_bound_admissible [OF assms(1,2) 0(2,3)]
      by (subst visit.simps) (auto intro!: tried_none intro: order_trans)
  next
    case False
    have "best st \<le> cov_count covered" using False by (simp add: search_bound_def d)
    moreover have "stop (nodes st) \<or> nodes st + 1 \<le> limit" using assms(3) [of "nodes st"] by linarith
    ultimately show ?thesis using False
      by (subst visit.simps) (auto simp: d leaves_Nil tried_def Let_def)
  qed
next
  case (Suc k)
  then have lt: "depth < length domains" by simp
  define d where "d = domains ! depth"
  have drop: "drop depth domains = d # drop (depth + 1) domains" using lt by (simp add: d_def Cons_nth_drop_Suc)
  have opts: "\<forall>c \<in> set (dom_options d). length c = n" using assms(1) nth_mem [OF lt] by (auto simp: wide_def d_def)
  let ?suffix = "search_suffix domains whole"
  show ?case
  proof (cases "search_bound domains ?suffix depth covered \<le> best st")
    case True
    then show ?thesis using search_bound_admissible [OF assms(1,2) Suc(3,4)]
      by (subst visit.simps) (auto intro!: tried_none intro: order_trans)
  next
    case False
    show ?thesis
    proof (cases "stop (nodes st)")
      case True
      with False show ?thesis by (subst visit.simps) (simp add: tried_def)
    next
      case go: False
      let ?st = "st\<lparr>nodes := nodes st + 1\<rparr>"
      let ?step = "\<lambda>i st. if interrupted st \<or> upper_bound st \<le> best st then st
         else visit domains ?suffix stop (depth + 1) (cov_union (dom_options d ! i) covered) (path @ [i]) st"
      let ?L = "\<lambda>i. leaves (drop (depth + 1) domains) (cov_union (dom_options d ! i) covered) (path @ [i])"
      have one: "tried limit (?L i) st (?step i st)" if i: "i < length (dom_options d)" for i st
      proof (cases "interrupted st \<or> upper_bound st \<le> best st")
        case True
        then show ?thesis by (simp add: tried_skip)
      next
        case False
        then show ?thesis using Suc(1) [of "depth + 1" "cov_union (dom_options d ! i) covered" "path @ [i]" st] Suc(2,3) lt opts i by simp
      qed
      have "tried limit (\<Union>i < length (dom_options d). ?L i) ?st (fold ?step (option_order (dom_options d) covered) ?st)"
        using tried_fold [of "option_order (dom_options d) covered" limit ?L ?step ?st] one by simp
      moreover have "nodes st + 1 \<le> limit" using go assms(3) [of "nodes st"] by linarith
      ultimately have "tried limit (leaves (drop depth domains) covered path) st (fold ?step (option_order (dom_options d) covered) ?st)"
        unfolding drop leaves_Cons tried_def by auto
      with False go lt show ?thesis by (subst visit.simps) (simp add: d_def [symmetric] Let_def)
    qed
  qed
qed


definition cover :: "nat \<Rightarrow> Domain list \<Rightarrow> nat list \<Rightarrow> Coverage" where
  "cover whole domains p = fold cov_union (picked domains p) (cov_empty whole)"

lemma search_run_spec:
  assumes "wide ((whole + 63) div 64) domains"
    and "st = search_run domains limits late whole (search_new whole heard)"
  shows "heard \<le> best st" "nodes st \<le> limit_nodes limits"
    and "\<forall>p. picks domains p \<longrightarrow> cov_count (cover whole domains p) \<le> max (best st) (upper_bound st)"
    and "\<not> interrupted st \<longrightarrow> (\<forall>p. picks domains p \<longrightarrow> cov_count (cover whole domains p) \<le> best st)"
    and "best st = heard \<and> chosen st = None \<or>
      (\<exists>p. chosen st = Some p \<and> picks domains p \<and> best st = cov_count (cover whole domains p))"
    and "best st \<le> max heard (upper_bound st)"
    and "upper_bound st \<le> max whole (max heard (search_bound domains (search_suffix domains whole) 0 (cov_empty whole)))"
proof -
  let ?suffix = "search_suffix domains whole" and ?none = "cov_empty whole"
  define ub where "ub = search_bound domains ?suffix 0 ?none"
  define st0 where "st0 = \<lparr>best = heard, chosen = None, upper_bound = ub, nodes = 0, interrupted = False\<rparr>"
  define st1 where "st1 = visit domains ?suffix (expired limits late) 0 ?none [] st0"
  have n: "length ?none = (whole + 63) div 64" by (simp add: cov_empty_def)
  have leaf: "(p, cover whole domains p) \<in> leaves (drop 0 domains) ?none []" if "picks domains p" for p
    using that by (auto simp: leaves_def cover_def)
  have root: "cov_count (cover whole domains p) \<le> ub" if "picks domains p" for p
    unfolding ub_def by (rule search_bound_admissible [OF assms(1) refl n _ leaf [OF that]]) simp
  have st: "st = (if ub < heard then st0\<lparr>upper_bound := whole\<rparr> else if interrupted st1 then st1 else st1\<lparr>upper_bound := best st1\<rparr>)"
    by (simp add: assms(2) search_run_def search_new_def ub_def st1_def st0_def Let_def)
  have t: "tried (limit_nodes limits) (leaves (drop 0 domains) ?none []) st0 st1"
    unfolding st1_def by (rule visit_tried [OF assms(1) refl _ n]) (simp_all add: expired_def)
  have t_best: "heard \<le> best st1" and t_nodes: "nodes st1 \<le> limit_nodes limits" and t_ub: "upper_bound st1 = ub"
    using t by (simp_all add: tried_def st0_def)
  have t_all: "cov_count (cover whole domains p) \<le> best st1" if "\<not> interrupted st1" "picks domains p" for p
  proof -
    have "ub \<le> best st1 \<or> (\<forall>(p, c) \<in> leaves (drop 0 domains) ?none []. cov_count c \<le> best st1)"
      using t that(1) by (simp add: tried_def st0_def)
    with root [OF that(2)] leaf [OF that(2)] show ?thesis by (auto dest: order_trans)
  qed
  have t_chosen: "best st1 = heard \<and> chosen st1 = None \<or>
      (\<exists>p. chosen st1 = Some p \<and> picks domains p \<and> best st1 = cov_count (cover whole domains p))"
    using t by (auto simp: tried_def st0_def leaves_def cover_def)
  show "heard \<le> best st" "nodes st \<le> limit_nodes limits" using t_best t_nodes by (simp_all add: st st0_def)
  have early: "cov_count (cover whole domains p) \<le> max heard k" if "ub < heard" "picks domains p" for p k
    using root [OF that(2)] that(1) by (simp add: le_max_iff_disj)
  show "\<forall>p. picks domains p \<longrightarrow> cov_count (cover whole domains p) \<le> max (best st) (upper_bound st)"
    using root t_ub t_all early by (auto simp: st st0_def le_max_iff_disj)
  show "\<not> interrupted st \<longrightarrow> (\<forall>p. picks domains p \<longrightarrow> cov_count (cover whole domains p) \<le> best st)"
    using root t_all by (auto simp: st st0_def dest: root)
  show "best st = heard \<and> chosen st = None \<or>
      (\<exists>p. chosen st = Some p \<and> picks domains p \<and> best st = cov_count (cover whole domains p))"
    using t_chosen by (auto simp: st st0_def)
  have t_le: "best st1 \<le> max heard ub" using t_chosen root by (auto simp: le_max_iff_disj)
  then show "best st \<le> max heard (upper_bound st)" by (auto simp: st st0_def t_ub)
  show "upper_bound st \<le> max whole (max heard (search_bound domains ?suffix 0 ?none))"
    using t_le by (auto simp: st t_ub ub_def [symmetric] le_max_iff_disj)
qed

text \<open>The bound counts channels that exist.\<close>

lemma suffix_within:
  assumes "n = (whole + 63) div 64" "wide n ds" "\<forall>d \<in> set ds. \<forall>c \<in> set (dom_options d). cov_set c \<subseteq> S"
  shows "length (hd (search_suffix ds whole)) = n \<and> cov_set (hd (search_suffix ds whole)) \<subseteq> S"
  using assms(2,3)
proof (induction ds)
  case Nil
  then show ?case by (simp add: assms(1) cov_empty_def cov_set_empty [unfolded cov_empty_def])
next
  case (Cons d ds)
  define s where "s = hd (search_suffix ds whole)"
  have s: "length s = n" "cov_set s \<subseteq> S" using Cons unfolding s_def wide_def by auto
  have "length (fold (\<lambda>opt all. cov_union all opt) cs s) = n \<and> cov_set (fold (\<lambda>opt all. cov_union all opt) cs s) \<subseteq> S"
    if "\<forall>c \<in> set cs. length c = n \<and> cov_set c \<subseteq> S" for cs
    using that s by (induction cs arbitrary: s) (auto simp: cov_set_union)
  moreover have "\<forall>c \<in> set (dom_options d). length c = n \<and> cov_set c \<subseteq> S" using Cons.prems by (auto simp: wide_def)
  ultimately show ?case by (auto simp: s_def [symmetric] Let_def)
qed

lemma search_bound_le_whole:
  assumes "wide ((whole + 63) div 64) ds" "\<forall>d \<in> set ds. \<forall>c \<in> set (dom_options d). cov_set c \<subseteq> {..<whole}"
  shows "search_bound ds (search_suffix ds whole) 0 (cov_empty whole) \<le> whole"
proof -
  note within = suffix_within [OF refl assms]
  have "search_suffix ds whole ! 0 = hd (search_suffix ds whole)" using suffix_drop [of 0 ds whole] by simp
  moreover have "cov_set (cov_union (cov_empty whole) (hd (search_suffix ds whole))) \<subseteq> {..<whole}"
    using within by (subst cov_set_union) (simp_all add: cov_empty_def cov_set_empty [unfolded cov_empty_def])
  then have "cov_count (cov_union (cov_empty whole) (hd (search_suffix ds whole))) \<le> whole"
    unfolding cov_count_card using card_mono [of "{..<whole}"] by fastforce
  ultimately show ?thesis by (simp add: search_bound_def)
qed

end
