(* ===== verification/Placement.thy ===== *)
theory Placement
  imports Placement_Search
begin

text \<open>
  Placing the decoders of a patch on the streams of the radios (\<open>crates/engine/src/placement.rs\<close>): the
  model of what each tuning of each stream hears (\<open>placement/model.rs\<close>), the greedy choice, and the
  allocation that takes the best of a fallback, the greedy choice and the search.

  Frequencies are floating-point numbers in the code, and what is computed with them is a parameter
  here, the record \<open>planning\<close>: the functions of \<open>planning.rs\<close> and of the wire types, the candidate centre
  frequencies of a stream, and whether a channel is heard at a centre.  The type variables stand for
  the settings of a channel, the settings and capabilities of a device, and a centre frequency.
\<close>

section \<open>Data\<close>

record Lane =
  lane_device_set :: nat
  lane_stream :: nat

record 'c Placeable =
  dec_node :: string
  dec_settings :: 'c
  dec_lanes :: "Lane list"
  dec_held :: "Lane option"
  dec_pinned :: bool

record LanePlacement =
  placed_node :: string
  placed_lane :: Lane

text \<open>Of a channel only the stream, the node and the settings are read.\<close>

record 'c ChannelInfo =
  ci_stream :: nat
  ci_node :: "string option"
  ci_settings :: 'c

record ('c, 'd, 'k) Radio =
  radio_device_set :: nat
  radio_capabilities :: 'k
  radio_settings :: 'd
  radio_tunes_freely :: bool
  radio_fixed :: "'c ChannelInfo list"

record ('c, 'd, 'k, 'f) planning =
  rx_streams :: "'k \<Rightarrow> nat"
  per_stream_tuning :: "'k \<Rightarrow> bool"
  plan_center :: "'k \<Rightarrow> 'd \<Rightarrow> 'c ChannelInfo list \<Rightarrow> 'd option"
  merge_from :: "'d \<Rightarrow> 'd \<Rightarrow> 'd"
  hears :: "'k \<Rightarrow> 'd \<Rightarrow> nat \<Rightarrow> 'c \<Rightarrow> bool"
  tuner_reaches :: "'k \<Rightarrow> 'c \<Rightarrow> bool"
  tunes_itself :: "'k \<Rightarrow> 'd \<Rightarrow> nat \<Rightarrow> bool"
  centers :: "'k \<Rightarrow> 'd \<Rightarrow> bool \<Rightarrow> nat \<Rightarrow> 'c list \<Rightarrow> 'f list"
  hears_center :: "'d \<Rightarrow> 'f \<Rightarrow> 'c \<Rightarrow> bool"

record PlacementCoverage =
  pc_heard :: u32
  pc_upper_bound :: u32

record Allocation =
  al_placements :: "LanePlacement list"
  al_coverage :: PlacementCoverage

record Model =
  model_lanes :: "Lane list list"
  model_domains :: "Domain list"
  model_total :: nat

text \<open>\<open>Iterator::max_by_key\<close>: the last of the elements with the greatest key.\<close>

fun max_by_key :: "('a \<Rightarrow> 'b::linorder) \<Rightarrow> 'a list \<Rightarrow> 'a option" where
  "max_by_key key [] = None"
| "max_by_key key (x # xs) = Some (fold (\<lambda>y m. if key y < key m then m else y) xs x)"

section \<open>Radios\<close>

definition has_stream :: "('c, 'd, 'k, 'f) planning \<Rightarrow> ('c, 'd, 'k) Radio \<Rightarrow> nat \<Rightarrow> bool" where
  "has_stream P radio stream \<longleftrightarrow> stream < max (rx_streams P (radio_capabilities radio)) 1"

definition settled :: "('c, 'd, 'k, 'f) planning \<Rightarrow> ('c, 'd, 'k) Radio \<Rightarrow> 'c ChannelInfo list \<Rightarrow> 'd" where
  "settled P radio carried =
     (if radio_tunes_freely radio
      then case plan_center P (radio_capabilities radio) (radio_settings radio) carried of
             Some delta \<Rightarrow> merge_from P (radio_settings radio) delta
           | None \<Rightarrow> radio_settings radio
      else radio_settings radio)"

definition radio_hears :: "('c, 'd, 'k, 'f) planning \<Rightarrow> ('c, 'd, 'k) Radio \<Rightarrow> 'd \<Rightarrow> 'c ChannelInfo \<Rightarrow> bool" where
  "radio_hears P radio tuning channel = hears P (radio_capabilities radio) tuning (ci_stream channel) (ci_settings channel)"

definition follows :: "('c, 'd, 'k, 'f) planning \<Rightarrow> ('c, 'd, 'k) Radio \<Rightarrow> nat \<Rightarrow> bool" where
  "follows P radio stream \<longleftrightarrow> radio_tunes_freely radio \<and> tunes_itself P (radio_capabilities radio) (radio_settings radio) stream"

definition carried_info :: "'c Placeable \<Rightarrow> nat \<Rightarrow> 'c ChannelInfo" where
  "carried_info decoder stream = \<lparr>ci_stream = stream, ci_node = Some (dec_node decoder), ci_settings = dec_settings decoder\<rparr>"

section \<open>The model of what can be heard\<close>

definition usable :: "('c, 'd, 'k, 'f) planning \<Rightarrow> 'c Placeable \<Rightarrow> ('c, 'd, 'k) Radio list \<Rightarrow> Lane list" where
  "usable P decoder radios =
     (let lanes = fold (\<lambda>lane lanes.
            if lane \<notin> set lanes \<and> (\<exists>radio \<in> set radios. radio_device_set radio = lane_device_set lane \<and> has_stream P radio (lane_stream lane))
            then lanes @ [lane] else lanes) (dec_lanes decoder) []
      in case dec_held decoder of
           Some held \<Rightarrow> if dec_pinned decoder \<and> held \<in> set lanes then [held] else lanes
         | None \<Rightarrow> lanes)"

definition stream_of :: "('c, 'd, 'k, 'f) planning \<Rightarrow> ('c, 'd, 'k) Radio \<Rightarrow> nat \<Rightarrow> nat" where
  "stream_of P radio stream = (if per_stream_tuning P (radio_capabilities radio) then stream else 0)"

text \<open>A band is the bit of a channel with its settings.\<close>

definition covered_at :: "('c, 'd, 'k, 'f) planning \<Rightarrow> ('c, 'd, 'k) Radio \<Rightarrow> (nat \<times> 'c) list \<Rightarrow> nat \<Rightarrow> 'f \<Rightarrow> Coverage" where
  "covered_at P radio bands whole center =
     fold (\<lambda>(b, c) covered. if hears_center P (radio_settings radio) center c then cov_insert b covered else covered)
       bands (cov_empty whole)"

definition unique_coverages :: "Coverage list \<Rightarrow> Coverage list" where
  "unique_coverages cs = fold (\<lambda>c acc. if c \<in> set acc then acc else acc @ [c]) cs []"

definition maximal_coverages :: "Coverage list \<Rightarrow> Coverage list" where
  "maximal_coverages cs = fold (\<lambda>c acc. if \<exists>other \<in> set acc. cov_subset_of c other then acc else acc @ [c]) cs []"

text \<open>
  \<open>options\<close>, while the budget lasts: the code gives up with \<open>None\<close> when it does not, which \<open>allocate_lanes\<close> takes as
  its parameter \<open>in_time\<close>.
\<close>

definition stream_centers :: "('c, 'd, 'k, 'f) planning \<Rightarrow> ('c, 'd, 'k) Radio \<Rightarrow> nat \<Rightarrow> (nat \<times> 'c) list \<Rightarrow> 'f list" where
  "stream_centers P radio stream bands =
     centers P (radio_capabilities radio) (radio_settings radio) (has_stream P radio stream \<and> follows P radio stream) stream (map snd bands)"

definition options :: "('c, 'd, 'k, 'f) planning \<Rightarrow> ('c, 'd, 'k) Radio \<Rightarrow> nat \<Rightarrow> (nat \<times> 'c) list \<Rightarrow> nat \<Rightarrow> Coverage list" where
  "options P radio stream bands whole =
     (let found = unique_coverages (map (covered_at P radio bands whole) (stream_centers P radio stream bands));
          best_first = sort_key (\<lambda>c. - int (cov_count c)) found;
          maximal = maximal_coverages best_first
      in if maximal = [] then [cov_empty whole] else maximal)"

definition radio_streams :: "('c, 'd, 'k, 'f) planning \<Rightarrow> Lane list list \<Rightarrow> ('c, 'd, 'k) Radio \<Rightarrow> nat list" where
  "radio_streams P lanes radio =
     remdups_adj (sort
       (map (\<lambda>lane. stream_of P radio (lane_stream lane)) (filter (\<lambda>lane. lane_device_set lane = radio_device_set radio) (concat lanes)) @
        map (\<lambda>channel. stream_of P radio (ci_stream channel)) (radio_fixed radio)))"

definition stream_bands :: "('c, 'd, 'k, 'f) planning \<Rightarrow> 'c Placeable list \<Rightarrow> Lane list list \<Rightarrow> nat \<Rightarrow> ('c, 'd, 'k) Radio \<Rightarrow> nat \<Rightarrow> (nat \<times> 'c) list" where
  "stream_bands P decoders lanes fixed_bit radio stream =
     map (\<lambda>(b, decoder). (b, dec_settings decoder))
       (filter (\<lambda>(b, decoder). \<exists>lane \<in> set (lanes ! b). lane_device_set lane = radio_device_set radio \<and> stream_of P radio (lane_stream lane) = stream)
          (enumerate 0 decoders)) @
     map (\<lambda>(b, channel). (fixed_bit + b, ci_settings channel))
       (filter (\<lambda>(b, channel). \<not> per_stream_tuning P (radio_capabilities radio) \<or> ci_stream channel = stream)
          (enumerate 0 (radio_fixed radio)))"

fun radio_domains :: "('c, 'd, 'k, 'f) planning \<Rightarrow> 'c Placeable list \<Rightarrow> Lane list list \<Rightarrow> nat \<Rightarrow> nat \<Rightarrow> nat \<Rightarrow> ('c, 'd, 'k) Radio list \<Rightarrow> Domain list" where
  "radio_domains P decoders lanes whole index fixed_bit [] = []"
| "radio_domains P decoders lanes whole index fixed_bit (radio # radios) =
     map (\<lambda>stream. \<lparr>dom_radio = index, dom_stream = stream,
                    dom_options = options P radio stream (stream_bands P decoders lanes fixed_bit radio stream) whole\<rparr>)
       (radio_streams P lanes radio) @
     radio_domains P decoders lanes whole (index + 1) (fixed_bit + length (radio_fixed radio)) radios"

definition all_channels :: "'c Placeable list \<Rightarrow> ('c, 'd, 'k) Radio list \<Rightarrow> nat" where
  "all_channels decoders radios = length decoders + sum_list (map (\<lambda>radio. length (radio_fixed radio)) radios)"

definition model_new :: "('c, 'd, 'k, 'f) planning \<Rightarrow> 'c Placeable list \<Rightarrow> ('c, 'd, 'k) Radio list \<Rightarrow> Model" where
  "model_new P decoders radios =
     (let lanes = map (\<lambda>decoder. usable P decoder radios) decoders;
          whole = all_channels decoders radios;
          domains = radio_domains P decoders lanes whole 0 (length decoders) radios
      in \<lparr>model_lanes = lanes,
          model_domains = sort_key (\<lambda>d. (length (dom_options d), radio_device_set (radios ! dom_radio d), dom_stream d)) domains,
          model_total = whole\<rparr>)"

definition covers :: "('c, 'd, 'k, 'f) planning \<Rightarrow> Model \<Rightarrow> ('c, 'd, 'k) Radio list \<Rightarrow> nat list \<Rightarrow> nat \<Rightarrow> Lane \<Rightarrow> bool" where
  "covers P model radios picked_options b lane \<longleftrightarrow>
     (\<exists>(d, opt) \<in> set (zip (model_domains model) picked_options).
        let radio = radios ! dom_radio d
        in radio_device_set radio = lane_device_set lane \<and> stream_of P radio (lane_stream lane) = dom_stream d \<and>
           cov_contains (dom_options d ! opt) b)"

definition greedy_choice :: "Model \<Rightarrow> nat \<Rightarrow> Coverage \<Rightarrow> Coverage list \<Rightarrow> nat" where
  "greedy_choice model decoders covered opts =
     (case max_by_key (\<lambda>(i, opt).
             (cov_gain opt covered,
              length (filter (\<lambda>b. cov_contains opt b \<and> \<not> cov_contains covered b \<and>
                 (decoders \<le> b \<or> length (model_lanes model ! b) = 1)) [0..<model_total model]),
              - int i)) (enumerate 0 opts) of
        Some (i, opt) \<Rightarrow> i
      | None \<Rightarrow> 0)"

fun greedy_from :: "Model \<Rightarrow> nat \<Rightarrow> Coverage \<Rightarrow> Domain list \<Rightarrow> nat list" where
  "greedy_from model decoders covered [] = []"
| "greedy_from model decoders covered (d # ds) =
     (let i = greedy_choice model decoders covered (dom_options d)
      in i # greedy_from model decoders (cov_union covered (dom_options d ! i)) ds)"

definition greedy :: "Model \<Rightarrow> 'c Placeable list \<Rightarrow> nat list" where
  "greedy model decoders = greedy_from model (length decoders) (cov_empty (model_total model)) (model_domains model)"

section \<open>Allocation\<close>

definition fallback :: "('c, 'd, 'k, 'f) planning \<Rightarrow> 'c Placeable \<Rightarrow> Lane list \<Rightarrow> ('c, 'd, 'k) Radio list \<Rightarrow> Lane option" where
  "fallback P decoder lanes radios =
     map_option snd (max_by_key (\<lambda>(index, lane).
       let radio = List.find (\<lambda>radio. radio_device_set radio = lane_device_set lane) radios;
           heard = (case radio of Some r \<Rightarrow> radio_hears P r (radio_settings r) (carried_info decoder (lane_stream lane)) | None \<Rightarrow> False);
           reaches = (case radio of Some r \<Rightarrow> tuner_reaches P (radio_capabilities r) (dec_settings decoder) | None \<Rightarrow> False)
       in (heard, reaches, dec_held decoder = Some lane, - int index)) (enumerate 0 lanes))"

definition carried_by :: "'c Placeable list \<Rightarrow> LanePlacement list \<Rightarrow> ('c, 'd, 'k) Radio \<Rightarrow> 'c ChannelInfo list" where
  "carried_by decoders placements radio =
     radio_fixed radio @
     List.map_filter (\<lambda>decoder.
       map_option (\<lambda>p. carried_info decoder (lane_stream (placed_lane p)))
         (List.find (\<lambda>p. placed_node p = dec_node decoder \<and> lane_device_set (placed_lane p) = radio_device_set radio) placements)) decoders"

definition received :: "('c, 'd, 'k, 'f) planning \<Rightarrow> 'c Placeable list \<Rightarrow> ('c, 'd, 'k) Radio list \<Rightarrow> LanePlacement list \<Rightarrow> nat" where
  "received P decoders radios placements =
     sum_list (map (\<lambda>radio.
       let carried = carried_by decoders placements radio; tuning = settled P radio carried
       in length (filter (radio_hears P radio tuning) carried)) radios)"

definition project :: "('c, 'd, 'k, 'f) planning \<Rightarrow> 'c Placeable list \<Rightarrow> ('c, 'd, 'k) Radio list \<Rightarrow> Model \<Rightarrow> nat list \<Rightarrow> LanePlacement list" where
  "project P decoders radios model picked_options =
     List.map_filter (\<lambda>(b, decoder).
       let all = model_lanes model ! b;
           covered = filter (covers P model radios picked_options b) all
       in map_option (\<lambda>lane. \<lparr>placed_node = dec_node decoder, placed_lane = lane\<rparr>)
            (fallback P decoder (if covered = [] then all else covered) radios)) (enumerate 0 decoders)"

definition coverage_of :: "nat \<Rightarrow> nat \<Rightarrow> PlacementCoverage" where
  "coverage_of heard upper = \<lparr>pc_heard = of_nat heard, pc_upper_bound = of_nat (max upper heard)\<rparr>"

definition fallback_placements :: "('c, 'd, 'k, 'f) planning \<Rightarrow> 'c Placeable list \<Rightarrow> ('c, 'd, 'k) Radio list \<Rightarrow> LanePlacement list" where
  "fallback_placements P decoders radios =
     List.map_filter (\<lambda>decoder. map_option (\<lambda>lane. \<lparr>placed_node = dec_node decoder, placed_lane = lane\<rparr>)
       (fallback P decoder (usable P decoder radios) radios)) decoders"

definition allocate_lanes :: "('c, 'd, 'k, 'f) planning \<Rightarrow> bool \<Rightarrow> (nat \<Rightarrow> bool) \<Rightarrow> 'c Placeable list \<Rightarrow> ('c, 'd, 'k) Radio list \<Rightarrow> Limits \<Rightarrow> Allocation" where
  "allocate_lanes P in_time late decoders radios limits =
     (let placements = fallback_placements P decoders radios;
          heard = received P decoders radios placements;
          whole = all_channels decoders radios
      in if heard = whole then \<lparr>al_placements = placements, al_coverage = coverage_of heard heard\<rparr>
         else if \<not> in_time then \<lparr>al_placements = placements, al_coverage = coverage_of heard whole\<rparr>
         else
           let model = model_new P decoders radios;
               by_greed = project P decoders radios model (greedy model decoders);
               greedy_heard = received P decoders radios by_greed;
               (placements, heard) = (if heard < greedy_heard then (by_greed, greedy_heard) else (placements, heard));
               search = search_run (model_domains model) limits late whole (search_new whole heard);
               (placements, heard) =
                 (case chosen search of
                    Some p \<Rightarrow>
                      let candidate = project P decoders radios model p; candidate_heard = received P decoders radios candidate
                      in if heard < candidate_heard then (candidate, candidate_heard) else (placements, heard)
                  | None \<Rightarrow> (placements, heard));
               upper = (if upper_bound search < heard then whole else upper_bound search)
           in \<lparr>al_placements = placements, al_coverage = coverage_of heard upper\<rparr>)"

section \<open>Choosing the greatest\<close>

lemma max_by_key_Some:
  assumes "xs \<noteq> []"
  shows "\<exists>m. max_by_key key xs = Some m \<and> m \<in> set xs \<and> (\<forall>x \<in> set xs. key x \<le> key m)"
proof -
  obtain x ys where xs: "xs = x # ys" using assms by (cases xs) auto
  have "fold (\<lambda>y m. if key y < key m then m else y) ys x \<in> set (x # ys) \<and>
      (\<forall>z \<in> set (x # ys). key z \<le> key (fold (\<lambda>y m. if key y < key m then m else y) ys x))"
  proof (induction ys arbitrary: x)
    case (Cons y ys)
    have "key y \<le> key (if key y < key x then x else y)" "key x \<le> key (if key y < key x then x else y)" by auto
    then show ?case using Cons [of "if key y < key x then x else y"] by (auto dest: order_trans split: if_splits)
  qed simp
  then show ?thesis by (simp add: xs)
qed

lemma max_by_key_Nil_iff: "max_by_key key xs = None \<longleftrightarrow> xs = []"
  by (cases xs) auto

section \<open>Options\<close>

lemma covered_at_fold:
  assumes "length c0 = n" "\<forall>(b, c) \<in> set bands. b div 64 < n"
  shows "length (fold (\<lambda>(b, c) covered. if h c then cov_insert b covered else covered) bands c0) = n \<and>
    cov_set (fold (\<lambda>(b, c) covered. if h c then cov_insert b covered else covered) bands c0) = cov_set c0 \<union> {b. \<exists>c. (b, c) \<in> set bands \<and> h c}"
  using assms
proof (induction bands arbitrary: c0)
  case (Cons x bands)
  obtain b c where x: "x = (b, c)" by (cases x)
  have "length (if h c then cov_insert b c0 else c0) = n" using Cons.prems by (simp add: cov_insert_def)
  then have "length (fold (\<lambda>(b, c) covered. if h c then cov_insert b covered else covered) bands (if h c then cov_insert b c0 else c0)) = n \<and>
     cov_set (fold (\<lambda>(b, c) covered. if h c then cov_insert b covered else covered) bands (if h c then cov_insert b c0 else c0)) =
     cov_set (if h c then cov_insert b c0 else c0) \<union> {b. \<exists>c. (b, c) \<in> set bands \<and> h c}"
    using Cons by simp
  moreover have "cov_set (if h c then cov_insert b c0 else c0) = cov_set c0 \<union> (if h c then {b} else {})"
    using Cons.prems x by (auto simp: cov_set_insert)
  ultimately show ?case by (auto simp: x split: if_splits)
qed simp

lemma below_words: "b < whole \<Longrightarrow> b div 64 < (whole + 63) div 64" for b :: nat
proof -
  assume "b < whole"
  then have "(b + 64) div 64 \<le> (whole + 63) div 64" by (intro div_le_mono) simp
  then show ?thesis by simp
qed

lemma covered_at_set:
  assumes "\<forall>(b, c) \<in> set bands. b < whole"
  shows "length (covered_at P radio bands whole center) = (whole + 63) div 64"
    "cov_set (covered_at P radio bands whole center) = {b. \<exists>c. (b, c) \<in> set bands \<and> hears_center P (radio_settings radio) center c}"
proof -
  have "\<forall>(b, c) \<in> set bands. b div 64 < (whole + 63) div 64" using assms below_words by fast
  from covered_at_fold [OF _ this, of "cov_empty whole"]
  show "length (covered_at P radio bands whole center) = (whole + 63) div 64"
    "cov_set (covered_at P radio bands whole center) = {b. \<exists>c. (b, c) \<in> set bands \<and> hears_center P (radio_settings radio) center c}"
    by (simp_all add: covered_at_def cov_empty_def [of whole] cov_set_empty [unfolded cov_empty_def])
qed

lemma unique_coverages_spec: "set (unique_coverages cs) = set cs" "distinct (unique_coverages cs)"
proof -
  have "set (fold (\<lambda>c acc. if c \<in> set acc then acc else acc @ [c]) cs acc) = set acc \<union> set cs \<and>
      (distinct acc \<longrightarrow> distinct (fold (\<lambda>c acc. if c \<in> set acc then acc else acc @ [c]) cs acc))" for acc
    by (induction cs arbitrary: acc) auto
  from this [of "[]"] show "set (unique_coverages cs) = set cs" "distinct (unique_coverages cs)"
    by (simp_all add: unique_coverages_def)
qed

lemma cov_set_inj: "length c = length d \<Longrightarrow> cov_set c = cov_set d \<Longrightarrow> c = d"
proof (rule nth_equalityI)
  fix k
  assume n: "length c = length d" "k < length c" and eq: "cov_set c = cov_set d"
  show "c ! k = d ! k"
  proof (rule bit_word_eqI)
    fix i
    assume "i < LENGTH(64)"
    then have "64 * k + i \<in> cov_set c \<longleftrightarrow> bit (c ! k) i" "64 * k + i \<in> cov_set d \<longleftrightarrow> bit (d ! k) i" using n by (simp_all add: cov_set_def)
    with eq show "bit (c ! k) i = bit (d ! k) i" by simp
  qed
qed

text \<open>Keeping the maximal ones: nothing kept lies within an earlier one, and nothing dropped lies outside all.\<close>

lemma maximal_coverages_spec:
  "set (maximal_coverages cs) \<subseteq> set cs"
  "c \<in> set cs \<Longrightarrow> \<exists>other \<in> set (maximal_coverages cs). c = other \<or> cov_subset_of c other"
  "sorted_wrt (\<lambda>x y. R x y) cs \<Longrightarrow> sorted_wrt (\<lambda>x y. R x y \<and> \<not> cov_subset_of y x) (maximal_coverages cs)"
proof -
  let ?f = "\<lambda>c acc. if \<exists>other \<in> set acc. cov_subset_of c other then acc else acc @ [c]"
  have keeps: "set acc \<subseteq> set (fold ?f cs acc) \<and> set (fold ?f cs acc) \<subseteq> set acc \<union> set cs \<and>
      (\<forall>c \<in> set cs. \<exists>other \<in> set (fold ?f cs acc). c = other \<or> cov_subset_of c other)" for acc
  proof (induction cs arbitrary: acc)
    case (Cons c cs)
    show ?case using Cons [of "?f c acc"] by (cases "\<exists>other \<in> set acc. cov_subset_of c other") auto
  qed simp
  from keeps [of "[]"] show "set (maximal_coverages cs) \<subseteq> set cs"
    "c \<in> set cs \<Longrightarrow> \<exists>other \<in> set (maximal_coverages cs). c = other \<or> cov_subset_of c other"
    by (auto simp: maximal_coverages_def)
  have "sorted_wrt R cs \<Longrightarrow> (\<forall>x \<in> set acc. \<forall>y \<in> set cs. R x y) \<Longrightarrow> sorted_wrt (\<lambda>x y. R x y \<and> \<not> cov_subset_of y x) acc \<Longrightarrow>
      sorted_wrt (\<lambda>x y. R x y \<and> \<not> cov_subset_of y x) (fold ?f cs acc)" for acc
  proof (induction cs arbitrary: acc)
    case (Cons c cs)
    show ?case using Cons.IH [of "?f c acc"] Cons.prems by (auto simp: sorted_wrt_append)
  qed simp
  from this [of "[]"] show "sorted_wrt (\<lambda>x y. R x y) cs \<Longrightarrow> sorted_wrt (\<lambda>x y. R x y \<and> \<not> cov_subset_of y x) (maximal_coverages cs)"
    by (simp add: maximal_coverages_def)
qed


lemma options_spec:
  assumes "\<forall>(b, c) \<in> set bands. b < whole" "stream_centers P radio stream bands \<noteq> []"
  shows "c \<in> set (options P radio stream bands whole) \<Longrightarrow> \<exists>center \<in> set (stream_centers P radio stream bands). c = covered_at P radio bands whole center"
    and "center \<in> set (stream_centers P radio stream bands) \<Longrightarrow>
      \<exists>c \<in> set (options P radio stream bands whole). cov_set (covered_at P radio bands whole center) \<subseteq> cov_set c"
    and "sorted_wrt (\<lambda>x y. \<not> cov_set x \<subseteq> cov_set y \<and> \<not> cov_set y \<subseteq> cov_set x) (options P radio stream bands whole)"
proof -
  define found where "found = unique_coverages (map (covered_at P radio bands whole) (stream_centers P radio stream bands))"
  define cs where "cs = sort_key (\<lambda>c. - int (cov_count c)) found"
  have set: "set cs = covered_at P radio bands whole ` set (stream_centers P radio stream bands)"
    by (simp add: cs_def found_def unique_coverages_spec)
  have len: "length c = (whole + 63) div 64" if "c \<in> set cs" for c using that set covered_at_set(1) [OF assms(1)] by auto
  have some: "\<exists>other \<in> set (maximal_coverages cs). cov_set c \<subseteq> cov_set other" if c: "c \<in> set cs" for c
  proof -
    obtain other where other: "other \<in> set (maximal_coverages cs)" "c = other \<or> cov_subset_of c other" using maximal_coverages_spec(2) [OF c] by blast
    moreover have "length other = length c" using maximal_coverages_spec(1) [of cs] other(1) len c by (metis subsetD)
    ultimately show ?thesis using cov_subset_of_iff [of c other] by auto
  qed
  have "cs \<noteq> []" using set assms(2) by (metis image_is_empty set_empty)
  then have "maximal_coverages cs \<noteq> []" using some by (metis all_not_in_conv empty_set hd_in_set)
  then have opts: "options P radio stream bands whole = maximal_coverages cs"
    by (simp add: options_def cs_def found_def Let_def)
  show "c \<in> set (options P radio stream bands whole) \<Longrightarrow> \<exists>center \<in> set (stream_centers P radio stream bands). c = covered_at P radio bands whole center"
    using maximal_coverages_spec(1) [of cs] unfolding opts set by blast
  show "center \<in> set (stream_centers P radio stream bands) \<Longrightarrow>
      \<exists>c \<in> set (options P radio stream bands whole). cov_set (covered_at P radio bands whole center) \<subseteq> cov_set c"
    using some set unfolding opts by blast
  have "sorted (map (\<lambda>c. - int (cov_count c)) cs)" unfolding cs_def by simp
  then have "sorted_wrt (\<lambda>x y. cov_count y \<le> cov_count x) cs" by (simp add: sorted_map)
  from maximal_coverages_spec(3) [OF this] show "sorted_wrt (\<lambda>x y. \<not> cov_set x \<subseteq> cov_set y \<and> \<not> cov_set y \<subseteq> cov_set x) (options P radio stream bands whole)"
    unfolding opts
  proof (rule sorted_wrt_mono_rel [rotated])
    fix x y
    assume xy: "x \<in> set (maximal_coverages cs)" "y \<in> set (maximal_coverages cs)" and r: "cov_count y \<le> cov_count x \<and> \<not> cov_subset_of y x"
    have "x \<in> set cs" "y \<in> set cs" using xy maximal_coverages_spec(1) [of cs] by auto
    then have n: "length y = length x" by (simp add: len)
    with r have not: "\<not> cov_set y \<subseteq> cov_set x" by (simp add: cov_subset_of_iff)
    moreover have "\<not> cov_set x \<subseteq> cov_set y"
    proof
      assume "cov_set x \<subseteq> cov_set y"
      with r have "cov_set x = cov_set y" by (intro card_seteq) (simp_all add: cov_count_card)
      with not show False by simp
    qed
    ultimately show "\<not> cov_set x \<subseteq> cov_set y \<and> \<not> cov_set y \<subseteq> cov_set x" by blast
  qed
qed

lemma options_width:
  assumes "\<forall>(b, c) \<in> set bands. b < whole" "c \<in> set (options P radio stream bands whole)"
  shows "length c = (whole + 63) div 64 \<and> cov_set c \<subseteq> {..<whole}"
proof (cases "stream_centers P radio stream bands = []")
  case True
  with assms(2) show ?thesis by (simp add: options_def unique_coverages_def maximal_coverages_def cov_empty_def cov_set_empty [unfolded cov_empty_def])
next
  case False
  from options_spec(1) [OF assms(1) False assms(2)] obtain center where "c = covered_at P radio bands whole center" by blast
  then show ?thesis using covered_at_set [OF assms(1), of P radio center] assms(1) by auto
qed

lemma options_not_Nil: "options P radio stream bands whole \<noteq> []"
  by (simp add: options_def Let_def)

section \<open>The model\<close>

lemma stream_bands_below:
  "(b, c) \<in> set (stream_bands P decoders lanes fixed_bit radio stream) \<Longrightarrow> length decoders \<le> fixed_bit \<Longrightarrow> b < fixed_bit + length (radio_fixed radio)"
  by (auto simp: stream_bands_def in_set_enumerate_eq)

text \<open>The channels that the stream of a domain could carry: their bits and settings.\<close>

definition bands_of :: "('c, 'd, 'k, 'f) planning \<Rightarrow> 'c Placeable list \<Rightarrow> ('c, 'd, 'k) Radio list \<Rightarrow> Domain \<Rightarrow> (nat \<times> 'c) list" where
  "bands_of P decoders radios d =
     stream_bands P decoders (map (\<lambda>decoder. usable P decoder radios) decoders)
       (all_channels decoders (take (dom_radio d) radios)) (radios ! dom_radio d) (dom_stream d)"

lemma radio_domains_spec:
  assumes "d \<in> set (radio_domains P decoders lanes whole index fixed_bit radios)"
  shows "\<exists>k < length radios. dom_radio d = index + k \<and>
    dom_options d = options P (radios ! k) (dom_stream d)
      (stream_bands P decoders lanes (fixed_bit + sum_list (map (\<lambda>radio. length (radio_fixed radio)) (take k radios))) (radios ! k) (dom_stream d)) whole"
  using assms
proof (induction radios arbitrary: index fixed_bit)
  case (Cons radio radios)
  from Cons.prems consider
    (here) stream where "d = \<lparr>dom_radio = index, dom_stream = stream,
        dom_options = options P radio stream (stream_bands P decoders lanes fixed_bit radio stream) whole\<rparr>"
    | (later) "d \<in> set (radio_domains P decoders lanes whole (index + 1) (fixed_bit + length (radio_fixed radio)) radios)"
    by auto
  then show ?case
  proof cases
    case here
    then show ?thesis by (intro exI [of _ 0]) simp
  next
    case later
    from Cons.IH [OF this] obtain k where "k < length radios" "dom_radio d = index + 1 + k"
      "dom_options d = options P (radios ! k) (dom_stream d)
        (stream_bands P decoders lanes (fixed_bit + length (radio_fixed radio) +
           sum_list (map (\<lambda>radio. length (radio_fixed radio)) (take k radios))) (radios ! k) (dom_stream d)) whole" by blast
    then show ?thesis by (intro exI [of _ "Suc k"]) (simp add: add.assoc)
  qed
qed simp

lemma all_channels_take: "k < length radios \<Longrightarrow> all_channels decoders (take k radios) + length (radio_fixed (radios ! k)) \<le> all_channels decoders radios"
proof -
  assume "k < length radios"
  then have "radios = take k radios @ radios ! k # drop (Suc k) radios" by (rule id_take_nth_drop)
  then have "all_channels decoders radios = all_channels decoders (take k radios @ radios ! k # drop (Suc k) radios)" by simp
  then show ?thesis by (simp add: all_channels_def)
qed

lemma model_domain:
  assumes "d \<in> set (model_domains (model_new P decoders radios))"
  shows "dom_radio d < length radios"
    "dom_options d = options P (radios ! dom_radio d) (dom_stream d) (bands_of P decoders radios d) (all_channels decoders radios)"
    "\<forall>(b, c) \<in> set (bands_of P decoders radios d). b < all_channels decoders radios"
proof -
  have "d \<in> set (radio_domains P decoders (map (\<lambda>decoder. usable P decoder radios) decoders) (all_channels decoders radios) 0 (length decoders) radios)"
    using assms by (simp add: model_new_def Let_def)
  from radio_domains_spec [OF this] show k: "dom_radio d < length radios"
    and "dom_options d = options P (radios ! dom_radio d) (dom_stream d) (bands_of P decoders radios d) (all_channels decoders radios)"
    by (auto simp: bands_of_def all_channels_def)
  have "length decoders \<le> all_channels decoders (take (dom_radio d) radios)" by (simp add: all_channels_def)
  from stream_bands_below [OF _ this] show "\<forall>(b, c) \<in> set (bands_of P decoders radios d). b < all_channels decoders radios"
    using all_channels_take [OF k, of decoders] unfolding bands_of_def by fastforce
qed

lemma model_wide: "wide ((all_channels decoders radios + 63) div 64) (model_domains (model_new P decoders radios))"
  unfolding wide_def using options_width model_domain(2,3) by metis


text \<open>The bits a stream hears at a centre, and what every choice of centres hears together.\<close>

definition heard_at :: "('c, 'd, 'k, 'f) planning \<Rightarrow> 'c Placeable list \<Rightarrow> ('c, 'd, 'k) Radio list \<Rightarrow> Domain \<Rightarrow> 'f \<Rightarrow> nat set" where
  "heard_at P decoders radios d center =
     {b. \<exists>c. (b, c) \<in> set (bands_of P decoders radios d) \<and> hears_center P (radio_settings (radios ! dom_radio d)) center c}"

definition domain_centers :: "('c, 'd, 'k, 'f) planning \<Rightarrow> 'c Placeable list \<Rightarrow> ('c, 'd, 'k) Radio list \<Rightarrow> Domain \<Rightarrow> 'f list" where
  "domain_centers P decoders radios d = stream_centers P (radios ! dom_radio d) (dom_stream d) (bands_of P decoders radios d)"

lemma cover_set:
  assumes "wide ((whole + 63) div 64) domains" "picks domains p"
  shows "cov_count (cover whole domains p) = card (\<Union>c \<in> set (picked domains p). cov_set c)"
proof -
  have "\<forall>c \<in> set (picked domains p). length c = (whole + 63) div 64" using picked_options [OF assms(2)] assms(1) by (auto simp: wide_def)
  from cov.fold_un [OF this, of "cov_empty whole"] show ?thesis by (simp add: cover_def cov_count_card cov_empty_def [of whole] cov_set_empty [unfolded cov_empty_def])
qed

text \<open>Every choice of centres is within a choice of options.\<close>

lemma centres_within_options:
  assumes "\<forall>d \<in> set (model_domains (model_new P decoders radios)). choice d \<in> set (domain_centers P decoders radios d)"
  shows "\<exists>p. picks (model_domains (model_new P decoders radios)) p \<and>
    (\<Union>d \<in> set (model_domains (model_new P decoders radios)). heard_at P decoders radios d (choice d)) \<subseteq>
    (\<Union>c \<in> set (picked (model_domains (model_new P decoders radios)) p). cov_set c)"
proof -
  let ?ds = "model_domains (model_new P decoders radios)"
  have "\<exists>i < length (dom_options d). heard_at P decoders radios d (choice d) \<subseteq> cov_set (dom_options d ! i)" if d: "d \<in> set ?ds" for d
  proof -
    have "choice d \<in> set (stream_centers P (radios ! dom_radio d) (dom_stream d) (bands_of P decoders radios d))"
      using assms d by (simp add: domain_centers_def)
    moreover from this have "stream_centers P (radios ! dom_radio d) (dom_stream d) (bands_of P decoders radios d) \<noteq> []" by auto
    ultimately obtain c where c: "c \<in> set (dom_options d)"
      "cov_set (covered_at P (radios ! dom_radio d) (bands_of P decoders radios d) (all_channels decoders radios) (choice d)) \<subseteq> cov_set c"
      using options_spec(2) [OF model_domain(3) [OF d], of P "radios ! dom_radio d" "dom_stream d" "choice d"] unfolding model_domain(2) [OF d] by blast
    have "heard_at P decoders radios d (choice d) \<subseteq> cov_set c"
      using c(2) unfolding covered_at_set(2) [OF model_domain(3) [OF d]] heard_at_def .
    with c(1) show ?thesis by (auto simp: in_set_conv_nth)
  qed
  then obtain pick where pick: "\<forall>d \<in> set ?ds. pick d < length (dom_options d) \<and> heard_at P decoders radios d (choice d) \<subseteq> cov_set (dom_options d ! pick d)"
    by metis
  have "picks ds (map pick ds) \<and> (\<Union>d \<in> set ds. heard_at P decoders radios d (choice d)) \<subseteq> (\<Union>c \<in> set (picked ds (map pick ds)). cov_set c)"
    if "set ds \<subseteq> set ?ds" for ds
    using that
  proof (induction ds)
    case (Cons d ds)
    then have "pick d < length (dom_options d)" "heard_at P decoders radios d (choice d) \<subseteq> cov_set (dom_options d ! pick d)" using pick by auto
    moreover have "picks ds (map pick ds)" "(\<Union>d \<in> set ds. heard_at P decoders radios d (choice d)) \<subseteq> (\<Union>c \<in> set (picked ds (map pick ds)). cov_set c)"
      using Cons by auto
    ultimately show ?case by (auto simp: picks_def picked_def)
  qed (simp add: picks_def)
  from this [of ?ds] show ?thesis by blast
qed

section \<open>Allocation\<close>

definition wired :: "('c, 'd, 'k, 'f) planning \<Rightarrow> ('c, 'd, 'k) Radio list \<Rightarrow> Lane \<Rightarrow> bool" where
  "wired P radios lane \<longleftrightarrow> (\<exists>radio \<in> set radios. radio_device_set radio = lane_device_set lane \<and> has_stream P radio (lane_stream lane))"

text \<open>
  A decoder goes where it is wired to a stream that exists, and nowhere else than the lane it is
  pinned to, if it holds that.
\<close>

definition fits :: "('c, 'd, 'k, 'f) planning \<Rightarrow> ('c, 'd, 'k) Radio list \<Rightarrow> 'c Placeable \<Rightarrow> LanePlacement \<Rightarrow> bool" where
  "fits P radios d p \<longleftrightarrow>
     placed_node p = dec_node d \<and> placed_lane p \<in> set (dec_lanes d) \<and> wired P radios (placed_lane p) \<and>
     (case dec_held d of
        Some held \<Rightarrow> dec_pinned d \<and> held \<in> set (dec_lanes d) \<and> wired P radios held \<longrightarrow> placed_lane p = held
      | None \<Rightarrow> True)"

definition placements_ok :: "('c, 'd, 'k, 'f) planning \<Rightarrow> 'c Placeable list \<Rightarrow> ('c, 'd, 'k) Radio list \<Rightarrow> LanePlacement list \<Rightarrow> bool" where
  "placements_ok P decoders radios ps \<longleftrightarrow>
     list_all2 (fits P radios) (filter (\<lambda>d. \<exists>lane \<in> set (dec_lanes d). wired P radios lane) decoders) ps"

lemma usable_lanes:
  "set (usable P d radios) = (case dec_held d of
     Some held \<Rightarrow> if dec_pinned d \<and> held \<in> set (dec_lanes d) \<and> wired P radios held then {held} else {lane \<in> set (dec_lanes d). wired P radios lane}
   | None \<Rightarrow> {lane \<in> set (dec_lanes d). wired P radios lane})"
proof -
  let ?f = "\<lambda>lane lanes. if lane \<notin> set lanes \<and> (\<exists>radio \<in> set radios. radio_device_set radio = lane_device_set lane \<and> has_stream P radio (lane_stream lane))
            then lanes @ [lane] else lanes"
  have "set (fold ?f xs acc) = set acc \<union> {lane \<in> set xs. wired P radios lane}" for xs acc
    by (induction xs arbitrary: acc) (auto simp: wired_def)
  from this [of "dec_lanes d" "[]"] show ?thesis by (auto simp: usable_def Let_def split: option.splits)
qed

lemma usable_fits:
  "lane \<in> set (usable P d radios) \<Longrightarrow> fits P radios d \<lparr>placed_node = dec_node d, placed_lane = lane\<rparr>"
  "usable P d radios = [] \<longleftrightarrow> \<not> (\<exists>lane \<in> set (dec_lanes d). wired P radios lane)"
  by (auto simp: fits_def usable_lanes set_empty [symmetric] simp del: set_empty split: option.splits if_splits)

lemma fallback_in: "lanes \<noteq> [] \<Longrightarrow> \<exists>lane. fallback P d lanes radios = Some lane \<and> lane \<in> set lanes"
proof -
  assume "lanes \<noteq> []"
  then have "enumerate 0 lanes \<noteq> []" by (metis length_enumerate length_0_conv)
  have "\<exists>lane. map_option snd (max_by_key key (enumerate 0 lanes)) = Some lane \<and> lane \<in> set lanes" for key :: "nat \<times> Lane \<Rightarrow> bool \<times> bool \<times> bool \<times> int"
  proof -
    obtain m where "max_by_key key (enumerate 0 lanes) = Some m" "m \<in> set (enumerate 0 lanes)" using max_by_key_Some [OF \<open>enumerate 0 lanes \<noteq> []\<close>] by blast
    moreover from this have "fst m < length lanes" "lanes ! fst m = snd m" by (simp_all add: in_set_enumerate_eq)
    ultimately show ?thesis using nth_mem [of "fst m" lanes] by simp
  qed
  then show ?thesis unfolding fallback_def .
qed

lemma fallback_Nil [simp]: "fallback P d [] radios = None"
  by (simp add: fallback_def)

lemma placements_ok_map_filter:
  assumes "\<And>x. x \<in> set xs \<Longrightarrow> (usable P (dec x) radios = [] \<longrightarrow> f x = None) \<and>
      (usable P (dec x) radios \<noteq> [] \<longrightarrow> (\<exists>lane \<in> set (usable P (dec x) radios). f x = Some \<lparr>placed_node = dec_node (dec x), placed_lane = lane\<rparr>))"
  shows "placements_ok P (map dec xs) radios (List.map_filter f xs)"
  using assms
proof (induction xs)
  case (Cons x xs)
  then have IH: "placements_ok P (map dec xs) radios (List.map_filter f xs)" by simp
  show ?case
  proof (cases "usable P (dec x) radios = []")
    case True
    with Cons.prems have "f x = None" by simp
    with True IH show ?thesis by (simp add: placements_ok_def map_filter_simps usable_fits(2))
  next
    case False
    then obtain lane where "lane \<in> set (usable P (dec x) radios)" "f x = Some \<lparr>placed_node = dec_node (dec x), placed_lane = lane\<rparr>"
      using Cons.prems by auto
    with False IH show ?thesis by (simp add: placements_ok_def map_filter_simps usable_fits)
  qed
qed (simp add: placements_ok_def map_filter_simps)

lemma fallback_placements_ok: "placements_ok P decoders radios (fallback_placements P decoders radios)"
proof -
  have "placements_ok P (map (\<lambda>d. d) decoders) radios (fallback_placements P decoders radios)"
    unfolding fallback_placements_def
  proof (rule placements_ok_map_filter)
    fix d
    let ?p = "map_option (\<lambda>lane. \<lparr>placed_node = dec_node d, placed_lane = lane\<rparr>) (fallback P d (usable P d radios) radios)"
    show "(usable P d radios = [] \<longrightarrow> ?p = None) \<and>
        (usable P d radios \<noteq> [] \<longrightarrow> (\<exists>lane \<in> set (usable P d radios). ?p = Some \<lparr>placed_node = dec_node d, placed_lane = lane\<rparr>))"
      using fallback_in [of "usable P d radios" P d radios] by auto
  qed
  then show ?thesis by simp
qed

lemma project_ok: "placements_ok P decoders radios (project P decoders radios (model_new P decoders radios) p)"
proof -
  have "placements_ok P (map snd (enumerate 0 decoders)) radios (project P decoders radios (model_new P decoders radios) p)"
    unfolding project_def
  proof (rule placements_ok_map_filter)
    fix x
    assume "x \<in> set (enumerate 0 decoders)"
    moreover obtain b d where "x = (b, d)" by (cases x)
    ultimately have x: "x = (b, d)" "b < length decoders" "d = decoders ! b" by (auto simp: in_set_enumerate_eq)
    define all where "all = model_lanes (model_new P decoders radios) ! b"
    have all: "all = usable P d radios" using x by (simp add: all_def model_new_def Let_def)
    define cov where "cov = filter (covers P (model_new P decoders radios) radios p b) all"
    have "set (if cov = [] then all else cov) \<subseteq> set all" by (auto simp: cov_def)
    moreover have "all \<noteq> [] \<Longrightarrow> (if cov = [] then all else cov) \<noteq> []" by auto
    ultimately show "(usable P (snd x) radios = [] \<longrightarrow> (case x of (b, decoder) \<Rightarrow>
         let all = model_lanes (model_new P decoders radios) ! b; covered = filter (covers P (model_new P decoders radios) radios p b) all
         in map_option (\<lambda>lane. \<lparr>placed_node = dec_node decoder, placed_lane = lane\<rparr>) (fallback P decoder (if covered = [] then all else covered) radios)) = None) \<and>
       (usable P (snd x) radios \<noteq> [] \<longrightarrow> (\<exists>lane \<in> set (usable P (snd x) radios). (case x of (b, decoder) \<Rightarrow>
         let all = model_lanes (model_new P decoders radios) ! b; covered = filter (covers P (model_new P decoders radios) radios p b) all
         in map_option (\<lambda>lane. \<lparr>placed_node = dec_node decoder, placed_lane = lane\<rparr>) (fallback P decoder (if covered = [] then all else covered) radios)) =
           Some \<lparr>placed_node = dec_node (snd x), placed_lane = lane\<rparr>))"
      using fallback_in [of "if cov = [] then all else cov" P d radios]
      by (simp only: x(1) prod.case Let_def all_def [symmetric] cov_def [symmetric] snd_conv all [symmetric]) (auto simp: cov_def)
  qed
  then show ?thesis by simp
qed

section \<open>Properties\<close>

text \<open>
  C39: The search finds the best tunings.  It visits no more nodes than the limit; what it returns is a
  choice of one option per stream that covers as many channels as it says, never fewer than were
  heard before; and no choice of candidate centres, one for every stream, lets the radios hear more
  channels together than that when the search was not interrupted, and more than its upper bound when
  it was.
\<close>

theorem placement_search_optimal:
  assumes "domains = model_domains (model_new P decoders radios)" "whole = all_channels decoders radios"
    and "st = search_run domains limits late whole (search_new whole heard)"
  shows "heard \<le> best st \<and> nodes st \<le> limit_nodes limits \<and>
    (best st = heard \<and> chosen st = None \<or>
      (\<exists>p. chosen st = Some p \<and> picks domains p \<and> best st = card (\<Union>c \<in> set (picked domains p). cov_set c))) \<and>
    (\<forall>choice. (\<forall>d \<in> set domains. choice d \<in> set (domain_centers P decoders radios d)) \<longrightarrow>
       card (\<Union>d \<in> set domains. heard_at P decoders radios d (choice d)) \<le> (if interrupted st then max (best st) (upper_bound st) else best st))"
proof -
  have w: "wide ((whole + 63) div 64) domains" unfolding assms(1,2) by (rule model_wide)
  note run = search_run_spec [OF w assms(3)]
  have "card (\<Union>d \<in> set domains. heard_at P decoders radios d (choice d)) \<le> (if interrupted st then max (best st) (upper_bound st) else best st)"
    if choice: "\<forall>d \<in> set domains. choice d \<in> set (domain_centers P decoders radios d)" for choice
  proof -
    obtain p where p: "picks domains p" "(\<Union>d \<in> set domains. heard_at P decoders radios d (choice d)) \<subseteq> (\<Union>c \<in> set (picked domains p). cov_set c)"
      using centres_within_options [OF choice [unfolded assms(1)]] unfolding assms(1) by blast
    have "card (\<Union>d \<in> set domains. heard_at P decoders radios d (choice d)) \<le> cov_count (cover whole domains p)"
      unfolding cover_set [OF w p(1)] by (rule card_mono [OF _ p(2)]) simp
    with run(3,4) p(1) show ?thesis by (auto dest: order_trans)
  qed
  moreover have "best st = heard \<and> chosen st = None \<or>
      (\<exists>p. chosen st = Some p \<and> picks domains p \<and> best st = card (\<Union>c \<in> set (picked domains p). cov_set c))"
    using run(5) cover_set [OF w] by auto
  ultimately show ?thesis using run(1,2) by blast
qed

text \<open>Two decoders, one radio with one stream that can tune to either: settings and centres are numbers.\<close>

definition sample_planning :: "(nat, unit, unit, nat) planning" where
  "sample_planning = \<lparr>rx_streams = (\<lambda>k. 1), per_stream_tuning = (\<lambda>k. False), plan_center = (\<lambda>k d cs. None), merge_from = (\<lambda>d delta. d),
     hears = (\<lambda>k d stream c. False), tuner_reaches = (\<lambda>k c. True), tunes_itself = (\<lambda>k d stream. True),
     centers = (\<lambda>k d free stream cs. [0, 7]), hears_center = (\<lambda>d center c. center = c)\<rparr>"

definition sample_decoders :: "nat Placeable list" where
  "sample_decoders = [\<lparr>dec_node = ''a'', dec_settings = 7, dec_lanes = [\<lparr>lane_device_set = 1, lane_stream = 0\<rparr>], dec_held = None, dec_pinned = False\<rparr>]"

definition sample_radios :: "(nat, unit, unit) Radio list" where
  "sample_radios = [\<lparr>radio_device_set = 1, radio_capabilities = (), radio_settings = (), radio_tunes_freely = True, radio_fixed = []\<rparr>]"

theorem placement_search_optimal_witness:
  "let st = search_run (model_domains (model_new sample_planning sample_decoders sample_radios)) limits_default (\<lambda>n. False) 1 (search_new 1 0)
   in 1 \<le> (if interrupted st then max (best st) (upper_bound st) else best st)"
proof -
  let ?ds = "model_domains (model_new sample_planning sample_decoders sample_radios)"
  let ?lane = "\<lparr>lane_device_set = 1, lane_stream = 0\<rparr>"
  have lanes: "usable sample_planning (sample_decoders ! 0) sample_radios = [?lane]"
    by (simp add: usable_def sample_decoders_def sample_radios_def sample_planning_def has_stream_def)
  have ds: "\<exists>opts. ?ds = [\<lparr>dom_radio = 0, dom_stream = 0, dom_options = opts\<rparr>]"
    using lanes by (simp add: model_new_def Let_def sample_radios_def sample_decoders_def radio_streams_def stream_of_def sample_planning_def)
  then obtain d where d: "?ds = [d]" "dom_radio d = 0" "dom_stream d = 0" by auto
  have bands: "bands_of sample_planning sample_decoders sample_radios d = [(0, 7)]"
    using d lanes by (simp add: bands_of_def stream_bands_def sample_decoders_def sample_radios_def sample_planning_def stream_of_def)
  have "all_channels sample_decoders sample_radios = 1" by (simp add: all_channels_def sample_decoders_def sample_radios_def)
  note opt = placement_search_optimal [OF refl this [symmetric] refl, where P = sample_planning and limits = limits_default and late = "\<lambda>n. False" and heard = 0]
  have fields: "hears_center sample_planning u center c \<longleftrightarrow> center = c" "centers sample_planning u v free stream cs = [0, 7]" for u v center c free stream cs
    by (simp_all add: sample_planning_def)
  have "card (\<Union>d \<in> set ?ds. heard_at sample_planning sample_decoders sample_radios d 7) = 1"
    using bands by (simp add: d heard_at_def fields)
  moreover have "\<forall>d \<in> set ?ds. 7 \<in> set (domain_centers sample_planning sample_decoders sample_radios d)"
    by (simp add: d domain_centers_def stream_centers_def fields)
  ultimately show ?thesis
    using opt [THEN conjunct2, THEN conjunct2, THEN conjunct2, rule_format, of "\<lambda>d. 7"] unfolding Let_def by metis
qed

text \<open>
  The options kept for a stream lose nothing: each is what one of its candidate centres hears,
  whatever a candidate centre hears is part of an option, and no option is part of another.
\<close>

theorem options_lose_nothing:
  assumes "\<forall>(b, c) \<in> set bands. b < whole" "stream_centers P radio stream bands \<noteq> []"
  shows "(\<forall>opt \<in> set (options P radio stream bands whole). \<exists>center \<in> set (stream_centers P radio stream bands).
      cov_set opt = {b. \<exists>c. (b, c) \<in> set bands \<and> hears_center P (radio_settings radio) center c}) \<and>
    (\<forall>center \<in> set (stream_centers P radio stream bands). \<exists>opt \<in> set (options P radio stream bands whole).
      {b. \<exists>c. (b, c) \<in> set bands \<and> hears_center P (radio_settings radio) center c} \<subseteq> cov_set opt) \<and>
    sorted_wrt (\<lambda>x y. \<not> cov_set x \<subseteq> cov_set y \<and> \<not> cov_set y \<subseteq> cov_set x) (options P radio stream bands whole)"
proof (intro conjI ballI)
  note hears = covered_at_set(2) [OF assms(1), of P radio, symmetric]
  show "\<exists>center \<in> set (stream_centers P radio stream bands). cov_set opt = {b. \<exists>c. (b, c) \<in> set bands \<and> hears_center P (radio_settings radio) center c}"
    if "opt \<in> set (options P radio stream bands whole)" for opt
    using options_spec(1) [OF assms that] unfolding hears by blast
  show "\<exists>opt \<in> set (options P radio stream bands whole). {b. \<exists>c. (b, c) \<in> set bands \<and> hears_center P (radio_settings radio) center c} \<subseteq> cov_set opt"
    if "center \<in> set (stream_centers P radio stream bands)" for center
    using options_spec(2) [OF assms that] unfolding hears .
qed (rule options_spec(3) [OF assms])

theorem options_lose_nothing_witness:
  "\<exists>opt \<in> set (options sample_planning (sample_radios ! 0) 0 [(0, 7)] 1). {0} \<subseteq> cov_set opt"
proof -
  have bands: "\<forall>(b, c) \<in> set [(0 :: nat, 7 :: nat)]. b < 1" by simp
  have centres: "stream_centers sample_planning (sample_radios ! 0) 0 [(0, 7)] = [0, 7]" by (simp add: stream_centers_def sample_planning_def)
  have "{b. \<exists>c. (b, c) \<in> set [(0 :: nat, 7 :: nat)] \<and> hears_center sample_planning (radio_settings (sample_radios ! 0)) 7 c} = {0}"
    by (simp add: sample_planning_def)
  then show ?thesis
    using options_lose_nothing [OF bands, of sample_planning "sample_radios ! 0" 0, THEN conjunct2, THEN conjunct1] centres by fastforce
qed

text \<open>The channels a tuning could hear are channels of the patch, so no choice of centres hears more than there are.\<close>

lemma choice_le_channels:
  assumes "\<forall>d \<in> set (model_domains (model_new P decoders radios)). choice d \<in> set (domain_centers P decoders radios d)"
  shows "card (\<Union>d \<in> set (model_domains (model_new P decoders radios)). heard_at P decoders radios d (choice d)) \<le> all_channels decoders radios"
proof -
  have "(\<Union>d \<in> set (model_domains (model_new P decoders radios)). heard_at P decoders radios d (choice d)) \<subseteq> {..<all_channels decoders radios}"
    using model_domain(3) by (fastforce simp: heard_at_def)
  from card_mono [OF _ this] show ?thesis by simp
qed

lemma choice_le_search:
  fixes P decoders radios limits late heard
  defines "st \<equiv> search_run (model_domains (model_new P decoders radios)) limits late (all_channels decoders radios)
      (search_new (all_channels decoders radios) heard)"
  shows "upper_bound st \<le> max (all_channels decoders radios) heard"
    and "\<forall>d \<in> set (model_domains (model_new P decoders radios)). choice d \<in> set (domain_centers P decoders radios d) \<Longrightarrow>
      card (\<Union>d \<in> set (model_domains (model_new P decoders radios)). heard_at P decoders radios d (choice d)) \<le> max heard (upper_bound st)"
proof -
  let ?ds = "model_domains (model_new P decoders radios)" and ?whole = "all_channels decoders radios"
  have w: "wide ((?whole + 63) div 64) ?ds" by (rule model_wide)
  note run = search_run_spec [OF w, of st limits late heard, OF st_def [THEN meta_eq_to_obj_eq]]
  have "\<forall>d \<in> set ?ds. \<forall>c \<in> set (dom_options d). cov_set c \<subseteq> {..<?whole}"
    using options_width model_domain(2,3) by metis
  from search_bound_le_whole [OF w this] run(7) show "upper_bound st \<le> max ?whole heard" by linarith
  assume choice: "\<forall>d \<in> set ?ds. choice d \<in> set (domain_centers P decoders radios d)"
  obtain p where p: "picks ?ds p" "(\<Union>d \<in> set ?ds. heard_at P decoders radios d (choice d)) \<subseteq> (\<Union>c \<in> set (picked ?ds p). cov_set c)"
    using centres_within_options [OF choice] by blast
  have "card (\<Union>d \<in> set ?ds. heard_at P decoders radios d (choice d)) \<le> cov_count (cover ?whole ?ds p)"
    unfolding cover_set [OF w p(1)] by (rule card_mono [OF _ p(2)]) simp
  also have "\<dots> \<le> max (best st) (upper_bound st)" using run(3) p(1) by blast
  finally show "card (\<Union>d \<in> set ?ds. heard_at P decoders radios d (choice d)) \<le> max heard (upper_bound st)" using run(6) by linarith
qed

text \<open>What the radios could receive at most if every decoder were placed on each of them.\<close>

definition channel_slots :: "'c Placeable list \<Rightarrow> ('c, 'd, 'k) Radio list \<Rightarrow> nat" where
  "channel_slots decoders radios = length decoders + sum_list (map (\<lambda>radio. length (radio_fixed radio) + length decoders) radios)"

lemma carried_le: "length (carried_by decoders ps radio) \<le> length (radio_fixed radio) + length decoders"
  by (simp add: carried_by_def List.map_filter_def)

lemma received_le_slots: "received P decoders radios ps \<le> channel_slots decoders radios"
proof -
  have "received P decoders radios ps \<le> sum_list (map (\<lambda>radio. length (radio_fixed radio) + length decoders) radios)"
    unfolding received_def Let_def by (intro sum_list_mono order_trans [OF length_filter_le carried_le])
  then show ?thesis by (simp add: channel_slots_def)
qed

lemma channels_le_slots: "all_channels decoders radios \<le> channel_slots decoders radios"
proof -
  have "sum_list (map (\<lambda>radio. length (radio_fixed radio)) radios) \<le> sum_list (map (\<lambda>radio. length (radio_fixed radio) + length decoders) radios)"
    by (intro sum_list_mono) simp
  then show ?thesis by (simp add: all_channels_def channel_slots_def)
qed

definition no_choice_above :: "('c, 'd, 'k, 'f) planning \<Rightarrow> 'c Placeable list \<Rightarrow> ('c, 'd, 'k) Radio list \<Rightarrow> nat \<Rightarrow> bool" where
  "no_choice_above P decoders radios n \<longleftrightarrow>
     (\<forall>choice. (\<forall>d \<in> set (model_domains (model_new P decoders radios)). choice d \<in> set (domain_centers P decoders radios d)) \<longrightarrow>
        card (\<Union>d \<in> set (model_domains (model_new P decoders radios)). heard_at P decoders radios d (choice d)) \<le> n)"

lemma no_choice_above_mono: "no_choice_above P decoders radios n \<Longrightarrow> n \<le> k \<Longrightarrow> no_choice_above P decoders radios k"
  unfolding no_choice_above_def using order_trans by blast

lemma allocate_lanes_spec:
  "\<exists>ps upper. allocate_lanes P in_time late decoders radios limits =
      \<lparr>al_placements = ps, al_coverage = coverage_of (received P decoders radios ps) upper\<rparr> \<and>
    placements_ok P decoders radios ps \<and>
    received P decoders radios (fallback_placements P decoders radios) \<le> received P decoders radios ps \<and>
    upper \<le> max (all_channels decoders radios) (received P decoders radios ps) \<and>
    no_choice_above P decoders radios (max upper (received P decoders radios ps))"
proof -
  let ?ps = "fallback_placements P decoders radios" and ?whole = "all_channels decoders radios" and ?rx = "received P decoders radios"
  let ?model = "model_new P decoders radios"
  let ?goal = "\<lambda>a. \<exists>ps upper. a = \<lparr>al_placements = ps, al_coverage = coverage_of (?rx ps) upper\<rparr> \<and> placements_ok P decoders radios ps \<and>
    ?rx ?ps \<le> ?rx ps \<and> upper \<le> max ?whole (?rx ps) \<and> no_choice_above P decoders radios (max upper (?rx ps))"
  have all: "no_choice_above P decoders radios ?whole" unfolding no_choice_above_def using choice_le_channels by blast
  note ok = fallback_placements_ok [of P decoders radios] project_ok [of P decoders radios]
  define start where "start = (if ?rx ?ps < ?rx (project P decoders radios ?model (greedy ?model decoders))
    then project P decoders radios ?model (greedy ?model decoders) else ?ps)"
  define st where "st = search_run (model_domains ?model) limits late ?whole (search_new ?whole (?rx start))"
  define final where "final = (case chosen st of
      Some p \<Rightarrow> if ?rx start < ?rx (project P decoders radios ?model p) then project P decoders radios ?model p else start
    | None \<Rightarrow> start)"
  have start: "placements_ok P decoders radios start" "?rx ?ps \<le> ?rx start" using ok by (auto simp: start_def)
  have final: "placements_ok P decoders radios final" "?rx start \<le> ?rx final" using ok start(1) by (auto simp: final_def split: option.splits)
  define upper where "upper = (if upper_bound st < ?rx final then ?whole else upper_bound st)"
  have search: "upper_bound st \<le> max ?whole (?rx start)" "no_choice_above P decoders radios (max (?rx start) (upper_bound st))"
    using choice_le_search [where P = P and decoders = decoders and radios = radios and limits = limits and late = late and heard = "?rx start"]
    unfolding st_def [symmetric] no_choice_above_def by blast+
  have last: "?goal \<lparr>al_placements = final, al_coverage = coverage_of (?rx final) upper\<rparr>"
  proof (intro exI conjI)
    show "upper \<le> max ?whole (?rx final)" using search(1) final(2) by (auto simp: upper_def)
    show "no_choice_above P decoders radios (max upper (?rx final))"
      by (rule no_choice_above_mono [OF search(2)]) (use final(2) in \<open>auto simp: upper_def\<close>)
  qed (use final start in auto)
  have run: "allocate_lanes P in_time late decoders radios limits =
      (if ?rx ?ps = ?whole then \<lparr>al_placements = ?ps, al_coverage = coverage_of (?rx ?ps) (?rx ?ps)\<rparr>
       else if \<not> in_time then \<lparr>al_placements = ?ps, al_coverage = coverage_of (?rx ?ps) ?whole\<rparr>
       else \<lparr>al_placements = final, al_coverage = coverage_of (?rx final) upper\<rparr>)"
    unfolding allocate_lanes_def Let_def upper_def final_def st_def start_def by (auto split: option.splits)
  have "?goal \<lparr>al_placements = ?ps, al_coverage = coverage_of (?rx ?ps) ?whole\<rparr>"
    using ok(1) no_choice_above_mono [OF all] by (intro exI [of _ ?ps] exI [of _ ?whole]) auto
  moreover have "?goal \<lparr>al_placements = ?ps, al_coverage = coverage_of (?rx ?ps) (?rx ?ps)\<rparr>" if "?rx ?ps = ?whole"
    using ok(1) all that by (intro exI [of _ ?ps] exI [of _ "?rx ?ps"]) auto
  ultimately show ?thesis using last unfolding run by simp
qed

text \<open>
  C40: An allocation is sound.  Every decoder that is wired to a stream that exists is placed once, on
  such a lane and on the lane it is pinned to if it holds it.  While every radio together with all the
  decoders has fewer than \<open>2 ^ 32\<close> channels, the number reported as heard is what the radios receive
  with these placements, no less than with the fallback; the reported upper bound is at least
  that, at most the larger of that and the number of channels there are, and no choice of candidate
  centres, one for every stream, lets the radios hear more channels than it.
\<close>

theorem allocate_sound:
  assumes "a = allocate_lanes P in_time late decoders radios limits" "channel_slots decoders radios < 2 ^ 32"
  shows "placements_ok P decoders radios (al_placements a) \<and>
    unat (pc_heard (al_coverage a)) = received P decoders radios (al_placements a) \<and>
    received P decoders radios (fallback_placements P decoders radios) \<le> unat (pc_heard (al_coverage a)) \<and>
    unat (pc_heard (al_coverage a)) \<le> unat (pc_upper_bound (al_coverage a)) \<and>
    unat (pc_upper_bound (al_coverage a)) \<le> max (all_channels decoders radios) (unat (pc_heard (al_coverage a))) \<and>
    no_choice_above P decoders radios (unat (pc_upper_bound (al_coverage a)))"
proof -
  obtain ps upper where a: "a = \<lparr>al_placements = ps, al_coverage = coverage_of (received P decoders radios ps) upper\<rparr>"
    and ps: "placements_ok P decoders radios ps" "received P decoders radios (fallback_placements P decoders radios) \<le> received P decoders radios ps"
    and upper: "upper \<le> max (all_channels decoders radios) (received P decoders radios ps)"
      "no_choice_above P decoders radios (max upper (received P decoders radios ps))"
    using allocate_lanes_spec unfolding assms(1) by metis
  have u32: "unat (of_nat n :: u32) = n" if "n < 2 ^ 32" for n using that by (simp add: unat_of_nat take_bit_nat_eq_self)
  have small: "received P decoders radios ps < 2 ^ 32" "max upper (received P decoders radios ps) < 2 ^ 32"
    using received_le_slots [of P decoders radios ps] channels_le_slots [of decoders radios] upper(1) assms(2) by linarith+
  have "unat (pc_heard (al_coverage a)) = received P decoders radios ps"
    "unat (pc_upper_bound (al_coverage a)) = max upper (received P decoders radios ps)" "al_placements a = ps"
    unfolding a coverage_of_def using u32 [OF small(1)] u32 [OF small(2)] by simp_all
  with ps upper show ?thesis by simp
qed

text \<open>The sample decoder is placed on the radio's stream; one channel can be heard, which the bound admits.\<close>

theorem allocate_sound_witness:
  "let c = al_coverage (allocate_lanes sample_planning True (\<lambda>n. False) sample_decoders sample_radios limits_default)
   in unat (pc_heard c) \<le> unat (pc_upper_bound c) \<and> unat (pc_upper_bound c) \<le> max 1 (unat (pc_heard c)) \<and>
      no_choice_above sample_planning sample_decoders sample_radios (unat (pc_upper_bound c))"
proof -
  have few: "channel_slots sample_decoders sample_radios < 2 ^ 32" and one: "all_channels sample_decoders sample_radios = 1"
    by (simp_all add: channel_slots_def all_channels_def sample_decoders_def sample_radios_def)
  note sound = allocate_sound [OF refl few, where P = sample_planning and in_time = True and late = "\<lambda>n. False" and limits = limits_default, unfolded one]
  show ?thesis unfolding Let_def using sound by blast
qed

end
