(* ===== verification/Spec2Isabelle.thy ===== *)
theory Spec2Isabelle
  imports Golay Bch_Pagers Rds_Code Crc Mode_S Bit_Stream Hdlc Cyclic_Code Viterbi Conv7 Puncture Bptc Prbs Tunnel_Client Pairing Capture_Ring Ws_Outbox Ws_Client Cps_Program Placement
begin

text \<open>
  A verification of parts of SDR--, a software-defined radio application written in Rust.

  \<^bold>\<open>The program.\<close>  Devices (\<open>crates/device*\<close>) deliver samples to an engine (\<open>crates/engine\<close>), which
  buffers them, tunes the radios, and runs channels: modems (\<open>crates/modem\<close>) and decoders
  (\<open>crates/channels\<close>) on top of signal processing and error-correcting codes (\<open>crates/dsp\<close>).  A server
  (\<open>crates/server\<close>) sends what they produce to browsers and phones over WebSockets; a tunnel
  (\<open>crates/tunnel\<close>) makes the server reachable through a relay; a codeplug programmer (\<open>crates/cps\<close>)
  reads and writes handheld radios over a serial line.  What is modelled is the discrete logic of
  these parts: integers, bits, bytes, queues, protocols and searches.  Definitions are translated
  function by function and keep the names of the sources; the mapping is in each theory's header.

  \<^bold>\<open>Codes and bit streams\<close> (\<open>crates/dsp\<close>).  \<open>Gf2_Codes\<close> has the polynomial division shared by the cyclic
  codes and a locale of codes given by a syndrome, with a way to decide minimum distances; \<open>Golay\<close>
  (Golay (23,12) corrects any three errors), \<open>Bch_Pagers\<close> (POCSAG and ERMES correct two), \<open>Rds_Code\<close> (RDS
  blocks: every burst of up to five bits and nothing else) interpret it.  \<open>Parity_Code\<close> has six Hamming
  codes, \<open>Cyclic_Code\<close> five extended cyclic codes, up to BCH (63,16), which correct as many errors as they
  claim, \<open>Bptc\<close> the two product codes of Hamming rows and columns, hard and soft.  \<open>Trellis_Search\<close> has a locale
  of decoders that keep for every state the better way into it; \<open>Viterbi\<close> (constraint length five) and
  \<open>Conv7\<close> (seven, with the scalar steps and the butterfly) interpret it: both find a message whose code agrees
  best with the soft bits received.  \<open>Puncture\<close> leaves bits out and puts erasures back.
  \<open>Crc_Register\<close> and \<open>Crc\<close> show the byte-wise loops equal to one shift register; \<open>Mode_S\<close> repairs a
  single bit of an aircraft transponder frame and never guesses wrong; \<open>Bit_Stream\<close> has the line codes,
  the scrambler, the correlator of sync words and bit packing; \<open>Gf2_Matrix\<close> and \<open>Hdlc\<close> the HDLC deframer
  (it returns exactly the frames that were sent, within its bounds) and the frame check with its
  repair of one or two adjacent bits; \<open>Prbs\<close> the energy dispersal generators.

  \<^bold>\<open>Text\<close>.  \<open>Rust_Text\<close> has what is used of Rust's standard library: byte order, UTF-8, trimming and number
  formats.  A character is its scalar value.

  \<^bold>\<open>The tunnel\<close> (\<open>crates/tunnel\<close>).  \<open>Tunnel_Frame\<close>: frames are decoded to what was encoded, and every
  rejection is for one of the documented reasons.  \<open>Tunnel_Stream\<close>: flow control by credits, bodies cut into
  chunks, WebSocket messages relayed in order.  \<open>Tunnel_Request\<close>: the request made of the local server
  carries no credentials of the relay.  \<open>Tunnel_Client\<close>: the stream table as a step relation with its
  invariant, the isolation of streams, the handshake, health reports, reconnection.  \<open>Pairing\<close>: the name
  shown to the owner, and the polling loop, which ends.

  \<^bold>\<open>Engine and server.\<close>  \<open>Capture_Ring\<close> (\<open>crates/engine/src/capture_ring.rs\<close>) refines a bounded queue and
  accounts for every sample.  \<open>Placement_Search\<close> and \<open>Placement\<close> (\<open>crates/engine/src/placement\<close>) choose the
  tunings of the radios: the branch-and-bound search is optimal over all choices of candidate centres, and
  an allocation places every decoder once where it is wired and reports a bound that no choice of
  centres passes.  \<open>Ws_Outbox\<close> (\<open>crates/server/src/ws/outbox.rs\<close>) keeps its byte count exact under its
  limits and accounts for every packet it accepted and every drop its callers report.  \<open>Ws_Client\<close>
  (\<open>crates/device/src/net/websocket\<close>) reads the same messages however the network cuts the stream, and
  texts and bytes come out as they were sent.

  \<^bold>\<open>The codeplug programmer\<close> (\<open>crates/cps\<close>).  \<open>Cps_Bits\<close> has the fields of a record, \<open>Cps_Image\<close> the memory image,
  which refines a partial memory, \<open>Cps_Transfer\<close> reading and writing a radio, \<open>Cps_Serial\<close> the serial line and
  the locales \<open>radio_reader\<close> and \<open>radio_writer\<close>, what a session promises a transfer; \<open>Cps_Radtel\<close> and
  \<open>Cps_Anytone\<close> are the two radios' sessions, which interpret both: a transfer through them captures the
  radio's memory, and \<open>Cps_Program\<close> shows that one that writes programs it, up to the zeros both sessions
  fill the last block of a segment with.

  \<^bold>\<open>How it is modelled.\<close>  Fixed-width integers are words, or numbers with the saturation or the wrap written
  out; \<open>usize\<close> is a natural number, and lengths on the wire are compared as on a 64-bit machine.  A
  function that may panic returns a sum with the panic on the left.  Loops are recursive functions with
  termination proofs, so they need no fuel; four loops whose end depends on what they are given (the
  blocks of \<open>Cps_Image\<close>, the regions of \<open>Cps_Transfer\<close>, the polling of \<open>Pairing\<close>, the skipping of \<open>Puncture\<close>) return an option and are shown
  to return.  What is outside the sources is a parameter with named laws: JSON and HTTP libraries
  (\<open>serde\<close>, \<open>http_lib\<close>), signatures, the relay's side of a socket (the frames and grants that arrive), the
  serial port and the radio behind it, the network's segmentation, clocks.  Each law has an instance in
  the witness of the property that uses it.

  Three simplifications are known.  The counters of \<open>Capture_Ring\<close> and \<open>Ws_Outbox\<close> (\<open>u64\<close>) and the running
  address of the AnyTone loops (\<open>u32\<close>) are unbounded numbers; the latter differs only for a range that
  ends at \<open>2 ^ 32\<close>, where a debug build would panic after the last block.  The client of \<open>Ws_Client\<close> ignores
  whether a reply could be sent, so \<open>ws_sent\<close> is what was handed to the connection.

  \<^bold>\<open>Not modelled.\<close>  Signal processing on floating-point samples (filters, modems, arrays, radar, orbits)
  has no counterpart in the library used here; in \<open>Placement\<close>, what is computed with frequencies is a
  parameter.  The message layers of the decoders in \<open>crates/channels\<close>, the rest of the codes of
  \<open>crates/dsp/src/fec\<close> (Reed-Solomon codes and soft outputs) and the records of the codeplugs
  (\<open>channel.rs\<close>, \<open>records.rs\<close>, \<open>convert.rs\<close>) are the next candidates.  Threads, sockets, files, databases, USB,
  user interfaces and the build tool are input and output.
\<close>

end
